(* ===== verification/Prelude.thy ===== *)
theory Prelude
  imports Main "HOL-Library.Word"
begin

text \<open>
  Shared vocabulary of the development: octets and octet strings, Python strings as code points,
  the exceptions the code raises, results that are an exception or a value, slices, big-endian
  integers and their conversions (\<^verbatim>\<open>int.from_bytes\<close>, \<^verbatim>\<open>int.to_bytes\<close>, \<^verbatim>\<open>int.bit_length\<close>), and the
  generic lemmas on them that every component uses.

  Exceptions carry no message: two exceptions of the same class are the same value. The class
  hierarchy that the code's \<^verbatim>\<open>except\<close> clauses rely on is written out by the predicates
  \<open>is_ber_error\<close>, \<open>is_value_error\<close> and \<open>is_mms_protocol_error\<close>.
\<close>

unbundle bit_operations_syntax

section \<open>Types\<close>

type_synonym byte = "8 word"
type_synonym bytes = "byte list"
type_synonym ustr = "nat list" \<comment> \<open>a Python \<^verbatim>\<open>str\<close>: its code points\<close>

datatype exn =
    BerError | GooseDecodeError | SvDecodeError
  | ValueError | UnicodeError | OverflowError | TypeError | KeyError | IndexError | StopIteration
  | AssertionError | AttributeError | ZeroDivisionError
  | MmsProtocolError | ReportDecodeError | AssociationError | TransportError | PcapError | StructError
  | OSError | RuntimeError | RecursionError | TimeoutError
  | ServiceError | MmsReject | DataAccessError | MmsConnectionError | MmsTimeout

type_synonym 'a result = "exn + 'a"

definition is_ber_error :: "exn \<Rightarrow> bool" where
  "is_ber_error e \<longleftrightarrow> e \<in> {BerError, GooseDecodeError, SvDecodeError}"

definition is_value_error :: "exn \<Rightarrow> bool" where
  "is_value_error e \<longleftrightarrow>
     e \<in> {BerError, GooseDecodeError, SvDecodeError, ValueError, UnicodeError, PcapError}"

definition is_mms_protocol_error :: "exn \<Rightarrow> bool" where
  "is_mms_protocol_error e \<longleftrightarrow> e \<in> {MmsProtocolError, ReportDecodeError}"

lemma is_ber_error_simps [simp]:
  "is_ber_error BerError" "is_ber_error GooseDecodeError" "is_ber_error SvDecodeError"
  "\<not> is_ber_error ValueError" "\<not> is_ber_error UnicodeError" "\<not> is_ber_error OverflowError"
  "\<not> is_ber_error KeyError" "\<not> is_ber_error MmsProtocolError" "\<not> is_ber_error StopIteration"
  "\<not> is_ber_error AssociationError" "\<not> is_ber_error IndexError"
  by (simp_all add: is_ber_error_def)

lemma is_value_error_simps [simp]:
  "is_value_error BerError" "is_value_error GooseDecodeError" "is_value_error SvDecodeError"
  "is_value_error ValueError" "is_value_error UnicodeError" "\<not> is_value_error OverflowError"
  "\<not> is_value_error KeyError" "\<not> is_value_error MmsProtocolError" "\<not> is_value_error IndexError"
  by (simp_all add: is_value_error_def)

section \<open>Results\<close>

fun bindE :: "'a result \<Rightarrow> ('a \<Rightarrow> 'b result) \<Rightarrow> 'b result" where
  "bindE (Inl e) f = Inl e"
| "bindE (Inr x) f = f x"

lemma bindE_cong [fundef_cong]:
  "m = m' \<Longrightarrow> (\<And>x. m' = Inr x \<Longrightarrow> f x = f' x) \<Longrightarrow> bindE m f = bindE m' f'"
  by (cases m) auto

lemma bind_either:
  "(\<And>x. m = Inr x \<Longrightarrow> f x = g x \<or> f x = Inl e) \<Longrightarrow> bindE m f = bindE m g \<or> bindE m f = Inl e"
  by (cases m) simp_all

lemma bindE_Inr_iff: "bindE m f = Inr y \<longleftrightarrow> (\<exists>x. m = Inr x \<and> f x = Inr y)"
  by (cases m) auto

lemma bindE_Inl_iff: "bindE m f = Inl e \<longleftrightarrow> m = Inl e \<or> (\<exists>x. m = Inr x \<and> f x = Inl e)"
  by (cases m) auto

lemma bindE_InrE [elim]:
  assumes "bindE m f = Inr y" obtains x where "m = Inr x" "f x = Inr y"
  using assms by (cases m) auto

lemma bindE_assoc: "bindE (bindE m f) g = bindE m (\<lambda>x. bindE (f x) g)"
  by (cases m) auto

lemma bindE_Inr_right [simp]: "bindE m Inr = m"
  by (cases m) auto

lemma bindE_if: "bindE (if b then m else n) f = (if b then bindE m f else bindE n f)"
  by simp

lemma bindE_split: "P (bindE m f) \<longleftrightarrow> (\<forall>e. m = Inl e \<longrightarrow> P (Inl e)) \<and> (\<forall>x. m = Inr x \<longrightarrow> P (f x))"
  by (cases m) auto

definition mapE :: "('a \<Rightarrow> 'b) \<Rightarrow> 'a result \<Rightarrow> 'b result" where
  "mapE f m = bindE m (\<lambda>x. Inr (f x))"

lemma mapE_simps [simp]: "mapE f (Inl e) = Inl e" "mapE f (Inr x) = Inr (f x)"
  by (simp_all add: mapE_def)

lemma mapE_Inr_iff: "mapE f m = Inr y \<longleftrightarrow> (\<exists>x. m = Inr x \<and> y = f x)"
  by (cases m) auto

text \<open>\<^verbatim>\<open>try: m except C as exc: raise e\<close>, with \<open>c\<close> the classes the clause catches.\<close>

fun rethrow :: "(exn \<Rightarrow> bool) \<Rightarrow> exn \<Rightarrow> 'a result \<Rightarrow> 'a result" where
  "rethrow c e (Inl x) = Inl (if c x then e else x)"
| "rethrow c e (Inr v) = Inr v"

lemma rethrow_Inr_iff [simp]: "rethrow c e m = Inr v \<longleftrightarrow> m = Inr v"
  by (cases m) auto

text \<open>A \<^verbatim>\<open>for\<close> loop whose body may raise.\<close>

fun foldE :: "('a \<Rightarrow> 's \<Rightarrow> 's result) \<Rightarrow> 'a list \<Rightarrow> 's \<Rightarrow> 's result" where
  "foldE f [] s = Inr s"
| "foldE f (x # xs) s = bindE (f x s) (foldE f xs)"

lemma foldE_append: "foldE f (xs @ ys) s = bindE (foldE f xs s) (foldE f ys)"
  by (induction xs arbitrary: s) (simp_all add: bindE_assoc cong: bindE_cong)

lemma foldE_map: "foldE f (map g xs) s = foldE (\<lambda>x. f (g x)) xs s"
  by (induction xs arbitrary: s) (auto cong: bindE_cong)

lemma foldE_cong [fundef_cong]:
  "xs = ys \<Longrightarrow> (\<And>x s. x \<in> set ys \<Longrightarrow> f x s = g x s) \<Longrightarrow> s = s' \<Longrightarrow> foldE f xs s = foldE g ys s'"
  by (induction xs arbitrary: ys s s') (auto cong: bindE_cong)

lemma foldE_invariant:
  assumes "foldE f xs s = Inr s'" "P s" "\<And>x s s'. x \<in> set xs \<Longrightarrow> P s \<Longrightarrow> f x s = Inr s' \<Longrightarrow> P s'"
  shows "P s'"
  using assms by (induction xs arbitrary: s) (auto simp: bindE_Inr_iff)

lemma foldE_error:
  assumes "foldE f xs s = Inl e" "\<And>x s. x \<in> set xs \<Longrightarrow> f x s = Inl e \<Longrightarrow> P e"
  shows "P e"
  using assms by (induction xs arbitrary: s) (auto simp: bindE_Inl_iff)

text \<open>A list comprehension whose element expression may raise.\<close>

fun traverse :: "('a \<Rightarrow> 'b result) \<Rightarrow> 'a list \<Rightarrow> 'b list result" where
  "traverse f [] = Inr []"
| "traverse f (x # xs) = bindE (f x) (\<lambda>y. bindE (traverse f xs) (\<lambda>ys. Inr (y # ys)))"

lemma traverse_cong [fundef_cong]:
  "xs = ys \<Longrightarrow> (\<And>x. x \<in> set ys \<Longrightarrow> f x = g x) \<Longrightarrow> traverse f xs = traverse g ys"
  by (induction xs arbitrary: ys) auto

lemma traverse_map: "traverse f (map g xs) = traverse (\<lambda>x. f (g x)) xs"
  by (induction xs) auto

lemma traverse_Inr: "(\<And>x. x \<in> set xs \<Longrightarrow> f x = Inr (g x)) \<Longrightarrow> traverse f xs = Inr (map g xs)"
  by (induction xs) auto

lemma traverse_length: "traverse f xs = Inr ys \<Longrightarrow> length ys = length xs"
  by (induction xs arbitrary: ys) (auto simp: bindE_Inr_iff)

lemma traverse_Inr_list_all2: "traverse f xs = Inr ys \<longleftrightarrow> list_all2 (\<lambda>x y. f x = Inr y) xs ys"
  by (induction xs arbitrary: ys) (auto simp: bindE_Inr_iff list_all2_Cons1)

lemma traverse_append:
  "traverse f (xs @ ys) = bindE (traverse f xs) (\<lambda>as. bindE (traverse f ys) (\<lambda>bs. Inr (as @ bs)))"
  by (induction xs) (simp_all add: bindE_assoc cong: bindE_cong)

section \<open>The exceptions a computation may raise\<close>

text \<open>
  \<open>raises_only E m\<close>: \<open>m\<close> raises nothing outside \<open>E\<close>. The rules of the collection \<open>raises\<close> follow the
  structure of a computation, so that the exceptions of an operation are found by \<open>intro raises\<close>.
\<close>

named_theorems raises \<open>the exceptions of an operation, and the rules that compose them\<close>

definition raises_only :: "exn set \<Rightarrow> 'a result \<Rightarrow> bool" where
  "raises_only E m \<longleftrightarrow> (\<forall>e. m = Inl e \<longrightarrow> e \<in> E)"

lemma raises_onlyI: "(\<And>e. m = Inl e \<Longrightarrow> e \<in> E) \<Longrightarrow> raises_only E m"
  by (simp add: raises_only_def)

lemma raises_onlyD: "raises_only E m \<Longrightarrow> m = Inl e \<Longrightarrow> e \<in> E"
  by (simp add: raises_only_def)

lemma raises_only_Inr [raises]: "raises_only E (Inr x)"
  by (simp add: raises_only_def)

lemma raises_only_Inl [raises]: "e \<in> E \<Longrightarrow> raises_only E (Inl e)"
  by (simp add: raises_only_def)

lemma raises_only_mono: "raises_only E m \<Longrightarrow> E \<subseteq> F \<Longrightarrow> raises_only F m"
  by (auto simp: raises_only_def)

lemma raises_only_bind [raises]:
  "raises_only E m \<Longrightarrow> (\<And>x. m = Inr x \<Longrightarrow> raises_only E (f x)) \<Longrightarrow> raises_only E (bindE m f)"
  by (cases m) (simp_all add: raises_only_def)

lemma raises_only_if [raises]:
  "(b \<Longrightarrow> raises_only E m) \<Longrightarrow> (\<not> b \<Longrightarrow> raises_only E n) \<Longrightarrow> raises_only E (if b then m else n)"
  by simp

lemma raises_only_prod [raises]:
  "(\<And>a b. p = (a, b) \<Longrightarrow> raises_only E (f a b)) \<Longrightarrow> raises_only E (case p of (a, b) \<Rightarrow> f a b)"
  by (cases p) simp

lemma raises_only_option [raises]:
  "(x = None \<Longrightarrow> raises_only E m) \<Longrightarrow> (\<And>a. x = Some a \<Longrightarrow> raises_only E (f a)) \<Longrightarrow>
   raises_only E (case x of None \<Rightarrow> m | Some a \<Rightarrow> f a)"
  by (cases x) simp_all

lemma raises_only_list [raises]:
  "(xs = [] \<Longrightarrow> raises_only E m) \<Longrightarrow> (\<And>a as. xs = a # as \<Longrightarrow> raises_only E (f a as)) \<Longrightarrow>
   raises_only E (case xs of [] \<Rightarrow> m | a # as \<Rightarrow> f a as)"
  by (cases xs) simp_all

lemma raises_only_let [raises]: "raises_only E (f x) \<Longrightarrow> raises_only E (let y = x in f y)"
  by simp

lemma raises_only_mapE [raises]: "raises_only E m \<Longrightarrow> raises_only E (mapE f m)"
  by (cases m) (simp_all add: raises_only_def)

lemma raises_only_foldE [raises]:
  "(\<And>x s. x \<in> set xs \<Longrightarrow> raises_only E (f x s)) \<Longrightarrow> raises_only E (foldE f xs s)"
  by (induction xs arbitrary: s) (auto intro!: raises)

lemma raises_only_traverse [raises]:
  "(\<And>x. x \<in> set xs \<Longrightarrow> raises_only E (f x)) \<Longrightarrow> raises_only E (traverse f xs)"
  by (induction xs) (auto intro!: raises)

lemma raises_only_rethrow: "raises_only F m \<Longrightarrow> (\<And>x. x \<in> F \<Longrightarrow> (if c x then e else x) \<in> E) \<Longrightarrow> raises_only E (rethrow c e m)"
  by (cases m) (auto simp: raises_only_def)

section \<open>Slices\<close>

text \<open>\<^verbatim>\<open>data[a:b]\<close> for non-negative bounds: clipped to the sequence, empty when \<open>b \<le> a\<close>.\<close>

definition slice :: "'a list \<Rightarrow> nat \<Rightarrow> nat \<Rightarrow> 'a list" where
  "slice xs a b = take (b - a) (drop a xs)"

lemma length_slice [simp]: "length (slice xs a b) = min (length xs) b - a"
  by (auto simp: slice_def)

lemma slice_append_mid [simp]: "slice (xs @ ys @ zs) (length xs) (length xs + length ys) = ys"
  by (simp add: slice_def)

lemma slice_decomp: "a \<le> b \<Longrightarrow> take a xs @ slice xs a b @ drop b xs = xs"
proof -
  assume "a \<le> b"
  then have "drop b xs = drop (b - a) (drop a xs)" by simp
  then show ?thesis by (simp only: slice_def append_take_drop_id)
qed

lemma slice_Cons: "a < b \<Longrightarrow> a < length xs \<Longrightarrow> slice xs a b = xs ! a # slice xs (Suc a) b"
  by (cases b) (simp_all add: slice_def Cons_nth_drop_Suc [symmetric] Suc_diff_le)

lemma slice_empty [simp]: "b \<le> a \<Longrightarrow> slice xs a b = []"
  by (simp add: slice_def)

lemma slice_all: "length xs \<le> b \<Longrightarrow> slice xs 0 b = xs"
  by (simp add: slice_def)

lemma slice_shift: "b \<le> length ys \<Longrightarrow> slice (xs @ ys @ zs) (length xs + a) (length xs + b) = slice ys a b"
  by (simp add: slice_def)

lemma slice_nth: "i < b - a \<Longrightarrow> i < length xs - a \<Longrightarrow> slice xs a b ! i = xs ! (a + i)"
  by (simp add: slice_def)

section \<open>Big-endian integers\<close>

fun be_nat_acc :: "nat \<Rightarrow> bytes \<Rightarrow> nat" where
  "be_nat_acc n [] = n"
| "be_nat_acc n (b # bs) = be_nat_acc (256 * n + unat b) bs"

definition be_nat :: "bytes \<Rightarrow> nat" where
  "be_nat bs = be_nat_acc 0 bs"

lemma be_nat_acc_eq: "be_nat_acc n bs = n * 256 ^ length bs + be_nat bs"
proof (induction bs arbitrary: n)
  case Nil
  then show ?case by (simp add: be_nat_def)
next
  case (Cons b bs)
  have "be_nat (b # bs) = unat b * 256 ^ length bs + be_nat bs"
    using Cons.IH [of "unat b"] by (simp add: be_nat_def)
  then show ?case
    using Cons.IH [of "256 * n + unat b"] by (simp add: algebra_simps)
qed

lemma be_nat_Nil [simp]: "be_nat [] = 0"
  by (simp add: be_nat_def)

lemma be_nat_Cons: "be_nat (b # bs) = unat b * 256 ^ length bs + be_nat bs"
  using be_nat_acc_eq [of "unat b" bs] by (simp add: be_nat_def)

lemma be_nat_append: "be_nat (xs @ ys) = be_nat xs * 256 ^ length ys + be_nat ys"
  by (induction xs) (simp_all add: be_nat_Cons power_add algebra_simps)

lemma byte_less [simp]: "unat (b :: byte) < 256"
  using unsigned_less [where ?'a = nat and ?w = b] by simp

lemma be_nat_bound: "be_nat bs < 256 ^ length bs"
proof (induction bs)
  case (Cons b bs)
  have "be_nat (b # bs) < Suc (unat b) * 256 ^ length bs"
    using Cons by (simp add: be_nat_Cons)
  also have "\<dots> \<le> 256 * 256 ^ length bs"
    using byte_less [of b] by (intro mult_le_mono1 Suc_leI)
  finally show ?case by simp
qed simp

fun nat_be :: "nat \<Rightarrow> nat \<Rightarrow> bytes" where
  "nat_be 0 n = []"
| "nat_be (Suc k) n = nat_be k (n div 256) @ [of_nat (n mod 256)]"

lemma length_nat_be [simp]: "length (nat_be k n) = k"
  by (induction k arbitrary: n) auto

lemma unat_of_nat_byte: "unat (of_nat n :: byte) = n mod 256"
  by (simp add: unat_of_nat)

lemma be_nat_nat_be: "be_nat (nat_be k n) = n mod 256 ^ k"
proof (induction k arbitrary: n)
  case (Suc k)
  have "n mod 256 ^ Suc k = n div 256 mod 256 ^ k * 256 + n mod 256"
    using mod_mult2_eq [of n 256 "256 ^ k"] by (simp add: mult.commute)
  then show ?case by (simp add: Suc be_nat_append be_nat_Cons unat_of_nat_byte)
qed simp

lemma nat_be_be_nat: "nat_be (length bs) (be_nat bs) = bs"
proof (induction bs rule: rev_induct)
  case (snoc b bs)
  have "(be_nat bs * 256 + unat b) div 256 = be_nat bs"
    using byte_less [of b] by simp
  moreover have "(be_nat bs * 256 + unat b) mod 256 = unat b"
    using byte_less [of b] by simp
  ultimately show ?case using snoc by (simp add: be_nat_append be_nat_Cons)
qed simp

lemma nat_be_inj: "n < 256 ^ k \<Longrightarrow> m < 256 ^ k \<Longrightarrow> nat_be k n = nat_be k m \<Longrightarrow> n = m"
  by (metis be_nat_nat_be mod_less)

lemma nat_be_eq_iff: "length bs = k \<Longrightarrow> n < 256 ^ k \<Longrightarrow> nat_be k n = bs \<longleftrightarrow> be_nat bs = n"
  by (metis be_nat_nat_be mod_less nat_be_be_nat)

text \<open>\<^verbatim>\<open>int.from_bytes(data, "big")\<close>, unsigned and signed.\<close>

definition from_bytes :: "bytes \<Rightarrow> int" where
  "from_bytes bs = int (be_nat bs)"

definition from_bytes_signed :: "bytes \<Rightarrow> int" where
  "from_bytes_signed bs =
     (if 2 * be_nat bs < 256 ^ length bs then int (be_nat bs) else int (be_nat bs) - 256 ^ length bs)"

text \<open>\<^verbatim>\<open>value.to_bytes(length, "big")\<close>, unsigned and signed: OverflowError out of range.\<close>

definition to_bytes :: "nat \<Rightarrow> int \<Rightarrow> bytes result" where
  "to_bytes k v = (if 0 \<le> v \<and> v < 256 ^ k then Inr (nat_be k (nat v)) else Inl OverflowError)"

definition to_bytes_signed :: "nat \<Rightarrow> int \<Rightarrow> bytes result" where
  "to_bytes_signed k v =
     (if - (256 ^ k) \<le> 2 * v \<and> 2 * v < 256 ^ k then Inr (nat_be k (nat (v mod 256 ^ k)))
      else Inl OverflowError)"

lemma to_bytes_ok: "0 \<le> v \<Longrightarrow> v < 256 ^ k \<Longrightarrow> \<exists>bs. to_bytes k v = Inr bs"
  by (simp add: to_bytes_def)

lemma from_bytes_nonneg [simp]: "0 \<le> from_bytes bs"
  by (simp add: from_bytes_def)

lemma from_bytes_bound: "from_bytes bs < 256 ^ length bs"
proof -
  have "int (be_nat bs) < int (256 ^ length bs)" by (simp only: of_nat_less_iff be_nat_bound)
  then show ?thesis by (simp add: from_bytes_def)
qed

lemma from_bytes_to_bytes: "to_bytes k v = Inr bs \<Longrightarrow> from_bytes bs = v \<and> length bs = k"
  by (auto simp: to_bytes_def from_bytes_def be_nat_nat_be zmod_int split: if_splits)

lemma to_bytes_from_bytes: "to_bytes (length bs) (from_bytes bs) = Inr bs"
  using from_bytes_bound [of bs] by (simp add: to_bytes_def from_bytes_def nat_be_be_nat)

lemma to_bytes_signed_length: "to_bytes_signed k v = Inr bs \<Longrightarrow> length bs = k"
  by (auto simp: to_bytes_signed_def split: if_splits)

lemma from_bytes_signed_to_bytes_signed:
  assumes "to_bytes_signed k v = Inr bs"
  shows "from_bytes_signed bs = v"
proof -
  define P :: int where "P = 256 ^ k"
  have P: "0 < P" by (simp add: P_def)
  from assms have lo: "- P \<le> 2 * v" and hi: "2 * v < P" and bs: "bs = nat_be k (nat (v mod P))"
    by (auto simp: to_bytes_signed_def P_def split: if_splits)
  have "nat (v mod P) < 256 ^ k"
    using P by (simp add: P_def nat_less_iff)
  then have be: "int (be_nat bs) = v mod P"
    using P by (simp add: bs be_nat_nat_be)
  have cond: "2 * be_nat bs < 256 ^ length bs \<longleftrightarrow> 2 * (v mod P) < P"
  proof -
    have "2 * be_nat bs < 256 ^ k \<longleftrightarrow> int (2 * be_nat bs) < int (256 ^ k)" by (simp only: of_nat_less_iff)
    then show ?thesis by (simp add: bs P_def be [unfolded bs P_def])
  qed
  show ?thesis
  proof (cases "0 \<le> v")
    case True
    then have "v mod P = v" using hi by (intro mod_pos_pos_trivial) auto
    then show ?thesis using cond be hi by (simp add: from_bytes_signed_def)
  next
    case False
    have "v mod P = (v + P) mod P" by simp
    also have "\<dots> = v + P" using False lo P by (intro mod_pos_pos_trivial) auto
    finally have "v mod P = v + P" .
    then show ?thesis using cond be lo by (simp add: from_bytes_signed_def bs P_def)
  qed
qed

section \<open>Bit lengths\<close>

text \<open>\<^verbatim>\<open>int.bit_length()\<close>: the bits of the absolute value.\<close>

fun bit_length_nat :: "nat \<Rightarrow> nat" where
  "bit_length_nat n = (if n = 0 then 0 else Suc (bit_length_nat (n div 2)))"

declare bit_length_nat.simps [simp del]

definition bit_length :: "int \<Rightarrow> nat" where
  "bit_length v = bit_length_nat (nat \<bar>v\<bar>)"

lemma bit_length_nat_0 [simp]: "bit_length_nat 0 = 0"
  by (simp add: bit_length_nat.simps)

lemma bit_length_nat_upper: "n < 2 ^ bit_length_nat n"
proof (induction n rule: bit_length_nat.induct)
  case (1 n)
  show ?case
  proof (cases "n = 0")
    case False
    then have "n div 2 < 2 ^ bit_length_nat (n div 2)" by (rule 1)
    then have "n < 2 * 2 ^ bit_length_nat (n div 2)" by linarith
    then show ?thesis using False by (simp add: bit_length_nat.simps [of n])
  qed simp
qed

lemma bit_length_nat_lower: "n \<noteq> 0 \<Longrightarrow> 2 ^ bit_length_nat n \<le> 2 * n"
proof (induction n rule: bit_length_nat.induct)
  case (1 n)
  show ?case
  proof (cases "n div 2 = 0")
    case True
    then have "n = 1" using 1(2) by auto
    then show ?thesis by (simp add: bit_length_nat.simps)
  next
    case False
    then have "2 ^ bit_length_nat (n div 2) \<le> 2 * (n div 2)" using 1 by simp
    then show ?thesis using 1(2) by (simp add: bit_length_nat.simps [of n])
  qed
qed

lemma bit_length_nat_le_iff: "bit_length_nat n \<le> k \<longleftrightarrow> n < 2 ^ k"
proof
  assume "bit_length_nat n \<le> k"
  then show "n < 2 ^ k"
    using bit_length_nat_upper [of n] power_increasing [of "bit_length_nat n" k "2::nat"] by linarith
next
  assume less: "n < 2 ^ k"
  show "bit_length_nat n \<le> k"
  proof (rule ccontr)
    assume "\<not> bit_length_nat n \<le> k"
    then have *: "Suc k \<le> bit_length_nat n" by simp
    then have "n \<noteq> 0" by (cases "n = 0") auto
    then have "2 ^ Suc k \<le> 2 * n"
      using bit_length_nat_lower [of n] power_increasing [OF *, of "2::nat"] by linarith
    then show False using less by simp
  qed
qed

text \<open>The octets an unsigned value needs, \<^verbatim>\<open>(value.bit_length() + 7) // 8\<close>.\<close>

definition octets_needed :: "nat \<Rightarrow> nat" where
  "octets_needed n = (bit_length_nat n + 7) div 8"

lemma octets_needed_le_iff: "octets_needed n \<le> k \<longleftrightarrow> n < 256 ^ k"
proof -
  have "octets_needed n \<le> k \<longleftrightarrow> bit_length_nat n \<le> 8 * k" by (auto simp: octets_needed_def)
  also have "\<dots> \<longleftrightarrow> n < (2 ^ 8) ^ k" by (simp only: bit_length_nat_le_iff power_mult)
  finally show ?thesis by simp
qed

lemma octets_needed_bound: "n < 256 ^ octets_needed n"
  using octets_needed_le_iff [of n "octets_needed n"] by simp

lemma octets_needed_be_nat: "b \<noteq> 0 \<Longrightarrow> octets_needed (be_nat (b # bs)) = Suc (length bs)"
proof (rule antisym)
  show "octets_needed (be_nat (b # bs)) \<le> Suc (length bs)"
    using be_nat_bound [of "b # bs"] by (simp add: octets_needed_le_iff)
  assume "b \<noteq> 0"
  then have "1 \<le> unat b" by (simp add: unat_gt_0 Suc_le_eq)
  then have "256 ^ length bs \<le> be_nat (b # bs)" by (simp add: be_nat_Cons trans_le_add1)
  then have "\<not> octets_needed (be_nat (b # bs)) \<le> length bs" by (simp add: octets_needed_le_iff)
  then show "Suc (length bs) \<le> octets_needed (be_nat (b # bs))" by simp
qed

section \<open>Bits of an octet\<close>

lemma push_bit_or_int:
  assumes "0 \<le> c" "c < 2 ^ n"
  shows "push_bit n (a::int) OR c = a * 2 ^ n + c"
proof -
  have c: "take_bit n c = c" using assms by (simp add: take_bit_int_eq_self)
  have "push_bit n a + take_bit n c = push_bit n a OR take_bit n c"
    by (rule disjunctive_add_eq_or) (auto simp: bit_eq_iff bit_simps)
  then show ?thesis by (simp add: push_bit_eq_mult c)
qed

lemma uint_byte_less [simp]: "uint (b :: byte) < 256"
  using uint_lt2p [of b] by simp

lemma push_bit_or_byte: "push_bit 8 a OR uint (b :: byte) = a * 256 + uint b"
  using push_bit_or_int [of "uint b" 8 a] by simp

lemma and_7F_eq: "(b :: byte) AND 0x7F = take_bit 7 b"
  by (simp add: take_bit_eq_mask mask_eq_exp_minus_1)

lemma and_1F_eq: "(b :: byte) AND 0x1F = take_bit 5 b"
  by (simp add: take_bit_eq_mask mask_eq_exp_minus_1)

lemma unat_and_7F: "unat ((b :: byte) AND 0x7F) = unat b mod 128"
  unfolding and_7F_eq by (simp add: unsigned_take_bit_eq take_bit_eq_mod unat_mod)

lemma unat_and_1F: "unat ((b :: byte) AND 0x1F) = unat b mod 32"
  unfolding and_1F_eq by (simp add: unsigned_take_bit_eq take_bit_eq_mod unat_mod)

lemma uint_and_7F: "uint ((b :: byte) AND 0x7F) = uint b mod 128"
  by (simp only: uint_nat unat_and_7F zmod_int of_nat_numeral)

lemma push_bit_or_7F: "push_bit 7 a OR uint ((b :: byte) AND 0x7F) = a * 128 + uint b mod 128"
  using push_bit_or_int [of "uint b mod 128" 7 a] by (simp add: uint_and_7F del: push_bit_numeral)

lemma push_bit_or_7F_nat: "push_bit 7 a OR uint ((b :: byte) AND 0x7F) = a * 128 + int (unat b mod 128)"
  unfolding push_bit_or_7F by (simp only: uint_nat zmod_int of_nat_numeral)

lemma div_128_mod_2: "(n :: nat) < 256 \<Longrightarrow> n div 128 mod 2 = 0 \<longleftrightarrow> n < 128"
  by (cases "n < 128") (auto simp: div_nat_eqI)

lemma and_80_iff: "(b :: byte) AND 0x80 = 0 \<longleftrightarrow> unat b < 128"
proof -
  have "b AND 0x80 = 0 \<longleftrightarrow> \<not> bit b 7"
    using and_exp_eq_0_iff_not_bit [of b 7] by simp
  also have "\<dots> \<longleftrightarrow> \<not> bit (unat b) 7" by (simp add: bit_unsigned_iff)
  also have "\<dots> \<longleftrightarrow> unat b div 128 mod 2 = 0" by (simp add: bit_iff_odd even_iff_mod_2_eq_zero)
  also have "\<dots> \<longleftrightarrow> unat b < 128" by (rule div_128_mod_2) simp
  finally show ?thesis .
qed

lemma unat_or_80:
  assumes "g < 128"
  shows "unat (of_nat g OR (0x80 :: byte)) = 128 + g"
proof -
  have "(of_nat g :: byte) AND 0x80 = 0"
    unfolding and_80_iff using assms by (simp add: unat_of_nat_byte)
  then have "of_nat g OR (0x80 :: byte) = of_nat g + 0x80"
    by (rule disjunctive_add_eq_or [symmetric])
  also have "\<dots> = of_nat (128 + g)" by (simp add: add.commute)
  finally show ?thesis using assms by (simp only: unat_of_nat_byte) simp
qed

lemma unat_80_or: "g < 128 \<Longrightarrow> unat ((0x80 :: byte) OR of_nat g) = 128 + g"
  using unat_or_80 [of g] by (simp add: or.commute)

lemma unat_of_nat_small: "n < 256 \<Longrightarrow> unat (of_nat n :: byte) = n"
  by (simp add: unat_of_nat_byte)

section \<open>Text\<close>

text \<open>ASCII literals of the source, and the two directions of the \<^verbatim>\<open>ascii\<close> codec.\<close>

definition asc :: "string \<Rightarrow> ustr" where
  "asc s = map of_char s"

lemma asc_inj: "asc x = asc y \<Longrightarrow> x = y"
  unfolding asc_def by (rule map_injective) (auto simp: inj_on_def)

lemma asc_eq: "asc x = asc y \<longleftrightarrow> x = y"
  using asc_inj by blast

lemma asc_simps [simp]: "asc [] = []" "asc (c # cs) = of_char c # asc cs"
  by (simp_all add: asc_def)

definition is_ascii :: "ustr \<Rightarrow> bool" where
  "is_ascii s \<longleftrightarrow> list_all (\<lambda>c. c < 128) s"

definition encode_ascii :: "ustr \<Rightarrow> bytes result" where
  "encode_ascii s = (if is_ascii s then Inr (map of_nat s) else Inl UnicodeError)"

definition encode_ascii_replace :: "ustr \<Rightarrow> bytes" where
  "encode_ascii_replace s = map (\<lambda>c. if c < 128 then of_nat c else 63) s"

definition decode_ascii_replace :: "bytes \<Rightarrow> ustr" where
  "decode_ascii_replace bs = map (\<lambda>b. if b < 0x80 then unat b else 0xFFFD) bs"

definition decode_ascii :: "bytes \<Rightarrow> ustr result" where
  "decode_ascii bs = (if list_all (\<lambda>b. b < 0x80) bs then Inr (map unat bs) else Inl UnicodeError)"

lemma byte_less_iff: "b < 0x80 \<longleftrightarrow> unat (b :: byte) < 128"
  by (simp add: word_less_nat_alt)

lemma unat_of_nat_ascii: "c < 128 \<Longrightarrow> unat (of_nat c :: byte) = c"
  by (simp add: unat_of_nat_byte)

lemma decode_encode_ascii: "encode_ascii s = Inr bs \<Longrightarrow> decode_ascii_replace bs = s"
  by (auto simp: encode_ascii_def decode_ascii_replace_def is_ascii_def list_all_iff byte_less_iff
      unat_of_nat_ascii comp_def intro!: map_idI split: if_splits)

lemma decode_ascii_encode_ascii: "encode_ascii s = Inr bs \<Longrightarrow> decode_ascii bs = Inr s"
  by (auto simp: encode_ascii_def decode_ascii_def is_ascii_def list_all_iff byte_less_iff
      unat_of_nat_ascii comp_def intro!: map_idI split: if_splits)

lemma encode_ascii_length: "encode_ascii s = Inr bs \<Longrightarrow> length bs = length s"
  by (auto simp: encode_ascii_def split: if_splits)

lemma encode_ascii_ok: "is_ascii s \<Longrightarrow> encode_ascii s = Inr (map of_nat s)"
  by (simp add: encode_ascii_def)

lemma encode_ascii_replace_ascii: "is_ascii s \<Longrightarrow> encode_ascii_replace s = map of_nat s"
  by (auto simp: encode_ascii_replace_def is_ascii_def list_all_iff)

section \<open>Interfaces of a codec\<close>

text \<open>
  The contract of a pair of functions on the content octets of one value: what was encoded
  decodes to itself. Every content codec of the code (INTEGER, BOOLEAN, OBJECT IDENTIFIER,
  UtcTime, ...) is an interpretation.
\<close>

locale content_codec =
  fixes enc :: "'a \<Rightarrow> bytes result"
    and dec :: "bytes \<Rightarrow> 'a result"
    and ok :: "'a \<Rightarrow> bool"
  assumes enc_total: "ok x \<Longrightarrow> \<exists>bs. enc x = Inr bs"
    and dec_enc: "ok x \<Longrightarrow> enc x = Inr bs \<Longrightarrow> dec bs = Inr x"
begin

lemma enc_inj: "ok x \<Longrightarrow> ok y \<Longrightarrow> enc x = enc y \<Longrightarrow> x = y"
  using enc_total [of x] dec_enc [of x] dec_enc [of y] by auto

lemma round_trip: "ok x \<Longrightarrow> bindE (enc x) dec = Inr x"
  using enc_total [of x] dec_enc [of x] by auto

lemma traverse_round_trip:
  "list_all ok xs \<Longrightarrow> bindE (traverse enc xs) (traverse dec) = Inr xs"
proof (induction xs)
  case (Cons x xs)
  then obtain b bs where "enc x = Inr b" "traverse enc xs = Inr bs"
    using enc_total [of x] by (auto simp: bindE_Inr_iff)
  with Cons show ?case using dec_enc [of x b] by simp
qed simp

end

text \<open>
  The contract of a self-delimiting codec: a decoder that reads at an offset of a larger buffer
  finds the value and the offset right after it, whatever precedes and follows.
\<close>

locale prefix_codec =
  fixes enc :: "'a \<Rightarrow> bytes result"
    and dec :: "bytes \<Rightarrow> nat \<Rightarrow> ('a \<times> nat) result"
    and ok :: "'a \<Rightarrow> bool"
  assumes enc_total: "ok x \<Longrightarrow> \<exists>bs. enc x = Inr bs"
    and enc_nonempty: "ok x \<Longrightarrow> enc x \<noteq> Inr []"
    and dec_enc: "ok x \<Longrightarrow> enc x = Inr bs \<Longrightarrow>
      dec (pre @ bs @ post) (length pre) = Inr (x, length pre + length bs)"
begin

lemma enc_inj: "ok x \<Longrightarrow> ok y \<Longrightarrow> enc x = enc y \<Longrightarrow> x = y"
  using enc_total [of x] dec_enc [of x _ "[]" "[]"] dec_enc [of y _ "[]" "[]"] by auto

text \<open>No encoding is a proper prefix of another: the code is uniquely decodable.\<close>

lemma prefix_free:
  assumes "ok x" "ok y" "enc x = Inr bs" "enc y = Inr (bs @ cs)"
  shows "x = y \<and> cs = []"
proof -
  from dec_enc [OF assms(1,3), of "[]" cs] dec_enc [OF assms(2,4), of "[]" "[]"]
  show ?thesis by simp
qed

end

end
