(* ===== verification/Ber.thy ===== *)
theory Ber
  imports Prelude
begin

text \<open>
  \<^verbatim>\<open>src/open61850/ber.py\<close>: ASN.1 BER primitives. Tags are the integers of their identifier
  octets; offsets and lengths are naturals (the code never passes a negative offset). A generator
  of TLVs is the list it yields with the exception that ends it, so that a consumer sees the
  first elements even when a later one is malformed.
\<close>

section \<open>Tags\<close>

definition CLASS_CONTEXT :: int where "CLASS_CONTEXT = 0x80"
definition CONSTRUCTED :: int where "CONSTRUCTED = 0x20"

text \<open>The 7-bit groups of a number, least significant first (the \<^verbatim>\<open>while True\<close> of \<^verbatim>\<open>make_tag\<close>).\<close>

fun groups7 :: "nat \<Rightarrow> nat list" where
  "groups7 n = (let g = n mod 128; r = n div 128 in if r = 0 then [g] else g # groups7 r)"

declare groups7.simps [simp del]

definition tag_octets :: "nat \<Rightarrow> bytes" where
  "tag_octets number =
     (let gs = rev (groups7 number)
      in map (\<lambda>g. of_nat g OR 0x80) (butlast gs) @ [of_nat (last gs)])"

definition make_tag :: "int \<Rightarrow> int \<Rightarrow> bool \<Rightarrow> int result" where
  "make_tag number cls constructed =
     (if number < 0 then Inl ValueError
      else let first = cls OR (if constructed then CONSTRUCTED else 0)
        in if number < 0x1F then Inr (first OR number)
           else Inr (from_bytes (word_of_int (first OR 0x1F) # tag_octets (nat number))))"

definition encode_tag :: "int \<Rightarrow> bytes result" where
  "encode_tag tag = to_bytes (max 1 ((bit_length tag + 7) div 8)) tag"

definition tag_number :: "int \<Rightarrow> int result" where
  "tag_number tag = bindE (encode_tag tag) (\<lambda>raw.
     if hd raw AND 0x1F \<noteq> 0x1F then Inr (uint (hd raw AND 0x1F))
     else Inr (foldl (\<lambda>n b. push_bit 7 n OR uint (b AND 0x7F)) 0 (tl raw)))"

definition is_constructed :: "int \<Rightarrow> bool result" where
  "is_constructed tag = bindE (encode_tag tag) (\<lambda>raw. Inr (hd raw AND 0x20 \<noteq> 0))"

function decode_tag_rest :: "bytes \<Rightarrow> nat \<Rightarrow> int \<Rightarrow> (int \<times> nat) result" where
  "decode_tag_rest data offset tag =
     (if length data \<le> offset then Inl BerError
      else let b = data ! offset; tag' = push_bit 8 tag OR uint b
        in if b AND 0x80 = 0 then Inr (tag', Suc offset)
           else decode_tag_rest data (Suc offset) tag')"
  by pat_completeness auto
termination
  by (relation "measure (\<lambda>(data, offset, tag). length data - offset)") auto

declare decode_tag_rest.simps [simp del]

definition decode_tag :: "bytes \<Rightarrow> nat \<Rightarrow> (int \<times> nat) result" where
  "decode_tag data offset =
     (if length data \<le> offset then Inl BerError
      else let first = data ! offset
        in if first AND 0x1F = 0x1F then decode_tag_rest data (Suc offset) (uint first)
           else Inr (uint first, Suc offset))"

section \<open>Lengths\<close>

definition encode_length :: "nat \<Rightarrow> bytes result" where
  "encode_length n =
     (if n < 0x80 then Inr [of_nat n]
      else let raw = nat_be (octets_needed n) n
        in if length raw > 0x7E then Inl ValueError
           else Inr ((0x80 OR of_nat (length raw)) # raw))"

definition decode_length :: "bytes \<Rightarrow> nat \<Rightarrow> (nat \<times> nat) result" where
  "decode_length data offset =
     (if length data \<le> offset then Inl BerError
      else let first = data ! offset; off = Suc offset
        in if first < 0x80 then Inr (unat first, off)
           else let n = unat (first AND 0x7F)
             in if n = 0 then Inl BerError
                else if length data < off + n then Inl BerError
                else Inr (be_nat (slice data off (off + n)), off + n))"

section \<open>TLV\<close>

record tlv =
  tlv_tag :: int
  tlv_value :: bytes
  tlv_end :: nat

definition encode_tlv :: "int \<Rightarrow> bytes \<Rightarrow> bytes result" where
  "encode_tlv tag content =
     bindE (encode_tag tag) (\<lambda>t. bindE (encode_length (length content)) (\<lambda>l. Inr (t @ l @ content)))"

definition decode_tlv :: "bytes \<Rightarrow> nat \<Rightarrow> tlv result" where
  "decode_tlv data offset =
     bindE (if offset + 2 \<le> length data \<and> data ! offset AND 0x1F \<noteq> 0x1F \<and> data ! Suc offset < 0x80
            then Inr (uint (data ! offset), unat (data ! Suc offset), offset + 2)
            else bindE (decode_tag data offset) (\<lambda>(tag, off).
                 bindE (decode_length data off) (\<lambda>(n, off'). Inr (tag, n, off'))))
       (\<lambda>(tag, n, off). if length data < off + n then Inl BerError
          else Inr \<lparr>tlv_tag = tag, tlv_value = slice data off (off + n), tlv_end = off + n\<rparr>)"

text \<open>What the fast path abbreviates: \<^verbatim>\<open>decode_tag\<close> then \<^verbatim>\<open>decode_length\<close>.\<close>

definition decode_tlv_spec :: "bytes \<Rightarrow> nat \<Rightarrow> tlv result" where
  "decode_tlv_spec data offset =
     bindE (decode_tag data offset) (\<lambda>(tag, off). bindE (decode_length data off) (\<lambda>(n, off').
       if length data < off' + n then Inl BerError
       else Inr \<lparr>tlv_tag = tag, tlv_value = slice data off' (off' + n), tlv_end = off' + n\<rparr>))"

lemma decode_tag_rest_progress:
  "decode_tag_rest data offset tag = Inr (t, off) \<Longrightarrow> offset < off \<and> off \<le> length data"
proof (induction data offset tag rule: decode_tag_rest.induct)
  case (1 data offset tag)
  then show ?case
    by (subst (asm) decode_tag_rest.simps) (fastforce simp: Let_def split: if_splits)
qed

lemma decode_tag_progress: "decode_tag data offset = Inr (t, off) \<Longrightarrow> offset < off \<and> off \<le> length data"
  by (auto simp: decode_tag_def Let_def dest: decode_tag_rest_progress split: if_splits)

lemma decode_length_progress: "decode_length data offset = Inr (n, off) \<Longrightarrow> offset < off \<and> off \<le> length data"
  by (auto simp: decode_length_def Let_def split: if_splits)

lemma decode_tlv_eq_spec: "decode_tlv data offset = decode_tlv_spec data offset"
proof (cases "offset + 2 \<le> length data \<and> data ! offset AND 0x1F \<noteq> 0x1F \<and> data ! Suc offset < 0x80")
  case True
  then have "decode_tag data offset = Inr (uint (data ! offset), Suc offset)"
    and "decode_length data (Suc offset) = Inr (unat (data ! Suc offset), Suc (Suc offset))"
    by (auto simp: decode_tag_def decode_length_def Let_def)
  with True show ?thesis by (simp add: decode_tlv_def decode_tlv_spec_def)
next
  case False
  then show ?thesis
    unfolding decode_tlv_def decode_tlv_spec_def
    by (simp only: if_False bindE_assoc case_prod_unfold bindE.simps fst_conv snd_conv)
qed

lemma decode_tlv_progress:
  assumes "decode_tlv data offset = Inr t"
  shows "offset + 2 + length (tlv_value t) \<le> tlv_end t" "tlv_end t \<le> length data"
    "tlv_value t = slice data (tlv_end t - length (tlv_value t)) (tlv_end t)"
  using assms decode_tag_progress decode_length_progress
  by (fastforce simp: decode_tlv_eq_spec decode_tlv_spec_def bindE_Inr_iff split: if_splits)+

text \<open>\<^verbatim>\<open>iter_tlvs\<close>: what the generator yields, and the exception that ends it, if any.\<close>

function iter_tlvs_from :: "bytes \<Rightarrow> nat \<Rightarrow> tlv list \<times> exn option" where
  "iter_tlvs_from data offset =
     (if length data \<le> offset then ([], None)
      else case decode_tlv data offset of
          Inl e \<Rightarrow> ([], Some e)
        | Inr t \<Rightarrow> (case iter_tlvs_from data (tlv_end t) of (ts, e) \<Rightarrow> (t # ts, e)))"
  by pat_completeness auto
termination
  by (relation "measure (\<lambda>(data, offset). length data - offset)") (auto dest: decode_tlv_progress(1))

declare iter_tlvs_from.simps [simp del]

definition iter_tlvs :: "bytes \<Rightarrow> tlv list \<times> exn option" where
  "iter_tlvs data = iter_tlvs_from data 0"

text \<open>The generator consumed whole (\<^verbatim>\<open>list\<close>, a comprehension), and a loop over it.\<close>

definition gen_list :: "'a list \<times> exn option \<Rightarrow> 'a list result" where
  "gen_list g = (case snd g of None \<Rightarrow> Inr (fst g) | Some e \<Rightarrow> Inl e)"

definition all_tlvs :: "bytes \<Rightarrow> tlv list result" where
  "all_tlvs data = gen_list (iter_tlvs data)"

definition for_tlvs :: "(tlv \<Rightarrow> 's \<Rightarrow> 's result) \<Rightarrow> bytes \<Rightarrow> 's \<Rightarrow> 's result" where
  "for_tlvs body data s =
     bindE (foldE body (fst (iter_tlvs data)) s)
       (\<lambda>s'. case snd (iter_tlvs data) of None \<Rightarrow> Inr s' | Some e \<Rightarrow> Inl e)"

definition expect_tlv :: "bytes \<Rightarrow> nat \<Rightarrow> int \<Rightarrow> tlv result" where
  "expect_tlv data offset tag =
     bindE (decode_tlv data offset) (\<lambda>t. if tlv_tag t \<noteq> tag then Inl BerError else Inr t)"

section \<open>INTEGER and BOOLEAN contents\<close>

definition encode_integer :: "int \<Rightarrow> bytes result" where
  "encode_integer value =
     to_bytes_signed (max 1 (bit_length (value + (if value < 0 then 1 else 0)) div 8 + 1)) value"

definition encode_unsigned :: "int \<Rightarrow> bytes result" where
  "encode_unsigned value = (if value < 0 then Inl ValueError else encode_integer value)"

definition decode_integer :: "bytes \<Rightarrow> int result" where
  "decode_integer content = (if content = [] then Inl BerError else Inr (from_bytes_signed content))"

definition decode_unsigned :: "bytes \<Rightarrow> int result" where
  "decode_unsigned content = (if content = [] then Inl BerError else Inr (from_bytes content))"

definition encode_boolean :: "bool \<Rightarrow> bytes" where
  "encode_boolean value = (if value then [0xFF] else [0x00])"

definition decode_boolean :: "bytes \<Rightarrow> bool result" where
  "decode_boolean content = (case content of [b] \<Rightarrow> Inr (b \<noteq> 0) | _ \<Rightarrow> Inl BerError)"

section \<open>OBJECT IDENTIFIER contents\<close>

fun oid_chunk_rest :: "nat \<Rightarrow> bytes" where
  "oid_chunk_rest arc = (if arc = 0 then [] else (0x80 OR of_nat (arc mod 128)) # oid_chunk_rest (arc div 128))"

declare oid_chunk_rest.simps [simp del]

definition oid_chunk :: "nat \<Rightarrow> bytes" where
  "oid_chunk arc = rev (of_nat (arc mod 128) # oid_chunk_rest (arc div 128))"

definition encode_oid :: "int list \<Rightarrow> bytes result" where
  "encode_oid arcs =
     (case arcs of
        a0 # a1 # rest \<Rightarrow>
          if 2 < a0 \<or> (a0 < 2 \<and> 39 < a1) \<or> (\<exists>a \<in> set arcs. a < 0) then Inl ValueError
          else Inr (concat (map (\<lambda>a. oid_chunk (nat a)) ((a0 * 40 + a1) # rest)))
      | _ \<Rightarrow> Inl ValueError)"

fun oid_loop :: "bytes \<Rightarrow> int list \<Rightarrow> int \<Rightarrow> int list" where
  "oid_loop [] vals arc = vals"
| "oid_loop (b # bs) vals arc =
     (let arc' = push_bit 7 arc OR uint (b AND 0x7F)
      in if b AND 0x80 = 0 then oid_loop bs (vals @ [arc']) 0 else oid_loop bs vals arc')"

definition decode_oid :: "bytes \<Rightarrow> int list result" where
  "decode_oid content =
     (if content = [] \<or> last content AND 0x80 \<noteq> 0 then Inl BerError
      else let vals = oid_loop content [] 0; first = min (hd vals div 40) 2
        in Inr (first # (hd vals - 40 * first) # tl vals))"

section \<open>Tags read back\<close>

text \<open>
  The identifier octets the decoder accepts: one octet, or a leading octet with all number bits
  set followed by octets whose high bit is set, the last one's clear.
\<close>

fun wf_tag_octets :: "bytes \<Rightarrow> bool" where
  "wf_tag_octets [] = False"
| "wf_tag_octets (b # bs) =
     (if b AND 0x1F = 0x1F
      then bs \<noteq> [] \<and> list_all (\<lambda>c. c AND 0x80 \<noteq> 0) (butlast bs) \<and> last bs AND 0x80 = 0
      else bs = [])"

definition wf_tag :: "int \<Rightarrow> bool" where
  "wf_tag tag = (case encode_tag tag of Inr raw \<Rightarrow> wf_tag_octets raw | Inl _ \<Rightarrow> False)"

lemma encode_tag_from_bytes: "encode_tag tag = Inr raw \<Longrightarrow> from_bytes raw = tag \<and> raw \<noteq> []"
  using from_bytes_to_bytes [of _ tag raw] by (fastforce simp: encode_tag_def)

lemma decode_tag_rest_octets:
  assumes "bs \<noteq> []" "list_all (\<lambda>c. c AND 0x80 \<noteq> 0) (butlast bs)" "last bs AND 0x80 = 0"
  shows "decode_tag_rest (pre @ bs @ post) (length pre) t =
    Inr (t * 256 ^ length bs + from_bytes bs, length pre + length bs)"
  using assms
proof (induction bs arbitrary: pre t)
  case (Cons b bs)
  have or: "push_bit 8 t OR uint b = t * 256 + uint b" by (rule push_bit_or_byte)
  have fb: "from_bytes (b # bs) = uint b * 256 ^ length bs + from_bytes bs"
    by (simp add: from_bytes_def be_nat_Cons)
  show ?case
  proof (cases "bs = []")
    case True
    then show ?thesis using Cons.prems or
      by (subst decode_tag_rest.simps) (simp add: Let_def from_bytes_def be_nat_Cons)
  next
    case False
    then have "b AND 0x80 \<noteq> 0" using Cons.prems by simp
    then have "decode_tag_rest (pre @ (b # bs) @ post) (length pre) t =
        decode_tag_rest ((pre @ [b]) @ bs @ post) (length (pre @ [b])) (t * 256 + uint b)"
      using or by (subst decode_tag_rest.simps) (simp add: Let_def)
    also have "\<dots> = Inr ((t * 256 + uint b) * 256 ^ length bs + from_bytes bs, length (pre @ [b]) + length bs)"
      using Cons.prems False by (intro Cons.IH) auto
    finally show ?thesis using fb by (simp add: algebra_simps)
  qed
qed simp

lemma decode_tag_octets:
  assumes "wf_tag_octets raw"
  shows "decode_tag (pre @ raw @ post) (length pre) = Inr (from_bytes raw, length pre + length raw)"
proof -
  from assms obtain b bs where raw: "raw = b # bs" by (cases raw) auto
  show ?thesis
  proof (cases "b AND 0x1F = 0x1F")
    case True
    then have "decode_tag_rest ((pre @ [b]) @ bs @ post) (length (pre @ [b])) (uint b) =
        Inr (uint b * 256 ^ length bs + from_bytes bs, length (pre @ [b]) + length bs)"
      using assms raw by (intro decode_tag_rest_octets) auto
    then show ?thesis
      using True by (simp add: raw decode_tag_def Let_def from_bytes_def be_nat_Cons)
  next
    case False
    then show ?thesis
      using assms by (simp add: raw decode_tag_def Let_def from_bytes_def be_nat_Cons)
  qed
qed

lemma decode_encode_tag:
  "wf_tag tag \<Longrightarrow> encode_tag tag = Inr raw \<Longrightarrow>
   decode_tag (pre @ raw @ post) (length pre) = Inr (tag, length pre + length raw)"
  using encode_tag_from_bytes [of tag raw] by (simp add: wf_tag_def decode_tag_octets)

interpretation tag_codec: prefix_codec encode_tag decode_tag wf_tag
proof unfold_locales
  fix x assume "wf_tag x"
  then show "\<exists>bs. encode_tag x = Inr bs" by (auto simp: wf_tag_def split: sum.splits)
next
  fix x assume "wf_tag x"
  show "encode_tag x \<noteq> Inr []" using encode_tag_from_bytes [of x "[]"] by auto
next
  fix x bs pre post assume "wf_tag x" "encode_tag x = Inr bs"
  then show "decode_tag (pre @ bs @ post) (length pre) = Inr (x, length pre + length bs)"
    by (rule decode_encode_tag)
qed

text \<open>A decoded tag is the canonical one of exactly the octets read.\<close>

lemma encode_tag_from_octets:
  assumes "wf_tag_octets raw"
  shows "encode_tag (from_bytes raw) = Inr raw"
proof -
  from assms obtain b bs where raw: "raw = b # bs" by (cases raw) auto
  have len: "max 1 ((bit_length (from_bytes raw) + 7) div 8) = length raw"
  proof (cases "b = 0")
    case True
    then have "bs = []" using assms raw by (cases "b AND 0x1F = 0x1F") auto
    then show ?thesis using True by (simp add: raw from_bytes_def be_nat_Cons bit_length_def)
  next
    case False
    have "(bit_length (from_bytes raw) + 7) div 8 = octets_needed (be_nat raw)"
      by (simp add: from_bytes_def bit_length_def octets_needed_def)
    then show ?thesis using octets_needed_be_nat [OF False, of bs] raw by simp
  qed
  then show ?thesis by (simp add: encode_tag_def to_bytes_from_bytes)
qed

lemma wf_low_tag:
  assumes "0 \<le> tag" "tag < 256" "tag mod 32 \<noteq> 31"
  shows "encode_tag tag = Inr [word_of_int tag]" "wf_tag tag"
proof -
  let ?b = "word_of_int tag :: byte"
  have "nat tag < 256" using assms by simp
  moreover have "?b = of_nat (nat tag)" using assms by simp
  ultimately have u: "unat ?b = nat tag" by (simp only: unat_of_nat_small)
  then have tag: "from_bytes [?b] = tag" using assms by (simp add: from_bytes_def be_nat_Cons)
  have "unat (?b AND 0x1F) = nat (tag mod 32)"
    using u assms by (simp only: unat_and_1F) (simp add: nat_mod_distrib)
  then have wf: "wf_tag_octets [?b]" using assms(3) by auto
  then show enc: "encode_tag tag = Inr [?b]" using encode_tag_from_octets [OF wf] by (simp only: tag)
  then show "wf_tag tag" using wf by (simp add: wf_tag_def)
qed

lemma tag_number_low:
  assumes "0 \<le> tag" "tag < 256" "tag mod 32 \<noteq> 31"
  shows "tag_number tag = Inr (tag mod 32)"
proof -
  have "nat tag < 256" using assms by simp
  moreover have "word_of_int tag = (of_nat (nat tag) :: byte)" using assms by simp
  ultimately have u: "unat (word_of_int tag :: byte) = nat tag" by (simp only: unat_of_nat_small)
  then have m: "unat ((word_of_int tag :: byte) AND 0x1F) = nat (tag mod 32)"
    using assms by (simp only: unat_and_1F) (simp add: nat_mod_distrib)
  then have "(word_of_int tag :: byte) AND 0x1F \<noteq> 0x1F" using assms(3) by auto
  moreover have "uint ((word_of_int tag :: byte) AND 0x1F) = tag mod 32"
    unfolding uint_nat m by simp
  ultimately show ?thesis
    unfolding tag_number_def wf_low_tag(1) [OF assms] by (simp only: bindE.simps list.sel if_True simp_thms)
qed

lemma decode_tag_rest_split:
  assumes "decode_tag_rest data offset tag = Inr (t, off)"
  shows "\<exists>bs. slice data offset off = bs \<and> bs \<noteq> [] \<and> list_all (\<lambda>c. c AND 0x80 \<noteq> 0) (butlast bs)
    \<and> last bs AND 0x80 = 0"
  using assms
proof (induction data offset tag rule: decode_tag_rest.induct)
  case (1 data offset tag)
  let ?b = "data ! offset"
  from 1(2) have lt: "offset < length data"
    by (subst (asm) decode_tag_rest.simps) (simp split: if_splits)
  have sl: "slice data offset m = ?b # slice data (Suc offset) m" if "offset < m" for m
    using that lt by (rule slice_Cons)
  show ?case
  proof (cases "?b AND 0x80 = 0")
    case True
    then have "off = Suc offset" using 1(2) lt
      by (subst (asm) decode_tag_rest.simps) (simp add: Let_def)
    then have "slice data offset off = [?b]" using sl [of off] by (simp add: slice_def)
    then show ?thesis using True by simp
  next
    case False
    then have rec: "decode_tag_rest data (Suc offset) (push_bit 8 tag OR uint ?b) = Inr (t, off)"
      using 1(2) lt by (subst (asm) decode_tag_rest.simps) (simp add: Let_def)
    moreover have "offset < off" using decode_tag_rest_progress [OF rec] by simp
    moreover have "\<not> length data \<le> offset" using lt by simp
    ultimately show ?thesis using 1(1) [OF _ refl refl] False sl [of off] by (auto simp: Let_def)
  qed
qed

lemma decode_tag_canonical:
  assumes "decode_tag data offset = Inr (t, off)"
  shows "encode_tag t = Inr (slice data offset off)" "wf_tag t"
proof -
  let ?b = "data ! offset" and ?raw = "slice data offset off"
  from assms have lt: "offset < length data" by (auto simp: decode_tag_def split: if_splits)
  have po: "offset < off" "off \<le> length data" using decode_tag_progress [OF assms] by auto
  have raw: "?raw = ?b # slice data (Suc offset) off"
    using po(1) lt by (rule slice_Cons)
  have wf: "wf_tag_octets ?raw"
  proof (cases "?b AND 0x1F = 0x1F")
    case True
    then show ?thesis using assms lt decode_tag_rest_split [of data "Suc offset" "uint ?b" t off] raw
      by (auto simp: decode_tag_def Let_def)
  next
    case False
    then have "off = Suc offset" using assms lt by (auto simp: decode_tag_def Let_def)
    then have "?raw = [?b]" using raw by (simp add: slice_def)
    then show ?thesis using False by simp
  qed
  have data: "take offset data @ ?raw @ drop off data = data"
    using po by (intro slice_decomp) simp
  have "t = from_bytes ?raw"
    using decode_tag_octets [OF wf, of "take offset data" "drop off data"] assms data lt
    by (simp add: min_def)
  then show "encode_tag t = Inr ?raw" using encode_tag_from_octets [OF wf] by simp
  then show "wf_tag t" using wf by (simp add: wf_tag_def)
qed

section \<open>Lengths and TLVs read back\<close>

definition ok_length :: "nat \<Rightarrow> bool" where
  "ok_length n \<longleftrightarrow> n < 256 ^ 126"

lemma ok_length_small: "n < 2 ^ 1000 \<Longrightarrow> ok_length n"
  by (simp add: ok_length_def)

lemma encode_length_ok: "ok_length n \<longleftrightarrow> (\<exists>bs. encode_length n = Inr bs)"
proof -
  have "n < 0x80 \<Longrightarrow> ok_length n" by (simp add: ok_length_def)
  moreover have "octets_needed n \<le> 126 \<longleftrightarrow> ok_length n"
    by (simp only: octets_needed_le_iff ok_length_def)
  ultimately show ?thesis by (auto simp: encode_length_def Let_def)
qed

lemma unat_80_or_and_7F: "g < 128 \<Longrightarrow> unat ((0x80 OR of_nat g :: byte) AND 0x7F) = g"
  by (simp only: unat_and_7F unat_80_or) simp

lemma not_less_80_or: "g < 128 \<Longrightarrow> \<not> (0x80 OR of_nat g :: byte) < 0x80"
  by (simp add: byte_less_iff unat_80_or)

lemma decode_encode_length:
  assumes "encode_length n = Inr bs"
  shows "decode_length (pre @ bs @ post) (length pre) = Inr (n, length pre + length bs)"
proof (cases "n < 0x80")
  case True
  then have "(of_nat n :: byte) < 0x80" by (simp add: byte_less_iff unat_of_nat_small)
  then show ?thesis using assms True
    by (auto simp: encode_length_def decode_length_def Let_def unat_of_nat_small)
next
  case False
  let ?k = "octets_needed n"
  have k: "?k \<le> 126" and bs: "bs = (0x80 OR of_nat ?k) # nat_be ?k n"
    using assms False by (auto simp: encode_length_def Let_def split: if_splits)
  have "?k \<noteq> 0" using octets_needed_bound [of n] False by (cases "?k = 0") auto
  moreover have "slice (pre @ bs @ post) (Suc (length pre)) (Suc (length pre) + ?k) = nat_be ?k n"
    using slice_append_mid [of "pre @ [hd bs]" "nat_be ?k n" post] by (simp add: bs)
  moreover have "be_nat (nat_be ?k n) = n"
    using octets_needed_bound [of n] by (simp add: be_nat_nat_be)
  ultimately show ?thesis
    using k by (simp add: bs decode_length_def Let_def nth_append not_less_80_or unat_80_or_and_7F)
qed

lemma encode_length_nonempty [simp]: "encode_length n \<noteq> Inr []"
  by (simp add: encode_length_def Let_def)

interpretation length_codec: prefix_codec encode_length decode_length ok_length
  by unfold_locales (simp_all add: decode_encode_length flip: encode_length_ok)

text \<open>A TLV as a pair of tag and content, and the decoder that returns it with the next offset.\<close>

definition enc_pair :: "int \<times> bytes \<Rightarrow> bytes result" where
  "enc_pair p = encode_tlv (fst p) (snd p)"

definition dec_pair :: "bytes \<Rightarrow> nat \<Rightarrow> ((int \<times> bytes) \<times> nat) result" where
  "dec_pair data offset = mapE (\<lambda>t. ((tlv_tag t, tlv_value t), tlv_end t)) (decode_tlv data offset)"

definition ok_pair :: "int \<times> bytes \<Rightarrow> bool" where
  "ok_pair p \<longleftrightarrow> wf_tag (fst p) \<and> ok_length (length (snd p))"

lemma decode_encode_tlv:
  assumes "wf_tag tag" "encode_tlv tag content = Inr bs"
  shows "decode_tlv (pre @ bs @ post) (length pre) =
    Inr \<lparr>tlv_tag = tag, tlv_value = content, tlv_end = length pre + length bs\<rparr>"
proof -
  from assms(2) obtain t l where t: "encode_tag tag = Inr t" and l: "encode_length (length content) = Inr l"
    and bs: "bs = t @ l @ content" by (auto simp: encode_tlv_def bindE_Inr_iff)
  let ?d = "pre @ t @ l @ content @ post"
  have dt: "decode_tag ?d (length pre) = Inr (tag, length pre + length t)"
    using decode_encode_tag [OF assms(1) t, of pre "l @ content @ post"] by simp
  have dl: "decode_length ?d (length pre + length t) =
      Inr (length content, length pre + length t + length l)"
    using decode_encode_length [OF l, of "pre @ t" "content @ post"] by simp
  have "slice ?d (length pre + (length t + length l))
      (length pre + (length t + (length l + length content))) = content"
    using slice_append_mid [of "pre @ t @ l" content post] by (simp add: add.assoc)
  then show ?thesis
    by (simp add: decode_tlv_eq_spec decode_tlv_spec_def dt dl bs add.assoc)
qed

interpretation tlv_codec: prefix_codec enc_pair dec_pair ok_pair
proof unfold_locales
  fix x assume "ok_pair x"
  then show "\<exists>bs. enc_pair x = Inr bs"
    by (auto simp: ok_pair_def enc_pair_def encode_tlv_def encode_length_ok wf_tag_def split: sum.splits)
next
  fix x assume "ok_pair x"
  show "enc_pair x \<noteq> Inr []"
    by (auto simp: enc_pair_def encode_tlv_def bindE_Inr_iff)
next
  fix x bs pre post assume "ok_pair x" "enc_pair x = Inr bs"
  then show "dec_pair (pre @ bs @ post) (length pre) = Inr (x, length pre + length bs)"
    using decode_encode_tlv [of "fst x" "snd x" bs pre post]
    by (simp add: enc_pair_def dec_pair_def ok_pair_def)
qed

text \<open>Decoding does not depend on what surrounds the octets it reads.\<close>

lemma decode_tag_rest_shift:
  "decode_tag_rest data offset tag = Inr (t, off) \<Longrightarrow>
   decode_tag_rest (pre @ data @ post) (length pre + offset) tag = Inr (t, length pre + off)"
proof (induction data offset tag rule: decode_tag_rest.induct)
  case (1 data offset tag)
  from 1(2) have lt: "offset < length data" by (subst (asm) decode_tag_rest.simps) (simp split: if_splits)
  then have nth: "(pre @ data @ post) ! (length pre + offset) = data ! offset" by (simp add: nth_append)
  show ?case
  proof (cases "data ! offset AND 0x80 = 0")
    case True
    then show ?thesis using 1(2) lt nth
      by (subst decode_tag_rest.simps, subst (asm) decode_tag_rest.simps) (auto simp: Let_def)
  next
    case False
    then have "decode_tag_rest data (Suc offset) (push_bit 8 tag OR uint (data ! offset)) = Inr (t, off)"
      using 1(2) lt by (subst (asm) decode_tag_rest.simps) (simp add: Let_def)
    then have "decode_tag_rest (pre @ data @ post) (Suc (length pre + offset)) (push_bit 8 tag OR uint (data ! offset))
        = Inr (t, length pre + off)"
      using 1(1) [OF _ refl refl False] lt by simp
    then show ?thesis using False lt nth by (subst decode_tag_rest.simps) (simp add: Let_def)
  qed
qed

lemma decode_tag_shift:
  assumes "decode_tag data offset = Inr (t, off)"
  shows "decode_tag (pre @ data @ post) (length pre + offset) = Inr (t, length pre + off)"
proof -
  from assms have "offset < length data" by (auto simp: decode_tag_def split: if_splits)
  then show ?thesis using assms decode_tag_rest_shift [of data "Suc offset" "uint (data ! offset)" t off pre post]
    by (auto simp: decode_tag_def Let_def nth_append split: if_splits)
qed

lemma decode_length_shift:
  assumes "decode_length data offset = Inr (n, off)"
  shows "decode_length (pre @ data @ post) (length pre + offset) = Inr (n, length pre + off)"
proof -
  from assms have lt: "offset < length data" by (auto simp: decode_length_def split: if_splits)
  let ?k = "unat (data ! offset AND 0x7F)"
  show ?thesis
  proof (cases "data ! offset < 0x80")
    case True
    then show ?thesis using assms lt by (auto simp: decode_length_def Let_def nth_append)
  next
    case False
    then have k: "?k \<noteq> 0" "Suc offset + ?k \<le> length data" and no: "n = be_nat (slice data (Suc offset) (Suc offset + ?k))"
      "off = Suc offset + ?k"
      using assms lt by (auto simp: decode_length_def Let_def split: if_splits)
    have "slice (pre @ data @ post) (Suc (length pre + offset)) (Suc (length pre + offset) + ?k)
        = slice data (Suc offset) (Suc offset + ?k)"
      using slice_shift [OF k(2), of pre post "Suc offset"] by (simp add: add.assoc)
    then show ?thesis using False lt k no by (simp add: decode_length_def Let_def nth_append)
  qed
qed

lemma decode_tlv_shift:
  assumes "decode_tlv data offset = Inr t"
  shows "decode_tlv (pre @ data @ post) (length pre + offset) = Inr (t\<lparr>tlv_end := length pre + tlv_end t\<rparr>)"
proof -
  from assms obtain tag off n off' where t: "decode_tag data offset = Inr (tag, off)"
    and l: "decode_length data off = Inr (n, off')" and le: "off' + n \<le> length data"
    and r: "t = \<lparr>tlv_tag = tag, tlv_value = slice data off' (off' + n), tlv_end = off' + n\<rparr>"
    by (auto simp: decode_tlv_eq_spec decode_tlv_spec_def bindE_Inr_iff split: if_splits)
  show ?thesis
    using decode_tag_shift [OF t, of pre post] decode_length_shift [OF l, of pre post] le
      slice_shift [OF le, of pre post off']
    by (simp add: decode_tlv_eq_spec decode_tlv_spec_def r add.assoc)
qed

text \<open>The decoders raise nothing but \<^verbatim>\<open>BerError\<close>.\<close>

lemma decode_tag_rest_error: "decode_tag_rest data offset tag = Inl e \<Longrightarrow> e = BerError"
proof (induction data offset tag rule: decode_tag_rest.induct)
  case (1 data offset tag)
  then show ?case
    by (subst (asm) decode_tag_rest.simps) (auto simp: Let_def split: if_splits)
qed

lemma decode_tag_error: "decode_tag data offset = Inl e \<Longrightarrow> e = BerError"
  by (auto simp: decode_tag_def Let_def dest: decode_tag_rest_error split: if_splits)

lemma decode_length_error: "decode_length data offset = Inl e \<Longrightarrow> e = BerError"
  by (auto simp: decode_length_def Let_def split: if_splits)

lemma decode_tlv_error: "decode_tlv data offset = Inl e \<Longrightarrow> e = BerError"
  by (auto simp: decode_tlv_eq_spec decode_tlv_spec_def bindE_Inl_iff
      dest: decode_tag_error decode_length_error split: prod.splits if_splits)

lemma iter_tlvs_from_error: "snd (iter_tlvs_from data offset) = Some e \<Longrightarrow> e = BerError"
proof (induction data offset rule: iter_tlvs_from.induct)
  case (1 data offset)
  then show ?case
    by (subst (asm) iter_tlvs_from.simps) (auto dest: decode_tlv_error split: if_splits sum.splits prod.splits)
qed

lemma iter_tlvs_error: "snd (iter_tlvs data) = Some e \<Longrightarrow> e = BerError"
  unfolding iter_tlvs_def by (rule iter_tlvs_from_error)

lemma all_tlvs_error: "all_tlvs data = Inl e \<Longrightarrow> e = BerError"
  by (auto simp: all_tlvs_def gen_list_def dest: iter_tlvs_error split: option.splits)

lemma decode_tlv_wf_tag: "decode_tlv data offset = Inr t \<Longrightarrow> wf_tag (tlv_tag t)"
  by (auto simp: decode_tlv_eq_spec decode_tlv_spec_def bindE_Inr_iff
      dest: decode_tag_canonical(2) split: if_splits)

lemma wf_tag_nonneg: "wf_tag tag \<Longrightarrow> 0 \<le> tag"
  by (auto simp: wf_tag_def encode_tag_def to_bytes_def split: if_splits)

lemma iter_tlvs_from_wf_tag: "t \<in> set (fst (iter_tlvs_from data offset)) \<Longrightarrow> wf_tag (tlv_tag t)"
proof (induction data offset rule: iter_tlvs_from.induct)
  case (1 data offset)
  then show ?case
    by (subst (asm) iter_tlvs_from.simps) (auto dest: decode_tlv_wf_tag split: if_splits sum.splits prod.splits)
qed

section \<open>Sequences of TLVs\<close>

text \<open>The pairs a generator yields, without the offsets.\<close>

definition pair_of :: "tlv \<Rightarrow> int \<times> bytes" where
  "pair_of t = (tlv_tag t, tlv_value t)"

lemma pair_of_simps [simp]: "fst (pair_of t) = tlv_tag t" "snd (pair_of t) = tlv_value t"
  by (simp_all add: pair_of_def)

lemma iter_tlvs_from_enc:
  assumes "list_all ok_pair ps" "traverse enc_pair ps = Inr bss"
  shows "\<exists>ts. iter_tlvs_from (pre @ concat bss) (length pre) = (ts, None) \<and> map pair_of ts = ps"
  using assms
proof (induction ps arbitrary: bss pre)
  case Nil
  then show ?case by (simp add: iter_tlvs_from.simps)
next
  case (Cons p ps)
  then obtain b bs' where b: "enc_pair p = Inr b" and bs': "traverse enc_pair ps = Inr bs'"
    and bss: "bss = b # bs'" by (auto simp: bindE_Inr_iff)
  have ne: "b \<noteq> []" using tlv_codec.enc_nonempty [of p] Cons.prems b by auto
  have d: "decode_tlv (pre @ concat bss) (length pre) =
      Inr \<lparr>tlv_tag = fst p, tlv_value = snd p, tlv_end = length (pre @ b)\<rparr>"
    using decode_encode_tlv [of "fst p" "snd p" b pre "concat bs'"] Cons.prems b
    by (simp add: bss enc_pair_def ok_pair_def)
  obtain ts where "iter_tlvs_from ((pre @ b) @ concat bs') (length (pre @ b)) = (ts, None)"
    "map pair_of ts = ps" using Cons.IH [of bs' "pre @ b"] Cons.prems bs' by auto
  then show ?case
    using d ne by (subst iter_tlvs_from.simps) (simp add: bss pair_of_def)
qed

lemma iter_tlvs_enc:
  assumes "list_all ok_pair ps" "traverse enc_pair ps = Inr bss"
  shows "\<exists>ts. iter_tlvs (concat bss) = (ts, None) \<and> map pair_of ts = ps"
  using iter_tlvs_from_enc [OF assms, of "[]"] by (simp add: iter_tlvs_def)

text \<open>The values of a generator fit in the buffer, with two octets at least for each header.\<close>

lemma iter_tlvs_from_bounds:
  "t \<in> set (fst (iter_tlvs_from data offset)) \<Longrightarrow> offset + 2 + length (tlv_value t) \<le> length data"
proof (induction data offset rule: iter_tlvs_from.induct)
  case (1 data offset)
  show ?case
  proof (cases "length data \<le> offset \<or> (\<exists>e. decode_tlv data offset = Inl e)")
    case True
    then show ?thesis using 1(2) by (subst (asm) iter_tlvs_from.simps) (auto split: if_splits)
  next
    case False
    then obtain u where u: "decode_tlv data offset = Inr u" by (cases "decode_tlv data offset") auto
    with False have "t = u \<or> t \<in> set (fst (iter_tlvs_from data (tlv_end u)))"
      using 1(2) by (subst (asm) iter_tlvs_from.simps) (auto split: prod.splits)
    then show ?thesis
      using 1(1) [OF _ u] False decode_tlv_progress(1,2) [OF u] by auto
  qed
qed

lemma iter_tlvs_bounds: "t \<in> set (fst (iter_tlvs data)) \<Longrightarrow> 2 + length (tlv_value t) \<le> length data"
  unfolding iter_tlvs_def using iter_tlvs_from_bounds [of t data 0] by simp

section \<open>Tags made by make\_tag\<close>

lemma groups7_ne [simp]: "groups7 n \<noteq> []"
  by (subst groups7.simps) (simp add: Let_def)

lemma groups7_less: "g \<in> set (groups7 n) \<Longrightarrow> g < 128"
proof (induction n rule: groups7.induct)
  case (1 n)
  then show ?case by (subst (asm) groups7.simps) (auto simp: Let_def split: if_splits)
qed

lemma foldl_groups7:
  "foldl (\<lambda>n g. n * 128 + int g) a (rev (groups7 n)) = a * 128 ^ length (groups7 n) + int n"
proof (induction n arbitrary: a rule: groups7.induct)
  case (1 n)
  show ?case
  proof (cases "n div 128 = 0")
    case True
    then show ?thesis by (simp add: groups7.simps [of n] Let_def)
  next
    case False
    have "int n = int (n div 128) * 128 + int (n mod 128)"
      by (metis div_mult_mod_eq of_nat_add of_nat_mult of_nat_numeral)
    then show ?thesis
      using False 1 [OF refl refl False] by (simp add: groups7.simps [of n] Let_def algebra_simps)
  qed
qed

lemma foldl_septets:
  "foldl (\<lambda>n b. push_bit 7 n OR uint (b AND 0x7F)) a (cs :: bytes) =
   foldl (\<lambda>n g. n * 128 + int g) a (map (\<lambda>c. unat c mod 128) cs)"
proof (induction cs arbitrary: a)
  case (Cons c cs)
  have "push_bit 7 a OR uint (c AND 0x7F) = a * 128 + int (unat c mod 128)"
    by (rule push_bit_or_7F_nat)
  then show ?case by (simp only: foldl.simps list.map Cons)
qed simp

lemma groups7_butlast_less: "g \<in> set (butlast (rev (groups7 n))) \<Longrightarrow> g < 128"
  and groups7_last_less: "last (rev (groups7 n)) < 128"
  using groups7_less [of _ n] last_in_set [of "rev (groups7 n)"]
  by (auto dest: in_set_butlastD simp del: butlast_rev last_rev)

lemma tag_octets_septets: "map (\<lambda>c. unat c mod 128) (tag_octets n) = rev (groups7 n)"
proof -
  let ?gs = "rev (groups7 n)"
  have "map (\<lambda>c. unat c mod 128) (map (\<lambda>g. of_nat g OR 0x80 :: byte) (butlast ?gs)) = map (\<lambda>g. g) (butlast ?gs)"
    unfolding map_map comp_def by (rule map_cong) (simp_all add: unat_or_80 groups7_butlast_less del: butlast_rev)
  moreover have "unat (of_nat (last ?gs) :: byte) mod 128 = last ?gs"
    using groups7_last_less [of n] by (simp add: unat_of_nat_byte del: last_rev)
  ultimately show ?thesis by (simp add: tag_octets_def Let_def del: last_rev butlast_rev map_map)
qed

lemma wf_high_tag_octets:
  assumes "unat b mod 32 = 31"
  shows "wf_tag_octets (b # tag_octets n)"
proof -
  let ?gs = "rev (groups7 n)"
  have "\<not> unat (of_nat g OR 0x80 :: byte) < 128" if "g \<in> set (butlast ?gs)" for g
    using groups7_butlast_less [OF that] by (simp add: unat_or_80)
  then have "list_all (\<lambda>c. c AND 0x80 \<noteq> 0) (map (\<lambda>g. of_nat g OR 0x80 :: byte) (butlast ?gs))"
    unfolding list_all_iff and_80_iff set_map by blast
  moreover have "(of_nat (last ?gs) :: byte) AND 0x80 = 0"
    unfolding and_80_iff unat_of_nat_byte using groups7_last_less [of n] by simp
  moreover have "b AND 0x1F = 0x1F"
    using assms by (intro word_unat_eq_iff [THEN iffD2]) (simp only: unat_and_1F, simp)
  ultimately show ?thesis by (simp add: tag_octets_def Let_def del: last_rev butlast_rev)
qed

definition is_class :: "int \<Rightarrow> bool" where
  "is_class cls \<longleftrightarrow> cls \<in> {0x00, 0x40, 0x80, 0xC0}"

lemma class_first:
  assumes "is_class cls"
  obtains k where "0 \<le> k" "k < 8" "cls OR (if constructed then CONSTRUCTED else 0) = k * 32"
proof -
  have "cls OR (if constructed then CONSTRUCTED else 0) \<in> {0, 32, 64, 96, 128, 160, 192, 224}"
    using assms by (auto simp: is_class_def CONSTRUCTED_def)
  then show thesis
    using that [of "(cls OR (if constructed then CONSTRUCTED else 0)) div 32"] by auto
qed

lemma make_tag_number:
  assumes cls: "is_class cls" and n: "0 \<le> number"
  shows "\<exists>tag. make_tag number cls constructed = Inr tag \<and> wf_tag tag \<and> tag_number tag = Inr number"
proof -
  obtain k where k: "0 \<le> k" "k < 8" and first: "cls OR (if constructed then CONSTRUCTED else 0) = k * 32"
    using class_first [OF cls] by blast
  have orr: "k * 32 OR m = k * 32 + m" if "0 \<le> m" "m < 32" for m :: int
    using push_bit_or_int [of m 5 k] that by (simp add: push_bit_eq_mult)
  have byte: "unat (word_of_int (k * 32 + m) :: byte) = nat (k * 32 + m)" if "0 \<le> m" "m < 32" for m :: int
  proof -
    have "word_of_int (k * 32 + m) = (of_nat (nat (k * 32 + m)) :: byte)" using k that by simp
    then show ?thesis using k that by (simp only: unat_of_nat_small)
  qed
  have mod: "nat (k * 32 + m) mod 32 = nat m" if "0 \<le> m" "m < 32" for m :: int
    using k that by (simp add: nat_add_distrib nat_mult_distrib)
  show ?thesis
  proof (cases "number < 31")
    case True
    let ?b = "word_of_int (k * 32 + number) :: byte"
    have "unat ?b mod 32 = nat number" using byte [of number] mod [of number] n True by simp
    then have hd: "unat (?b AND 0x1F) = nat number" by (simp only: unat_and_1F)
    then have ne: "?b AND 0x1F \<noteq> 0x1F" using True n by auto
    have tag: "from_bytes [?b] = k * 32 + number"
      using byte [of number] n True k by (simp add: from_bytes_def be_nat_Cons)
    have enc: "encode_tag (k * 32 + number) = Inr [?b]"
      using encode_tag_from_octets [of "[?b]"] ne by (simp only: tag) simp
    have "uint (?b AND 0x1F) = number"
      using hd n by (simp only: uint_nat int_nat_eq if_True)
    then show ?thesis
      using True n first orr [of number] enc ne by (simp add: make_tag_def wf_tag_def tag_number_def Let_def)
  next
    case False
    let ?b = "word_of_int (k * 32 + 31) :: byte"
    let ?raw = "?b # tag_octets (nat number)"
    have b: "unat ?b mod 32 = 31" using byte [of 31] mod [of 31] by simp
    then have b1: "?b AND 0x1F = 0x1F"
      by (intro word_unat_eq_iff [THEN iffD2]) (simp only: unat_and_1F, simp)
    have enc: "encode_tag (from_bytes ?raw) = Inr ?raw"
      by (rule encode_tag_from_octets [OF wf_high_tag_octets [OF b]])
    have "foldl (\<lambda>n b. push_bit 7 n OR uint (b AND 0x7F)) 0 (tag_octets (nat number)) = number"
      using n by (simp only: foldl_septets tag_octets_septets foldl_groups7)
    then show ?thesis
      using False n first orr [of 31] enc b1 wf_high_tag_octets [OF b]
      by (simp add: make_tag_def wf_tag_def tag_number_def Let_def)
  qed
qed

section \<open>INTEGER, BOOLEAN and OBJECT IDENTIFIER contents read back\<close>

text \<open>The octets \<^verbatim>\<open>encode_integer\<close> takes always hold the value: it never raises.\<close>

definition integer_octets :: "int \<Rightarrow> nat" where
  "integer_octets v = bit_length (v + (if v < 0 then 1 else 0)) div 8 + 1"

lemma integer_octets_iff: "integer_octets v \<le> Suc k \<longleftrightarrow> - (256 ^ Suc k) \<le> 2 * v \<and> 2 * v < 256 ^ Suc k"
proof -
  let ?a = "nat \<bar>v + (if v < 0 then 1 else 0)\<bar>"
  have "integer_octets v \<le> Suc k \<longleftrightarrow> bit_length_nat ?a div 8 \<le> k"
    by (simp add: integer_octets_def bit_length_def)
  also have "\<dots> \<longleftrightarrow> bit_length_nat ?a \<le> 8 * k + 7" by auto
  also have "\<dots> \<longleftrightarrow> ?a < 2 ^ (8 * k + 7)" by (rule bit_length_nat_le_iff)
  also have "\<dots> \<longleftrightarrow> 2 * ?a < 256 ^ Suc k"
  proof -
    have "(256 :: nat) ^ Suc k = 2 * 2 ^ (8 * k + 7)" by (simp add: power_add power_mult)
    then show ?thesis by simp
  qed
  also have "\<dots> \<longleftrightarrow> 2 * int ?a < 256 ^ Suc k"
  proof -
    have "2 * ?a < 256 ^ Suc k \<longleftrightarrow> int (2 * ?a) < int (256 ^ Suc k)" by (simp only: of_nat_less_iff)
    then show ?thesis by simp
  qed
  also have "\<dots> \<longleftrightarrow> - (256 ^ Suc k) \<le> 2 * v \<and> 2 * v < 256 ^ Suc k"
  proof -
    have "even ((256 :: int) ^ Suc k)" by simp
    then obtain h where "(256 :: int) ^ Suc k = 2 * h" by (elim evenE)
    moreover have "(0 :: int) < 256 ^ Suc k" by simp
    ultimately show ?thesis by (auto split: if_splits)
  qed
  finally show ?thesis .
qed

lemma encode_integer_eq: "encode_integer v = Inr (nat_be (integer_octets v) (nat (v mod 256 ^ integer_octets v)))"
proof -
  obtain k where k: "integer_octets v = Suc k" by (simp add: integer_octets_def)
  then have "max 1 (bit_length (v + (if v < 0 then 1 else 0)) div 8 + 1) = Suc k"
    by (simp add: integer_octets_def)
  moreover have "- (256 ^ Suc k) \<le> 2 * v \<and> 2 * v < 256 ^ Suc k"
    using integer_octets_iff [of v k] k by simp
  ultimately show ?thesis unfolding encode_integer_def to_bytes_signed_def by (simp only: k simp_thms if_True)
qed

lemma encode_integer_shortest:
  assumes "encode_integer v = Inr bs" "to_bytes_signed k v = Inr cs" "0 < k"
  shows "length bs \<le> length cs"
proof -
  obtain j where j: "k = Suc j" using assms(3) by (cases k) auto
  have "integer_octets v \<le> k"
    using assms(2) integer_octets_iff [of v j] by (auto simp: to_bytes_signed_def j split: if_splits)
  moreover have "length bs = integer_octets v" using assms(1) by (auto simp: encode_integer_eq)
  moreover have "length cs = k" using assms(2) by (rule to_bytes_signed_length)
  ultimately show ?thesis by simp
qed

interpretation integer_codec: content_codec encode_integer decode_integer "\<lambda>_. True"
proof unfold_locales
  fix v show "\<exists>bs. encode_integer v = Inr bs" by (simp add: encode_integer_eq)
next
  fix v bs assume e: "encode_integer v = Inr bs"
  then have "bs \<noteq> []" by (auto simp: encode_integer_eq integer_octets_def)
  moreover have "from_bytes_signed bs = v"
    using e from_bytes_signed_to_bytes_signed unfolding encode_integer_def by blast
  ultimately show "decode_integer bs = Inr v" by (simp add: decode_integer_def)
qed

lemma decode_unsigned_encode_integer:
  assumes "0 \<le> v" "encode_integer v = Inr bs"
  shows "decode_unsigned bs = Inr v"
proof -
  let ?k = "integer_octets v"
  obtain j where "?k = Suc j" by (simp add: integer_octets_def)
  then have "2 * v < 256 ^ ?k" using integer_octets_iff [of v j] by simp
  then have v: "v mod 256 ^ ?k = v" using assms(1) by (intro mod_pos_pos_trivial) auto
  have bs: "bs = nat_be ?k (nat v)" using assms(2) by (simp add: encode_integer_eq v)
  have "nat v < 256 ^ ?k"
    using v assms(1) by (metis nat_less_iff of_nat_numeral of_nat_power pos_mod_bound zero_less_numeral zero_less_power)
  then have "from_bytes bs = v" using assms(1) by (simp add: bs from_bytes_def be_nat_nat_be)
  moreover have "bs \<noteq> []" using bs \<open>?k = Suc j\<close> by auto
  ultimately show ?thesis by (simp add: decode_unsigned_def)
qed

interpretation unsigned_codec: content_codec encode_unsigned decode_unsigned "\<lambda>v. 0 \<le> v"
  by unfold_locales (auto simp: encode_unsigned_def encode_integer_eq intro: decode_unsigned_encode_integer)

interpretation boolean_codec: content_codec "\<lambda>b. Inr (encode_boolean b)" decode_boolean "\<lambda>_. True"
  by unfold_locales (auto simp: encode_boolean_def decode_boolean_def)

text \<open>OBJECT IDENTIFIER: the chunks of the arcs, read back one by one.\<close>

definition ok_oid :: "int list \<Rightarrow> bool" where
  "ok_oid arcs \<longleftrightarrow> (case arcs of a0 # a1 # _ \<Rightarrow>
     a0 \<le> 2 \<and> (a0 = 2 \<or> a1 \<le> 39) \<and> list_all (\<lambda>a. 0 \<le> a) arcs | _ \<Rightarrow> False)"

lemma oid_loop_rest: "oid_loop (rev (oid_chunk_rest r) @ rest) vals 0 = oid_loop rest vals (int r)"
proof (induction r arbitrary: rest rule: oid_chunk_rest.induct)
  case (1 r)
  show ?case
  proof (cases "r = 0")
    case True
    then show ?thesis by (simp add: oid_chunk_rest.simps)
  next
    case False
    let ?b = "0x80 OR of_nat (r mod 128) :: byte"
    have b: "unat ?b = 128 + r mod 128" by (rule unat_80_or) simp
    then have hi: "?b AND 0x80 \<noteq> 0" unfolding and_80_iff by simp
    have "push_bit 7 (int (r div 128)) OR uint (?b AND 0x7F) = int (r div 128) * 128 + int (r mod 128)"
      unfolding push_bit_or_7F_nat b by simp
    also have "\<dots> = int r" by (metis div_mult_mod_eq of_nat_add of_nat_mult of_nat_numeral)
    finally have or: "push_bit 7 (int (r div 128)) OR uint (?b AND 0x7F) = int r" .
    have "oid_loop (rev (oid_chunk_rest r) @ rest) vals 0
        = oid_loop (rev (oid_chunk_rest (r div 128)) @ (?b # rest)) vals 0"
      using False by (simp add: oid_chunk_rest.simps [of r])
    also have "\<dots> = oid_loop (?b # rest) vals (int (r div 128))" by (rule 1 [OF False])
    also have "\<dots> = oid_loop rest vals (int r)"
      by (simp only: oid_loop.simps Let_def or hi if_False)
    finally show ?thesis .
  qed
qed

lemma oid_loop_chunk: "oid_loop (oid_chunk a @ rest) vals 0 = oid_loop rest (vals @ [int a]) 0"
proof -
  let ?b = "of_nat (a mod 128) :: byte"
  have b: "unat ?b = a mod 128" by (simp add: unat_of_nat_byte)
  then have lo: "?b AND 0x80 = 0" unfolding and_80_iff by simp
  have "push_bit 7 (int (a div 128)) OR uint (?b AND 0x7F) = int (a div 128) * 128 + int (a mod 128)"
    unfolding push_bit_or_7F_nat b by simp
  also have "\<dots> = int a" by (metis div_mult_mod_eq of_nat_add of_nat_mult of_nat_numeral)
  finally have or: "push_bit 7 (int (a div 128)) OR uint (?b AND 0x7F) = int a" .
  have "oid_loop (oid_chunk a @ rest) vals 0 = oid_loop (?b # rest) vals (int (a div 128))"
    using oid_loop_rest [of "a div 128" "?b # rest" vals] by (simp add: oid_chunk_def)
  also have "\<dots> = oid_loop rest (vals @ [int a]) 0"
    by (simp only: oid_loop.simps Let_def or lo simp_thms if_True)
  finally show ?thesis .
qed

lemma oid_loop_chunks: "oid_loop (concat (map oid_chunk arcs)) vals 0 = vals @ map int arcs"
  by (induction arcs arbitrary: vals) (simp_all add: oid_loop_chunk)

lemma last_oid_chunk: "last (oid_chunk a) AND 0x80 = 0" "oid_chunk a \<noteq> []"
  by (simp_all add: oid_chunk_def and_80_iff unat_of_nat_byte)

lemma last_oid_chunks: "arcs \<noteq> [] \<Longrightarrow> last (concat (map oid_chunk arcs)) AND 0x80 = 0"
  by (induction arcs rule: rev_induct) (simp_all add: last_oid_chunk)

interpretation oid_codec: content_codec encode_oid decode_oid ok_oid
proof unfold_locales
  fix arcs assume "ok_oid arcs"
  then show "\<exists>bs. encode_oid arcs = Inr bs"
    by (auto simp: ok_oid_def encode_oid_def list_all_iff split: list.splits)
next
  fix arcs bs assume ok: "ok_oid arcs" and enc: "encode_oid arcs = Inr bs"
  then obtain a0 a1 rest where arcs: "arcs = a0 # a1 # rest" by (auto simp: ok_oid_def split: list.splits)
  with ok have a: "0 \<le> a0" "a0 \<le> 2" "0 \<le> a1" "a0 = 2 \<or> a1 \<le> 39" and rest: "\<forall>a \<in> set rest. 0 \<le> a"
    by (auto simp: ok_oid_def list_all_iff)
  let ?as = "map nat ((a0 * 40 + a1) # rest)"
  have bs: "bs = concat (map oid_chunk ?as)"
    using enc by (auto simp: arcs encode_oid_def comp_def split: if_splits)
  have "map int (map nat rest) = rest" using rest by (auto intro!: map_idI)
  then have loop: "oid_loop bs [] 0 = (a0 * 40 + a1) # rest"
    using a oid_loop_chunks [of ?as "[]"] by (simp add: bs)
  have "bs \<noteq> []" using last_oid_chunk(2) by (simp add: bs)
  moreover have "last bs AND 0x80 = 0" unfolding bs by (rule last_oid_chunks) simp
  moreover have "min ((a0 * 40 + a1) div 40) 2 = a0" using a by auto
  ultimately show "decode_oid bs = Inr arcs" by (simp add: decode_oid_def loop Let_def arcs)
qed

section \<open>Properties\<close>

text \<open>C20: a TLV written by \<^verbatim>\<open>encode_tlv\<close> is read back by \<^verbatim>\<open>decode_tlv\<close> wherever it lies in a buffer: same
  tag, same content, and the offset right after it.\<close>
theorem tlv_round_trip:
  assumes "wf_tag tag" "encode_tlv tag content = Inr bs"
  shows "decode_tlv (pre @ bs @ post) (length pre) =
    Inr \<lparr>tlv_tag = tag, tlv_value = content, tlv_end = length pre + length bs\<rparr>"
  using assms by (rule decode_encode_tlv)

theorem tlv_round_trip_witness:
  "decode_tlv ([7] @ [0x83, 1, 0xFF] @ [9, 9]) 1 = Inr \<lparr>tlv_tag = 0x83, tlv_value = [0xFF], tlv_end = 4\<rparr>"
proof -
  have "wf_tag 0x83" by (rule wf_low_tag(2); simp)
  moreover have "encode_tlv 0x83 [0xFF] = Inr [0x83, 1, 0xFF]"
    by (simp add: encode_tlv_def wf_low_tag(1) encode_length_def)
  ultimately show ?thesis using tlv_round_trip [of "0x83" "[0xFF]" "[0x83, 1, 0xFF]" "[7]" "[9, 9]"] by simp
qed

text \<open>C21: the fast path of \<^verbatim>\<open>decode_tlv\<close> (one-octet tag, short length) computes what \<^verbatim>\<open>decode_tag\<close> and
  \<^verbatim>\<open>decode_length\<close> compute, error for error.\<close>
theorem fast_path_equivalent: "decode_tlv data offset = decode_tlv_spec data offset"
  by (rule decode_tlv_eq_spec)

text \<open>\<^verbatim>\<open>make_tag\<close> gives, for every class, form and non-negative number, a tag the decoder accepts and
  of which \<^verbatim>\<open>tag_number\<close> is the number.\<close>
lemma make_tag_read_back:
  assumes "is_class cls" "0 \<le> number"
  shows "\<exists>tag. make_tag number cls constructed = Inr tag \<and> wf_tag tag \<and> tag_number tag = Inr number"
  using assms by (rule make_tag_number)

text \<open>INTEGER contents: \<^verbatim>\<open>encode_integer\<close> never raises, is read back by \<^verbatim>\<open>decode_integer\<close>, and no
  two's complement encoding of the value is shorter.\<close>
lemma integer_shortest_round_trip:
  "\<exists>bs. encode_integer v = Inr bs \<and> decode_integer bs = Inr v
    \<and> (\<forall>k cs. to_bytes_signed k v = Inr cs \<and> 0 < k \<longrightarrow> length bs \<le> k)"
proof -
  obtain bs where bs: "encode_integer v = Inr bs" using integer_codec.enc_total [of v] by auto
  then have "length bs \<le> k" if "to_bytes_signed k v = Inr cs" "0 < k" for k cs
    using encode_integer_shortest [OF bs that] to_bytes_signed_length [OF that(1)] by simp
  then show ?thesis using bs integer_codec.dec_enc [OF _ bs] by blast
qed

text \<open>OBJECT IDENTIFIER contents are read back, arcs beyond 127 and a first pair beyond 79 included.\<close>
lemma oid_round_trip:
  assumes "ok_oid arcs"
  shows "bindE (encode_oid arcs) decode_oid = Inr arcs"
  using assms by (rule oid_codec.round_trip)

text \<open>Whatever the octets, \<^verbatim>\<open>iter_tlvs\<close> ends, raises \<^verbatim>\<open>BerError\<close> only, and yields values that lie in the
  buffer behind a header of two octets at least.\<close>
lemma iter_tlvs_safe:
  "(\<forall>e. snd (iter_tlvs data) = Some e \<longrightarrow> e = BerError)
   \<and> (\<forall>t \<in> set (fst (iter_tlvs data)). 2 + length (tlv_value t) \<le> length data)"
  using iter_tlvs_error iter_tlvs_bounds by blast

end
