(* ===== verification/MmsData.thy ===== *)
theory MmsData
  imports Ber
begin

text \<open>
  \<^verbatim>\<open>src/open61850/data.py\<close>: the MMS \<^verbatim>\<open>Data\<close> values, their times and their BER encoding.

  A \<^verbatim>\<open>datetime\<close> is the number of microseconds since 1970-01-01 UTC (a naive one is taken as UTC by
  the code, so both are the same number). A float is kept as its IEEE 754 bits: those of the double
  when \<open>double\<close> is set, else those of the single it packs to, which is what \<^verbatim>\<open>_shortest_float32\<close>
  preserves (\<^verbatim>\<open>struct.pack("!f", candidate) == raw\<close>); the decimal it picks among the doubles that
  pack to the same single is not modelled. Python's recursion limit is not modelled.
\<close>

section \<open>Values\<close>

datatype pyfloat = F32 "32 word" | F64 "64 word"

datatype iecdata =
    BoolData bool
  | IntData int
  | UIntData int
  | FloatData pyfloat
  | BitStringData bytes int \<comment> \<open>octets, unused bits\<close>
  | OctetStringData bytes
  | VisibleStringData ustr
  | MmsStringData ustr
  | TimestampData int int \<comment> \<open>microseconds since 1970, TimeQuality octet\<close>
  | StructureData "iecdata list"
  | ArrayData "iecdata list"
  | RawData int bytes

section \<open>UTF-8\<close>

text \<open>\<^verbatim>\<open>str.encode("utf-8")\<close>: strict, a surrogate raises UnicodeEncodeError.\<close>

definition utf8_octets :: "nat \<Rightarrow> bytes result" where
  "utf8_octets c =
     (if c < 0x80 then Inr [of_nat c]
      else if c < 0x800 then Inr [of_nat (0xC0 + c div 64), of_nat (0x80 + c mod 64)]
      else if 0xD800 \<le> c \<and> c \<le> 0xDFFF then Inl UnicodeError
      else if c < 0x10000 then
        Inr [of_nat (0xE0 + c div 4096), of_nat (0x80 + c div 64 mod 64), of_nat (0x80 + c mod 64)]
      else Inr [of_nat (0xF0 + c div 262144), of_nat (0x80 + c div 4096 mod 64),
                of_nat (0x80 + c div 64 mod 64), of_nat (0x80 + c mod 64)])"

definition encode_utf8 :: "ustr \<Rightarrow> bytes result" where
  "encode_utf8 s = mapE concat (traverse utf8_octets s)"

text \<open>
  \<^verbatim>\<open>bytes.decode("utf-8", errors="replace")\<close>: each maximal prefix of an ill-formed sequence is
  one U+FFFD. A leading octet gives the continuation octets to come, the range of the first one and
  the bits it carries itself.
\<close>

definition utf8_lead :: "nat \<Rightarrow> (nat \<times> nat \<times> nat \<times> nat) option" where
  "utf8_lead b =
     (if 0xC2 \<le> b \<and> b \<le> 0xDF then Some (1, 0x80, 0xBF, b - 0xC0)
      else if b = 0xE0 then Some (2, 0xA0, 0xBF, 0)
      else if b = 0xED then Some (2, 0x80, 0x9F, 0xD)
      else if 0xE1 \<le> b \<and> b \<le> 0xEF then Some (2, 0x80, 0xBF, b - 0xE0)
      else if b = 0xF0 then Some (3, 0x90, 0xBF, 0)
      else if 0xF1 \<le> b \<and> b \<le> 0xF3 then Some (3, 0x80, 0xBF, b - 0xF0)
      else if b = 0xF4 then Some (3, 0x80, 0x8F, 4)
      else None)"

fun utf8_cont :: "nat \<Rightarrow> nat \<Rightarrow> nat \<Rightarrow> nat \<Rightarrow> bytes \<Rightarrow> nat option \<times> bytes" where
  "utf8_cont 0 lo hi acc bs = (Some acc, bs)"
| "utf8_cont (Suc k) lo hi acc [] = (None, [])"
| "utf8_cont (Suc k) lo hi acc (b # bs) =
     (if lo \<le> unat b \<and> unat b \<le> hi then utf8_cont k 0x80 0xBF (acc * 64 + unat b mod 64) bs
      else (None, b # bs))"

lemma utf8_cont_length: "length (snd (utf8_cont k lo hi acc bs)) \<le> length bs"
  by (induction k lo hi acc bs rule: utf8_cont.induct) auto

function decode_utf8_replace :: "bytes \<Rightarrow> ustr" where
  "decode_utf8_replace [] = []"
| "decode_utf8_replace (b # bs) =
     (if unat b < 0x80 then unat b # decode_utf8_replace bs
      else case utf8_lead (unat b) of
          None \<Rightarrow> 0xFFFD # decode_utf8_replace bs
        | Some (k, lo, hi, acc) \<Rightarrow>
            (case fst (utf8_cont k lo hi acc bs) of None \<Rightarrow> 0xFFFD | Some c \<Rightarrow> c)
            # decode_utf8_replace (snd (utf8_cont k lo hi acc bs)))"
  by pat_completeness auto
termination
  by (relation "measure length") (auto simp: less_Suc_eq_le utf8_cont_length)

section \<open>Times\<close>

definition encode_utc_time :: "int \<Rightarrow> int \<Rightarrow> bytes result" where
  "encode_utc_time value quality =
     (let secs = value div 1000000;
          frac = ((value mod 1000000) * 2 ^ 24 + 500000) div 1000000;
          frac' = (if frac > 0xFFFFFF then 0xFFFFFF else frac)
      in bindE (to_bytes 4 secs) (\<lambda>s. bindE (to_bytes 3 frac') (\<lambda>f.
           Inr (s @ f @ [word_of_int (quality AND 0xFF)]))))"

definition decode_utc_time :: "bytes \<Rightarrow> (int \<times> int) result" where
  "decode_utc_time raw =
     (if length raw < 8 then Inl BerError
      else let secs = from_bytes (slice raw 0 4); frac = from_bytes (slice raw 4 7);
               micros = drop_bit 24 (frac * 1000000 + 2 ^ 23)
        in Inr (secs * 1000000 + micros, uint (raw ! 7)))"

definition EPOCH_1984 :: int where
  "EPOCH_1984 = 5113 * 86400 * 1000000" \<comment> \<open>14 years of which three leap, in microseconds\<close>

definition encode_binary_time :: "int \<Rightarrow> bytes result" where
  "encode_binary_time value =
     (let delta = value - EPOCH_1984; days = delta div 86400000000;
          in_day = delta mod 86400000000;
          ms = (in_day div 1000000) * 1000 + (in_day mod 1000000) div 1000
      in bindE (to_bytes 4 ms) (\<lambda>m. bindE (to_bytes 2 days) (\<lambda>d. Inr (m @ d))))"

definition decode_binary_time :: "bytes \<Rightarrow> int result" where
  "decode_binary_time raw =
     (if length raw \<noteq> 6 then Inl BerError
      else let ms = from_bytes (slice raw 0 4); days = from_bytes (slice raw 4 6)
        in Inr (EPOCH_1984 + days * 86400000000 + ms * 1000))"

section \<open>Decoding\<close>

text \<open>\<^verbatim>\<open>struct.pack\<close> and \<^verbatim>\<open>struct.unpack\<close> of a float, on its bits.\<close>

definition pack_float :: "pyfloat \<Rightarrow> bytes" where
  "pack_float f = (case f of F32 w \<Rightarrow> nat_be 4 (unat w) | F64 w \<Rightarrow> nat_be 8 (unat w))"

definition unpack_float32 :: "bytes \<Rightarrow> pyfloat" where
  "unpack_float32 raw = F32 (of_nat (be_nat raw))"

definition unpack_float64 :: "bytes \<Rightarrow> pyfloat" where
  "unpack_float64 raw = F64 (of_nat (be_nat raw))"

function (sequential)
      decode_data :: "int \<Rightarrow> bytes \<Rightarrow> iecdata result"
  and decode_data_seq :: "bytes \<Rightarrow> nat \<Rightarrow> iecdata list result" where
  "decode_data tag value =
     (if tag = 0x83 then Inr (BoolData (value \<noteq> [] \<and> hd value \<noteq> 0))
      else if tag = 0x84 then
        Inr (BitStringData (drop 1 value) (if value \<noteq> [] then uint (hd value) else 0))
      else if tag = 0x85 then Inr (IntData (if value \<noteq> [] then from_bytes_signed value else 0))
      else if tag = 0x86 then Inr (UIntData (if value \<noteq> [] then from_bytes value else 0))
      else if tag = 0x87 \<and> length value = 5 then Inr (FloatData (unpack_float32 (drop 1 value)))
      else if tag = 0x87 \<and> length value = 9 then Inr (FloatData (unpack_float64 (drop 1 value)))
      else if tag = 0x89 then Inr (OctetStringData value)
      else if tag = 0x8A \<or> tag = 0x1A \<or> tag = 0x80 then
        Inr (VisibleStringData (decode_ascii_replace value))
      else if tag = 0x8C \<and> length value = 6 then
        bindE (decode_binary_time value) (\<lambda>t. Inr (TimestampData t 0))
      else if tag = 0x8F then Inr (MmsStringData (decode_utf8_replace value))
      else if tag = 0x91 \<and> 8 \<le> length value then
        bindE (decode_utc_time value) (\<lambda>(t, q). Inr (TimestampData t q))
      else if tag = 0xA1 then bindE (decode_data_seq value 0) (\<lambda>ds. Inr (ArrayData ds))
      else if tag = 0xA2 then bindE (decode_data_seq value 0) (\<lambda>ds. Inr (StructureData ds))
      else Inr (RawData tag value))"
| "decode_data_seq data offset =
     (if length data \<le> offset then Inr []
      else bindE (decode_tlv data offset) (\<lambda>t.
           bindE (decode_data (tlv_tag t) (tlv_value t)) (\<lambda>d.
           bindE (decode_data_seq data (tlv_end t)) (\<lambda>ds. Inr (d # ds)))))"
  by pat_completeness auto
termination
proof (relation "measure (\<lambda>x. case x of Inl (tag, value) \<Rightarrow> 2 * length value + 1
    | Inr (data, offset) \<Rightarrow> 2 * (length data - offset))", goal_cases)
  case (4 data offset t)
  then show ?case using decode_tlv_progress(1,2) [of data offset t] by simp
next
  case (5 data offset t d)
  then show ?case using decode_tlv_progress(1,2) [of data offset t] by simp
qed simp_all

declare decode_data.simps [simp del] decode_data_seq.simps [simp del]

definition decode_data_at :: "bytes \<Rightarrow> nat \<Rightarrow> (iecdata \<times> nat) result" where
  "decode_data_at data offset =
     bindE (decode_tlv data offset) (\<lambda>t.
       bindE (decode_data (tlv_tag t) (tlv_value t)) (\<lambda>d. Inr (d, tlv_end t)))"

definition decode_data_sequence :: "bytes \<Rightarrow> iecdata list result" where
  "decode_data_sequence data = decode_data_seq data 0"

text \<open>
  \<^verbatim>\<open>decode_data\<close> and \<^verbatim>\<open>decode_data_sequence\<close> call each other once for each level of nesting, so that the stack of the
  interpreter bounds it: \<open>decode_data_within n\<close> is \<^verbatim>\<open>decode_data\<close> where the recursion limit leaves room for \<open>n\<close> levels of
  arrays and structures, and the next one raises RecursionError. \<open>decode_data\<close> is the same code on a stack that is deep
  enough; half as many levels as there are octets are (\<open>sequence_within_enough\<close>), since each level takes two octets.
\<close>

definition data_comprehension :: "(int \<Rightarrow> bytes \<Rightarrow> iecdata result) \<Rightarrow> bytes \<Rightarrow> iecdata list result" where
  "data_comprehension dec data =
     bindE (traverse (\<lambda>t. dec (tlv_tag t) (tlv_value t)) (fst (iter_tlvs data)))
       (\<lambda>ds. case snd (iter_tlvs data) of None \<Rightarrow> Inr ds | Some e \<Rightarrow> Inl e)"

fun decode_data_within :: "nat \<Rightarrow> int \<Rightarrow> bytes \<Rightarrow> iecdata result" where
  "decode_data_within 0 tag value = (if tag = 0xA1 \<or> tag = 0xA2 then Inl RecursionError else decode_data tag value)"
| "decode_data_within (Suc n) tag value =
     (if tag = 0xA1 then bindE (data_comprehension (decode_data_within n) value) (\<lambda>ds. Inr (ArrayData ds))
      else if tag = 0xA2 then bindE (data_comprehension (decode_data_within n) value) (\<lambda>ds. Inr (StructureData ds))
      else decode_data tag value)"

definition decode_sequence_within :: "nat \<Rightarrow> bytes \<Rightarrow> iecdata list result" where
  "decode_sequence_within n data = data_comprehension (decode_data_within n) data"

section \<open>Encoding\<close>

fun encode_data :: "iecdata \<Rightarrow> bytes result" where
  "encode_data (BoolData v) = encode_tlv 0x83 (encode_boolean v)"
| "encode_data (IntData v) = bindE (encode_integer v) (encode_tlv 0x85)"
| "encode_data (UIntData v) = bindE (encode_unsigned v) (encode_tlv 0x86)"
| "encode_data (FloatData f) =
     encode_tlv 0x87 ((case f of F64 _ \<Rightarrow> 0x0B | F32 _ \<Rightarrow> 0x08) # pack_float f)"
| "encode_data (BitStringData v unused) =
     (if \<not> (0 \<le> unused \<and> unused \<le> 7) then Inl ValueError
      else encode_tlv 0x84 (word_of_int unused # v))"
| "encode_data (OctetStringData v) = encode_tlv 0x89 v"
| "encode_data (VisibleStringData v) = encode_tlv 0x8A (encode_ascii_replace v)"
| "encode_data (MmsStringData v) = bindE (encode_utf8 v) (encode_tlv 0x8F)"
| "encode_data (TimestampData t q) = bindE (encode_utc_time t q) (encode_tlv 0x91)"
| "encode_data (StructureData ms) =
     bindE (traverse encode_data ms) (\<lambda>bs. encode_tlv 0xA2 (concat bs))"
| "encode_data (ArrayData es) =
     bindE (traverse encode_data es) (\<lambda>bs. encode_tlv 0xA1 (concat bs))"
| "encode_data (RawData tag v) = encode_tlv tag v"

section \<open>UTF-8 read back\<close>

text \<open>The code points a Python string may hold, surrogates left out.\<close>

definition is_scalar :: "nat \<Rightarrow> bool" where
  "is_scalar c \<longleftrightarrow> c < 0x110000 \<and> \<not> (0xD800 \<le> c \<and> c \<le> 0xDFFF)"

lemma continuation_mod: "(128 + m mod 64) mod 64 = m mod (64 :: nat)"
proof -
  have "(2 * 64 + m mod 64) mod 64 = m mod 64 mod 64" by (rule mod_mult_self3)
  then show ?thesis by simp
qed

lemma utf8_cont_step:
  "lo \<le> n \<Longrightarrow> n \<le> hi \<Longrightarrow> hi < 256 \<Longrightarrow>
   utf8_cont (Suc k) lo hi acc (of_nat n # bs) = utf8_cont k 0x80 0xBF (acc * 64 + n mod 64) bs"
  by (simp add: unat_of_nat_small)

lemma utf8_cont_1:
  "lo \<le> n \<Longrightarrow> n \<le> hi \<Longrightarrow> hi < 256 \<Longrightarrow>
   utf8_cont (Suc 0) lo hi acc (of_nat n # bs) = (Some (acc * 64 + n mod 64), bs)"
  by (subst utf8_cont_step) simp_all

lemma utf8_cont_2:
  "lo \<le> n \<Longrightarrow> n \<le> hi \<Longrightarrow> hi < 256 \<Longrightarrow> 0x80 \<le> m \<Longrightarrow> m \<le> 0xBF \<Longrightarrow>
   utf8_cont (Suc (Suc 0)) lo hi acc (of_nat n # of_nat m # bs) = (Some ((acc * 64 + n mod 64) * 64 + m mod 64), bs)"
  by (subst utf8_cont_step) (simp_all add: utf8_cont_1 del: utf8_cont.simps)

lemma utf8_cont_3:
  "lo \<le> n \<Longrightarrow> n \<le> hi \<Longrightarrow> hi < 256 \<Longrightarrow> 0x80 \<le> m \<Longrightarrow> m \<le> 0xBF \<Longrightarrow> 0x80 \<le> l \<Longrightarrow> l \<le> 0xBF \<Longrightarrow>
   utf8_cont (Suc (Suc (Suc 0))) lo hi acc (of_nat n # of_nat m # of_nat l # bs)
     = (Some (((acc * 64 + n mod 64) * 64 + m mod 64) * 64 + l mod 64), bs)"
  by (subst utf8_cont_step) (simp_all add: utf8_cont_2 del: utf8_cont.simps)

lemma utf8_one: "c < 0x80 \<Longrightarrow> decode_utf8_replace (of_nat c # rest) = c # decode_utf8_replace rest"
  by (simp add: unat_of_nat_small)

lemma utf8_multi:
  assumes "b < 256" "\<not> b < 0x80" "utf8_lead b = Some (k, lo, hi, acc)" "utf8_cont k lo hi acc bs = (Some c, rest)"
  shows "decode_utf8_replace (of_nat b # bs) = c # decode_utf8_replace rest"
  using assms by (simp add: unat_of_nat_small)

lemma utf8_two:
  assumes "0x80 \<le> c" "c < 0x800"
  shows "decode_utf8_replace (of_nat (0xC0 + c div 64) # of_nat (0x80 + c mod 64) # rest)
    = c # decode_utf8_replace rest"
proof (rule utf8_multi)
  have r: "2 \<le> c div 64" "c div 64 < 32" using assms by auto
  then show "0xC0 + c div 64 < 256" "\<not> 0xC0 + c div 64 < 0x80" by simp_all
  show "utf8_lead (0xC0 + c div 64) = Some (Suc 0, 0x80, 0xBF, c div 64)"
    using r by (simp add: utf8_lead_def)
  have m: "0x80 + c mod 64 \<le> 0xBF" by (simp add: less_Suc_eq_le [symmetric])
  show "utf8_cont (Suc 0) 0x80 0xBF (c div 64) (of_nat (0x80 + c mod 64) # rest) = (Some c, rest)"
    by (subst utf8_cont_1) (use m in \<open>simp_all only: continuation_mod, simp_all\<close>)
qed

lemma utf8_three:
  assumes "0x800 \<le> c" "c < 0x10000" "\<not> (0xD800 \<le> c \<and> c \<le> 0xDFFF)"
  shows "decode_utf8_replace (of_nat (0xE0 + c div 4096) # of_nat (0x80 + c div 64 mod 64)
    # of_nat (0x80 + c mod 64) # rest) = c # decode_utf8_replace rest"
proof -
  let ?q = "c div 4096"
  define lo :: nat where "lo = (if ?q = 0 then 0xA0 else 0x80)"
  define hi :: nat where "hi = (if ?q = 0xD then 0x9F else 0xBF)"
  have q: "?q < 16" using assms by auto
  have m1: "0x80 + c div 64 mod 64 \<le> 0xBF" and m0: "0x80 + c mod 64 \<le> 0xBF"
    by (simp_all add: less_Suc_eq_le [symmetric])
  have split: "c div 64 = ?q * 64 + c div 64 mod 64"
  proof -
    have "c div 64 div 64 = ?q" by (simp flip: div_mult2_eq)
    then show ?thesis by (metis div_mult_mod_eq)
  qed
  have lo: "lo \<le> 0x80 + c div 64 mod 64"
    using assms(1) split by (auto simp: lo_def)
  have hi: "0x80 + c div 64 mod 64 \<le> hi"
  proof (cases "?q = 0xD")
    case True
    then have "c div 64 < 0xD800 div 64" using assms(3) split by auto
    then show ?thesis using True split by (simp add: hi_def)
  next
    case False
    then show ?thesis using m1 by (simp add: hi_def)
  qed
  show ?thesis
  proof (rule utf8_multi)
    show "0xE0 + ?q < 256" "\<not> 0xE0 + ?q < 0x80" using q by simp_all
    show "utf8_lead (0xE0 + ?q) = Some (Suc (Suc 0), lo, hi, ?q)"
      using q by (simp add: utf8_lead_def lo_def hi_def)
    have "(?q * 64 + (0x80 + c div 64 mod 64) mod 64) * 64 + (0x80 + c mod 64) mod 64 = c"
      using split by (simp only: continuation_mod) simp
    moreover have "hi < 256" by (simp add: hi_def)
    ultimately show "utf8_cont (Suc (Suc 0)) lo hi ?q (of_nat (0x80 + c div 64 mod 64) # of_nat (0x80 + c mod 64) # rest)
        = (Some c, rest)"
      using utf8_cont_2 [OF lo hi _ le_add1 m0] by (simp only:)
  qed
qed

lemma utf8_four:
  assumes "0x10000 \<le> c" "c < 0x110000"
  shows "decode_utf8_replace (of_nat (0xF0 + c div 262144) # of_nat (0x80 + c div 4096 mod 64)
    # of_nat (0x80 + c div 64 mod 64) # of_nat (0x80 + c mod 64) # rest) = c # decode_utf8_replace rest"
proof -
  let ?q = "c div 262144"
  define lo :: nat where "lo = (if ?q = 0 then 0x90 else 0x80)"
  define hi :: nat where "hi = (if ?q = 4 then 0x8F else 0xBF)"
  have q: "?q \<le> 4" using assms by auto
  have m2: "0x80 + c div 4096 mod 64 \<le> 0xBF" and m1: "0x80 + c div 64 mod 64 \<le> 0xBF"
    and m0: "0x80 + c mod 64 \<le> 0xBF"
    by (simp_all add: less_Suc_eq_le [symmetric])
  have "c div 4096 div 64 = ?q" "c div 64 div 64 = c div 4096" by (simp_all flip: div_mult2_eq)
  then have split: "c div 4096 = ?q * 64 + c div 4096 mod 64" "c div 64 = c div 4096 * 64 + c div 64 mod 64"
    by (metis div_mult_mod_eq)+
  have lo: "lo \<le> 0x80 + c div 4096 mod 64" using assms(1) split(1) by (auto simp: lo_def)
  have hi: "0x80 + c div 4096 mod 64 \<le> hi"
  proof (cases "?q = 4")
    case True
    have "c div 4096 < 0x110" using assms(2) by auto
    then show ?thesis using True split(1) by (simp add: hi_def)
  next
    case False
    then show ?thesis using m2 by (simp add: hi_def)
  qed
  show ?thesis
  proof (rule utf8_multi)
    show "0xF0 + ?q < 256" "\<not> 0xF0 + ?q < 0x80" using q by simp_all
    show "utf8_lead (0xF0 + ?q) = Some (Suc (Suc (Suc 0)), lo, hi, ?q)"
      using q by (auto simp: utf8_lead_def lo_def hi_def)
    have "((?q * 64 + (0x80 + c div 4096 mod 64) mod 64) * 64 + (0x80 + c div 64 mod 64) mod 64) * 64
        + (0x80 + c mod 64) mod 64 = c"
      using split by (simp only: continuation_mod) simp
    moreover have "hi < 256" by (simp add: hi_def)
    ultimately show "utf8_cont (Suc (Suc (Suc 0))) lo hi ?q (of_nat (0x80 + c div 4096 mod 64)
        # of_nat (0x80 + c div 64 mod 64) # of_nat (0x80 + c mod 64) # rest) = (Some c, rest)"
      using utf8_cont_3 [OF lo hi _ le_add1 m1 le_add1 m0] by (simp only:)
  qed
qed

lemma utf8_octets_decode:
  assumes "is_scalar c" "utf8_octets c = Inr bs"
  shows "decode_utf8_replace (bs @ rest) = c # decode_utf8_replace rest"
  using assms utf8_one [of c rest] utf8_two [of c rest] utf8_three [of c rest] utf8_four [of c rest]
  by (auto simp: utf8_octets_def is_scalar_def simp del: decode_utf8_replace.simps split: if_splits)

lemma traverse_utf8_decode:
  "list_all is_scalar s \<Longrightarrow> traverse utf8_octets s = Inr bss \<Longrightarrow> decode_utf8_replace (concat bss) = s"
  by (induction s arbitrary: bss) (auto simp: bindE_Inr_iff utf8_octets_decode)

interpretation utf8_codec:
  content_codec encode_utf8 "\<lambda>bs. Inr (decode_utf8_replace bs)" "list_all is_scalar"
proof unfold_locales
  fix s assume "list_all is_scalar s"
  then have "\<exists>bss. traverse utf8_octets s = Inr bss"
    by (induction s) (auto simp: is_scalar_def utf8_octets_def bindE_Inr_iff)
  then show "\<exists>bs. encode_utf8 s = Inr bs" by (auto simp: encode_utf8_def)
next
  fix s bs assume "list_all is_scalar s" "encode_utf8 s = Inr bs"
  then show "Inr (decode_utf8_replace bs) = Inr s"
    by (auto simp: encode_utf8_def mapE_Inr_iff traverse_utf8_decode)
qed

section \<open>Times read back\<close>

text \<open>The instants a UtcTime can hold: from 1970 to the end of its 32-bit seconds.\<close>

definition ok_utc :: "int \<times> int \<Rightarrow> bool" where
  "ok_utc p \<longleftrightarrow> 0 \<le> fst p \<and> fst p < 2 ^ 32 * 1000000 \<and> 0 \<le> snd p \<and> snd p < 256"

lemma utc_fraction:
  fixes m :: int
  assumes "0 \<le> m" "m < 1000000"
  defines "f \<equiv> (m * 2 ^ 24 + 500000) div 1000000"
  shows "0 \<le> f" "f \<le> 0xFFFFFF" "drop_bit 24 (f * 1000000 + 2 ^ 23) = m"
proof -
  have n: "f * 1000000 \<le> m * 16777216 + 500000" "m * 16777216 + 500000 < f * 1000000 + 1000000"
    unfolding f_def by simp_all
  show "0 \<le> f" using n assms(1) by linarith
  show "f \<le> 0xFFFFFF" using n assms(1,2) by linarith
  have "(f * 1000000 + 8388608) div 16777216 = m" using n by linarith
  then show "drop_bit 24 (f * 1000000 + 2 ^ 23) = m" by (simp add: drop_bit_eq_div)
qed

lemma to_bytes_slices:
  assumes "to_bytes 4 s = Inr a" "to_bytes 3 f = Inr b"
  shows "from_bytes (slice (a @ b @ [c]) 0 4) = s" "from_bytes (slice (a @ b @ [c]) 4 7) = f"
    "(a @ b @ [c]) ! 7 = c"
  using from_bytes_to_bytes [OF assms(1)] from_bytes_to_bytes [OF assms(2)]
  by (simp_all add: slice_def nth_append)

interpretation utc_time_codec: content_codec "\<lambda>p. encode_utc_time (fst p) (snd p)" decode_utc_time ok_utc
proof unfold_locales
  fix p assume ok: "ok_utc p"
  let ?f = "((fst p mod 1000000) * 2 ^ 24 + 500000) div 1000000"
  have "0 \<le> fst p div 1000000" "fst p div 1000000 < 256 ^ 4" using ok by (auto simp: ok_utc_def)
  then obtain a where a: "to_bytes 4 (fst p div 1000000) = Inr a" using to_bytes_ok by blast
  have f: "0 \<le> ?f" "?f \<le> 0xFFFFFF" using utc_fraction [of "fst p mod 1000000"] by simp_all
  then obtain b where "to_bytes 3 ?f = Inr b" using to_bytes_ok [of ?f 3] by fastforce
  then show "\<exists>bs. encode_utc_time (fst p) (snd p) = Inr bs"
    using a f(2) unfolding encode_utc_time_def Let_def by (simp only: not_less [symmetric] if_False bindE.simps) blast
next
  fix p bs assume ok: "ok_utc p" and enc: "encode_utc_time (fst p) (snd p) = Inr bs"
  let ?f = "((fst p mod 1000000) * 2 ^ 24 + 500000) div 1000000"
  have f: "?f \<le> 0xFFFFFF" "drop_bit 24 (?f * 1000000 + 2 ^ 23) = fst p mod 1000000"
    using utc_fraction [of "fst p mod 1000000"] by simp_all
  then have "\<not> 0xFFFFFF < ?f" by simp
  then obtain a b where ab: "to_bytes 4 (fst p div 1000000) = Inr a" "to_bytes 3 ?f = Inr b"
    and bs: "bs = a @ b @ [word_of_int (snd p AND 0xFF)]"
    using enc by (auto simp: encode_utc_time_def Let_def bindE_Inr_iff)
  have "snd p AND 0xFF = take_bit 8 (snd p)"
    by (simp add: take_bit_eq_mask mask_eq_exp_minus_1)
  also have "\<dots> = snd p" using ok by (simp add: ok_utc_def take_bit_int_eq_self)
  finally have "snd p AND 0xFF = snd p" .
  then have q: "uint (word_of_int (snd p AND 0xFF) :: byte) = snd p"
    using ok by (simp add: ok_utc_def uint_word_of_int)
  have len: "length bs = 8"
    using from_bytes_to_bytes [OF ab(1)] from_bytes_to_bytes [OF ab(2)] by (simp add: bs)
  have "fst p div 1000000 * 1000000 + fst p mod 1000000 = fst p" by (rule div_mult_mod_eq)
  then show "decode_utc_time bs = Inr p"
    using f(2) q len to_bytes_slices [OF ab, of "word_of_int (snd p AND 0xFF)"]
    by (simp add: decode_utc_time_def Let_def bs del: slice_append_mid)
qed

definition ok_binary_time :: "int \<Rightarrow> bool" where
  "ok_binary_time t \<longleftrightarrow> 0 \<le> t - EPOCH_1984 \<and> t - EPOCH_1984 < 65536 * 86400000000 \<and> (t - EPOCH_1984) mod 1000 = 0"

lemma day_milliseconds_bound:
  "(d :: int) mod 86400000000 div 1000000 * 1000 + d mod 86400000000 mod 1000000 div 1000 \<in> {0..<86400000}"
proof -
  define r where "r = d mod 86400000000"
  have "0 \<le> r" "r < 86400000000" by (simp_all add: r_def)
  moreover have "0 \<le> r mod 1000000 div 1000" "r mod 1000000 div 1000 < 1000"
    using pos_mod_bound [of 1000000 r] by (auto simp: pos_imp_zdiv_nonneg_iff)
  moreover have "0 \<le> r div 1000000" "r div 1000000 < 86400"
    using calculation(1,2) by (auto simp: pos_imp_zdiv_nonneg_iff)
  ultimately have "r div 1000000 * 1000 + r mod 1000000 div 1000 \<in> {0..<86400000}"
    unfolding atLeastLessThan_iff by linarith
  then show ?thesis by (simp only: r_def)
qed

lemma day_milliseconds:
  assumes "(d :: int) mod 1000 = 0"
  shows "(d mod 86400000000 div 1000000 * 1000 + d mod 86400000000 mod 1000000 div 1000) * 1000 = d mod 86400000000"
proof -
  define r where "r = d mod 86400000000"
  have "r mod 1000 = d mod 1000" unfolding r_def by (rule mod_mod_cancel) simp
  moreover have "r mod 1000000 mod 1000 = r mod 1000" by (rule mod_mod_cancel) simp
  ultimately have "r mod 1000000 mod 1000 = 0" using assms by simp
  then have "r mod 1000000 div 1000 * 1000 = r mod 1000000"
    using div_mult_mod_eq [of "r mod 1000000" 1000] by linarith
  moreover have "r div 1000000 * 1000000 + r mod 1000000 = r" by simp
  ultimately have "(r div 1000000 * 1000 + r mod 1000000 div 1000) * 1000 = r"
    by (simp only: distrib_right mult.assoc)
  then show ?thesis by (simp only: r_def)
qed

interpretation binary_time_codec: content_codec encode_binary_time decode_binary_time ok_binary_time
proof unfold_locales
  fix t assume ok: "ok_binary_time t"
  let ?d = "t - EPOCH_1984"
  have "0 \<le> ?d div 86400000000" "?d div 86400000000 < 256 ^ 2" using ok by (auto simp: ok_binary_time_def)
  then obtain b where b: "to_bytes 2 (?d div 86400000000) = Inr b" using to_bytes_ok by blast
  have "0 \<le> ?d mod 86400000000 div 1000000 * 1000 + ?d mod 86400000000 mod 1000000 div 1000"
    "?d mod 86400000000 div 1000000 * 1000 + ?d mod 86400000000 mod 1000000 div 1000 < 256 ^ 4"
    using day_milliseconds_bound [of ?d] by simp_all
  then obtain a where "to_bytes 4 (?d mod 86400000000 div 1000000 * 1000 + ?d mod 86400000000 mod 1000000 div 1000) = Inr a"
    using to_bytes_ok by blast
  with b show "\<exists>bs. encode_binary_time t = Inr bs"
    unfolding encode_binary_time_def Let_def by (simp only: bindE.simps) blast
next
  fix t bs assume ok: "ok_binary_time t" and enc: "encode_binary_time t = Inr bs"
  let ?d = "t - EPOCH_1984"
  let ?ms = "?d mod 86400000000 div 1000000 * 1000 + ?d mod 86400000000 mod 1000000 div 1000"
  obtain a b where ab: "to_bytes 4 ?ms = Inr a" "to_bytes 2 (?d div 86400000000) = Inr b" and bs: "bs = a @ b"
    using enc by (auto simp: encode_binary_time_def Let_def bindE_Inr_iff)
  have len: "length a = 4" "length b = 2" and val: "from_bytes a = ?ms" "from_bytes b = ?d div 86400000000"
    using from_bytes_to_bytes [OF ab(1)] from_bytes_to_bytes [OF ab(2)] by simp_all
  have "?ms * 1000 = ?d mod 86400000000" by (rule day_milliseconds) (use ok in \<open>simp add: ok_binary_time_def\<close>)
  then have whole: "?d div 86400000000 * 86400000000 + ?ms * 1000 = ?d" by simp
  have sl: "length bs = 6" "slice bs 0 4 = a" "slice bs 4 6 = b" using len by (simp_all add: bs slice_def)
  have "EPOCH_1984 + ?d div 86400000000 * 86400000000 + ?ms * 1000 = t"
    unfolding add.assoc whole by simp
  then show "decode_binary_time bs = Inr t"
    unfolding decode_binary_time_def Let_def sl val by simp
qed

section \<open>Data read back\<close>

text \<open>
  The values the decoder gives back as they were: unsigned values that are not negative, ASCII
  visible strings, instants a UtcTime holds, raw values of a tag the decoder does not know.
\<close>

fun ok_data :: "iecdata \<Rightarrow> bool" where
  "ok_data (UIntData v) = (0 \<le> v)"
| "ok_data (BitStringData v unused) = (0 \<le> unused \<and> unused \<le> 7)"
| "ok_data (VisibleStringData v) = is_ascii v"
| "ok_data (MmsStringData v) = list_all is_scalar v"
| "ok_data (TimestampData t q) = ok_utc (t, q)"
| "ok_data (StructureData ms) = list_all ok_data ms"
| "ok_data (ArrayData es) = list_all ok_data es"
| "ok_data (RawData tag v) = (wf_tag tag \<and> decode_data tag v = Inr (RawData tag v))"
| "ok_data _ = True"

lemma wf_data_tags:
  "wf_tag 0x83" "wf_tag 0x84" "wf_tag 0x85" "wf_tag 0x86" "wf_tag 0x87" "wf_tag 0x89" "wf_tag 0x8A"
  "wf_tag 0x8F" "wf_tag 0x91" "wf_tag 0xA1" "wf_tag 0xA2"
  by (rule wf_low_tag(2); simp)+

definition tlv_of :: "iecdata \<Rightarrow> bytes \<Rightarrow> bool" where
  "tlv_of d bs \<longleftrightarrow> (\<exists>tag content. wf_tag tag \<and> encode_tlv tag content = Inr bs \<and> decode_data tag content = Inr d)"

lemma decode_data_seq_concat:
  "list_all2 tlv_of ds bss \<Longrightarrow> decode_data_seq (pre @ concat bss) (length pre) = Inr ds"
proof (induction ds arbitrary: bss pre)
  case Nil
  then show ?case by (simp add: decode_data_seq.simps)
next
  case (Cons d ds)
  then obtain b bss' where bss: "bss = b # bss'" and b: "tlv_of d b" and rest: "list_all2 tlv_of ds bss'"
    by (auto simp: list_all2_Cons1)
  from b obtain tag content where tc: "wf_tag tag" "encode_tlv tag content = Inr b" "decode_data tag content = Inr d"
    by (auto simp: tlv_of_def)
  have ne: "b \<noteq> []" using tc(2) by (auto simp: encode_tlv_def bindE_Inr_iff)
  show ?case
    using decode_encode_tlv [OF tc(1,2), of pre "concat bss'"] Cons.IH [OF rest, of "pre @ b"] tc(3) ne
    by (subst decode_data_seq.simps) (simp add: bss)
qed

lemma unpack_pack_float32: "unpack_float32 (pack_float (F32 w)) = F32 w"
  using unsigned_less [where ?'a = nat and ?w = w]
  by (simp add: unpack_float32_def pack_float_def be_nat_nat_be)

lemma unpack_pack_float64: "unpack_float64 (pack_float (F64 w)) = F64 w"
  using unsigned_less [where ?'a = nat and ?w = w]
  by (simp add: unpack_float64_def pack_float_def be_nat_nat_be)

lemma encode_data_tlv: "ok_data d \<Longrightarrow> encode_data d = Inr bs \<Longrightarrow> tlv_of d bs"
proof (induction d arbitrary: bs)
  case (BoolData v)
  then show ?case unfolding tlv_of_def
    by (intro exI [of _ "0x83"] exI [of _ "encode_boolean v"])
      (simp add: wf_data_tags decode_data.simps encode_boolean_def)
next
  case (IntData v)
  then obtain c where "encode_integer v = Inr c" "encode_tlv 0x85 c = Inr bs" by auto
  moreover then have "c \<noteq> []" "from_bytes_signed c = v"
    using integer_codec.dec_enc [of v c] by (auto simp: decode_integer_def split: if_splits)
  ultimately show ?case unfolding tlv_of_def
    by (intro exI [of _ "0x85"] exI [of _ c]) (simp add: wf_data_tags decode_data.simps)
next
  case (UIntData v)
  then obtain c where "encode_unsigned v = Inr c" "encode_tlv 0x86 c = Inr bs" by auto
  moreover then have "c \<noteq> []" "from_bytes c = v"
    using unsigned_codec.dec_enc [of v c] UIntData by (auto simp: decode_unsigned_def split: if_splits)
  ultimately show ?case unfolding tlv_of_def
    by (intro exI [of _ "0x86"] exI [of _ c]) (simp add: wf_data_tags decode_data.simps)
next
  case (FloatData f)
  let ?c = "(case f of F64 _ \<Rightarrow> 0x0B | F32 _ \<Rightarrow> 0x08) # pack_float f"
  have "decode_data 0x87 ?c = Inr (FloatData f)"
    by (cases f) (simp_all add: decode_data.simps unpack_pack_float32 unpack_pack_float64,
        simp_all add: pack_float_def)
  then show ?case using FloatData unfolding tlv_of_def
    by (intro exI [of _ "0x87"] exI [of _ ?c]) (simp add: wf_data_tags)
next
  case (BitStringData v unused)
  then have u: "0 \<le> unused" "unused \<le> 7" by auto
  then have "uint (word_of_int unused :: byte) = unused" by (simp add: uint_word_of_int)
  then show ?case using BitStringData u unfolding tlv_of_def
    by (intro exI [of _ "0x84"] exI [of _ "word_of_int unused # v"])
      (simp add: wf_data_tags decode_data.simps)
next
  case (OctetStringData v)
  then show ?case unfolding tlv_of_def
    by (intro exI [of _ "0x89"] exI [of _ v]) (simp add: wf_data_tags decode_data.simps)
next
  case (VisibleStringData v)
  then have "decode_ascii_replace (encode_ascii_replace v) = v"
    using decode_encode_ascii [OF encode_ascii_ok, of v] by (simp add: encode_ascii_replace_ascii)
  then show ?case using VisibleStringData unfolding tlv_of_def
    by (intro exI [of _ "0x8A"] exI [of _ "encode_ascii_replace v"]) (simp add: wf_data_tags decode_data.simps)
next
  case (MmsStringData v)
  then obtain c where "encode_utf8 v = Inr c" "encode_tlv 0x8F c = Inr bs" by auto
  moreover then have "decode_utf8_replace c = v"
    using utf8_codec.dec_enc [of v c] MmsStringData by simp
  ultimately show ?case unfolding tlv_of_def
    by (intro exI [of _ "0x8F"] exI [of _ c]) (simp add: wf_data_tags decode_data.simps)
next
  case (TimestampData t q)
  then obtain c where c: "encode_utc_time t q = Inr c" "encode_tlv 0x91 c = Inr bs" by auto
  then have d: "decode_utc_time c = Inr (t, q)"
    using utc_time_codec.dec_enc [of "(t, q)" c] TimestampData by simp
  then have "8 \<le> length c" by (auto simp: decode_utc_time_def split: if_splits)
  then show ?case using c d unfolding tlv_of_def
    by (intro exI [of _ "0x91"] exI [of _ c]) (simp add: wf_data_tags decode_data.simps)
next
  case (StructureData ms)
  then obtain bss where b: "traverse encode_data ms = Inr bss" "encode_tlv 0xA2 (concat bss) = Inr bs"
    by (auto simp: bindE_Inr_iff)
  have "list_all2 tlv_of ms bss"
    using b(1) StructureData.prems(1) unfolding traverse_Inr_list_all2
    by (elim list.rel_mono_strong) (simp add: StructureData.IH list_all_iff)
  then have "decode_data 0xA2 (concat bss) = Inr (StructureData ms)"
    using decode_data_seq_concat [of ms bss "[]"] by (simp add: decode_data.simps)
  then show ?case using b(2) wf_data_tags unfolding tlv_of_def by blast
next
  case (ArrayData ms)
  then obtain bss where b: "traverse encode_data ms = Inr bss" "encode_tlv 0xA1 (concat bss) = Inr bs"
    by (auto simp: bindE_Inr_iff)
  have "list_all2 tlv_of ms bss"
    using b(1) ArrayData.prems(1) unfolding traverse_Inr_list_all2
    by (elim list.rel_mono_strong) (simp add: ArrayData.IH list_all_iff)
  then have "decode_data 0xA1 (concat bss) = Inr (ArrayData ms)"
    using decode_data_seq_concat [of ms bss "[]"] by (simp add: decode_data.simps)
  then show ?case using b(2) wf_data_tags unfolding tlv_of_def by blast
next
  case (RawData tag v)
  then show ?case unfolding tlv_of_def by auto
qed

lemma decode_data_at_tlv:
  "tlv_of d bs \<Longrightarrow> decode_data_at (pre @ bs @ post) (length pre) = Inr (d, length pre + length bs)"
  by (auto simp: tlv_of_def decode_data_at_def decode_encode_tlv)

lemma encode_data_nonempty: "encode_data d \<noteq> Inr []"
  by (cases d) (auto simp: encode_tlv_def bindE_Inr_iff split: if_splits)

definition storable :: "iecdata \<Rightarrow> bool" where
  "storable d \<longleftrightarrow> ok_data d \<and> (\<exists>bs. encode_data d = Inr bs)"

interpretation data_codec: prefix_codec encode_data decode_data_at storable
  by unfold_locales (auto simp: storable_def encode_data_nonempty intro: decode_data_at_tlv encode_data_tlv)

text \<open>A sequence of values, and the errors of the decoder.\<close>

lemma decode_encode_sequence:
  assumes "list_all ok_data ds" "traverse encode_data ds = Inr bss"
  shows "decode_data_sequence (concat bss) = Inr ds"
proof -
  have "list_all2 tlv_of ds bss"
    using assms unfolding traverse_Inr_list_all2
    by (elim list.rel_mono_strong) (simp add: encode_data_tlv list_all_iff)
  then show ?thesis using decode_data_seq_concat [of ds bss "[]"] by (simp add: decode_data_sequence_def)
qed

lemma decode_binary_time_ok: "length v = 6 \<Longrightarrow> \<exists>t. decode_binary_time v = Inr t"
  by (simp add: decode_binary_time_def Let_def)

lemma decode_utc_time_ok: "8 \<le> length v \<Longrightarrow> \<exists>t q. decode_utc_time v = Inr (t, q)"
  by (simp add: decode_utc_time_def Let_def)

lemma decode_utc_time_error: "decode_utc_time v = Inl e \<Longrightarrow> e = BerError"
  by (auto simp: decode_utc_time_def Let_def split: if_splits)

lemma ex_Inr_if:
  "(\<exists>d. (if b then m else n) = Inr d) \<longleftrightarrow> (if b then \<exists>d. m = Inr d else \<exists>d. n = Inr d)"
  by simp

lemma decode_data_leaf:
  assumes "tag \<noteq> 0xA1" "tag \<noteq> 0xA2"
  shows "\<exists>d. decode_data tag v = Inr d"
proof -
  have "\<exists>d. bindE (decode_binary_time v) (\<lambda>t. Inr (TimestampData t 0)) = Inr d" if "length v = 6"
    using decode_binary_time_ok [OF that] by auto
  moreover have "\<exists>d. bindE (decode_utc_time v) (\<lambda>(t, q). Inr (TimestampData t q)) = Inr d" if "8 \<le> length v"
    using decode_utc_time_ok [OF that] by auto
  ultimately show ?thesis using assms by (simp add: decode_data.simps ex_Inr_if)
qed

lemma decode_data_error:
  "decode_data tag v = Inl e \<Longrightarrow> e = BerError"
  "decode_data_seq data offset = Inl e \<Longrightarrow> e = BerError"
proof (induction tag v and data offset arbitrary: e and e rule: decode_data_decode_data_seq.induct)
  case (1 tag v)
  consider "tag = 0xA1" | "tag = 0xA2" | "tag \<noteq> 0xA1" "tag \<noteq> 0xA2" by blast
  then show ?case
  proof cases
    case 1
    then show ?thesis using "1.prems" "1.IH"(1) by (simp add: decode_data.simps bindE_Inl_iff)
  next
    case 2
    then show ?thesis using "1.prems" "1.IH"(2) by (simp add: decode_data.simps bindE_Inl_iff)
  next
    case 3
    then show ?thesis using decode_data_leaf [of tag v] "1.prems" by auto
  qed
next
  case (2 data offset)
  show ?case
  proof (cases "length data \<le> offset")
    case True
    then show ?thesis using 2 by (simp add: decode_data_seq.simps)
  next
    case False
    then show ?thesis
      using "2.prems" "2.IH" [OF False] decode_tlv_error [of data offset e]
      by (auto simp: decode_data_seq.simps [of data offset] bindE_Inl_iff)
  qed
qed

lemma decode_data_sequence_error: "decode_data_sequence data = Inl e \<Longrightarrow> e = BerError"
  unfolding decode_data_sequence_def by (rule decode_data_error(2))

text \<open>The recursion is the comprehension over the generator of TLVs that the code writes.\<close>

lemma decode_data_seq_iter:
  "decode_data_seq data offset =
   bindE (traverse (\<lambda>t. decode_data (tlv_tag t) (tlv_value t)) (fst (iter_tlvs_from data offset)))
     (\<lambda>ds. case snd (iter_tlvs_from data offset) of None \<Rightarrow> Inr ds | Some e \<Rightarrow> Inl e)"
proof (induction data offset rule: iter_tlvs_from.induct)
  case (1 data offset)
  show ?case
  proof (cases "length data \<le> offset")
    case True
    then show ?thesis by (simp add: decode_data_seq.simps iter_tlvs_from.simps)
  next
    case False
    show ?thesis
    proof (cases "decode_tlv data offset")
      case (Inl e)
      then show ?thesis using False by (simp add: decode_data_seq.simps [of data offset] iter_tlvs_from.simps [of data offset])
    next
      case (Inr t)
      then show ?thesis using False 1 [OF False Inr]
        by (simp add: decode_data_seq.simps [of data offset] iter_tlvs_from.simps [of data offset]
            case_prod_unfold bindE_assoc)
          (auto simp: bindE_assoc split: option.splits sum.splits intro!: bindE_cong)
    qed
  qed
qed

lemma decode_data_sequence_comprehension:
  "decode_data_sequence data =
   bindE (traverse (\<lambda>t. decode_data (tlv_tag t) (tlv_value t)) (fst (iter_tlvs data)))
     (\<lambda>ds. case snd (iter_tlvs data) of None \<Rightarrow> Inr ds | Some e \<Rightarrow> Inl e)"
  unfolding decode_data_sequence_def iter_tlvs_def by (rule decode_data_seq_iter)

text \<open>A bounded stack changes nothing but for RecursionError, and nothing at all when it is deep enough.\<close>

lemma traverse_either:
  assumes "\<And>x. x \<in> set xs \<Longrightarrow> f x = g x \<or> f x = Inl e"
  shows "traverse f xs = traverse g xs \<or> traverse f xs = Inl e"
  using assms
proof (induction xs)
  case (Cons x xs)
  then have "f x = g x \<or> f x = Inl e" "traverse f xs = traverse g xs \<or> traverse f xs = Inl e" by simp_all
  then show ?case by (cases "g x") auto
qed simp

lemma comprehension_either:
  assumes "\<And>tag v. f tag v = g tag v \<or> f tag v = Inl e"
  shows "data_comprehension f data = data_comprehension g data \<or> data_comprehension f data = Inl e"
proof -
  let ?map = "\<lambda>h. traverse (\<lambda>t. h (tlv_tag t) (tlv_value t)) (fst (iter_tlvs data))"
  have "?map f = ?map g \<or> ?map f = Inl e" by (rule traverse_either) (rule assms)
  then show ?thesis unfolding data_comprehension_def by (elim disjE) simp_all
qed

lemma sequence_comprehension: "decode_data_sequence data = data_comprehension decode_data data"
  unfolding data_comprehension_def by (rule decode_data_sequence_comprehension)

lemma decode_container:
  "decode_data 0xA1 v = bindE (data_comprehension decode_data v) (\<lambda>ds. Inr (ArrayData ds))"
  "decode_data 0xA2 v = bindE (data_comprehension decode_data v) (\<lambda>ds. Inr (StructureData ds))"
  by (simp_all add: decode_data.simps flip: sequence_comprehension decode_data_sequence_def)

lemma data_within: "decode_data_within n tag v = decode_data tag v \<or> decode_data_within n tag v = Inl RecursionError"
proof (induction n arbitrary: tag v)
  case (Suc n)
  have "data_comprehension (decode_data_within n) v = data_comprehension decode_data v
      \<or> data_comprehension (decode_data_within n) v = Inl RecursionError" by (rule comprehension_either) (rule Suc)
  then show ?case by (auto simp: decode_container)
qed simp

lemma sequence_within:
  "decode_sequence_within n data = decode_data_sequence data \<or> decode_sequence_within n data = Inl RecursionError"
  unfolding decode_sequence_within_def sequence_comprehension by (rule comprehension_either) (rule data_within)

lemma comprehension_enough:
  assumes "\<And>tag v. 2 + length v \<le> length data \<Longrightarrow> f tag v = g tag v"
  shows "data_comprehension f data = data_comprehension g data"
proof -
  have "traverse (\<lambda>t. f (tlv_tag t) (tlv_value t)) (fst (iter_tlvs data)) = traverse (\<lambda>t. g (tlv_tag t) (tlv_value t)) (fst (iter_tlvs data))"
    by (intro traverse_cong refl assms iter_tlvs_bounds)
  then show ?thesis by (simp add: data_comprehension_def)
qed

lemma data_within_enough: "length v div 2 < n \<Longrightarrow> decode_data_within n tag v = decode_data tag v"
proof (induction n arbitrary: tag v)
  case (Suc n)
  have "data_comprehension (decode_data_within n) v = data_comprehension decode_data v"
    by (rule comprehension_enough) (use Suc in auto)
  then show ?case by (simp add: decode_container)
qed simp

lemma sequence_within_enough: "length data div 2 \<le> n \<Longrightarrow> decode_sequence_within n data = decode_data_sequence data"
  unfolding decode_sequence_within_def sequence_comprehension by (intro comprehension_enough data_within_enough) simp

text \<open>What an encoding of concrete values unfolds to.\<close>

lemmas encode_eval = encode_tlv_def wf_low_tag(1) encode_length_def encode_boolean_def encode_integer_def
  encode_unsigned_def bit_length_def bit_length_nat.simps to_bytes_signed_def to_bytes_def encode_utc_time_def
  encode_ascii_def encode_ascii_replace_def is_ascii_def Let_def

section \<open>Properties\<close>

text \<open>C19: a Data value is read back from wherever it lies in a buffer, structures and arrays of any
  depth included.\<close>
theorem data_round_trip:
  assumes "ok_data d" "encode_data d = Inr bs"
  shows "decode_data_at (pre @ bs @ post) (length pre) = Inr (d, length pre + length bs)"
  by (rule data_codec.dec_enc) (use assms in \<open>simp_all add: storable_def\<close>)

theorem data_round_trip_witness:
  "decode_data_at ([] @ [0xA2, 6, 0x83, 1, 0xFF, 0x85, 1, 0x2A] @ [0]) 0 = Inr (StructureData [BoolData True, IntData 42], 8)"
proof -
  have "encode_data (StructureData [BoolData True, IntData 42]) = Inr [0xA2, 6, 0x83, 1, 0xFF, 0x85, 1, 0x2A]"
    by (simp add: encode_tlv_def wf_low_tag(1) encode_length_def encode_boolean_def encode_integer_def
        bit_length_def bit_length_nat.simps to_bytes_signed_def)
  then show ?thesis
    using data_round_trip [of "StructureData [BoolData True, IntData 42]" _ "[]" "[0]"] by simp
qed

text \<open>An instant from 1970 to the end of the 32-bit seconds and its quality octet are read back from a
  UtcTime to the microsecond, although the fraction counts in 2^-24 s.\<close>
lemma utc_time_round_trip:
  assumes "0 \<le> t" "t < 2 ^ 32 * 1000000" "0 \<le> q" "q < 256"
  shows "bindE (encode_utc_time t q) decode_utc_time = Inr (t, q)"
  using utc_time_codec.round_trip [of "(t, q)"] assms by (simp add: ok_utc_def)

text \<open>Decoding a sequence of Data is the comprehension over \<^verbatim>\<open>iter_tlvs\<close> that the code writes, and it
  raises \<^verbatim>\<open>BerError\<close> only, whatever the octets.\<close>
lemma data_sequence_spec:
  "decode_data_sequence data =
     bindE (traverse (\<lambda>t. decode_data (tlv_tag t) (tlv_value t)) (fst (iter_tlvs data)))
       (\<lambda>ds. case snd (iter_tlvs data) of None \<Rightarrow> Inr ds | Some e \<Rightarrow> Inl e)
   \<and> decode_data_sequence data \<in> insert (Inl BerError) (range Inr)"
proof -
  have "decode_data_sequence data \<in> insert (Inl BerError) (range Inr)"
    using decode_data_sequence_error [of data] by (cases "decode_data_sequence data") auto
  then show ?thesis using decode_data_sequence_comprehension by blast
qed

text \<open>Text without surrogates is read back from its UTF-8 octets.\<close>
lemma utf8_round_trip:
  assumes "list_all is_scalar s"
  shows "\<exists>bs. encode_utf8 s = Inr bs \<and> decode_utf8_replace bs = s"
  using utf8_codec.round_trip [of s] assms by (cases "encode_utf8 s") auto

end
