(* ===== verification/Quality.thy ===== *)
theory Quality
  imports MmsData
begin

text \<open>
  \<^verbatim>\<open>src/open61850/quality.py\<close>: the 13-bit Quality and the TimeQuality octet. The texts of the
  \<^verbatim>\<open>VALIDITY\<close> and \<^verbatim>\<open>_DETAILS\<close> tuples are constructors; the \<^verbatim>\<open>__str__\<close> methods are not modelled.
\<close>

datatype validity = Good | Invalid | Reserved | Questionable

datatype detail =
    Overflow | OutOfRange | BadReference | Oscillatory | Failure | OldData | Inconsistent | Inaccurate

definition VALIDITY :: "validity list" where
  "VALIDITY = [Good, Invalid, Reserved, Questionable]"

definition DETAILS :: "detail list" where
  "DETAILS = [Overflow, OutOfRange, BadReference, Oscillatory, Failure, OldData, Inconsistent, Inaccurate]"

definition qbit :: "bytes \<Rightarrow> nat \<Rightarrow> bool" where
  "qbit raw index \<longleftrightarrow>
     index div 8 < length raw \<and> raw ! (index div 8) AND drop_bit (index mod 8) 0x80 \<noteq> 0"

record quality =
  validity :: validity
  details :: "detail list"
  substituted :: bool
  qtest :: bool
  operator_blocked :: bool

definition quality_from_bitstring :: "bytes \<Rightarrow> quality" where
  "quality_from_bitstring raw =
     \<lparr>validity = VALIDITY ! ((if qbit raw 0 then 2 else 0) + (if qbit raw 1 then 1 else 0)),
      details = map snd (filter (\<lambda>(i, d). qbit raw i) (zip [2..<10] DETAILS)),
      substituted = qbit raw 10, qtest = qbit raw 11, operator_blocked = qbit raw 12\<rparr>"

record time_quality =
  leap_seconds_known :: bool
  clock_failure :: bool
  clock_not_synchronized :: bool
  accuracy_bits :: int

definition time_quality_from_octet :: "int \<Rightarrow> time_quality" where
  "time_quality_from_octet octet =
     \<lparr>leap_seconds_known = octet AND 0x80 \<noteq> 0, clock_failure = octet AND 0x40 \<noteq> 0,
      clock_not_synchronized = octet AND 0x20 \<noteq> 0, accuracy_bits = octet AND 0x1F\<rparr>"

text \<open>The octets of a Quality: an encoder the code does not have, against which the decoder is read.\<close>

definition bits_octet :: "bool list \<Rightarrow> byte" where
  "bits_octet bs = horner_sum of_bool 2 (rev bs)"

definition quality_octets :: "quality \<Rightarrow> bytes" where
  "quality_octets q =
     [bits_octet ([validity q \<in> {Reserved, Questionable}, validity q \<in> {Invalid, Questionable}]
        @ map (\<lambda>d. d \<in> set (details q)) (take 6 DETAILS)),
      bits_octet (map (\<lambda>d. d \<in> set (details q)) (drop 6 DETAILS)
        @ [substituted q, qtest q, operator_blocked q, False, False, False])]"

definition canonical_details :: "detail list \<Rightarrow> bool" where
  "canonical_details ds \<longleftrightarrow> ds = filter (\<lambda>d. d \<in> set ds) DETAILS"

lemma qbit_mask: "i < 8 \<Longrightarrow> (b :: byte) AND drop_bit i 0x80 \<noteq> 0 \<longleftrightarrow> bit b (7 - i)"
proof -
  assume i: "i < 8"
  have "i \<in> {0, 1, 2, 3, 4, 5, 6, 7}" using i by auto
  then have "drop_bit i (0x80 :: byte) = 2 ^ (7 - i)" by (elim insertE emptyE) simp_all
  then show ?thesis using and_exp_eq_0_iff_not_bit [of b "7 - i"] by simp
qed

lemma qbit_octet:
  assumes "length bs = 8" "i < 8"
  shows "bits_octet bs AND drop_bit i 0x80 \<noteq> 0 \<longleftrightarrow> bs ! i"
  unfolding qbit_mask [OF assms(2)] bits_octet_def
  using assms by (auto simp: bit_horner_sum_bit_iff rev_nth)

lemma qbit_octets:
  assumes "length xs = 8" "length ys = 8" "i < 16"
  shows "qbit [bits_octet xs, bits_octet ys] i \<longleftrightarrow> (xs @ ys) ! i"
proof (cases "i < 8")
  case True
  then show ?thesis using assms qbit_octet [of xs i] by (simp add: qbit_def nth_append)
next
  case False
  then have "i div 8 = 1" "i mod 8 = i - 8" using assms(3) by (simp_all add: div_nat_eqI mod_if)
  then show ?thesis using False assms qbit_octet [of ys "i - 8"] by (simp add: qbit_def nth_append)
qed

lemma quality_round_trip:
  assumes "canonical_details (details q)"
  shows "quality_from_bitstring (quality_octets q) = q"
proof -
  let ?r = "quality_octets q"
  have b: "qbit ?r i \<longleftrightarrow> ([validity q \<in> {Reserved, Questionable}, validity q \<in> {Invalid, Questionable}]
        @ map (\<lambda>d. d \<in> set (details q)) DETAILS
        @ [substituted q, qtest q, operator_blocked q, False, False, False]) ! i" if "i < 16" for i
    unfolding quality_octets_def using that by (subst qbit_octets) (simp_all add: DETAILS_def)
  have v: "VALIDITY ! ((if qbit ?r 0 then 2 else 0) + (if qbit ?r 1 then 1 else 0)) = validity q"
    using b [of 0] b [of 1] by (cases "validity q") (simp_all add: VALIDITY_def)
  have "map snd (filter (\<lambda>(i, d). qbit ?r i) (zip [2..<10] DETAILS)) = filter (\<lambda>d. d \<in> set (details q)) DETAILS"
    using b [of 2] b [of 3] b [of 4] b [of 5] b [of 6] b [of 7] b [of 8] b [of 9]
    by (simp add: DETAILS_def upt_rec)
  also have "\<dots> = details q" using assms by (simp add: canonical_details_def)
  finally have d: "map snd (filter (\<lambda>(i, d). qbit ?r i) (zip [2..<10] DETAILS)) = details q" .
  have "qbit ?r 10 = substituted q" "qbit ?r 11 = qtest q" "qbit ?r 12 = operator_blocked q"
    using b [of 10] b [of 11] b [of 12] by (simp_all add: DETAILS_def)
  then show ?thesis unfolding quality_from_bitstring_def v d by simp
qed

section \<open>Properties\<close>

text \<open>A Quality is read from its 13 bits: the validity from bits 0 and 1, each detail and flag
  from its own bit.\<close>
lemma quality_decoded:
  assumes "canonical_details (details q)"
  shows "quality_from_bitstring (quality_octets q) = q"
  using assms by (rule quality_round_trip)

end
