(* ===== verification/Ethernet.thy ===== *)
theory Ethernet
  imports Prelude
begin

text \<open>
  \<^verbatim>\<open>src/open61850/ethernet.py\<close>: Ethernet II / IEEE 802.1Q framing of GOOSE and Sampled Values.
  MAC addresses are strings at the interface and six octets on the wire. \<^verbatim>\<open>int(p, 16)\<close> is modelled
  on ASCII text (Python also takes other Unicode decimal digits and spaces, which a MAC address
  never has).
\<close>

definition ETHERTYPE_VLAN :: int where "ETHERTYPE_VLAN = 0x8100"
definition ETHERTYPE_GOOSE :: int where "ETHERTYPE_GOOSE = 0x88B8"
definition ETHERTYPE_SV :: int where "ETHERTYPE_SV = 0x88BA"
definition HEADER_LEN :: nat where "HEADER_LEN = 8"

section \<open>MAC addresses\<close>

text \<open>\<^verbatim>\<open>int(text, 16)\<close>: spaces around, a sign, a \<open>0x\<close> prefix, single underscores between digits.\<close>

definition is_space :: "nat \<Rightarrow> bool" where
  "is_space c \<longleftrightarrow> (9 \<le> c \<and> c \<le> 13) \<or> c = 32"

definition strip :: "ustr \<Rightarrow> ustr" where
  "strip s = rev (dropWhile is_space (rev (dropWhile is_space s)))"

definition hex_digit :: "nat \<Rightarrow> nat option" where
  "hex_digit c =
     (if 48 \<le> c \<and> c \<le> 57 then Some (c - 48)
      else if 65 \<le> c \<and> c \<le> 70 then Some (c - 55)
      else if 97 \<le> c \<and> c \<le> 102 then Some (c - 87)
      else None)"

fun hex_digits :: "nat \<Rightarrow> ustr \<Rightarrow> nat result" where
  "hex_digits acc [] = Inr acc"
| "hex_digits acc [c] = (case hex_digit c of Some d \<Rightarrow> Inr (16 * acc + d) | None \<Rightarrow> Inl ValueError)"
| "hex_digits acc (c # c' # cs) =
     (case hex_digit c of
        None \<Rightarrow> Inl ValueError
      | Some d \<Rightarrow>
          if c' = 95 then (if cs = [] then Inl ValueError else hex_digits (16 * acc + d) cs)
          else hex_digits (16 * acc + d) (c' # cs))"

definition hex_unsigned :: "ustr \<Rightarrow> nat result" where
  "hex_unsigned s =
     (let s' = (case s of
          a # b # r \<Rightarrow>
            if a = 48 \<and> (b = 120 \<or> b = 88) then (case r of c # r' \<Rightarrow> if c = 95 then r' else r | [] \<Rightarrow> [])
            else s
        | _ \<Rightarrow> s)
      in if s' = [] then Inl ValueError else hex_digits 0 s')"

definition int16 :: "ustr \<Rightarrow> int result" where
  "int16 text = (case strip text of
       [] \<Rightarrow> Inl ValueError
     | c # r \<Rightarrow>
         if c = 45 then mapE (\<lambda>n. - int n) (hex_unsigned r)
         else if c = 43 then mapE int (hex_unsigned r)
         else mapE int (hex_unsigned (c # r)))"

text \<open>\<^verbatim>\<open>text.split(sep)\<close> for a separator of one character: always at least one part.\<close>

fun split_on :: "nat \<Rightarrow> ustr \<Rightarrow> ustr list" where
  "split_on sep [] = [[]]"
| "split_on sep (c # cs) =
     (if c = sep then [] # split_on sep cs
      else case split_on sep cs of p # ps \<Rightarrow> (c # p) # ps | [] \<Rightarrow> [[c]])"

definition octet_of :: "int \<Rightarrow> byte result" where
  "octet_of v = (if 0 \<le> v \<and> v < 256 then Inr (word_of_int v) else Inl ValueError)"

definition mac_to_bytes :: "ustr \<Rightarrow> bytes result" where
  "mac_to_bytes mac =
     (let parts = split_on 58 (map (\<lambda>c. if c = 45 then 58 else c) mac)
      in if length parts \<noteq> 6 then Inl ValueError
         else traverse (\<lambda>p. bindE (int16 p) octet_of) parts)"

definition hex_char :: "nat \<Rightarrow> nat" where
  "hex_char d = (if d < 10 then 48 + d else 87 + d)"

definition hex_octet :: "byte \<Rightarrow> ustr" where
  "hex_octet b = [hex_char (unat b div 16), hex_char (unat b mod 16)]"

fun mac_to_str :: "bytes \<Rightarrow> ustr" where
  "mac_to_str [] = []"
| "mac_to_str [b] = hex_octet b"
| "mac_to_str (b # bs) = hex_octet b @ 58 # mac_to_str bs"

section \<open>Frames\<close>

record ethernet_frame =
  dst_mac :: ustr
  src_mac :: ustr
  vlan_id :: "int option"
  vlan_priority :: "int option"
  ethertype :: int
  app_id :: int
  reserved1 :: int
  reserved2 :: int
  apdu :: bytes

text \<open>The VLAN tag, when the first EtherType announces one: identifier, priority, EtherType, offset.\<close>

definition parse_vlan :: "bytes \<Rightarrow> (int option \<times> int option \<times> int \<times> nat) option" where
  "parse_vlan raw =
     (let et = from_bytes (slice raw 12 14) in
      if et = ETHERTYPE_VLAN then
        (if length raw < 18 then None
         else let tci = from_bytes (slice raw 14 16)
           in Some (Some (tci AND 0x0FFF), Some (drop_bit 13 tci), from_bytes (slice raw 16 18), 18))
      else Some (None, None, et, 14))"

definition parse_frame :: "bytes \<Rightarrow> int list \<Rightarrow> ethernet_frame option" where
  "parse_frame raw ethertypes =
     (if length raw < 14 then None
      else case parse_vlan raw of
          None \<Rightarrow> None
        | Some (vid, prio, et, offset) \<Rightarrow>
            if et \<notin> set ethertypes then None
            else if length raw < offset + HEADER_LEN then None
            else let aid = from_bytes (slice raw offset (offset + 2));
                     len = be_nat (slice raw (offset + 2) (offset + 4))
              in if len < HEADER_LEN \<or> length raw < offset + len then None
                 else Some \<lparr>dst_mac = mac_to_str (slice raw 0 6), src_mac = mac_to_str (slice raw 6 12),
                   vlan_id = vid, vlan_priority = prio, ethertype = et, app_id = aid,
                   reserved1 = from_bytes (slice raw (offset + 4) (offset + 6)),
                   reserved2 = from_bytes (slice raw (offset + 6) (offset + 8)),
                   apdu = slice raw (offset + HEADER_LEN) (offset + len)\<rparr>)"

definition vlan_octets :: "int option \<Rightarrow> int option \<Rightarrow> bytes result" where
  "vlan_octets vid vprio =
     (case vid of
        None \<Rightarrow> Inr []
      | Some v \<Rightarrow>
          if \<not> (0 \<le> v \<and> v \<le> 0x0FFF) then Inl ValueError
          else let prio = (case vprio of Some p \<Rightarrow> p | None \<Rightarrow> 0)
            in if \<not> (0 \<le> prio \<and> prio \<le> 7) then Inl ValueError
               else bindE (to_bytes 2 ETHERTYPE_VLAN) (\<lambda>a.
                    bindE (to_bytes 2 (push_bit 13 prio OR v)) (\<lambda>b. Inr (a @ b))))"

definition build_frame :: "ethernet_frame \<Rightarrow> bytes result" where
  "build_frame f =
     (if \<not> (0 \<le> app_id f \<and> app_id f \<le> 0xFFFF) then Inl ValueError
      else let len = HEADER_LEN + length (apdu f)
        in if 0xFFFF < len then Inl ValueError
           else bindE (mac_to_bytes (dst_mac f)) (\<lambda>d.
                bindE (mac_to_bytes (src_mac f)) (\<lambda>s.
                bindE (vlan_octets (vlan_id f) (vlan_priority f)) (\<lambda>v.
                bindE (to_bytes 2 (ethertype f)) (\<lambda>et.
                bindE (to_bytes 2 (app_id f)) (\<lambda>aid.
                bindE (to_bytes 2 (int len)) (\<lambda>l.
                bindE (to_bytes 2 (reserved1 f)) (\<lambda>r1.
                bindE (to_bytes 2 (reserved2 f)) (\<lambda>r2.
                  Inr (d @ s @ v @ et @ aid @ l @ r1 @ r2 @ apdu f))))))))))"

section \<open>MAC addresses read back\<close>

lemma hex_digit_char: "d < 16 \<Longrightarrow> hex_digit (hex_char d) = Some d"
  by (auto simp: hex_digit_def hex_char_def)

lemma hex_char_plain:
  "d < 16 \<Longrightarrow> \<not> is_space (hex_char d) \<and> hex_char d \<notin> {43, 45, 58, 95, 120, 88}"
  by (auto simp: is_space_def hex_char_def)

lemma nibbles: "unat (b :: byte) div 16 < 16" "unat b mod 16 < 16"
  using byte_less [of b] by (simp_all add: less_mult_imp_div_less)

lemma int16_hex_octet: "int16 (hex_octet b) = Inr (uint b)"
proof -
  note h = nibbles [of b]
  have "strip (hex_octet b) = hex_octet b"
    using hex_char_plain [OF h(1)] hex_char_plain [OF h(2)] by (simp add: strip_def hex_octet_def)
  moreover have "hex_unsigned (hex_octet b) = Inr (unat b)"
    using hex_char_plain [OF h(2)] h
    by (simp add: hex_unsigned_def hex_octet_def hex_digit_char)
  ultimately show ?thesis
    using hex_char_plain [OF h(1)] by (simp add: int16_def hex_octet_def)
qed

lemma split_on_ne [simp]: "split_on sep cs \<noteq> []"
  by (cases cs) (auto split: list.splits)

lemma split_on_app: "sep \<notin> set p \<Longrightarrow> split_on sep (p @ sep # cs) = p # split_on sep cs"
  by (induction p) auto

lemma split_on_last: "sep \<notin> set p \<Longrightarrow> split_on sep p = [p]"
  by (induction p) auto

lemma hex_octet_plain: "58 \<notin> set (hex_octet b)" "45 \<notin> set (hex_octet b)"
proof -
  show "58 \<notin> set (hex_octet b)" "45 \<notin> set (hex_octet b)"
    using hex_char_plain [OF nibbles(1), of b] hex_char_plain [OF nibbles(2), of b] by (auto simp: hex_octet_def)
qed

lemma split_mac: "bs \<noteq> [] \<Longrightarrow> split_on 58 (mac_to_str bs) = map hex_octet bs"
  by (induction bs rule: mac_to_str.induct) (simp_all add: split_on_app split_on_last hex_octet_plain)

lemma mac_no_dash: "45 \<notin> set (mac_to_str bs)"
  by (induction bs rule: mac_to_str.induct) (simp_all add: hex_octet_plain)

lemma mac_round_trip:
  assumes "length bs = 6"
  shows "mac_to_bytes (mac_to_str bs) = Inr bs"
proof -
  have "map (\<lambda>c. if c = 45 then 58 else c) (mac_to_str bs) = mac_to_str bs"
    using mac_no_dash [of bs] by (auto intro!: map_idI)
  moreover have "bs \<noteq> []" using assms by auto
  moreover have "traverse (\<lambda>p. bindE (int16 p) octet_of) (map hex_octet bs) = Inr bs"
    unfolding traverse_map by (subst traverse_Inr [where g = id]) (auto simp: int16_hex_octet octet_of_def)
  ultimately show ?thesis using assms by (simp add: mac_to_bytes_def split_mac)
qed

lemma mac_to_bytes_length: "mac_to_bytes mac = Inr bs \<Longrightarrow> length bs = 6"
  by (auto simp: mac_to_bytes_def Let_def dest: traverse_length split: if_splits)

lemma mac_to_bytes_error: "mac_to_bytes mac = Inl e \<Longrightarrow> e = ValueError"
proof -
  have digits: "hex_digits n s = Inl e \<Longrightarrow> e = ValueError" for n s
    by (induction n s rule: hex_digits.induct) (auto split: option.splits if_splits)
  then have uns: "hex_unsigned s = Inl e \<Longrightarrow> e = ValueError" for s
    by (auto simp: hex_unsigned_def Let_def split: if_splits)
  then have int: "int16 s = Inl e \<Longrightarrow> e = ValueError" for s
    by (auto simp: int16_def mapE_def bindE_Inl_iff split: list.splits if_splits)
  then have "traverse (\<lambda>p. bindE (int16 p) octet_of) ps = Inl e \<Longrightarrow> e = ValueError" for ps
    by (induction ps) (auto simp: bindE_Inl_iff octet_of_def split: if_splits)
  then show "mac_to_bytes mac = Inl e \<Longrightarrow> e = ValueError"
    by (auto simp: mac_to_bytes_def Let_def split: if_splits)
qed

section \<open>Frames read back\<close>

text \<open>The frame that arrives: MAC addresses as the wire has them, no priority without a tag.\<close>

definition received :: "ethernet_frame \<Rightarrow> bytes \<Rightarrow> bytes \<Rightarrow> ethernet_frame" where
  "received f d s =
     f\<lparr>dst_mac := mac_to_str d, src_mac := mac_to_str s,
       vlan_priority := (case vlan_id f of None \<Rightarrow> None
         | Some _ \<Rightarrow> Some (case vlan_priority f of Some p \<Rightarrow> p | None \<Rightarrow> 0))\<rparr>"

lemma take_bit_12: "(x :: int) AND 0x0FFF = x mod 4096"
proof -
  have "x AND 0x0FFF = take_bit 12 x" by (simp add: take_bit_eq_mask mask_eq_exp_minus_1)
  then show ?thesis by (simp add: take_bit_eq_mod)
qed

lemma tci_fields:
  assumes "0 \<le> v" "v \<le> 0x0FFF" "0 \<le> (prio :: int)" "prio \<le> 7"
  shows "(push_bit 13 prio OR v) AND 0x0FFF = v" "drop_bit 13 (push_bit 13 prio OR v) = prio"
    "0 \<le> push_bit 13 prio OR v" "push_bit 13 prio OR v < 65536"
proof -
  have or: "push_bit 13 prio OR v = prio * 8192 + v"
    using push_bit_or_int [of v 13 prio] assms by simp
  have "(prio * 8192 + v) mod 4096 = v mod 4096"
    using mod_mult_self3 [of "2 * prio" 4096 v] by (simp add: mult.commute)
  then show "(push_bit 13 prio OR v) AND 0x0FFF = v" using assms unfolding or take_bit_12 by simp
  have "(prio * 8192 + v) div 8192 = prio" using assms by simp
  then show "drop_bit 13 (push_bit 13 prio OR v) = prio" unfolding or by (simp add: drop_bit_eq_div)
  show "0 \<le> push_bit 13 prio OR v" "push_bit 13 prio OR v < 65536" unfolding or using assms by auto
qed

lemma to_bytes_2: "to_bytes 2 v = Inr bs \<Longrightarrow> length bs = 2 \<and> from_bytes bs = v"
  using from_bytes_to_bytes by auto

text \<open>Reading fixed-width fields off the front of a buffer.\<close>

lemma slice_skip: "length xs \<le> a \<Longrightarrow> slice (xs @ ys) a b = slice ys (a - length xs) (b - length xs)"
  by (simp add: slice_def)

lemma slice_front: "length xs = n \<Longrightarrow> slice (xs @ ys) 0 n = xs"
  by (simp add: slice_def)

lemma vlan_octets_parse:
  assumes v: "vlan_octets vid vprio = Inr v" and h: "length h = 12"
    and et: "to_bytes 2 ety = Inr e" and ne: "ety \<noteq> ETHERTYPE_VLAN"
  shows "parse_vlan (h @ v @ e @ rest) =
    Some (vid, map_option (\<lambda>_. case vprio of Some p \<Rightarrow> p | None \<Rightarrow> 0) vid, ety, 14 + length v)"
proof -
  have e: "length e = 2" "from_bytes e = ety" using to_bytes_2 [OF et] by auto
  show ?thesis
  proof (cases vid)
    case None
    then show ?thesis using v e h ne
      by (simp add: vlan_octets_def parse_vlan_def slice_skip slice_front)
  next
    case (Some w)
    let ?p = "case vprio of Some p \<Rightarrow> p | None \<Rightarrow> 0"
    have r: "0 \<le> w" "w \<le> 0x0FFF" "0 \<le> ?p" "?p \<le> 7"
      using v by (auto simp: vlan_octets_def Some Let_def split: if_splits option.splits)
    obtain a b where a: "to_bytes 2 ETHERTYPE_VLAN = Inr a" and b: "to_bytes 2 (push_bit 13 ?p OR w) = Inr b"
      and vab: "v = a @ b"
      using v r by (auto simp: vlan_octets_def Some Let_def bindE_Inr_iff)
    have ab: "length a = 2" "from_bytes a = ETHERTYPE_VLAN" "length b = 2" "from_bytes b = push_bit 13 ?p OR w"
      using to_bytes_2 [OF a] to_bytes_2 [OF b] by auto
    have s: "slice (h @ v @ e @ rest) 12 14 = a" "slice (h @ v @ e @ rest) 14 16 = b"
      "slice (h @ v @ e @ rest) 16 18 = e"
      using h ab e by (simp_all add: vab slice_skip slice_front)
    show ?thesis
      unfolding parse_vlan_def Let_def s ab e using tci_fields(1,2) [OF r] h ab(1,3) e(1)
      by (simp add: Some vab)
  qed
qed

lemma build_parse_frame:
  assumes build: "build_frame f = Inr raw" and et: "ethertype f \<in> set ets" and ne: "ethertype f \<noteq> ETHERTYPE_VLAN"
  shows "\<exists>d s. mac_to_bytes (dst_mac f) = Inr d \<and> mac_to_bytes (src_mac f) = Inr s
    \<and> parse_frame (raw @ padding) ets = Some (received f d s)"
proof -
  let ?len = "HEADER_LEN + length (apdu f)"
  from build obtain d s v e aid l r1 r2 where
    ok: "0 \<le> app_id f" "app_id f \<le> 0xFFFF" "?len \<le> 0xFFFF"
    and d: "mac_to_bytes (dst_mac f) = Inr d" and s: "mac_to_bytes (src_mac f) = Inr s"
    and v: "vlan_octets (vlan_id f) (vlan_priority f) = Inr v" and e: "to_bytes 2 (ethertype f) = Inr e"
    and aid: "to_bytes 2 (app_id f) = Inr aid" and l: "to_bytes 2 (int ?len) = Inr l"
    and r1: "to_bytes 2 (reserved1 f) = Inr r1" and r2: "to_bytes 2 (reserved2 f) = Inr r2"
    and raw: "raw = d @ s @ v @ e @ aid @ l @ r1 @ r2 @ apdu f"
    unfolding build_frame_def Let_def by (auto simp: bindE_Inr_iff split: if_splits)
  have len: "length d = 6" "length s = 6" using d s mac_to_bytes_length by auto
  note f = to_bytes_2 [OF e] to_bytes_2 [OF aid] to_bytes_2 [OF l] to_bytes_2 [OF r1] to_bytes_2 [OF r2]
  let ?raw = "raw @ padding" and ?o = "14 + length v"
  have pv: "parse_vlan ?raw = Some (vlan_id f,
      map_option (\<lambda>_. case vlan_priority f of Some p \<Rightarrow> p | None \<Rightarrow> 0) (vlan_id f), ethertype f, ?o)"
    using vlan_octets_parse [OF v _ e ne, of "d @ s" "aid @ l @ r1 @ r2 @ apdu f @ padding"] len
    by (simp add: raw)
  have be: "be_nat l = ?len" using f(3) by (simp add: from_bytes_def)
  have sl: "slice ?raw 0 6 = d" "slice ?raw 6 12 = s" "slice ?raw ?o (?o + 2) = aid"
    "slice ?raw (?o + 2) (?o + 4) = l" "slice ?raw (?o + 4) (?o + 6) = r1" "slice ?raw (?o + 6) (?o + 8) = r2"
    "slice ?raw (?o + HEADER_LEN) (?o + ?len) = apdu f"
    using len f by (simp_all add: raw slice_skip slice_front HEADER_LEN_def)
  have bounds: "\<not> length ?raw < 14" "\<not> length ?raw < ?o + HEADER_LEN" "\<not> length ?raw < ?o + ?len"
    using len f by (simp_all add: raw HEADER_LEN_def)
  have "parse_frame ?raw ets = Some (received f d s)"
    using bounds et unfolding parse_frame_def pv Let_def option.case prod.case sl be
    by (cases "vlan_id f") (simp_all add: f received_def)
  then show ?thesis using d s by blast
qed

section \<open>Properties\<close>

text \<open>C22: a frame that was built is parsed back, padding or not, VLAN tag or not: every field is the
  one given, the MAC addresses as their octets are written on the wire.\<close>
theorem frame_round_trip:
  assumes "build_frame f = Inr raw" "ethertype f \<in> set ets" "ethertype f \<noteq> ETHERTYPE_VLAN"
  shows "\<exists>d s. mac_to_bytes (dst_mac f) = Inr d \<and> mac_to_bytes (src_mac f) = Inr s
    \<and> parse_frame (raw @ padding) ets = Some (received f d s)"
  using assms by (rule build_parse_frame)

definition example_frame :: ethernet_frame where
  "example_frame = \<lparr>dst_mac = mac_to_str [1, 12, 205, 1, 0, 1], src_mac = mac_to_str [2, 0, 0, 0, 0, 1],
     vlan_id = Some 5, vlan_priority = None, ethertype = ETHERTYPE_GOOSE, app_id = 3, reserved1 = 0,
     reserved2 = 0, apdu = [0x61, 0]\<rparr>"

theorem frame_round_trip_witness:
  "\<exists>raw. build_frame example_frame = Inr raw
    \<and> (\<exists>g. parse_frame (raw @ [0, 0]) [ETHERTYPE_GOOSE] = Some g \<and> vlan_priority g = Some 0 \<and> apdu g = [0x61, 0])"
proof -
  have m: "mac_to_bytes (mac_to_str [1, 12, 205, 1, 0, 1]) = Inr [1, 12, 205, 1, 0, 1]"
    "mac_to_bytes (mac_to_str [2, 0, 0, 0, 0, 1]) = Inr [2, 0, 0, 0, 0, 1]"
    by (rule mac_round_trip, simp)+
  then obtain raw where raw: "build_frame example_frame = Inr raw"
    by (simp add: build_frame_def example_frame_def vlan_octets_def to_bytes_def HEADER_LEN_def
        ETHERTYPE_VLAN_def ETHERTYPE_GOOSE_def Let_def)
  have "ethertype example_frame \<in> set [ETHERTYPE_GOOSE]" "ethertype example_frame \<noteq> ETHERTYPE_VLAN"
    by (simp_all add: example_frame_def ETHERTYPE_GOOSE_def ETHERTYPE_VLAN_def)
  from frame_round_trip [OF raw this, of "[0, 0]"] show ?thesis
    using raw by (auto simp: received_def example_frame_def)
qed

end
