(* ===== verification/Goose.thy ===== *)
theory Goose
  imports MmsData Ethernet
begin

text \<open>
  \<^verbatim>\<open>src/open61850/goose.py\<close>: the IECGoosePdu codec, lenient and strict, and the frame that
  carries it. The dictionary of fields is a map from tag numbers to contents.
\<close>

definition TAG_GOOSE_PDU :: int where "TAG_GOOSE_PDU = 0x61"

definition MANDATORY :: "int list" where
  "MANDATORY = [0, 1, 2, 4, 5, 6, 8, 10]"

record goose_pdu =
  gocb_ref :: ustr
  time_allowed_to_live :: int
  dat_set :: ustr
  go_id :: "ustr option"
  timestamp :: int
  st_num :: int
  sq_num :: int
  simulation :: bool
  conf_rev :: int
  nds_com :: bool
  num_dat_set_entries :: int
  all_data :: "iecdata list"
  time_quality :: int

section \<open>Lenient decoding\<close>

definition lookup :: "(int \<rightharpoonup> bytes) \<Rightarrow> int \<Rightarrow> bytes result" where
  "lookup m k = (case m k of Some v \<Rightarrow> Inr v | None \<Rightarrow> Inl KeyError)"

definition get_default :: "(int \<rightharpoonup> bytes) \<Rightarrow> int \<Rightarrow> bytes" where
  "get_default m k = (case m k of Some v \<Rightarrow> v | None \<Rightarrow> [])"

definition counter :: "bytes \<Rightarrow> int result" where
  "counter content = bindE (decode_unsigned content) (\<lambda>v.
     if drop_bit 64 v \<noteq> 0 then Inl GooseDecodeError else Inr v)"

definition lenient_bool :: "bytes option \<Rightarrow> bool" where
  "lenient_bool content = (case content of Some (b # _) \<Rightarrow> b \<noteq> 0 | _ \<Rightarrow> False)"

definition add_field :: "tlv \<Rightarrow> (int \<rightharpoonup> bytes) \<Rightarrow> (int \<rightharpoonup> bytes) result" where
  "add_field t m = bindE (tag_number (tlv_tag t)) (\<lambda>n. Inr (m(n \<mapsto> tlv_value t)))"

definition goose_fields :: "bytes \<Rightarrow> (int \<rightharpoonup> bytes) result" where
  "goose_fields data = bindE (expect_tlv data 0 TAG_GOOSE_PDU) (\<lambda>outer.
     for_tlvs add_field (tlv_value outer) Map.empty)"

text \<open>
  The decoder of the entries is an argument: it is \<^verbatim>\<open>decode_data_sequence\<close>, on a stack that is deep enough or on one of a
  given room.
\<close>

definition goose_of_fields_by :: "(bytes \<Rightarrow> iecdata list result) \<Rightarrow> (int \<rightharpoonup> bytes) \<Rightarrow> goose_pdu result" where
  "goose_of_fields_by decode_entries m =
     bindE (lookup m 4) (\<lambda>t_octets. bindE (decode_utc_time t_octets) (\<lambda>(t, q).
     bindE (lookup m 0) (\<lambda>gocb.
     bindE (lookup m 1) (\<lambda>c. bindE (counter c) (\<lambda>tal.
     bindE (lookup m 2) (\<lambda>ds.
     bindE (lookup m 5) (\<lambda>c. bindE (counter c) (\<lambda>st.
     bindE (lookup m 6) (\<lambda>c. bindE (counter c) (\<lambda>sq.
     bindE (lookup m 8) (\<lambda>c. bindE (counter c) (\<lambda>rev.
     bindE (lookup m 10) (\<lambda>c. bindE (counter c) (\<lambda>n.
     bindE (decode_entries (get_default m 11)) (\<lambda>entries.
       Inr \<lparr>gocb_ref = decode_ascii_replace gocb, time_allowed_to_live = tal,
         dat_set = decode_ascii_replace ds, go_id = map_option decode_ascii_replace (m 3),
         timestamp = t, st_num = st, sq_num = sq, simulation = lenient_bool (m 7), conf_rev = rev,
         nds_com = lenient_bool (m 9), num_dat_set_entries = n, all_data = entries,
         time_quality = q\<rparr>)))))))))))))))"

definition goose_of_fields :: "(int \<rightharpoonup> bytes) \<Rightarrow> goose_pdu result" where
  "goose_of_fields = goose_of_fields_by decode_data_sequence"

lemmas goose_of_fields_eq = goose_of_fields_by_def [of decode_data_sequence, folded goose_of_fields_def]

definition decode_goose_lenient_by :: "(bytes \<Rightarrow> iecdata list result) \<Rightarrow> bytes \<Rightarrow> goose_pdu result" where
  "decode_goose_lenient_by decode_entries data =
     bindE (rethrow is_ber_error GooseDecodeError (goose_fields data)) (\<lambda>m.
       if \<exists>n \<in> set MANDATORY. m n = None then Inl GooseDecodeError
       else rethrow is_ber_error GooseDecodeError (goose_of_fields_by decode_entries m))"

definition decode_goose_lenient :: "bytes \<Rightarrow> goose_pdu result" where
  "decode_goose_lenient = decode_goose_lenient_by decode_data_sequence"

lemmas decode_goose_lenient_eq = decode_goose_lenient_by_def [of decode_data_sequence, folded decode_goose_lenient_def goose_of_fields_def]

section \<open>Strict decoding\<close>

definition STRING_MAX :: nat where "STRING_MAX = 129"
definition U32_OCTETS :: nat where "U32_OCTETS = 5"

definition DATA_SIZES :: "int \<Rightarrow> nat list option" where
  "DATA_SIZES = [0x83 \<mapsto> [1], 0x87 \<mapsto> [5, 9], 0x8C \<mapsto> [4, 6], 0x91 \<mapsto> [8]]"

definition visible :: "bytes \<Rightarrow> bool" where
  "visible bs \<longleftrightarrow> list_all (\<lambda>c. 0x20 \<le> c \<and> c \<le> 0x7E) bs"

definition guard :: "bool \<Rightarrow> unit result" where
  "guard b = (if b then Inr () else Inl GooseDecodeError)"

definition strict_field :: "tlv \<Rightarrow> int \<times> (int \<rightharpoonup> bytes) \<Rightarrow> (int \<times> (int \<rightharpoonup> bytes)) result" where
  "strict_field t = (\<lambda>(previous, m).
     let number = tlv_tag t AND 0x1F; expected = (if number = 11 then 0xAB else 0x80 OR number)
     in if tlv_tag t \<noteq> expected \<or> number > 11 then Inl GooseDecodeError
        else if number \<le> previous then Inl GooseDecodeError
        else Inr (number, m(number \<mapsto> tlv_value t)))"

text \<open>What one element of allData must be: \<^verbatim>\<open>None\<close> to refuse, else the offset to go on at.\<close>

definition strict_element :: "tlv \<Rightarrow> nat option" where
  "strict_element t =
     (let tag = tlv_tag t; v = tlv_value t; container = (tag AND 0x1F \<in> {1, 2}) in
      if tag > 0xFF \<or> tag AND 0xC0 \<noteq> 0x80 \<or> tag AND 0x1F = 0x1F \<or> (tag AND 0x20 \<noteq> 0) \<noteq> container then None
      else if container then Some (tlv_end t - length v)
      else if (case DATA_SIZES tag of Some ns \<Rightarrow> length v \<notin> set ns | None \<Rightarrow> False) then None
      else if tag = 0x84 \<and> (v = [] \<or> hd v > 7) then None
      else if (tag = 0x85 \<or> tag = 0x86) \<and> v = [] then None
      else if tag = 0x8A \<and> \<not> visible v then None
      else Some (tlv_end t))"

lemma strict_element_range:
  "strict_element t = Some nx \<Longrightarrow> nx = tlv_end t - length (tlv_value t) \<or> nx = tlv_end t"
  by (auto simp: strict_element_def Let_def split: if_splits option.splits)

function check_strict_data :: "bytes \<Rightarrow> nat \<Rightarrow> unit result" where
  "check_strict_data data pos =
     (if length data \<le> pos then Inr ()
      else bindE (decode_tlv data pos) (\<lambda>t. case strict_element t of
          None \<Rightarrow> Inl GooseDecodeError
        | Some nx \<Rightarrow> check_strict_data data nx))"
  by pat_completeness auto
termination
proof (relation "measure (\<lambda>(data, pos). length data - pos)", goal_cases)
  case (2 data pos t nx)
  then show ?case using decode_tlv_progress(1,2) [of data pos t] strict_element_range [of t nx] by auto
qed simp

declare check_strict_data.simps [simp del]

text \<open>The checks on the fields, once the loop over the TLVs has gathered them.\<close>

definition check_fields :: "(int \<rightharpoonup> bytes) \<Rightarrow> unit result" where
  "check_fields m =
     bindE (foldE (\<lambda>n _. let v = get_default m n in guard (length v \<le> STRING_MAX \<and> visible v)) [0, 2, 3] ()) (\<lambda>_.
     bindE (lookup m 0) (\<lambda>v. bindE (guard (v \<noteq> [])) (\<lambda>_.
     bindE (lookup m 4) (\<lambda>v. bindE (guard (length v = 8)) (\<lambda>_.
     bindE (foldE (\<lambda>n _. bindE (lookup m n) (\<lambda>v.
              guard (\<not> (length v > U32_OCTETS \<or> (length v = U32_OCTETS \<and> hd v \<noteq> 0))))) [1, 5, 6, 8, 10] ()) (\<lambda>_.
     bindE (foldE (\<lambda>n _. guard (case m n of Some v \<Rightarrow> length v = 1 | None \<Rightarrow> True)) [7, 9] ()) (\<lambda>_.
     bindE (guard (m 11 \<noteq> None)) (\<lambda>_.
     bindE (all_tlvs (get_default m 11)) (\<lambda>ts.
     bindE (lookup m 10) (\<lambda>v. bindE (decode_unsigned v) (\<lambda>n.
     bindE (guard (int (length ts) = n)) (\<lambda>_.
       check_strict_data (get_default m 11) 0))))))))))))"

definition check_strict :: "bytes \<Rightarrow> unit result" where
  "check_strict data =
     bindE (decode_tlv data 0) (\<lambda>outer.
     bindE (guard (tlv_end outer = length data)) (\<lambda>_.
     bindE (for_tlvs strict_field (tlv_value outer) (- 1, Map.empty)) (\<lambda>(previous, m). check_fields m)))"

definition decode_goose_by :: "(bytes \<Rightarrow> iecdata list result) \<Rightarrow> bytes \<Rightarrow> bool \<Rightarrow> goose_pdu result" where
  "decode_goose_by decode_entries data strict =
     bindE (decode_goose_lenient_by decode_entries data) (\<lambda>pdu.
     bindE (if strict then check_strict data else Inr ()) (\<lambda>_. Inr pdu))"

definition decode_goose_pdu :: "bytes \<Rightarrow> bool \<Rightarrow> goose_pdu result" where
  "decode_goose_pdu = decode_goose_by decode_data_sequence"

lemmas decode_goose_pdu_eq = decode_goose_by_def [of decode_data_sequence, folded decode_goose_pdu_def decode_goose_lenient_def]

text \<open>\<^verbatim>\<open>decode_goose_pdu\<close> where the stack has room for \<open>n\<close> levels of Data; the strict pass does not nest.\<close>

definition decode_goose_within :: "nat \<Rightarrow> bytes \<Rightarrow> bool \<Rightarrow> goose_pdu result" where
  "decode_goose_within n = decode_goose_by (decode_sequence_within n)"

section \<open>Encoding\<close>

definition ctx :: "int \<Rightarrow> bytes \<Rightarrow> bool \<Rightarrow> bytes result" where
  "ctx number content constructed =
     bindE (make_tag number CLASS_CONTEXT constructed) (\<lambda>tag. encode_tlv tag content)"

definition encode_goose_pdu :: "goose_pdu \<Rightarrow> bytes result" where
  "encode_goose_pdu p =
     bindE (bindE (encode_ascii (gocb_ref p)) (\<lambda>c. ctx 0 c False)) (\<lambda>f0.
     bindE (bindE (encode_unsigned (time_allowed_to_live p)) (\<lambda>c. ctx 1 c False)) (\<lambda>f1.
     bindE (bindE (encode_ascii (dat_set p)) (\<lambda>c. ctx 2 c False)) (\<lambda>f2.
     bindE (case go_id p of None \<Rightarrow> Inr [] | Some s \<Rightarrow> bindE (encode_ascii s) (\<lambda>c. ctx 3 c False)) (\<lambda>f3.
     bindE (bindE (encode_utc_time (timestamp p) (time_quality p)) (\<lambda>c. ctx 4 c False)) (\<lambda>f4.
     bindE (bindE (encode_unsigned (st_num p)) (\<lambda>c. ctx 5 c False)) (\<lambda>f5.
     bindE (bindE (encode_unsigned (sq_num p)) (\<lambda>c. ctx 6 c False)) (\<lambda>f6.
     bindE (ctx 7 (encode_boolean (simulation p)) False) (\<lambda>f7.
     bindE (bindE (encode_unsigned (conf_rev p)) (\<lambda>c. ctx 8 c False)) (\<lambda>f8.
     bindE (ctx 9 (encode_boolean (nds_com p)) False) (\<lambda>f9.
     bindE (bindE (encode_unsigned (num_dat_set_entries p)) (\<lambda>c. ctx 10 c False)) (\<lambda>f10.
     bindE (bindE (mapE concat (traverse encode_data (all_data p))) (\<lambda>c. ctx 11 c True)) (\<lambda>f11.
       encode_tlv TAG_GOOSE_PDU
         (concat [f0, f1, f2, f3, f4, f5, f6, f7, f8, f9, f10, f11])))))))))))))"

definition encode_goose_frame ::
    "goose_pdu \<Rightarrow> ustr \<Rightarrow> ustr \<Rightarrow> int \<Rightarrow> int option \<Rightarrow> int option \<Rightarrow> bytes result" where
  "encode_goose_frame pdu dst src aid vid vprio =
     bindE (encode_goose_pdu pdu) (\<lambda>a.
       build_frame \<lparr>dst_mac = dst, src_mac = src, vlan_id = vid, vlan_priority = vprio,
         ethertype = ETHERTYPE_GOOSE, app_id = aid, reserved1 = 0, reserved2 = 0, apdu = a\<rparr>)"

definition decode_goose_frame :: "bytes \<Rightarrow> bool \<Rightarrow> (ethernet_frame \<times> goose_pdu) option result" where
  "decode_goose_frame raw strict =
     (case parse_frame raw [ETHERTYPE_GOOSE] of
        None \<Rightarrow> Inr None
      | Some frame \<Rightarrow> bindE (decode_goose_pdu (apdu frame) strict) (\<lambda>pdu. Inr (Some (frame, pdu))))"

section \<open>Lenient round trip\<close>

lemma ctx_pair:
  "ctx 0 c False = enc_pair (0x80, c)" "ctx 1 c False = enc_pair (0x81, c)" "ctx 2 c False = enc_pair (0x82, c)"
  "ctx 3 c False = enc_pair (0x83, c)" "ctx 4 c False = enc_pair (0x84, c)" "ctx 5 c False = enc_pair (0x85, c)"
  "ctx 6 c False = enc_pair (0x86, c)" "ctx 7 c False = enc_pair (0x87, c)" "ctx 8 c False = enc_pair (0x88, c)"
  "ctx 9 c False = enc_pair (0x89, c)" "ctx 10 c False = enc_pair (0x8A, c)" "ctx 11 c True = enc_pair (0xAB, c)"
  by (simp_all add: ctx_def make_tag_def CLASS_CONTEXT_def CONSTRUCTED_def enc_pair_def Let_def)

lemma goose_wf_tags:
  "wf_tag 0x61" "wf_tag 0x80" "wf_tag 0x81" "wf_tag 0x82" "wf_tag 0x83" "wf_tag 0x84" "wf_tag 0x85" "wf_tag 0x86"
  "wf_tag 0x87" "wf_tag 0x88" "wf_tag 0x89" "wf_tag 0x8A" "wf_tag 0xAB"
  by (rule wf_low_tag(2); simp)+

lemma goose_tag_numbers:
  "tag_number 0x80 = Inr 0" "tag_number 0x81 = Inr 1" "tag_number 0x82 = Inr 2" "tag_number 0x83 = Inr 3"
  "tag_number 0x84 = Inr 4" "tag_number 0x85 = Inr 5" "tag_number 0x86 = Inr 6" "tag_number 0x87 = Inr 7"
  "tag_number 0x88 = Inr 8" "tag_number 0x89 = Inr 9" "tag_number 0x8A = Inr 10" "tag_number 0xAB = Inr 11"
  by (subst tag_number_low; simp)+

text \<open>The fields of a PDU in the order they are written.\<close>

definition goose_pairs :: "goose_pdu \<Rightarrow> bytes list \<Rightarrow> (int \<times> bytes) list" where
  "goose_pairs p cs =
     [(0x80, cs ! 0), (0x81, cs ! 1), (0x82, cs ! 2)]
     @ (case go_id p of None \<Rightarrow> [] | Some s \<Rightarrow> [(0x83, map of_nat s)])
     @ [(0x84, cs ! 3), (0x85, cs ! 4), (0x86, cs ! 5), (0x87, encode_boolean (simulation p)), (0x88, cs ! 6),
        (0x89, encode_boolean (nds_com p)), (0x8A, cs ! 7), (0xAB, cs ! 8)]"

definition goose_contents :: "goose_pdu \<Rightarrow> bytes list result" where
  "goose_contents p = traverse id
     [encode_ascii (gocb_ref p), encode_unsigned (time_allowed_to_live p), encode_ascii (dat_set p),
      encode_utc_time (timestamp p) (time_quality p), encode_unsigned (st_num p), encode_unsigned (sq_num p),
      encode_unsigned (conf_rev p), encode_unsigned (num_dat_set_entries p),
      mapE concat (traverse encode_data (all_data p))]"

lemma enc_pair_lengths: "traverse enc_pair ps = Inr bss \<Longrightarrow> \<forall>p \<in> set ps. ok_length (length (snd p))"
  by (induction ps arbitrary: bss)
    (auto simp: bindE_Inr_iff enc_pair_def encode_tlv_def encode_length_ok)

lemma encode_goose_pairs:
  assumes "encode_goose_pdu p = Inr bs"
  shows "\<exists>cs bss. goose_contents p = Inr cs \<and> traverse enc_pair (goose_pairs p cs) = Inr bss
    \<and> encode_tlv TAG_GOOSE_PDU (concat bss) = Inr bs"
proof (cases "go_id p")
  case None
  then show ?thesis using assms
    by (auto simp: encode_goose_pdu_def goose_contents_def goose_pairs_def ctx_pair bindE_Inr_iff)
next
  case (Some g)
  then show ?thesis using assms
    by (auto simp: encode_goose_pdu_def goose_contents_def goose_pairs_def ctx_pair bindE_Inr_iff
        encode_ascii_def [of g] split: if_splits)
qed

lemma goose_pairs_ok:
  assumes "traverse enc_pair (goose_pairs p cs) = Inr bss"
  shows "list_all ok_pair (goose_pairs p cs)"
proof -
  have "\<forall>q \<in> set (goose_pairs p cs). wf_tag (fst q)"
    by (auto simp: goose_pairs_def goose_wf_tags split: option.splits)
  then show ?thesis using enc_pair_lengths [OF assms] by (auto simp: list_all_iff ok_pair_def)
qed

definition add_pair :: "int \<times> bytes \<Rightarrow> (int \<rightharpoonup> bytes) \<Rightarrow> (int \<rightharpoonup> bytes) result" where
  "add_pair p m = bindE (tag_number (fst p)) (\<lambda>n. Inr (m(n \<mapsto> snd p)))"

lemma foldE_add_field: "foldE add_field ts m = foldE add_pair (map pair_of ts) m"
  by (simp add: foldE_map add_field_def add_pair_def cong: foldE_cong)

definition goose_map :: "goose_pdu \<Rightarrow> bytes list \<Rightarrow> (int \<rightharpoonup> bytes)" where
  "goose_map p cs = [0 \<mapsto> cs ! 0, 1 \<mapsto> cs ! 1, 2 \<mapsto> cs ! 2, 4 \<mapsto> cs ! 3, 5 \<mapsto> cs ! 4, 6 \<mapsto> cs ! 5,
     7 \<mapsto> encode_boolean (simulation p), 8 \<mapsto> cs ! 6, 9 \<mapsto> encode_boolean (nds_com p), 10 \<mapsto> cs ! 7,
     11 \<mapsto> cs ! 8](3 := map_option (map of_nat) (go_id p))"

lemma foldE_goose_pairs: "foldE add_pair (goose_pairs p cs) Map.empty = Inr (goose_map p cs)"
  by (cases "go_id p") (auto simp: goose_pairs_def goose_map_def add_pair_def goose_tag_numbers)

lemma goose_fields_encode:
  assumes "encode_goose_pdu p = Inr bs" "goose_contents p = Inr cs"
  shows "goose_fields bs = Inr (goose_map p cs)"
proof -
  from encode_goose_pairs [OF assms(1)] assms(2) obtain bss where
    bss: "traverse enc_pair (goose_pairs p cs) = Inr bss" "encode_tlv TAG_GOOSE_PDU (concat bss) = Inr bs"
    by auto
  obtain ts where "iter_tlvs (concat bss) = (ts, None)" "map pair_of ts = goose_pairs p cs"
    using iter_tlvs_enc [OF goose_pairs_ok [OF bss(1)] bss(1)] by blast
  then have "for_tlvs add_field (concat bss) Map.empty = Inr (goose_map p cs)"
    by (simp add: for_tlvs_def foldE_add_field foldE_goose_pairs)
  then show ?thesis
    using decode_encode_tlv [OF goose_wf_tags(1), of "concat bss" bs "[]" "[]"] bss(2)
    by (simp add: goose_fields_def expect_tlv_def TAG_GOOSE_PDU_def)
qed

text \<open>
  The PDUs the decoder gives back as they were: an instant a UtcTime holds, counters of 64 bits at
  most, values that are read back.
\<close>

definition ok_goose :: "goose_pdu \<Rightarrow> bool" where
  "ok_goose p \<longleftrightarrow> ok_utc (timestamp p, time_quality p) \<and> list_all ok_data (all_data p)
     \<and> list_all (\<lambda>c. c < 2 ^ 64)
         [time_allowed_to_live p, st_num p, sq_num p, conf_rev p, num_dat_set_entries p]"

lemma counter_encode:
  assumes "encode_unsigned v = Inr c" "v < 2 ^ 64"
  shows "counter c = Inr v"
proof -
  from assms have "0 \<le> v" by (auto simp: encode_unsigned_def split: if_splits)
  then have "decode_unsigned c = Inr v" using unsigned_codec.dec_enc [of v c] assms(1) by simp
  moreover have "drop_bit 64 v = 0" using \<open>0 \<le> v\<close> assms(2) by (simp add: drop_bit_eq_div)
  ultimately show ?thesis by (simp add: counter_def)
qed

lemma lenient_bool_encode: "lenient_bool (Some (encode_boolean b)) = b"
  by (simp add: lenient_bool_def encode_boolean_def)

lemma goose_of_map:
  assumes "ok_goose p" "goose_contents p = Inr cs" "\<forall>s. go_id p = Some s \<longrightarrow> is_ascii s"
  shows "goose_of_fields (goose_map p cs) = Inr p"
proof -
  from assms(2) obtain c0 c1 c2 c3 c4 c5 c6 c7 bss where
    cs: "cs = [c0, c1, c2, c3, c4, c5, c6, c7, concat bss]" and
    c: "encode_ascii (gocb_ref p) = Inr c0" "encode_unsigned (time_allowed_to_live p) = Inr c1"
       "encode_ascii (dat_set p) = Inr c2" "encode_utc_time (timestamp p) (time_quality p) = Inr c3"
       "encode_unsigned (st_num p) = Inr c4" "encode_unsigned (sq_num p) = Inr c5"
       "encode_unsigned (conf_rev p) = Inr c6" "encode_unsigned (num_dat_set_entries p) = Inr c7"
       "traverse encode_data (all_data p) = Inr bss"
    by (auto simp: goose_contents_def bindE_Inr_iff mapE_Inr_iff)
  have t: "decode_utc_time c3 = Inr (timestamp p, time_quality p)"
    using utc_time_codec.dec_enc [of "(timestamp p, time_quality p)" c3] assms(1) c(4) by (simp add: ok_goose_def)
  have n: "counter c1 = Inr (time_allowed_to_live p)" "counter c4 = Inr (st_num p)" "counter c5 = Inr (sq_num p)"
    "counter c6 = Inr (conf_rev p)" "counter c7 = Inr (num_dat_set_entries p)"
    using assms(1) c by (auto intro: counter_encode simp: ok_goose_def)
  have d: "decode_data_sequence (concat bss) = Inr (all_data p)"
    using decode_encode_sequence [OF _ c(9)] assms(1) by (simp add: ok_goose_def)
  have g: "map_option decode_ascii_replace (map_option (map of_nat) (go_id p)) = go_id p"
    using assms(3) decode_encode_ascii [OF encode_ascii_ok] by (cases "go_id p") auto
  show ?thesis
    using t n d g decode_encode_ascii [OF c(1)] decode_encode_ascii [OF c(3)]
    by (simp add: goose_of_fields_eq goose_map_def cs lookup_def get_default_def lenient_bool_encode)
qed

lemma encode_goose_ascii: "encode_goose_pdu p = Inr bs \<Longrightarrow> \<forall>s. go_id p = Some s \<longrightarrow> is_ascii s"
  by (auto simp: encode_goose_pdu_def bindE_Inr_iff encode_ascii_def split: if_splits)

lemma decode_encode_lenient:
  assumes "ok_goose p" "encode_goose_pdu p = Inr bs"
  shows "decode_goose_lenient bs = Inr p"
proof -
  from encode_goose_pairs [OF assms(2)] obtain cs where cs: "goose_contents p = Inr cs" by blast
  have "\<not> (\<exists>n \<in> set MANDATORY. goose_map p cs n = None)" by (simp add: MANDATORY_def goose_map_def)
  then show ?thesis
    using goose_fields_encode [OF assms(2) cs] goose_of_map [OF assms(1) cs encode_goose_ascii [OF assms(2)]]
    by (simp add: decode_goose_lenient_eq)
qed

section \<open>Errors\<close>

text \<open>
  \<open>tiles data a b\<close>: TLVs tile the octets from a to b, those of an array or a structure included.
  It is what the lenient decoding has checked when the strict pass starts.
\<close>

inductive tiles :: "bytes \<Rightarrow> nat \<Rightarrow> nat \<Rightarrow> bool" for data where
  Nil: "tiles data a a"
| Step: "decode_tlv data a = Inr t \<Longrightarrow>
    (tlv_tag t \<in> {0xA1, 0xA2} \<Longrightarrow> tiles data (tlv_end t - length (tlv_value t)) (tlv_end t)) \<Longrightarrow>
    tiles data (tlv_end t) b \<Longrightarrow> tiles data a b"

inductive_cases tiles_cases: "tiles data a b"

lemma tiles_trans: "tiles data a b \<Longrightarrow> tiles data b c \<Longrightarrow> tiles data a c"
  by (induction rule: tiles.induct) (auto intro: tiles.Step)

lemma tiles_le: "tiles data a b \<Longrightarrow> a \<le> b"
  by (induction rule: tiles.induct) (auto dest: decode_tlv_progress(1))

lemma decode_data_tiles:
  "decode_data tag v = Inr d \<Longrightarrow> tag \<in> {0xA1, 0xA2} \<Longrightarrow>
     tiles (pre @ v @ post) (length pre) (length pre + length v)"
  "decode_data_seq data offset = Inr ds \<Longrightarrow> offset \<le> length data \<Longrightarrow>
     tiles (pre @ data @ post) (length pre + offset) (length pre + length data)"
proof (induction tag v and data offset arbitrary: d pre post and ds pre post
    rule: decode_data_decode_data_seq.induct)
  case (1 tag v)
  from "1.prems"(2) consider "tag = 0xA1" | "tag = 0xA2" by blast
  then show ?case
  proof cases
    case 1
    then obtain ds where "decode_data_seq v 0 = Inr ds" using "1.prems"(1) by (auto simp: decode_data.simps)
    then show ?thesis using "1.IH"(1) [of ds pre post] 1 by simp
  next
    case 2
    then obtain ds where "decode_data_seq v 0 = Inr ds" using "1.prems"(1) by (auto simp: decode_data.simps)
    then show ?thesis using "1.IH"(2) [of ds pre post] 2 by simp
  qed
next
  case (2 data offset)
  show ?case
  proof (cases "length data \<le> offset")
    case True
    then show ?thesis using "2.prems" by (simp add: tiles.Nil)
  next
    case False
    then obtain t d ds' where t: "decode_tlv data offset = Inr t" and d: "decode_data (tlv_tag t) (tlv_value t) = Inr d"
      and ds': "decode_data_seq data (tlv_end t) = Inr ds'"
      using "2.prems" by (auto simp: decode_data_seq.simps [of data offset] bindE_Inr_iff)
    note le = decode_tlv_progress [OF t]
    let ?n = "length (tlv_value t)" and ?all = "pre @ data @ post"
    let ?a = "tlv_end t - ?n"
    have split: "?all = (pre @ take ?a data) @ tlv_value t @ (drop (tlv_end t) data @ post)"
      using slice_decomp [of ?a "tlv_end t" data] le(3) by simp
    have ends: "length (pre @ take ?a data) = length pre + tlv_end t - ?n"
      "length pre + tlv_end t - ?n + ?n = length pre + tlv_end t"
      using le by simp_all
    have inner: "tiles ?all (length pre + tlv_end t - ?n) (length pre + tlv_end t)" if "tlv_tag t \<in> {0xA1, 0xA2}"
      using "2.IH"(1) [OF False t d that, of "pre @ take ?a data" "drop (tlv_end t) data @ post"]
      unfolding split [symmetric] ends .
    have "tiles ?all (length pre + tlv_end t) (length pre + length data)"
      using "2.IH"(2) [OF False t d ds' le(2)] .
    then show ?thesis
      using decode_tlv_shift [OF t, of pre post] inner by (auto intro: tiles.Step)
  qed
qed

lemma and_power2: "(x :: int) AND 2 ^ n = (if bit x n then 2 ^ n else 0)"
  by (rule bit_eqI) (auto simp: bit_simps)

text \<open>An identifier octet is its class, its form and its number.\<close>

lemma tag_parts:
  assumes "0 \<le> tag" "tag \<le> (0xFF :: int)"
  shows "tag = ((tag AND 0xC0) OR (tag AND 0x20)) OR (tag AND 0x1F)"
proof -
  have "tag = take_bit 8 tag" using assms by (simp add: take_bit_int_eq_self)
  also have "\<dots> = tag AND 0xFF" by (simp add: take_bit_eq_mask mask_eq_exp_minus_1)
  also have "\<dots> = tag AND ((0xC0 OR 0x20) OR 0x1F)" by simp
  also have "\<dots> = ((tag AND 0xC0) OR (tag AND 0x20)) OR (tag AND 0x1F)"
    by (simp only: bit.conj_disj_distrib)
  finally show ?thesis .
qed

lemma container_tag:
  assumes "0 \<le> tag" "tag \<le> (0xFF :: int)" "tag AND 0xC0 = 0x80" "tag AND 0x1F \<in> {1, 2}" "tag AND 0x20 \<noteq> 0"
  shows "tag \<in> {0xA1, 0xA2}"
proof -
  have "tag AND 0x20 = 0x20" using and_power2 [of tag 5] assms(5) by (simp split: if_splits)
  with tag_parts [OF assms(1,2)] assms(3) have t: "tag = (0x80 OR 0x20) OR (tag AND 0x1F)" by (simp only:)
  from assms(4) consider "tag AND 0x1F = 1" | "tag AND 0x1F = 2" by blast
  then show ?thesis
  proof cases
    case 1
    then have "tag = (0x80 OR 0x20) OR 1" using t by (simp only:)
    then show ?thesis by simp
  next
    case 2
    then have "tag = (0x80 OR 0x20) OR 2" using t by (simp only:)
    then show ?thesis by simp
  qed
qed

lemma strict_element_container:
  assumes "strict_element t = Some nx" "nx \<noteq> tlv_end t" "0 \<le> tlv_tag t"
  shows "tlv_tag t \<in> {0xA1, 0xA2} \<and> nx = tlv_end t - length (tlv_value t)"
proof -
  let ?tag = "tlv_tag t"
  have c: "?tag AND 0x1F \<in> {1, 2}" "nx = tlv_end t - length (tlv_value t)"
    using assms(1,2) unfolding strict_element_def Let_def by (auto split: if_splits option.splits)
  then have "?tag \<le> 0xFF" "?tag AND 0xC0 = 0x80" "?tag AND 0x20 \<noteq> 0"
    using assms(1) unfolding strict_element_def Let_def by (meson not_le_imp_less option.distinct(1))+
  then show ?thesis using container_tag [OF assms(3)] c by blast
qed

lemma decode_tlv_tag_nonneg: "decode_tlv data offset = Inr t \<Longrightarrow> 0 \<le> tlv_tag t"
  by (meson decode_tlv_wf_tag wf_tag_nonneg)

lemma check_strict_data_tiles:
  "tiles data pos (length data) \<Longrightarrow> check_strict_data data pos = Inl e \<Longrightarrow> e = GooseDecodeError"
proof (induction data pos rule: check_strict_data.induct)
  case (1 data pos)
  show ?case
  proof (cases "length data \<le> pos")
    case True
    then show ?thesis using 1(3) by (simp add: check_strict_data.simps)
  next
    case False
    obtain t where t: "decode_tlv data pos = Inr t" and rest: "tiles data (tlv_end t) (length data)"
      and inner: "tlv_tag t \<in> {0xA1, 0xA2} \<Longrightarrow> tiles data (tlv_end t - length (tlv_value t)) (tlv_end t)"
      using 1(2) False by (cases rule: tiles_cases) auto
    show ?thesis
    proof (cases "strict_element t")
      case None
      then show ?thesis using 1(3) False t by (simp add: check_strict_data.simps [of data pos])
    next
      case (Some nx)
      have "tiles data nx (length data)"
      proof (cases "nx = tlv_end t")
        case True
        then show ?thesis using rest by simp
      next
        case False
        then show ?thesis
          using strict_element_container [OF Some False decode_tlv_tag_nonneg [OF t]] inner rest tiles_trans by blast
      qed
      then show ?thesis using 1(1) [OF False t Some] 1(3) False t Some
        by (simp add: check_strict_data.simps [of data pos])
    qed
  qed
qed

lemma add_field_total:
  "wf_tag (tlv_tag t) \<Longrightarrow> \<exists>n. tag_number (tlv_tag t) = Inr n"
  by (auto simp: wf_tag_def tag_number_def split: sum.splits)

lemma foldE_add_field_total:
  "\<forall>t \<in> set ts. wf_tag (tlv_tag t) \<Longrightarrow> \<exists>m'. foldE add_field ts m = Inr m'"
proof (induction ts arbitrary: m)
  case (Cons t ts)
  then obtain n where "tag_number (tlv_tag t) = Inr n" using add_field_total by fastforce
  then show ?case using Cons by (simp add: add_field_def)
qed simp

lemma for_tlvs_add_field:
  "\<exists>m'. for_tlvs add_field data m = (case snd (iter_tlvs data) of None \<Rightarrow> Inr m' | Some e \<Rightarrow> Inl e)"
proof -
  have "\<forall>t \<in> set (fst (iter_tlvs data)). wf_tag (tlv_tag t)"
    unfolding iter_tlvs_def using iter_tlvs_from_wf_tag by blast
  from foldE_add_field_total [OF this, of m] show ?thesis by (auto simp: for_tlvs_def)
qed

lemma goose_raises_decode_tlv: "BerError \<in> E \<Longrightarrow> raises_only E (decode_tlv data offset)"
  by (auto intro!: raises_onlyI dest: decode_tlv_error)

lemma raises_expect_tlv: "BerError \<in> E \<Longrightarrow> raises_only E (expect_tlv data offset tag)"
  unfolding expect_tlv_def by (intro raises goose_raises_decode_tlv)

lemma raises_for_add_field: "BerError \<in> E \<Longrightarrow> raises_only E (for_tlvs add_field data m)"
proof -
  assume "BerError \<in> E"
  then show ?thesis
    using for_tlvs_add_field [of data m] iter_tlvs_error [of data]
    by (cases "snd (iter_tlvs data)") (auto intro: raises)
qed

lemma goose_fields_error: "goose_fields data = Inl e \<Longrightarrow> e = BerError"
proof -
  have "raises_only {BerError} (goose_fields data)"
    unfolding goose_fields_def by (intro raises raises_expect_tlv raises_for_add_field) simp_all
  then show "goose_fields data = Inl e \<Longrightarrow> e = BerError" by (auto simp: raises_only_def)
qed

text \<open>The exceptions below are those \<^verbatim>\<open>except ber.BerError\<close> catches.\<close>

lemma raises_ber [raises]:
  "raises_only {BerError, GooseDecodeError} (decode_unsigned c)"
  "raises_only {BerError, GooseDecodeError} (decode_utc_time c)"
  "raises_only {BerError, GooseDecodeError} (decode_data_sequence c)"
  by (auto intro!: raises_onlyI dest: decode_utc_time_error decode_data_sequence_error
      simp: decode_unsigned_def split: if_splits)

lemma lookup_raises [raises]: "m n \<noteq> None \<Longrightarrow> raises_only E (lookup m n)"
  by (auto simp: lookup_def intro!: raises_onlyI)

lemma counter_raises [raises]: "raises_only {BerError, GooseDecodeError} (counter c)"
  unfolding counter_def by (intro raises) simp

lemma goose_of_fields_raises:
  assumes "\<forall>n \<in> set MANDATORY. m n \<noteq> None"
  shows "raises_only {BerError, GooseDecodeError} (goose_of_fields m)"
  unfolding goose_of_fields_eq by (intro raises) (use assms in \<open>auto simp: MANDATORY_def\<close>)

lemma decode_goose_lenient_error: "decode_goose_lenient data = Inl e \<Longrightarrow> e = GooseDecodeError"
proof -
  have "raises_only {GooseDecodeError} (decode_goose_lenient data)"
    unfolding decode_goose_lenient_eq
  proof (intro raises)
    show "raises_only {GooseDecodeError} (rethrow is_ber_error GooseDecodeError (goose_fields data))"
      by (rule raises_only_rethrow [where F = "{BerError}"]) (auto intro!: raises_onlyI dest: goose_fields_error)
    fix m :: "int \<rightharpoonup> bytes" assume "\<not> (\<exists>n \<in> set MANDATORY. m n = None)"
    then show "raises_only {GooseDecodeError} (rethrow is_ber_error GooseDecodeError (goose_of_fields m))"
      by (intro raises_only_rethrow [OF goose_of_fields_raises]) auto
  qed simp
  then show "decode_goose_lenient data = Inl e \<Longrightarrow> e = GooseDecodeError" by (auto simp: raises_only_def)
qed

section \<open>The strict checks\<close>

text \<open>A strict field has the tag of its number: the strict and the lenient fields are the same.\<close>

definition goose_tag :: "int \<Rightarrow> int" where
  "goose_tag n = (if n = 11 then 0xAB else 0x80 + n)"

lemma strict_field_number:
  assumes "strict_field t (prev, m) = Inr (n, m')"
  shows "0 \<le> n \<and> n \<le> 11 \<and> prev < n \<and> tlv_tag t = goose_tag n \<and> tag_number (tlv_tag t) = Inr n
    \<and> m' = m(n \<mapsto> tlv_value t)"
proof -
  define k where "k = tlv_tag t AND 0x1F"
  have nn: "0 \<le> k" unfolding k_def by simp
  from assms have k: "n = k" "k \<le> 11" "prev < k" "m' = m(k \<mapsto> tlv_value t)"
    and t: "tlv_tag t = (if k = 11 then 0xAB else 0x80 OR k)"
    unfolding strict_field_def Let_def case_prod_conv k_def [symmetric] by (auto split: if_splits)
  have "k \<in> {0, 1, 2, 3, 4, 5, 6, 7, 8, 9, 10, 11}"
    unfolding insert_iff empty_iff using k(2) nn by presburger
  then have tag: "tlv_tag t = goose_tag k"
    unfolding t goose_tag_def by (elim insertE emptyE) (simp_all only:, simp_all)
  have "(4 * 32 + k) mod 32 = k mod 32" by (rule mod_mult_self3)
  then have "goose_tag k mod 32 = k" using k(2) nn by (auto simp: goose_tag_def)
  moreover have "0 \<le> goose_tag k" "goose_tag k < 256" using k(2) nn by (auto simp: goose_tag_def)
  ultimately have "tag_number (tlv_tag t) = Inr k" using tag_number_low [of "goose_tag k"] k(2) tag by simp
  then show ?thesis using k nn tag by blast
qed

lemma foldE_strict_field:
  "foldE strict_field ts (prev, m) = Inr (prev', m') \<Longrightarrow>
   foldE add_field ts m = Inr m'
   \<and> (\<exists>ns. map tlv_tag ts = map goose_tag ns \<and> sorted_wrt (<) (prev # ns) \<and> set ns \<subseteq> {0..11})"
proof (induction ts arbitrary: prev m)
  case Nil
  then show ?case by simp
next
  case (Cons t ts)
  then obtain n m1 where f: "strict_field t (prev, m) = Inr (n, m1)" and r: "foldE strict_field ts (n, m1) = Inr (prev', m')"
    by (auto simp: bindE_Inr_iff)
  note n = strict_field_number [OF f]
  from Cons.IH [OF r] obtain ns where ns: "foldE add_field ts m1 = Inr m'" "map tlv_tag ts = map goose_tag ns"
    "sorted_wrt (<) (n # ns)" "set ns \<subseteq> {0..11}" by blast
  have "foldE add_field (t # ts) m = Inr m'" using n ns(1) by (auto simp: add_field_def)
  moreover have "map tlv_tag (t # ts) = map goose_tag (n # ns)" "sorted_wrt (<) (prev # n # ns)"
    "set (n # ns) \<subseteq> {0..11}" using n ns(2,3,4) by auto
  ultimately show ?case by blast
qed

lemma strict_fields_lenient:
  assumes "decode_tlv data 0 = Inr outer" "tlv_tag outer = TAG_GOOSE_PDU"
    "for_tlvs strict_field (tlv_value outer) (- 1, Map.empty) = Inr (prev, m)"
  shows "goose_fields data = Inr m"
    "\<exists>ns. map tlv_tag (fst (iter_tlvs (tlv_value outer))) = map goose_tag ns \<and> sorted_wrt (<) ns \<and> set ns \<subseteq> {0..11}"
proof -
  let ?ts = "fst (iter_tlvs (tlv_value outer))"
  from assms(3) have "foldE strict_field ?ts (- 1, Map.empty) = Inr (prev, m)" and none: "snd (iter_tlvs (tlv_value outer)) = None"
    by (auto simp: for_tlvs_def bindE_Inr_iff split: option.splits)
  from foldE_strict_field [OF this(1)]
  have "foldE add_field ?ts Map.empty = Inr m"
    and n: "\<exists>ns. map tlv_tag ?ts = map goose_tag ns \<and> sorted_wrt (<) ((- 1) # ns) \<and> set ns \<subseteq> {0..11}" by blast+
  then show "goose_fields data = Inr m"
    using assms(1,2) none by (simp add: goose_fields_def expect_tlv_def for_tlvs_def)
  show "\<exists>ns. map tlv_tag ?ts = map goose_tag ns \<and> sorted_wrt (<) ns \<and> set ns \<subseteq> {0..11}"
    using n by auto
qed

definition u32 :: "int \<Rightarrow> bool" where
  "u32 v \<longleftrightarrow> 0 \<le> v \<and> v < 2 ^ 32"

definition printable :: "ustr \<Rightarrow> bool" where
  "printable s \<longleftrightarrow> list_all (\<lambda>c. 0x20 \<le> c \<and> c \<le> 0x7E) s \<and> length s \<le> 129"

lemma visible_printable:
  "visible v \<Longrightarrow> length v \<le> STRING_MAX \<Longrightarrow> printable (decode_ascii_replace v) \<and> decode_ascii_replace v = map unat v"
  by (auto simp: visible_def printable_def STRING_MAX_def decode_ascii_replace_def list_all_iff word_le_nat_alt word_less_nat_alt)

lemma counter_u32:
  assumes "counter c = Inr v" "\<not> (length c > U32_OCTETS \<or> (length c = U32_OCTETS \<and> hd c \<noteq> 0))"
  shows "u32 v"
proof -
  have v: "v = from_bytes c"
    using assms(1) by (auto simp: counter_def decode_unsigned_def split: if_splits)
  have "from_bytes c < 256 ^ 4"
  proof (cases "length c = 5")
    case True
    then obtain cs where c: "c = 0 # cs" "length cs = 4"
      using assms(2) by (cases c) (auto simp: U32_OCTETS_def)
    then show ?thesis using from_bytes_bound [of cs] by (simp add: from_bytes_def be_nat_Cons)
  next
    case False
    then have "length c \<le> 4" using assms(2) by (auto simp: U32_OCTETS_def)
    then have "(256 :: int) ^ length c \<le> 256 ^ 4" by (intro power_increasing) auto
    then show ?thesis using from_bytes_bound [of c] by linarith
  qed
  then show ?thesis by (simp add: u32_def v)
qed

text \<open>What the checks of \<^verbatim>\<open>_check_strict\<close> leave, in terms of the fields.\<close>

lemma guard_Inr [simp]: "guard b = Inr u \<longleftrightarrow> b"
  by (simp add: guard_def)

lemma foldE_guard: "foldE (\<lambda>n _. guard (P n)) ns u = Inr w \<longleftrightarrow> (\<forall>n \<in> set ns. P n)"
  by (induction ns arbitrary: u) (auto simp: bindE_Inr_iff)

lemma foldE_guard_bind:
  "foldE (\<lambda>n _. bindE (g n) (\<lambda>v. guard (P v))) ns u = Inr w \<longleftrightarrow> (\<forall>n \<in> set ns. \<exists>v. g n = Inr v \<and> P v)"
  by (induction ns arbitrary: u) (auto simp: bindE_Inr_iff)

lemma bindE_unit_iff: "bindE m f = Inr u \<longleftrightarrow> m = Inr () \<and> f () = Inr u"
  by (cases m) auto

lemma ex_conj3: "(\<exists>x. P x \<and> Q x \<and> R) \<longleftrightarrow> (\<exists>x. P x \<and> Q x) \<and> R"
  by blast

lemma check_fields_iff:
  "check_fields m = Inr () \<longleftrightarrow>
     (\<forall>n \<in> {0, 2, 3}. length (get_default m n) \<le> STRING_MAX \<and> visible (get_default m n))
     \<and> (\<exists>v. m 0 = Some v \<and> v \<noteq> []) \<and> (\<exists>v. m 4 = Some v \<and> length v = 8)
     \<and> (\<forall>n \<in> {1, 5, 6, 8, 10}. \<exists>v. m n = Some v
          \<and> \<not> (length v > U32_OCTETS \<or> (length v = U32_OCTETS \<and> hd v \<noteq> 0)))
     \<and> (\<forall>n \<in> {7, 9}. \<forall>v. m n = Some v \<longrightarrow> length v = 1)
     \<and> m 11 \<noteq> None
     \<and> (\<exists>ts. all_tlvs (get_default m 11) = Inr ts
          \<and> (\<exists>v. m 10 = Some v \<and> (\<exists>n. decode_unsigned v = Inr n \<and> int (length ts) = n)))
     \<and> check_strict_data (get_default m 11) 0 = Inr ()"
proof -
  have look: "lookup m n = Inr v \<longleftrightarrow> m n = Some v" for n v
    by (simp add: lookup_def split: option.splits)
  have opt: "(case x of Some v \<Rightarrow> P v | None \<Rightarrow> True) \<longleftrightarrow> (\<forall>v. x = Some v \<longrightarrow> P v)" for x :: "bytes option" and P
    by (cases x) auto
  have sets: "set [0, 2, 3 :: int] = {0, 2, 3}" "set [1, 5, 6, 8, 10 :: int] = {1, 5, 6, 8, 10}"
    "set [7, 9 :: int] = {7, 9}" by simp_all
  show ?thesis
    unfolding check_fields_def bindE_unit_iff Let_def foldE_guard foldE_guard_bind guard_Inr sets opt
    unfolding bindE_Inr_iff [of "lookup m n" for n] bindE_Inr_iff [of "all_tlvs b" for b]
      bindE_Inr_iff [of "decode_unsigned v" for v] look bindE_unit_iff guard_Inr
    unfolding foldE_guard foldE_guard_bind guard_Inr sets look
    by (simp only: ex_conj3 conj_assoc)
qed

lemma lenient_fields:
  assumes "decode_goose_lenient data = Inr p"
  obtains m where "goose_fields data = Inr m" "\<forall>n \<in> set MANDATORY. m n \<noteq> None" "goose_of_fields m = Inr p"
  using assms by (fastforce simp: decode_goose_lenient_eq bindE_Inr_iff split: if_splits)

lemma goose_fields_header:
  "goose_fields data = Inr m \<Longrightarrow> \<exists>outer. decode_tlv data 0 = Inr outer \<and> tlv_tag outer = TAG_GOOSE_PDU"
  by (auto simp: goose_fields_def expect_tlv_def bindE_Inr_iff split: if_splits)

lemma goose_of_fields_parts:
  assumes "goose_of_fields m = Inr p"
  obtains v0 v1 v2 v4 v5 v6 v8 v10 where
    "m 0 = Some v0" "m 1 = Some v1" "m 2 = Some v2" "m 4 = Some v4" "m 5 = Some v5" "m 6 = Some v6"
    "m 8 = Some v8" "m 10 = Some v10"
    "gocb_ref p = decode_ascii_replace v0" "dat_set p = decode_ascii_replace v2"
    "go_id p = map_option decode_ascii_replace (m 3)"
    "counter v1 = Inr (time_allowed_to_live p)" "counter v5 = Inr (st_num p)" "counter v6 = Inr (sq_num p)"
    "counter v8 = Inr (conf_rev p)" "counter v10 = Inr (num_dat_set_entries p)"
    "decode_data_sequence (get_default m 11) = Inr (all_data p)"
  using assms unfolding goose_of_fields_eq
  by (auto simp: bindE_Inr_iff lookup_def split: option.splits)

lemma sequence_length:
  "decode_data_sequence data = Inr ds \<Longrightarrow> all_tlvs data = Inr ts \<Longrightarrow> length ds = length ts"
  by (auto simp: decode_data_sequence_comprehension all_tlvs_def gen_list_def bindE_Inr_iff
      dest: traverse_length split: option.splits)

text \<open>The guarantees of a strict decoding.\<close>

definition strict_goose :: "goose_pdu \<Rightarrow> bool" where
  "strict_goose p \<longleftrightarrow>
     gocb_ref p \<noteq> [] \<and> printable (gocb_ref p) \<and> printable (dat_set p)
     \<and> (\<forall>s. go_id p = Some s \<longrightarrow> printable s)
     \<and> u32 (time_allowed_to_live p) \<and> u32 (st_num p) \<and> u32 (sq_num p) \<and> u32 (conf_rev p)
     \<and> u32 (num_dat_set_entries p) \<and> num_dat_set_entries p = int (length (all_data p))"

definition ordered_fields :: "bytes \<Rightarrow> bool" where
  "ordered_fields data \<longleftrightarrow> (\<exists>outer ns. decode_tlv data 0 = Inr outer \<and> tlv_end outer = length data
     \<and> map tlv_tag (fst (iter_tlvs (tlv_value outer))) = map goose_tag ns
     \<and> sorted_wrt (<) ns \<and> set ns \<subseteq> {0..11})"

lemma check_fields_guarantees:
  assumes "check_fields m = Inr ()" "goose_of_fields m = Inr p"
  shows "strict_goose p"
proof -
  note all = assms(1) [unfolded check_fields_iff]
  have
    str: "\<And>n. n \<in> {0, 2, 3} \<Longrightarrow> length (get_default m n) \<le> STRING_MAX \<and> visible (get_default m n)" and
    m0: "m 0 \<noteq> Some []" and
    cnt: "\<And>n v. n \<in> {1, 5, 6, 8, 10} \<Longrightarrow> m n = Some v \<Longrightarrow>
       \<not> (length v > U32_OCTETS \<or> (length v = U32_OCTETS \<and> hd v \<noteq> 0))"
    using all by (blast, fastforce, fastforce)
  from all obtain ts w n where
    ts: "all_tlvs (get_default m 11) = Inr ts" "m 10 = Some w" "decode_unsigned w = Inr n" "int (length ts) = n"
    by blast
  from assms(2) obtain v0 v1 v2 v4 v5 v6 v8 v10 where
    v: "m 0 = Some v0" "m 1 = Some v1" "m 2 = Some v2" "m 4 = Some v4" "m 5 = Some v5" "m 6 = Some v6"
      "m 8 = Some v8" "m 10 = Some v10" and
    p: "gocb_ref p = decode_ascii_replace v0" "dat_set p = decode_ascii_replace v2"
      "go_id p = map_option decode_ascii_replace (m 3)" and
    c: "counter v1 = Inr (time_allowed_to_live p)" "counter v5 = Inr (st_num p)" "counter v6 = Inr (sq_num p)"
      "counter v8 = Inr (conf_rev p)" "counter v10 = Inr (num_dat_set_entries p)" and
    s: "decode_data_sequence (get_default m 11) = Inr (all_data p)"
    by (rule goose_of_fields_parts)
  have pr: "printable (gocb_ref p)" "printable (dat_set p)" "gocb_ref p \<noteq> []"
    using str [of 0] str [of 2] visible_printable [of v0] visible_printable [of v2] v p m0
    by (auto simp: get_default_def decode_ascii_replace_def)
  have g: "printable x" if "go_id p = Some x" for x
    using str [of 3] that p(3) by (auto simp: get_default_def dest: visible_printable)
  have u: "u32 (time_allowed_to_live p)" "u32 (st_num p)" "u32 (sq_num p)" "u32 (conf_rev p)"
    "u32 (num_dat_set_entries p)"
    using counter_u32 [OF c(1) cnt [OF _ v(2)]] counter_u32 [OF c(2) cnt [OF _ v(5)]]
      counter_u32 [OF c(3) cnt [OF _ v(6)]] counter_u32 [OF c(4) cnt [OF _ v(7)]]
      counter_u32 [OF c(5) cnt [OF _ v(8)]] by simp_all
  have "num_dat_set_entries p = n"
    using c(5) ts(2,3) v(8) by (auto simp: counter_def bindE_Inr_iff split: if_splits)
  then have "num_dat_set_entries p = int (length (all_data p))"
    using ts(4) sequence_length [OF s ts(1)] by simp
  then show ?thesis using pr g u by (simp add: strict_goose_def)
qed

lemma check_strict_parts:
  assumes "decode_goose_lenient data = Inr p"
  obtains outer m where "decode_tlv data 0 = Inr outer" "tlv_tag outer = TAG_GOOSE_PDU"
    "goose_fields data = Inr m" "goose_of_fields m = Inr p" "\<forall>n \<in> set MANDATORY. m n \<noteq> None"
    "\<forall>prev m'. for_tlvs strict_field (tlv_value outer) (- 1, Map.empty) = Inr (prev, m') \<longrightarrow> m' = m"
proof -
  from assms obtain m where m: "goose_fields data = Inr m" "\<forall>n \<in> set MANDATORY. m n \<noteq> None" "goose_of_fields m = Inr p"
    by (rule lenient_fields)
  then obtain outer where outer: "decode_tlv data 0 = Inr outer" "tlv_tag outer = TAG_GOOSE_PDU"
    using goose_fields_header by blast
  then show thesis using that [OF outer m(1,3,2)] strict_fields_lenient(1) [OF outer] m(1) by simp
qed

lemma strict_guarantees:
  assumes "decode_goose_lenient data = Inr p" "check_strict data = Inr ()"
  shows "strict_goose p" "ordered_fields data"
proof -
  from assms(1) obtain outer m where d: "decode_tlv data 0 = Inr outer" "tlv_tag outer = TAG_GOOSE_PDU" and
    m: "goose_fields data = Inr m" "goose_of_fields m = Inr p" "\<forall>n \<in> set MANDATORY. m n \<noteq> None" and
    same: "\<forall>prev m'. for_tlvs strict_field (tlv_value outer) (- 1, Map.empty) = Inr (prev, m') \<longrightarrow> m' = m"
    by (rule check_strict_parts)
  from assms(2) d(1) obtain prev m' where e: "tlv_end outer = length data"
    and f: "for_tlvs strict_field (tlv_value outer) (- 1, Map.empty) = Inr (prev, m')" and c: "check_fields m' = Inr ()"
    by (auto simp: check_strict_def bindE_Inr_iff)
  show "strict_goose p" using check_fields_guarantees [OF c] m(2) same f by blast
  show "ordered_fields data"
    unfolding ordered_fields_def using d(1) e strict_fields_lenient(2) [OF d f] by blast
qed

lemma guard_raises [raises]: "raises_only {GooseDecodeError} (guard b)"
  by (auto simp: guard_def raises_only_def)

lemma strict_field_raises [raises]: "raises_only {GooseDecodeError} (strict_field t s)"
  unfolding strict_field_def by (cases s) (auto simp: raises_only_def Let_def split: if_splits)

lemma for_tlvs_raises:
  "(\<And>t s. raises_only E (body t s)) \<Longrightarrow> snd (iter_tlvs data) = None \<Longrightarrow> raises_only E (for_tlvs body data s)"
  unfolding for_tlvs_def by (intro raises) simp_all

lemma check_fields_raises:
  assumes "\<forall>n \<in> set MANDATORY. m n \<noteq> None" "goose_of_fields m = Inr p"
  shows "raises_only {GooseDecodeError} (check_fields m)"
proof -
  have s: "decode_data_sequence (get_default m 11) = Inr (all_data p)"
    and n: "\<And>v. m 10 = Some v \<Longrightarrow> counter v = Inr (num_dat_set_entries p)"
    by (rule goose_of_fields_parts [OF assms(2)]; simp)+
  have "snd (iter_tlvs (get_default m 11)) = None"
    using s by (auto simp: decode_data_sequence_comprehension bindE_Inr_iff split: option.splits)
  then have all: "raises_only {GooseDecodeError} (all_tlvs (get_default m 11))"
    by (simp add: all_tlvs_def gen_list_def raises_only_def)
  have "tiles (get_default m 11) 0 (length (get_default m 11))"
    using s decode_data_tiles(2) [of "get_default m 11" 0 "all_data p" "[]" "[]"]
    by (simp add: decode_data_sequence_def)
  then have data: "raises_only {GooseDecodeError} (check_strict_data (get_default m 11) 0)"
    by (auto simp: raises_only_def dest: check_strict_data_tiles)
  have look: "raises_only {GooseDecodeError} (lookup m k)" if "k \<in> set MANDATORY" for k
    using assms(1) that by (intro raises) blast
  have num: "raises_only {GooseDecodeError} (decode_unsigned v)" if "lookup m 10 = Inr v" for v
    using n [of v] that by (auto simp: lookup_def counter_def bindE_Inr_iff raises_only_def split: option.splits)
  show ?thesis
    unfolding check_fields_def Let_def
    by (intro raises_only_bind guard_raises raises_only_foldE all data num; (rule look | assumption);
        simp add: MANDATORY_def; blast)
qed

lemma check_strict_error:
  assumes "decode_goose_lenient data = Inr p"
  shows "raises_only {GooseDecodeError} (check_strict data)"
proof -
  from assms obtain outer m where d: "decode_tlv data 0 = Inr outer" "tlv_tag outer = TAG_GOOSE_PDU" and
    m: "goose_fields data = Inr m" "goose_of_fields m = Inr p" "\<forall>n \<in> set MANDATORY. m n \<noteq> None" and
    same: "\<forall>prev m'. for_tlvs strict_field (tlv_value outer) (- 1, Map.empty) = Inr (prev, m') \<longrightarrow> m' = m"
    by (rule check_strict_parts)
  have none: "snd (iter_tlvs (tlv_value outer)) = None"
    using m(1) d by (auto simp: goose_fields_def expect_tlv_def for_tlvs_def bindE_Inr_iff split: option.splits)
  show ?thesis
    unfolding check_strict_def d(1) bindE.simps
    by (intro raises_only_bind guard_raises raises_only_prod for_tlvs_raises strict_field_raises none)
      (use same check_fields_raises [OF m(3,2)] in blast)
qed

lemma decode_goose_error: "decode_goose_pdu data strict = Inl e \<Longrightarrow> e = GooseDecodeError"
  using check_strict_error [of data]
  by (auto simp: decode_goose_pdu_eq bindE_Inl_iff raises_only_def dest: decode_goose_lenient_error split: if_splits)

text \<open>A bounded stack.\<close>

lemma goose_of_fields_either:
  assumes "dec (get_default m 11) = dec' (get_default m 11) \<or> dec (get_default m 11) = Inl e"
  shows "goose_of_fields_by dec m = goose_of_fields_by dec' m \<or> goose_of_fields_by dec m = Inl e"
  unfolding goose_of_fields_by_def case_prod_unfold by (intro bind_either) (use assms in auto)

lemma goose_within:
  "decode_goose_within n data strict = decode_goose_pdu data strict \<or> decode_goose_within n data strict = Inl RecursionError"
proof -
  have "rethrow is_ber_error GooseDecodeError (goose_of_fields_by (decode_sequence_within n) m)
        = rethrow is_ber_error GooseDecodeError (goose_of_fields_by decode_data_sequence m)
      \<or> rethrow is_ber_error GooseDecodeError (goose_of_fields_by (decode_sequence_within n) m) = Inl RecursionError" for m
    using goose_of_fields_either [where m = m and dec = "decode_sequence_within n" and dec' = decode_data_sequence, OF sequence_within]
    by (elim disjE) (simp_all add: goose_of_fields_def is_ber_error_def)
  then have "decode_goose_lenient_by (decode_sequence_within n) data = decode_goose_lenient_by decode_data_sequence data
      \<or> decode_goose_lenient_by (decode_sequence_within n) data = Inl RecursionError"
    unfolding decode_goose_lenient_by_def by (intro bind_either) auto
  then show ?thesis unfolding decode_goose_within_def decode_goose_pdu_def decode_goose_by_def by (elim disjE) simp_all
qed

lemma goose_fields_length:
  assumes "goose_fields data = Inr m"
  shows "length (get_default m 11) \<le> length data"
proof -
  obtain outer where o: "decode_tlv data 0 = Inr outer" "for_tlvs add_field (tlv_value outer) Map.empty = Inr m"
    using assms by (auto simp: goose_fields_def expect_tlv_def bindE_Inr_iff split: if_splits)
  have outer: "length (tlv_value outer) \<le> length data" using decode_tlv_progress [OF o(1)] by simp
  have f: "foldE add_field (fst (iter_tlvs (tlv_value outer))) Map.empty = Inr m"
    using o(2) by (auto simp: for_tlvs_def bindE_Inr_iff split: option.splits)
  have "\<forall>k v. m k = Some v \<longrightarrow> length v \<le> length data"
    by (rule foldE_invariant [where P = "\<lambda>m. \<forall>k v. m k = Some v \<longrightarrow> length v \<le> length data", OF f])
       (use outer iter_tlvs_bounds in \<open>fastforce simp: add_field_def bindE_Inr_iff split: if_splits\<close>)+
  then show ?thesis by (cases "m 11") (auto simp: get_default_def)
qed

lemma goose_within_enough:
  assumes "length data div 2 \<le> n"
  shows "decode_goose_within n data strict = decode_goose_pdu data strict"
proof -
  have "goose_of_fields_by (decode_sequence_within n) m = goose_of_fields_by decode_data_sequence m" if "goose_fields data = Inr m" for m
  proof -
    have "length (get_default m 11) div 2 \<le> n" using goose_fields_length [OF that] assms by linarith
    then show ?thesis by (simp add: goose_of_fields_by_def sequence_within_enough)
  qed
  then have "decode_goose_lenient_by (decode_sequence_within n) data = decode_goose_lenient_by decode_data_sequence data"
    unfolding decode_goose_lenient_by_def by (intro bindE_cong refl) (auto simp: rethrow_Inr_iff)
  then show ?thesis by (simp add: decode_goose_within_def decode_goose_pdu_def decode_goose_by_def)
qed

section \<open>Strict round trip\<close>

text \<open>The values IEC 61850-8-1 allows in allData: printable strings, no value of an unknown tag.\<close>

fun strict_data :: "iecdata \<Rightarrow> bool" where
  "strict_data (VisibleStringData s) = list_all (\<lambda>c. 0x20 \<le> c \<and> c \<le> 0x7E) s"
| "strict_data (StructureData ms) = list_all strict_data ms"
| "strict_data (ArrayData es) = list_all strict_data es"
| "strict_data (RawData tag v) = False"
| "strict_data _ = True"

definition passes :: "bytes \<Rightarrow> bool" where
  "passes bs \<longleftrightarrow> (\<forall>pre post. check_strict_data (pre @ bs @ post) (length pre)
     = check_strict_data (pre @ bs @ post) (length pre + length bs))"

lemma passes_concat: "list_all passes bss \<Longrightarrow> passes (concat bss)"
proof (induction bss)
  case (Cons b bss)
  then have b: "passes b" and r: "passes (concat bss)" by auto
  show ?case unfolding passes_def
  proof (intro allI)
    fix pre post
    have "check_strict_data (pre @ concat (b # bss) @ post) (length pre)
        = check_strict_data (pre @ b @ concat bss @ post) (length pre + length b)"
      using b [unfolded passes_def, rule_format, of pre "concat bss @ post"] by simp
    also have "\<dots> = check_strict_data ((pre @ b) @ concat bss @ post) (length (pre @ b) + length (concat bss))"
      using r [unfolded passes_def, rule_format, of "pre @ b" post] by simp
    finally show "check_strict_data (pre @ concat (b # bss) @ post) (length pre)
        = check_strict_data (pre @ concat (b # bss) @ post) (length pre + length (concat (b # bss)))"
      by (simp add: add.assoc)
  qed
qed (simp add: passes_def)

lemma passes_leaf:
  assumes "encode_tlv tag content = Inr bs" "wf_tag tag"
    "\<And>e. strict_element \<lparr>tlv_tag = tag, tlv_value = content, tlv_end = e\<rparr> = Some e"
  shows "passes bs"
  unfolding passes_def
proof (intro allI)
  fix pre post
  have "bs \<noteq> []" using assms(1) by (auto simp: encode_tlv_def bindE_Inr_iff)
  then show "check_strict_data (pre @ bs @ post) (length pre) = check_strict_data (pre @ bs @ post) (length pre + length bs)"
    using decode_encode_tlv [OF assms(2,1), of pre post] assms(3) by (subst check_strict_data.simps) simp
qed

lemma passes_container:
  assumes "tag \<in> {0xA1, 0xA2}" "encode_tlv tag content = Inr bs" "passes content"
  shows "passes bs"
  unfolding passes_def
proof (intro allI)
  fix pre post
  from assms(2) obtain a l where al: "bs = a @ l @ content" "encode_length (length content) = Inr l"
    by (auto simp: encode_tlv_def bindE_Inr_iff)
  define h where "h = a @ l"
  have bs: "bs = h @ content" and ne: "h \<noteq> []"
    using al encode_length_nonempty [of "length content"] by (auto simp: h_def)
  have "wf_tag tag" using assms(1) wf_data_tags by auto
  then have d: "decode_tlv (pre @ bs @ post) (length pre) =
      Inr \<lparr>tlv_tag = tag, tlv_value = content, tlv_end = length pre + length bs\<rparr>"
    using decode_encode_tlv assms(2) by blast
  have "strict_element \<lparr>tlv_tag = tag, tlv_value = content, tlv_end = length pre + length bs\<rparr> = Some (length (pre @ h))"
    using assms(1) by (auto simp: strict_element_def Let_def bs)
  then have "check_strict_data (pre @ bs @ post) (length pre) = check_strict_data ((pre @ h) @ content @ post) (length (pre @ h))"
    using d ne by (subst check_strict_data.simps) (simp add: bs)
  also have "\<dots> = check_strict_data ((pre @ h) @ content @ post) (length (pre @ h) + length content)"
    using assms(3) unfolding passes_def by blast
  finally show "check_strict_data (pre @ bs @ post) (length pre) = check_strict_data (pre @ bs @ post) (length pre + length bs)"
    by (simp add: bs add.assoc)
qed

lemma DATA_SIZES_simps:
  "DATA_SIZES 0x83 = Some [1]" "DATA_SIZES 0x84 = None" "DATA_SIZES 0x85 = None" "DATA_SIZES 0x86 = None"
  "DATA_SIZES 0x87 = Some [5, 9]" "DATA_SIZES 0x89 = None" "DATA_SIZES 0x8A = None" "DATA_SIZES 0x8F = None"
  "DATA_SIZES 0x91 = Some [8]"
  by (simp_all add: DATA_SIZES_def)

lemma encode_integer_nonempty: "encode_integer v = Inr c \<Longrightarrow> c \<noteq> []"
  using integer_codec.dec_enc [of v c] by (auto simp: decode_integer_def)

lemma visible_encode_ascii_replace:
  "list_all (\<lambda>c. 0x20 \<le> c \<and> c \<le> 0x7E) s \<Longrightarrow> visible (encode_ascii_replace s)"
  by (auto simp: visible_def encode_ascii_replace_def list_all_iff word_le_nat_alt unat_of_nat_small)

lemma encode_utc_time_length: "encode_utc_time t q = Inr c \<Longrightarrow> length c = 8"
  by (auto simp: encode_utc_time_def Let_def bindE_Inr_iff dest!: from_bytes_to_bytes)

lemmas strict_leaf = strict_element_def Let_def DATA_SIZES_simps wf_data_tags

lemma encode_data_passes: "strict_data d \<Longrightarrow> encode_data d = Inr bs \<Longrightarrow> passes bs"
proof (induction d arbitrary: bs)
  case (BoolData v)
  then have "encode_tlv 0x83 (encode_boolean v) = Inr bs" by simp
  then show ?case by (rule passes_leaf) (simp_all add: strict_leaf encode_boolean_def)
next
  case (IntData v)
  then obtain c where c: "encode_integer v = Inr c" and "encode_tlv 0x85 c = Inr bs" by auto
  from this(2) encode_integer_nonempty [OF c] show ?case
    by (elim passes_leaf) (simp_all add: strict_leaf)
next
  case (UIntData v)
  then obtain c where c: "encode_unsigned v = Inr c" and e: "encode_tlv 0x86 c = Inr bs" by auto
  have "c \<noteq> []" using c by (auto simp: encode_unsigned_def dest: encode_integer_nonempty split: if_splits)
  with e show ?case by (elim passes_leaf) (simp_all add: strict_leaf)
next
  case (FloatData f)
  then have "encode_tlv 0x87 ((case f of F64 _ \<Rightarrow> 0x0B | F32 _ \<Rightarrow> 0x08) # pack_float f) = Inr bs" by simp
  then show ?case by (rule passes_leaf) (simp_all add: strict_leaf pack_float_def split: pyfloat.splits)
next
  case (BitStringData v unused)
  then have u: "0 \<le> unused" "unused \<le> 7" and e: "encode_tlv 0x84 (word_of_int unused # v) = Inr bs"
    by (auto split: if_splits)
  have "unused \<in> {0, 1, 2, 3, 4, 5, 6, 7}" unfolding insert_iff empty_iff using u by presburger
  then have "\<not> 7 < (word_of_int unused :: byte)" by (elim insertE emptyE) simp_all
  with e show ?case by (elim passes_leaf) (simp_all add: strict_leaf)
next
  case (OctetStringData v)
  then have "encode_tlv 0x89 v = Inr bs" by simp
  then show ?case by (rule passes_leaf) (simp_all add: strict_leaf)
next
  case (VisibleStringData v)
  then have e: "encode_tlv 0x8A (encode_ascii_replace v) = Inr bs" and "visible (encode_ascii_replace v)"
    by (simp_all add: visible_encode_ascii_replace)
  then show ?case by (elim passes_leaf) (simp_all add: strict_leaf)
next
  case (MmsStringData v)
  then obtain c where "encode_tlv 0x8F c = Inr bs" by auto
  then show ?case by (rule passes_leaf) (simp_all add: strict_leaf)
next
  case (TimestampData t q)
  then obtain c where c: "encode_utc_time t q = Inr c" and "encode_tlv 0x91 c = Inr bs" by auto
  from this(2) encode_utc_time_length [OF c] show ?case
    by (elim passes_leaf) (simp_all add: strict_leaf)
next
  case (StructureData ms)
  then obtain bss where b: "traverse encode_data ms = Inr bss" "encode_tlv 0xA2 (concat bss) = Inr bs"
    by (auto simp: bindE_Inr_iff)
  have "list_all2 (\<lambda>d b. passes b) ms bss"
    using b(1) StructureData.prems(1) unfolding traverse_Inr_list_all2
    by (elim list.rel_mono_strong) (simp add: StructureData.IH list_all_iff)
  then have "list_all passes bss" by (auto simp: list_all2_conv_all_nth list_all_length)
  then show ?case using passes_container [OF _ b(2)] passes_concat by simp
next
  case (ArrayData ms)
  then obtain bss where b: "traverse encode_data ms = Inr bss" "encode_tlv 0xA1 (concat bss) = Inr bs"
    by (auto simp: bindE_Inr_iff)
  have "list_all2 (\<lambda>d b. passes b) ms bss"
    using b(1) ArrayData.prems(1) unfolding traverse_Inr_list_all2
    by (elim list.rel_mono_strong) (simp add: ArrayData.IH list_all_iff)
  then have "list_all passes bss" by (auto simp: list_all2_conv_all_nth list_all_length)
  then show ?case using passes_container [OF _ b(2)] passes_concat by simp
next
  case (RawData tag v)
  then show ?case by simp
qed

lemma check_strict_sequence:
  assumes "list_all strict_data ds" "traverse encode_data ds = Inr bss"
  shows "check_strict_data (concat bss) 0 = Inr ()"
proof -
  have "list_all2 (\<lambda>d b. passes b) ds bss"
    using assms unfolding traverse_Inr_list_all2
    by (elim list.rel_mono_strong) (auto simp: list_all_iff intro: encode_data_passes)
  then have "list_all passes bss" by (auto simp: list_all2_conv_all_nth list_all_length)
  then have "passes (concat bss)" by (rule passes_concat)
  then have "check_strict_data ([] @ concat bss @ []) 0 = check_strict_data ([] @ concat bss @ []) (length (concat bss))"
    unfolding passes_def by (metis add_0 list.size(3))
  then show ?thesis by (simp add: check_strict_data.simps)
qed

lemma foldE_strict_pairs:
  "\<exists>prev. foldE strict_field (map (\<lambda>q. \<lparr>tlv_tag = fst q, tlv_value = snd q, tlv_end = 0\<rparr>) (goose_pairs p cs))
     (- 1, Map.empty) = Inr (prev, goose_map p cs)"
proof (cases "go_id p")
  case None
  then show ?thesis by (simp add: goose_pairs_def goose_map_def strict_field_def Let_def)
next
  case (Some g)
  then show ?thesis by (simp add: goose_pairs_def goose_map_def strict_field_def Let_def fun_upd_twist)
qed

lemma strict_field_pair_of:
  "strict_field t = strict_field \<lparr>tlv_tag = fst (pair_of t), tlv_value = snd (pair_of t), tlv_end = 0\<rparr>"
  unfolding strict_field_def pair_of_simps tlv.select_convs ..

lemma encode_u32:
  assumes "u32 v" "encode_unsigned v = Inr c"
  shows "\<not> (length c > U32_OCTETS \<or> (length c = U32_OCTETS \<and> hd c \<noteq> 0))"
proof -
  let ?k = "integer_octets v"
  have v: "0 \<le> v" "v < 2 ^ 32" using assms(1) by (auto simp: u32_def)
  have "encode_integer v = Inr c" using assms(2) by (auto simp: encode_unsigned_def split: if_splits)
  then have c: "c = nat_be ?k (nat (v mod 256 ^ ?k))" by (simp add: encode_integer_eq)
  have "?k \<le> Suc 4" using integer_octets_iff [of v 4] v by simp
  moreover have "hd c = 0" if "?k = 5"
  proof -
    have "v mod 256 ^ 5 = v" using v by (intro mod_pos_pos_trivial) auto
    then have "c = nat_be 5 (nat v)" unfolding c that by (simp only:)
    moreover have "nat v div 256 div 256 div 256 div 256 mod 256 = 0" using v by (simp flip: div_mult2_eq)
    moreover have "(5 :: nat) = Suc (Suc (Suc (Suc (Suc 0))))" by simp
    then have "hd (nat_be 5 n) = of_nat (n div 256 div 256 div 256 div 256 mod 256)" for n
      by (simp only: nat_be.simps) simp
    ultimately show ?thesis by simp
  qed
  ultimately show ?thesis by (auto simp: c U32_OCTETS_def)
qed

lemma printable_encode:
  assumes "printable s" "encode_ascii s = Inr c"
  shows "length c \<le> STRING_MAX \<and> visible c"
proof -
  have c: "c = map of_nat s" "length s \<le> 129" and s: "\<forall>x \<in> set s. 32 \<le> x \<and> x \<le> 126"
    using assms by (auto simp: printable_def encode_ascii_def list_all_iff split: if_splits)
  have "0x20 \<le> (of_nat x :: byte) \<and> of_nat x \<le> (0x7E :: byte)" if "x \<in> set s" for x
    using s that unat_of_nat_small [of x] by (auto simp: word_le_nat_alt)
  then show ?thesis using c by (auto simp: visible_def list_all_iff STRING_MAX_def)
qed

lemma all_tlvs_sequence: "decode_data_sequence data = Inr ds \<Longrightarrow> \<exists>ts. all_tlvs data = Inr ts \<and> length ts = length ds"
  using sequence_length [of data ds]
  by (auto simp: decode_data_sequence_comprehension all_tlvs_def gen_list_def bindE_Inr_iff split: option.splits)

lemma check_fields_encode:
  assumes "ok_goose p" "strict_goose p" "list_all strict_data (all_data p)" "goose_contents p = Inr cs"
    "\<forall>s. go_id p = Some s \<longrightarrow> is_ascii s"
  shows "check_fields (goose_map p cs) = Inr ()"
proof -
  from assms(4) obtain c0 c1 c2 c3 c4 c5 c6 c7 bss where
    cs: "cs = [c0, c1, c2, c3, c4, c5, c6, c7, concat bss]" and
    c: "encode_ascii (gocb_ref p) = Inr c0" "encode_unsigned (time_allowed_to_live p) = Inr c1"
       "encode_ascii (dat_set p) = Inr c2" "encode_utc_time (timestamp p) (time_quality p) = Inr c3"
       "encode_unsigned (st_num p) = Inr c4" "encode_unsigned (sq_num p) = Inr c5"
       "encode_unsigned (conf_rev p) = Inr c6" "encode_unsigned (num_dat_set_entries p) = Inr c7"
       "traverse encode_data (all_data p) = Inr bss"
    by (auto simp: goose_contents_def bindE_Inr_iff mapE_Inr_iff)
  have st: "gocb_ref p \<noteq> []" "printable (gocb_ref p)" "printable (dat_set p)" "u32 (time_allowed_to_live p)"
    "u32 (st_num p)" "u32 (sq_num p)" "u32 (conf_rev p)" "num_dat_set_entries p = int (length (all_data p))"
    "u32 (num_dat_set_entries p)"
    and g: "\<And>s. go_id p = Some s \<Longrightarrow> printable s"
    using assms(2) by (auto simp: strict_goose_def)
  have m: "goose_map p cs 0 = Some c0" "goose_map p cs 1 = Some c1" "goose_map p cs 2 = Some c2"
    "goose_map p cs 3 = map_option (map of_nat) (go_id p)" "goose_map p cs 4 = Some c3" "goose_map p cs 5 = Some c4"
    "goose_map p cs 6 = Some c5" "goose_map p cs 7 = Some (encode_boolean (simulation p))"
    "goose_map p cs 8 = Some c6" "goose_map p cs 9 = Some (encode_boolean (nds_com p))"
    "goose_map p cs 10 = Some c7" "goose_map p cs 11 = Some (concat bss)"
    by (simp_all add: goose_map_def cs)
  have three: "length (get_default (goose_map p cs) 3) \<le> STRING_MAX \<and> visible (get_default (goose_map p cs) 3)"
  proof (cases "go_id p")
    case None
    then show ?thesis by (simp add: get_default_def m visible_def)
  next
    case (Some s)
    then show ?thesis
      using printable_encode [OF g [OF Some], of "map of_nat s"] assms(5) by (simp add: get_default_def m encode_ascii_ok)
  qed
  obtain ts where ts: "all_tlvs (concat bss) = Inr ts" "length ts = length (all_data p)"
    using all_tlvs_sequence [OF decode_encode_sequence [OF _ c(9)]] assms(1) by (auto simp: ok_goose_def)
  have n: "decode_unsigned c7 = Inr (int (length ts))"
    using unsigned_codec.dec_enc [OF _ c(8)] st(8) ts(2) by simp
  have str: "\<forall>n \<in> {0, 2, 3}. length (get_default (goose_map p cs) n) \<le> STRING_MAX \<and> visible (get_default (goose_map p cs) n)"
    using three printable_encode [OF st(2) c(1)] printable_encode [OF st(3) c(3)] by (simp add: get_default_def m)
  have cnt: "\<forall>n \<in> {1, 5, 6, 8, 10}. \<exists>v. goose_map p cs n = Some v
      \<and> \<not> (length v > U32_OCTETS \<or> (length v = U32_OCTETS \<and> hd v \<noteq> 0))"
    using encode_u32 [OF st(4) c(2)] encode_u32 [OF st(5) c(5)] encode_u32 [OF st(6) c(6)]
      encode_u32 [OF st(7) c(7)] encode_u32 [OF st(9) c(8)] by (simp add: m)
  have "c0 \<noteq> []" using st(1) encode_ascii_length [OF c(1)] by auto
  moreover have "length c3 = 8" using c(4) by (rule encode_utc_time_length)
  moreover have "check_strict_data (concat bss) 0 = Inr ()" by (rule check_strict_sequence [OF assms(3) c(9)])
  ultimately show ?thesis
    unfolding check_fields_iff using str cnt ts n
    by (simp add: m get_default_def [of _ 11] encode_boolean_def)
qed

lemma decode_encode_strict:
  assumes "ok_goose p" "strict_goose p" "list_all strict_data (all_data p)" "encode_goose_pdu p = Inr bs"
  shows "check_strict bs = Inr ()"
proof -
  from encode_goose_pairs [OF assms(4)] obtain cs bss where cs: "goose_contents p = Inr cs" and
    bss: "traverse enc_pair (goose_pairs p cs) = Inr bss" "encode_tlv TAG_GOOSE_PDU (concat bss) = Inr bs" by blast
  obtain ts where ts: "iter_tlvs (concat bss) = (ts, None)" "map pair_of ts = goose_pairs p cs"
    using iter_tlvs_enc [OF goose_pairs_ok [OF bss(1)] bss(1)] by blast
  have "foldE strict_field ts s = foldE strict_field (map (\<lambda>q. \<lparr>tlv_tag = fst q, tlv_value = snd q, tlv_end = 0\<rparr>) (map pair_of ts)) s" for s
    unfolding foldE_map by (rule foldE_cong [OF refl _ refl]) (rule strict_field_pair_of [THEN fun_cong])
  then obtain prev where "for_tlvs strict_field (concat bss) (- 1, Map.empty) = Inr (prev, goose_map p cs)"
    using foldE_strict_pairs [of p cs] ts by (auto simp: for_tlvs_def)
  then show ?thesis
    using decode_encode_tlv [OF goose_wf_tags(1), of "concat bss" bs "[]" "[]"] bss(2)
      check_fields_encode [OF assms(1,2,3) cs encode_goose_ascii [OF assms(4)]]
    by (simp add: check_strict_def TAG_GOOSE_PDU_def guard_def)
qed

section \<open>Properties\<close>

definition example_goose :: goose_pdu where
  "example_goose = \<lparr>gocb_ref = [71], time_allowed_to_live = 3000, dat_set = [68], go_id = Some [105],
     timestamp = 1500000, st_num = 4, sq_num = 0, simulation = False, conf_rev = 1, nds_com = False,
     num_dat_set_entries = 2, all_data = [BoolData True, StructureData [VisibleStringData [111, 110]]],
     time_quality = 10\<rparr>"

lemma example_goose_encodes: "\<exists>bs. encode_goose_pdu example_goose = Inr bs"
  by (simp add: encode_goose_pdu_def example_goose_def ctx_pair enc_pair_def encode_eval TAG_GOOSE_PDU_def)

lemma example_goose_ok:
  "ok_goose example_goose" "strict_goose example_goose" "list_all strict_data (all_data example_goose)"
  by (simp_all add: ok_goose_def example_goose_def ok_utc_def is_ascii_def strict_goose_def printable_def u32_def)

text \<open>C3: a GOOSE PDU whose time, counters and values fit their wire types is read back by the lenient
  decoder, field by field.\<close>
theorem goose_round_trip:
  assumes "ok_goose p" "encode_goose_pdu p = Inr bs"
  shows "decode_goose_pdu bs False = Inr p"
  using decode_encode_lenient [OF assms] by (simp add: decode_goose_pdu_eq)

theorem goose_round_trip_witness:
  "\<exists>bs. encode_goose_pdu example_goose = Inr bs \<and> decode_goose_pdu bs False = Inr example_goose"
  using example_goose_encodes goose_round_trip [OF example_goose_ok(1)] by blast

text \<open>C2: the strict decoder accepts what the encoder writes for a conformant PDU (VisibleString129
  references, INT32U counters, as many values as numDatSetEntries says, values of the standard's types)
  and gives it back.\<close>
theorem goose_strict_round_trip:
  assumes "ok_goose p" "strict_goose p" "list_all strict_data (all_data p)" "encode_goose_pdu p = Inr bs"
  shows "decode_goose_pdu bs True = Inr p"
  using decode_encode_lenient [OF assms(1,4)] decode_encode_strict [OF assms] by (simp add: decode_goose_pdu_eq)

theorem goose_strict_round_trip_witness:
  "\<exists>bs. encode_goose_pdu example_goose = Inr bs \<and> decode_goose_pdu bs True = Inr example_goose"
  using example_goose_encodes goose_strict_round_trip [OF example_goose_ok] by blast

text \<open>C1: what a protection function may rely on after a strict decoding: the lenient decoder gives the
  same PDU, the fields are those of the SEQUENCE in increasing order and nothing follows the PDU, the
  references are printable and at most 129 characters, the counters fit 32 bits, and numDatSetEntries
  is the number of values.\<close>
theorem goose_strict_sound:
  assumes "decode_goose_pdu data True = Inr p"
  shows "decode_goose_pdu data False = Inr p \<and> strict_goose p \<and> ordered_fields data"
proof -
  from assms have l: "decode_goose_lenient data = Inr p" and c: "check_strict data = Inr ()"
    by (auto simp: decode_goose_pdu_eq bindE_Inr_iff)
  show ?thesis using strict_guarantees [OF l c] l by (simp add: decode_goose_pdu_eq)
qed

theorem goose_strict_sound_witness:
  "\<exists>bs. encode_goose_pdu example_goose = Inr bs \<and> ordered_fields bs \<and> strict_goose example_goose"
proof -
  obtain bs where bs: "encode_goose_pdu example_goose = Inr bs" using example_goose_encodes by blast
  then have "decode_goose_pdu bs True = Inr example_goose"
    using decode_encode_lenient [OF example_goose_ok(1)] decode_encode_strict [OF example_goose_ok]
    by (simp add: decode_goose_pdu_eq)
  from goose_strict_sound [OF this] show ?thesis using bs by blast
qed

text \<open>C4: whatever the octets, decoding a GOOSE PDU, strict or lenient, ends in a PDU, GooseDecodeError or, when the Data nest
  deeper than the stack allows, RecursionError, which neither \<^verbatim>\<open>decode_goose_pdu\<close> nor its callers turn into GooseDecodeError.
  With room for half as many levels as there are octets it is never RecursionError.\<close>
theorem goose_decode_total:
  "decode_goose_within n data strict \<in> {Inl GooseDecodeError, Inl RecursionError} \<union> range Inr
    \<and> (length data div 2 \<le> n \<longrightarrow> decode_goose_within n data strict = decode_goose_pdu data strict
         \<and> decode_goose_pdu data strict \<in> insert (Inl GooseDecodeError) (range Inr))"
proof -
  have total: "decode_goose_pdu data strict \<in> insert (Inl GooseDecodeError) (range Inr)"
    using decode_goose_error [of data strict] by (cases "decode_goose_pdu data strict") auto
  then show ?thesis using goose_within [of n data strict] goose_within_enough [of data n strict] by auto
qed

text \<open>A frame of three nested arrays: a stack for two levels does not hold them.\<close>

definition nested_goose :: bytes where
  "nested_goose = [97, 45, 128, 1, 103, 129, 1, 100, 130, 1, 100, 132, 8, 0, 0, 0, 0, 0, 0, 0, 0, 133, 1, 1, 134, 1, 0, 135, 1, 0,
     136, 1, 1, 137, 1, 0, 138, 1, 1, 171, 6, 161, 4, 161, 2, 161, 0]"

theorem goose_decode_total_witness:
  "decode_goose_within 2 nested_goose False = Inl RecursionError
   \<and> decode_goose_within 24 nested_goose False \<in> insert (Inl GooseDecodeError) (range Inr)"
proof -
  have "decode_goose_within 2 nested_goose False = Inl RecursionError" by code_simp
  moreover have "length nested_goose div 2 \<le> 24" by (simp add: nested_goose_def)
  ultimately show ?thesis using goose_decode_total [of 24 nested_goose False] by metis
qed

end
