(* ===== verification/Sv.thy ===== *)
theory Sv
  imports MmsData Ethernet
begin

text \<open>
  \<^verbatim>\<open>src/open61850/sv.py\<close>: the SavPdu codec of Sampled Values, its frame and the INT32 samples.
  The lookup of the publisher's names (\<^verbatim>\<open>__getattr__\<close>) is an import and is not modelled.
\<close>

definition TAG_SAV_PDU :: int where "TAG_SAV_PDU = 0x60"
definition TAG_NO_ASDU :: int where "TAG_NO_ASDU = 0x80"
definition TAG_SECURITY :: int where "TAG_SECURITY = 0xA1"
definition TAG_SEQ_ASDU :: int where "TAG_SEQ_ASDU = 0xA2"
definition TAG_ASDU :: int where "TAG_ASDU = 0x30"

record sv_asdu =
  sv_id :: ustr
  smp_cnt :: int
  sv_conf_rev :: int
  smp_synch :: int
  sample :: bytes
  sv_dat_set :: "ustr option"
  refr_tm :: "int option"
  smp_rate :: "int option"
  smp_mod :: "int option"
  gm_identity :: "bytes option"

record sv_pdu =
  asdus :: "sv_asdu list"
  security :: "bytes option"

section \<open>Decoding\<close>

definition fixed :: "bytes \<Rightarrow> nat \<Rightarrow> int result" where
  "fixed content n = (if length content \<noteq> n then Inl SvDecodeError else Inr (from_bytes content))"

text \<open>One step of \<^verbatim>\<open>_asdu_fields\<close>: the tag, the content and the end of the TLV at an offset.\<close>

definition asdu_tlv :: "bytes \<Rightarrow> nat \<Rightarrow> tlv result" where
  "asdu_tlv content offset =
     (if offset + 2 \<le> length content \<and> content ! Suc offset < 0x80 \<and> content ! offset AND 0x1F \<noteq> 0x1F
      then let start = offset + 2; fin = start + unat (content ! Suc offset)
        in if length content < fin then Inl SvDecodeError
           else Inr \<lparr>tlv_tag = uint (content ! offset), tlv_value = slice content start fin, tlv_end = fin\<rparr>
      else decode_tlv content offset)"

lemma asdu_tlv_decode: "asdu_tlv content offset = Inr t \<Longrightarrow> decode_tlv content offset = Inr t"
  by (auto simp: asdu_tlv_def decode_tlv_def Let_def split: if_splits)

lemma decode_asdu_tlv: "decode_tlv content offset = Inr t \<Longrightarrow> asdu_tlv content offset = Inr t"
  by (auto simp: asdu_tlv_def decode_tlv_def Let_def split: if_splits)

function asdu_fields_from :: "bytes \<Rightarrow> nat \<Rightarrow> (int \<rightharpoonup> bytes) \<Rightarrow> (int \<rightharpoonup> bytes) result" where
  "asdu_fields_from content offset m =
     (if length content \<le> offset then Inr m
      else bindE (asdu_tlv content offset) (\<lambda>t.
        asdu_fields_from content (tlv_end t) (m(tlv_tag t - 0x80 \<mapsto> tlv_value t))))"
  by pat_completeness auto
termination
  by (relation "measure (\<lambda>(content, offset, m). length content - offset)")
    (auto dest!: asdu_tlv_decode dest: decode_tlv_progress(1))

declare asdu_fields_from.simps [simp del]

definition asdu_fields :: "bytes \<Rightarrow> (int \<rightharpoonup> bytes) result" where
  "asdu_fields content = asdu_fields_from content 0 Map.empty"

definition present :: "(int \<rightharpoonup> bytes) \<Rightarrow> int \<Rightarrow> (bytes \<Rightarrow> 'a result) \<Rightarrow> 'a option result" where
  "present m k f = (case m k of None \<Rightarrow> Inr None | Some v \<Rightarrow> mapE Some (f v))"

definition asdu_of_fields :: "(int \<rightharpoonup> bytes) \<Rightarrow> sv_asdu result" where
  "asdu_of_fields m =
     (case (m 0, m 2, m 3, m 5, m 7) of
        (Some v0, Some v2, Some v3, Some v5, Some v7) \<Rightarrow>
          bindE (fixed v2 2) (\<lambda>cnt.
          bindE (fixed v3 4) (\<lambda>rev.
          bindE (present m 4 (\<lambda>v. mapE fst (decode_utc_time v))) (\<lambda>tm.
          bindE (fixed v5 1) (\<lambda>syn.
          bindE (present m 6 (\<lambda>v. fixed v 2)) (\<lambda>rate.
          bindE (present m 8 (\<lambda>v. fixed v 2)) (\<lambda>smod.
            Inr \<lparr>sv_id = decode_ascii_replace v0, smp_cnt = cnt, sv_conf_rev = rev, smp_synch = syn,
              sample = v7, sv_dat_set = map_option decode_ascii_replace (m 1), refr_tm = tm,
              smp_rate = rate, smp_mod = smod, gm_identity = m 9\<rparr>))))))
      | _ \<Rightarrow> Inl SvDecodeError)"

definition decode_asdu :: "bytes \<Rightarrow> sv_asdu result" where
  "decode_asdu content = bindE (asdu_fields content) asdu_of_fields"

record sv_state =
  no_asdu :: "int option"
  st_security :: "bytes option"
  st_asdus :: "sv_asdu list"

definition seq_item :: "tlv \<Rightarrow> sv_asdu list \<Rightarrow> sv_asdu list result" where
  "seq_item item as =
     (if tlv_tag item \<noteq> TAG_ASDU then Inl SvDecodeError
      else bindE (decode_asdu (tlv_value item)) (\<lambda>a. Inr (as @ [a])))"

definition sv_field :: "tlv \<Rightarrow> sv_state \<Rightarrow> sv_state result" where
  "sv_field t s =
     (if tlv_tag t = TAG_NO_ASDU then
        bindE (decode_unsigned (tlv_value t)) (\<lambda>n. Inr (s\<lparr>no_asdu := Some n\<rparr>))
      else if tlv_tag t = TAG_SECURITY then Inr (s\<lparr>st_security := Some (tlv_value t)\<rparr>)
      else if tlv_tag t = TAG_SEQ_ASDU then
        bindE (for_tlvs seq_item (tlv_value t) (st_asdus s)) (\<lambda>as. Inr (s\<lparr>st_asdus := as\<rparr>))
      else Inr s)"

definition decode_sv_pdu :: "bytes \<Rightarrow> sv_pdu result" where
  "decode_sv_pdu data =
     bindE (rethrow is_ber_error SvDecodeError
       (bindE (expect_tlv data 0 TAG_SAV_PDU) (\<lambda>outer.
          for_tlvs sv_field (tlv_value outer) \<lparr>no_asdu = None, st_security = None, st_asdus = []\<rparr>)))
     (\<lambda>s. case no_asdu s of
         None \<Rightarrow> Inl SvDecodeError
       | Some n \<Rightarrow>
           if n \<noteq> int (length (st_asdus s)) then Inl SvDecodeError
           else Inr \<lparr>asdus = st_asdus s, security = st_security s\<rparr>)"

section \<open>Encoding\<close>

definition sv_ctx :: "int \<Rightarrow> bytes \<Rightarrow> bytes result" where
  "sv_ctx number content = bindE (make_tag number CLASS_CONTEXT False) (\<lambda>tag. encode_tlv tag content)"

definition optional :: "'a option \<Rightarrow> ('a \<Rightarrow> bytes result) \<Rightarrow> bytes result" where
  "optional x f = (case x of None \<Rightarrow> Inr [] | Some v \<Rightarrow> f v)"

definition encode_asdu :: "sv_asdu \<Rightarrow> bytes result" where
  "encode_asdu a =
     bindE (bindE (encode_ascii (sv_id a)) (sv_ctx 0)) (\<lambda>f0.
     bindE (optional (sv_dat_set a) (\<lambda>s. bindE (encode_ascii s) (sv_ctx 1))) (\<lambda>f1.
     bindE (bindE (to_bytes 2 (smp_cnt a)) (sv_ctx 2)) (\<lambda>f2.
     bindE (bindE (to_bytes 4 (sv_conf_rev a)) (sv_ctx 3)) (\<lambda>f3.
     bindE (optional (refr_tm a) (\<lambda>t. bindE (encode_utc_time t 0) (sv_ctx 4))) (\<lambda>f4.
     bindE (bindE (to_bytes 1 (smp_synch a)) (sv_ctx 5)) (\<lambda>f5.
     bindE (optional (smp_rate a) (\<lambda>r. bindE (to_bytes 2 r) (sv_ctx 6))) (\<lambda>f6.
     bindE (sv_ctx 7 (sample a)) (\<lambda>f7.
     bindE (optional (smp_mod a) (\<lambda>r. bindE (to_bytes 2 r) (sv_ctx 8))) (\<lambda>f8.
     bindE (optional (gm_identity a) (\<lambda>g. if length g \<noteq> 8 then Inl ValueError else sv_ctx 9 g)) (\<lambda>f9.
       encode_tlv TAG_ASDU (concat [f0, f1, f2, f3, f4, f5, f6, f7, f8, f9])))))))))))"

definition encode_sv_pdu :: "sv_pdu \<Rightarrow> bytes result" where
  "encode_sv_pdu p =
     (if asdus p = [] then Inl ValueError
      else bindE (bindE (encode_unsigned (int (length (asdus p)))) (encode_tlv TAG_NO_ASDU)) (\<lambda>f0.
           bindE (optional (security p) (encode_tlv TAG_SECURITY)) (\<lambda>f1.
           bindE (bindE (traverse encode_asdu (asdus p)) (\<lambda>bs. encode_tlv TAG_SEQ_ASDU (concat bs))) (\<lambda>f2.
             encode_tlv TAG_SAV_PDU (f0 @ f1 @ f2)))))"

definition encode_sv_frame ::
    "sv_pdu \<Rightarrow> ustr \<Rightarrow> ustr \<Rightarrow> int \<Rightarrow> int option \<Rightarrow> int option \<Rightarrow> bytes result" where
  "encode_sv_frame pdu dst src aid vid vprio =
     bindE (encode_sv_pdu pdu) (\<lambda>a.
       build_frame \<lparr>dst_mac = dst, src_mac = src, vlan_id = vid, vlan_priority = vprio,
         ethertype = ETHERTYPE_SV, app_id = aid, reserved1 = 0, reserved2 = 0, apdu = a\<rparr>)"

definition decode_sv_frame :: "bytes \<Rightarrow> (ethernet_frame \<times> sv_pdu) option result" where
  "decode_sv_frame raw =
     (case parse_frame raw [ETHERTYPE_SV] of
        None \<Rightarrow> Inr None
      | Some frame \<Rightarrow> bindE (decode_sv_pdu (apdu frame)) (\<lambda>pdu. Inr (Some (frame, pdu))))"

section \<open>INT32 samples\<close>

fun unpack_samples :: "bytes \<Rightarrow> (int \<times> int) list" where
  "unpack_samples (a # b # c # d # e # f # g # h # rest) =
     (from_bytes_signed [a, b, c, d], from_bytes [e, f, g, h]) # unpack_samples rest"
| "unpack_samples _ = []"

definition decode_int32_samples :: "bytes \<Rightarrow> (int \<times> int) list result" where
  "decode_int32_samples s = (if length s mod 8 \<noteq> 0 then Inl SvDecodeError else Inr (unpack_samples s))"

definition pack_sample :: "int \<times> int \<Rightarrow> bytes result" where
  "pack_sample vq = rethrow (\<lambda>e. e = OverflowError) StructError
     (bindE (to_bytes_signed 4 (fst vq)) (\<lambda>v. bindE (to_bytes 4 (snd vq)) (\<lambda>q. Inr (v @ q))))"

definition encode_int32_samples :: "(int \<times> int) list \<Rightarrow> bytes result" where
  "encode_int32_samples values = mapE concat (traverse pack_sample values)"

section \<open>The direct loop over the fields\<close>

text \<open>\<^verbatim>\<open>_asdu_fields\<close> is the fold over the TLVs that \<^verbatim>\<open>iter_tlvs\<close> would yield, whatever the error.\<close>

lemma asdu_fields_from_iter:
  "(case asdu_fields_from content offset m of
      Inr m' \<Rightarrow> snd (iter_tlvs_from content offset) = None
        \<and> m' = fold (\<lambda>t m. m(tlv_tag t - 0x80 \<mapsto> tlv_value t)) (fst (iter_tlvs_from content offset)) m
    | Inl e \<Rightarrow> snd (iter_tlvs_from content offset) \<noteq> None \<and> e \<in> {BerError, SvDecodeError})"
proof (induction content offset m rule: asdu_fields_from.induct)
  case (1 content offset m)
  show ?case
  proof (cases "length content \<le> offset")
    case True
    then show ?thesis by (simp add: asdu_fields_from.simps iter_tlvs_from.simps)
  next
    case False
    show ?thesis
    proof (cases "asdu_tlv content offset")
      case (Inl e)
      then obtain e' where d: "decode_tlv content offset = Inl e'"
        using decode_asdu_tlv by (cases "decode_tlv content offset") fastforce+
      have "e \<in> {BerError, SvDecodeError}"
        using Inl by (auto simp: asdu_tlv_def Let_def dest: decode_tlv_error split: if_splits)
      then show ?thesis using False Inl d
        by (simp add: asdu_fields_from.simps [of content offset] iter_tlvs_from.simps [of content offset])
    next
      case (Inr t)
      have "iter_tlvs_from content offset =
          (t # fst (iter_tlvs_from content (tlv_end t)), snd (iter_tlvs_from content (tlv_end t)))"
        using False asdu_tlv_decode [OF Inr] by (simp add: iter_tlvs_from.simps [of content offset] case_prod_unfold)
      moreover have "asdu_fields_from content offset m
          = asdu_fields_from content (tlv_end t) (m(tlv_tag t - 0x80 \<mapsto> tlv_value t))"
        using False Inr by (simp add: asdu_fields_from.simps [of content offset])
      ultimately show ?thesis using 1 [OF False Inr] by (simp only: fst_conv snd_conv fold_Cons comp_apply)
    qed
  qed
qed

lemma asdu_fields_encode:
  assumes "list_all ok_pair ps" "traverse enc_pair ps = Inr bss"
  shows "asdu_fields (concat bss) = Inr (fold (\<lambda>p m. m(fst p - 0x80 \<mapsto> snd p)) ps Map.empty)"
proof -
  obtain ts where ts: "iter_tlvs (concat bss) = (ts, None)" "map pair_of ts = ps"
    using iter_tlvs_enc [OF assms] by blast
  have "fold (\<lambda>t m. m(tlv_tag t - 0x80 \<mapsto> tlv_value t)) ts Map.empty
      = fold (\<lambda>p m. m(fst p - 0x80 \<mapsto> snd p)) (map pair_of ts) Map.empty"
    by (simp add: fold_map comp_def)
  then show ?thesis
    using asdu_fields_from_iter [of "concat bss" 0 Map.empty] ts
    by (auto simp: asdu_fields_def iter_tlvs_def split: sum.splits)
qed

section \<open>Round trip\<close>

lemma sv_ctx_pair:
  "sv_ctx 0 c = enc_pair (0x80, c)" "sv_ctx 1 c = enc_pair (0x81, c)" "sv_ctx 2 c = enc_pair (0x82, c)"
  "sv_ctx 3 c = enc_pair (0x83, c)" "sv_ctx 4 c = enc_pair (0x84, c)" "sv_ctx 5 c = enc_pair (0x85, c)"
  "sv_ctx 6 c = enc_pair (0x86, c)" "sv_ctx 7 c = enc_pair (0x87, c)" "sv_ctx 8 c = enc_pair (0x88, c)"
  "sv_ctx 9 c = enc_pair (0x89, c)"
  by (simp_all add: sv_ctx_def make_tag_def CLASS_CONTEXT_def enc_pair_def Let_def)

lemma sv_wf_tags:
  "wf_tag 0x30" "wf_tag 0x60" "wf_tag 0x80" "wf_tag 0x81" "wf_tag 0x82" "wf_tag 0x83" "wf_tag 0x84" "wf_tag 0x85"
  "wf_tag 0x86" "wf_tag 0x87" "wf_tag 0x88" "wf_tag 0x89" "wf_tag 0xA1" "wf_tag 0xA2"
  by (rule wf_low_tag(2); simp)+

text \<open>Fields that may be absent: a list of pairs per field, encoded one after the other.\<close>

definition field_pairs :: "(int \<times> bytes option) list \<Rightarrow> (int \<times> bytes) list" where
  "field_pairs fs = concat (map (\<lambda>(tag, c). case c of None \<Rightarrow> [] | Some v \<Rightarrow> [(tag, v)]) fs)"

definition enc_field :: "int \<times> bytes option \<Rightarrow> bytes result" where
  "enc_field f = (case snd f of None \<Rightarrow> Inr [] | Some v \<Rightarrow> enc_pair (fst f, v))"

lemma enc_fields_pairs:
  "traverse enc_field fs = Inr bss \<Longrightarrow> \<exists>css. traverse enc_pair (field_pairs fs) = Inr css \<and> concat css = concat bss"
proof (induction fs arbitrary: bss)
  case Nil
  then show ?case by (simp add: field_pairs_def)
next
  case (Cons f fs)
  then obtain b bs' where b: "enc_field f = Inr b" and bss: "bss = b # bs'" and r: "traverse enc_field fs = Inr bs'"
    by (auto simp: bindE_Inr_iff)
  from Cons.IH [OF r] obtain css where css: "traverse enc_pair (field_pairs fs) = Inr css" "concat css = concat bs'" by blast
  show ?case
  proof (cases "snd f")
    case None
    then show ?thesis using b css by (simp add: bss field_pairs_def enc_field_def case_prod_unfold)
  next
    case (Some v)
    then have "field_pairs (f # fs) = (fst f, v) # field_pairs fs" by (simp add: field_pairs_def case_prod_unfold)
    then show ?thesis using b css Some by (auto simp: bss enc_field_def bindE_Inr_iff)
  qed
qed

lemma field_pairs_lengths:
  assumes "traverse enc_pair ps = Inr bss" "\<forall>p \<in> set ps. wf_tag (fst p)"
  shows "list_all ok_pair ps"
  using assms
  by (induction ps arbitrary: bss)
    (auto simp: bindE_Inr_iff enc_pair_def encode_tlv_def encode_length_ok ok_pair_def)

definition opt_enc :: "'a option \<Rightarrow> ('a \<Rightarrow> bytes result) \<Rightarrow> bytes option result" where
  "opt_enc x f = (case x of None \<Rightarrow> Inr None | Some v \<Rightarrow> mapE Some (f v))"

definition asdu_contents :: "sv_asdu \<Rightarrow> bytes option list result" where
  "asdu_contents a = traverse id
     [mapE Some (encode_ascii (sv_id a)), opt_enc (sv_dat_set a) encode_ascii,
      mapE Some (to_bytes 2 (smp_cnt a)), mapE Some (to_bytes 4 (sv_conf_rev a)),
      opt_enc (refr_tm a) (\<lambda>t. encode_utc_time t 0), mapE Some (to_bytes 1 (smp_synch a)),
      opt_enc (smp_rate a) (to_bytes 2), Inr (Some (sample a)), opt_enc (smp_mod a) (to_bytes 2),
      Inr (gm_identity a)]"

definition asdu_tags :: "int list" where
  "asdu_tags = [0x80, 0x81, 0x82, 0x83, 0x84, 0x85, 0x86, 0x87, 0x88, 0x89]"

lemma optional_field:
  "optional x (\<lambda>s. bindE (f s) (\<lambda>c. enc_pair (tag, c))) = bindE (opt_enc x f) (\<lambda>c. enc_field (tag, c))"
  by (cases x) (auto simp: optional_def opt_enc_def enc_field_def mapE_def bindE_assoc)

lemma present_field: "bindE (f s) (\<lambda>c. enc_pair (tag, c)) = bindE (mapE Some (f s)) (\<lambda>c. enc_field (tag, c))"
  by (auto simp: enc_field_def mapE_def bindE_assoc)

lemma encode_asdu_fields:
  assumes "encode_asdu a = Inr bs"
  shows "\<exists>cs bss. asdu_contents a = Inr cs \<and> traverse enc_field (zip asdu_tags cs) = Inr bss
    \<and> encode_tlv TAG_ASDU (concat bss) = Inr bs \<and> (\<forall>g. gm_identity a = Some g \<longrightarrow> length g = 8)"
proof -
  have s: "sv_ctx 7 (sample a) = enc_field (0x87, Some (sample a))" by (simp add: enc_field_def sv_ctx_pair)
  have eta: "sv_ctx 0 = (\<lambda>c. enc_pair (0x80, c))" "sv_ctx 2 = (\<lambda>c. enc_pair (0x82, c))" "sv_ctx 3 = (\<lambda>c. enc_pair (0x83, c))"
     "sv_ctx 1 = (\<lambda>c. enc_pair (0x81, c))" "sv_ctx 4 = (\<lambda>c. enc_pair (0x84, c))" "sv_ctx 6 = (\<lambda>c. enc_pair (0x86, c))"
     "sv_ctx 5 = (\<lambda>c. enc_pair (0x85, c))" "sv_ctx 8 = (\<lambda>c. enc_pair (0x88, c))"
    by (simp_all add: sv_ctx_pair fun_eq_iff)
  let ?g = "optional (gm_identity a) (\<lambda>g. if length g \<noteq> 8 then Inl ValueError else sv_ctx 9 g)"
  obtain f9 where "?g = Inr f9"
    using assms unfolding encode_asdu_def by (auto simp: bindE_Inr_iff)
  then have g: "?g = enc_field (0x89, gm_identity a)" "\<forall>g. gm_identity a = Some g \<longrightarrow> length g = 8"
    by (cases "gm_identity a"; auto simp: optional_def enc_field_def sv_ctx_pair split: if_splits)+
  from assms show ?thesis
    unfolding encode_asdu_def g(1) eta s optional_field
    unfolding present_field bindE_assoc
    using g(2) by (auto simp: bindE_Inr_iff asdu_contents_def asdu_tags_def)
qed

definition ok_asdu :: "sv_asdu \<Rightarrow> bool" where
  "ok_asdu a \<longleftrightarrow> (\<forall>t. refr_tm a = Some t \<longrightarrow> ok_utc (t, 0))"

lemma opt_enc_present:
  assumes "opt_enc x f = Inr c" "\<And>v w. x = Some v \<Longrightarrow> f v = Inr w \<Longrightarrow> g w = Inr v"
  shows "(case c of None \<Rightarrow> Inr None | Some v \<Rightarrow> mapE Some (g v)) = Inr x"
  using assms by (cases x) (auto simp: opt_enc_def mapE_Inr_iff)

lemma fixed_to_bytes: "to_bytes n v = Inr c \<Longrightarrow> fixed c n = Inr v"
  using from_bytes_to_bytes [of n v c] by (simp add: fixed_def)

lemma fold_field_pairs:
  "fold (\<lambda>p m. m(fst p - 0x80 \<mapsto> snd p)) (field_pairs fs) m
   = fold (\<lambda>f m. case snd f of None \<Rightarrow> m | Some v \<Rightarrow> m(fst f - 0x80 \<mapsto> v)) fs m"
  by (induction fs arbitrary: m) (auto simp: field_pairs_def case_prod_unfold split: option.splits)

lemma asdu_of_encoded:
  assumes "ok_asdu a" "asdu_contents a = Inr cs"
  shows "asdu_of_fields (fold (\<lambda>p m. m(fst p - 0x80 \<mapsto> snd p)) (field_pairs (zip asdu_tags cs)) Map.empty) = Inr a"
proof -
  from assms(2) obtain c0 c1 c2 c3 c4 c5 c6 c8 where
    cs: "cs = [Some c0, c1, Some c2, Some c3, c4, Some c5, c6, Some (sample a), c8, gm_identity a]" and
    c: "encode_ascii (sv_id a) = Inr c0" "opt_enc (sv_dat_set a) encode_ascii = Inr c1"
      "to_bytes 2 (smp_cnt a) = Inr c2" "to_bytes 4 (sv_conf_rev a) = Inr c3"
      "opt_enc (refr_tm a) (\<lambda>t. encode_utc_time t 0) = Inr c4" "to_bytes 1 (smp_synch a) = Inr c5"
      "opt_enc (smp_rate a) (to_bytes 2) = Inr c6" "opt_enc (smp_mod a) (to_bytes 2) = Inr c8"
    by (auto simp: asdu_contents_def bindE_Inr_iff mapE_Inr_iff)
  define m where "m = fold (\<lambda>p m. m(fst p - 0x80 \<mapsto> snd p)) (field_pairs (zip asdu_tags cs)) Map.empty"
  have m: "m 0 = Some c0" "m 1 = c1" "m 2 = Some c2" "m 3 = Some c3" "m 4 = c4" "m 5 = Some c5" "m 6 = c6"
    "m 7 = Some (sample a)" "m 8 = c8" "m 9 = gm_identity a"
    unfolding m_def fold_field_pairs cs asdu_tags_def by (simp_all split: option.split)
  have "decode_utc_time w = Inr (v, 0)" if "refr_tm a = Some v" "encode_utc_time v 0 = Inr w" for v w
    using utc_time_codec.dec_enc [of "(v, 0)" w] assms(1) that by (simp add: ok_asdu_def)
  then have tm: "present m 4 (\<lambda>v. mapE fst (decode_utc_time v)) = Inr (refr_tm a)"
    unfolding present_def m by (intro opt_enc_present [OF c(5)]) simp
  have rate: "present m 6 (\<lambda>v. fixed v 2) = Inr (smp_rate a)" "present m 8 (\<lambda>v. fixed v 2) = Inr (smp_mod a)"
    unfolding present_def m
    by (rule opt_enc_present [OF c(7)], erule fixed_to_bytes, rule opt_enc_present [OF c(8)], erule fixed_to_bytes)
  have ds: "map_option decode_ascii_replace c1 = sv_dat_set a"
    using c(2) decode_encode_ascii by (cases "sv_dat_set a") (auto simp: opt_enc_def mapE_Inr_iff)
  show ?thesis
    using fixed_to_bytes [OF c(3)] fixed_to_bytes [OF c(4)] fixed_to_bytes [OF c(6)] tm rate ds
      decode_encode_ascii [OF c(1)]
    unfolding m_def [symmetric] asdu_of_fields_def m by simp
qed

lemma decode_encode_asdu:
  assumes "ok_asdu a" "encode_asdu a = Inr bs"
  shows "\<exists>c. encode_tlv TAG_ASDU c = Inr bs \<and> decode_asdu c = Inr a"
proof -
  from encode_asdu_fields [OF assms(2)] obtain cs bss where
    cs: "asdu_contents a = Inr cs" and bss: "traverse enc_field (zip asdu_tags cs) = Inr bss"
      "encode_tlv TAG_ASDU (concat bss) = Inr bs" by blast
  from enc_fields_pairs [OF bss(1)] obtain css where
    css: "traverse enc_pair (field_pairs (zip asdu_tags cs)) = Inr css" "concat css = concat bss" by blast
  have "\<forall>p \<in> set (field_pairs (zip asdu_tags cs)). wf_tag (fst p)"
    by (auto simp: field_pairs_def asdu_tags_def sv_wf_tags dest!: set_zip_leftD split: option.splits)
  then have "asdu_fields (concat css)
      = Inr (fold (\<lambda>p m. m(fst p - 0x80 \<mapsto> snd p)) (field_pairs (zip asdu_tags cs)) Map.empty)"
    using asdu_fields_encode field_pairs_lengths css(1) by blast
  then have "decode_asdu (concat bss) = Inr a"
    using asdu_of_encoded [OF assms(1) cs] css(2) by (simp add: decode_asdu_def)
  then show ?thesis using bss(2) by blast
qed

lemma sv_pair_of_eq: "pair_of t = (a, b) \<longleftrightarrow> tlv_tag t = a \<and> tlv_value t = b"
  by (auto simp: pair_of_def)

lemma for_seq_item:
  assumes "list_all ok_asdu as" "traverse encode_asdu as = Inr bss"
  shows "for_tlvs seq_item (concat bss) bs0 = Inr (bs0 @ as)"
proof -
  have "\<exists>cs. traverse (\<lambda>c. enc_pair (TAG_ASDU, c)) cs = Inr bss \<and> traverse decode_asdu cs = Inr as"
    using assms
  proof (induction as arbitrary: bss)
    case Nil
    then show ?case by (intro exI [of _ "[]"]) simp
  next
    case (Cons a as)
    then obtain b bs' where b: "encode_asdu a = Inr b" "traverse encode_asdu as = Inr bs'" "bss = b # bs'"
      by (auto simp: bindE_Inr_iff)
    then obtain cs where "traverse (\<lambda>c. enc_pair (TAG_ASDU, c)) cs = Inr bs'" "traverse decode_asdu cs = Inr as"
      using Cons by auto
    moreover obtain c where "encode_tlv TAG_ASDU c = Inr b" "decode_asdu c = Inr a"
      using decode_encode_asdu [OF _ b(1)] Cons.prems(1) by auto
    ultimately show ?case using b(3) by (intro exI [of _ "c # cs"]) (simp add: enc_pair_def)
  qed
  then obtain cs where cs: "traverse enc_pair (map (Pair TAG_ASDU) cs) = Inr bss" "traverse decode_asdu cs = Inr as"
    by (auto simp: traverse_map)
  have "list_all ok_pair (map (Pair TAG_ASDU) cs)"
    by (rule field_pairs_lengths [OF cs(1)]) (auto simp: TAG_ASDU_def sv_wf_tags)
  then obtain ts where ts: "iter_tlvs (concat bss) = (ts, None)" "map pair_of ts = map (Pair TAG_ASDU) cs"
    using iter_tlvs_enc cs(1) by blast
  have "foldE seq_item ts bs0 = Inr (bs0 @ as)"
    using ts(2) cs(2)
  proof (induction ts arbitrary: cs as bs0)
    case Nil
    then show ?case by simp
  next
    case (Cons t ts)
    then obtain c cs' where "cs = c # cs'" "tlv_tag t = TAG_ASDU" "tlv_value t = c" "map pair_of ts = map (Pair TAG_ASDU) cs'"
      by (cases cs) (auto simp: sv_pair_of_eq)
    moreover then obtain a as' where "as = a # as'" "decode_asdu c = Inr a" "traverse decode_asdu cs' = Inr as'"
      using Cons.prems(2) by (auto simp: bindE_Inr_iff)
    ultimately show ?case using Cons.IH [of cs' as' "bs0 @ [a]"] by (simp add: seq_item_def)
  qed
  then show ?thesis by (simp add: for_tlvs_def ts(1))
qed

lemma decode_encode_sv:
  assumes "list_all ok_asdu (asdus p)" "encode_sv_pdu p = Inr bs"
  shows "decode_sv_pdu bs = Inr p"
proof -
  let ?n = "int (length (asdus p))"
  from assms(2) obtain n0 f0 f1 bss f2 where
    n: "encode_unsigned ?n = Inr n0" "encode_tlv TAG_NO_ASDU n0 = Inr f0" and
    sec: "optional (security p) (encode_tlv TAG_SECURITY) = Inr f1" and
    seq: "traverse encode_asdu (asdus p) = Inr bss" "encode_tlv TAG_SEQ_ASDU (concat bss) = Inr f2" and
    bs: "encode_tlv TAG_SAV_PDU (f0 @ f1 @ f2) = Inr bs"
    by (auto simp: encode_sv_pdu_def bindE_Inr_iff split: if_splits)
  define ps where "ps = (TAG_NO_ASDU, n0) # (case security p of None \<Rightarrow> [] | Some s \<Rightarrow> [(TAG_SECURITY, s)])
      @ [(TAG_SEQ_ASDU, concat bss)]"
  obtain css where css: "traverse enc_pair ps = Inr css" "concat css = f0 @ f1 @ f2"
    using n(2) sec seq(2) by (cases "security p") (auto simp: ps_def enc_pair_def optional_def bindE_Inr_iff)
  have "list_all ok_pair ps"
    by (rule field_pairs_lengths [OF css(1)])
      (auto simp: ps_def TAG_NO_ASDU_def TAG_SECURITY_def TAG_SEQ_ASDU_def sv_wf_tags split: option.splits)
  then obtain ts where ts: "iter_tlvs (f0 @ f1 @ f2) = (ts, None)" "map pair_of ts = ps"
    using iter_tlvs_enc css by metis
  have un: "decode_unsigned n0 = Inr ?n" using unsigned_codec.dec_enc [OF _ n(1)] by simp
  have step: "sv_field t s = sv_field \<lparr>tlv_tag = fst (pair_of t), tlv_value = snd (pair_of t), tlv_end = 0\<rparr> s" for t s
    unfolding sv_field_def pair_of_simps tlv.select_convs ..
  have "foldE sv_field ts s = foldE (\<lambda>q. sv_field \<lparr>tlv_tag = fst q, tlv_value = snd q, tlv_end = 0\<rparr>) (map pair_of ts) s" for s
    unfolding foldE_map by (rule foldE_cong [OF refl _ refl]) (rule step)
  then have "for_tlvs sv_field (f0 @ f1 @ f2) \<lparr>no_asdu = None, st_security = None, st_asdus = []\<rparr>
      = Inr \<lparr>no_asdu = Some ?n, st_security = security p, st_asdus = asdus p\<rparr>"
    using un for_seq_item [OF assms(1) seq(1), of "[]"]
    by (cases "security p")
      (simp_all add: for_tlvs_def ts ps_def sv_field_def TAG_NO_ASDU_def TAG_SECURITY_def TAG_SEQ_ASDU_def)
  then show ?thesis
    using decode_encode_tlv [OF sv_wf_tags(2), of "f0 @ f1 @ f2" bs "[]" "[]"] bs
    by (simp add: decode_sv_pdu_def expect_tlv_def TAG_SAV_PDU_def)
qed

section \<open>Errors\<close>

lemma asdu_fields_raises [raises]: "raises_only {BerError, SvDecodeError} (asdu_fields content)"
  using asdu_fields_from_iter [of content 0 Map.empty]
  by (auto simp: asdu_fields_def raises_only_def)

lemma sv_raises_leaf [raises]:
  "raises_only {BerError, SvDecodeError} (fixed c n)"
  "raises_only {BerError, SvDecodeError} (decode_utc_time c)"
  "raises_only {BerError, SvDecodeError} (decode_unsigned c)"
  by (auto simp: fixed_def decode_unsigned_def raises_only_def dest: decode_utc_time_error split: if_splits)

lemma present_raises [raises]: "(\<And>v. raises_only E (f v)) \<Longrightarrow> raises_only E (present m k f)"
  unfolding present_def by (intro raises)

lemma decode_asdu_raises [raises]: "raises_only {BerError, SvDecodeError} (decode_asdu c)"
  unfolding decode_asdu_def asdu_of_fields_def by (intro raises) simp_all

lemma for_tlvs_sv_raises [raises]:
  "(\<And>t s. raises_only {BerError, SvDecodeError} (body t s)) \<Longrightarrow>
   raises_only {BerError, SvDecodeError} (for_tlvs body data s)"
  unfolding for_tlvs_def by (intro raises) (auto dest: iter_tlvs_error)

lemma sv_field_raises [raises]: "raises_only {BerError, SvDecodeError} (sv_field t s)"
  unfolding sv_field_def seq_item_def by (intro raises) simp_all

lemma decode_tlv_sv_raises [raises]: "raises_only {BerError, SvDecodeError} (decode_tlv data offset)"
  by (auto simp: raises_only_def dest: decode_tlv_error)

lemma decode_sv_error: "decode_sv_pdu data = Inl e \<Longrightarrow> e = SvDecodeError"
proof -
  have "raises_only {BerError, SvDecodeError} (bindE (expect_tlv data 0 TAG_SAV_PDU) (\<lambda>outer.
      for_tlvs sv_field (tlv_value outer) s))" for s
    unfolding expect_tlv_def
    by (intro raises) simp
  then have "raises_only {SvDecodeError} (rethrow is_ber_error SvDecodeError (bindE (expect_tlv data 0 TAG_SAV_PDU)
      (\<lambda>outer. for_tlvs sv_field (tlv_value outer) s)))" for s
    by (rule raises_only_rethrow) auto
  then have "raises_only {SvDecodeError} (decode_sv_pdu data)"
    unfolding decode_sv_pdu_def by (intro raises) simp_all
  then show "decode_sv_pdu data = Inl e \<Longrightarrow> e = SvDecodeError" by (auto simp: raises_only_def)
qed

section \<open>Samples\<close>

lemma pack_sample_octets:
  assumes "pack_sample vq = Inr b"
  shows "length b = 8 \<and> unpack_samples (b @ rest) = vq # unpack_samples rest"
proof -
  from assms obtain v q where v: "to_bytes_signed 4 (fst vq) = Inr v" and q: "to_bytes 4 (snd vq) = Inr q" and b: "b = v @ q"
    by (auto simp: pack_sample_def bindE_Inr_iff)
  have "length v = Suc (Suc (Suc (Suc 0)))" "length q = Suc (Suc (Suc (Suc 0)))"
    using to_bytes_signed_length [OF v] from_bytes_to_bytes [OF q] by simp_all
  then obtain v1 v2 v3 v4 q1 q2 q3 q4 where "v = [v1, v2, v3, v4]" "q = [q1, q2, q3, q4]"
    by (auto simp: length_Suc_conv)
  then show ?thesis
    using from_bytes_signed_to_bytes_signed [OF v] from_bytes_to_bytes [OF q] by (simp add: b)
qed

interpretation samples_codec: content_codec encode_int32_samples decode_int32_samples
  "list_all (\<lambda>(v, q). - (2 ^ 31) \<le> v \<and> v < 2 ^ 31 \<and> 0 \<le> q \<and> q < 2 ^ 32)"
proof unfold_locales
  fix xs :: "(int \<times> int) list" assume "list_all (\<lambda>(v, q). - (2 ^ 31) \<le> v \<and> v < 2 ^ 31 \<and> 0 \<le> q \<and> q < 2 ^ 32) xs"
  then have "\<exists>bss. traverse pack_sample xs = Inr bss"
    by (induction xs) (auto simp: pack_sample_def to_bytes_signed_def to_bytes_def)
  then show "\<exists>bs. encode_int32_samples xs = Inr bs" by (auto simp: encode_int32_samples_def)
next
  fix xs :: "(int \<times> int) list" and bs assume "encode_int32_samples xs = Inr bs"
  then obtain bss where bss: "traverse pack_sample xs = Inr bss" "bs = concat bss"
    by (auto simp: encode_int32_samples_def mapE_Inr_iff)
  from bss(1) have "length (concat bss) mod 8 = 0 \<and> unpack_samples (concat bss) = xs"
  proof (induction xs arbitrary: bss)
    case (Cons x xs)
    then obtain b bs' where "pack_sample x = Inr b" "traverse pack_sample xs = Inr bs'" "bss = b # bs'"
      by (auto simp: bindE_Inr_iff)
    then show ?case using Cons.IH [of bs'] pack_sample_octets [of x b "concat bs'"] by simp
  qed simp
  then show "decode_int32_samples bs = Inr xs" by (simp add: decode_int32_samples_def bss(2))
qed

section \<open>Properties\<close>

definition example_sv :: sv_pdu where
  "example_sv = \<lparr>asdus = [\<lparr>sv_id = [77], smp_cnt = 3999, sv_conf_rev = 1, smp_synch = 2, sample = [0, 0, 0, 1, 0, 0, 0, 0],
     sv_dat_set = None, refr_tm = Some 2000000, smp_rate = Some 4000, smp_mod = Some 1, gm_identity = None\<rparr>],
     security = None\<rparr>"

lemma example_sv_encodes: "\<exists>bs. encode_sv_pdu example_sv = Inr bs"
  by (simp add: encode_sv_pdu_def example_sv_def encode_asdu_def sv_ctx_pair enc_pair_def optional_def
      encode_tlv_def wf_low_tag(1) encode_length_def encode_integer_def encode_unsigned_def bit_length_def
      bit_length_nat.simps to_bytes_signed_def to_bytes_def encode_utc_time_def encode_ascii_def is_ascii_def
      Let_def TAG_NO_ASDU_def TAG_ASDU_def TAG_SEQ_ASDU_def TAG_SAV_PDU_def)

text \<open>C23: a SavPdu is read back, ASDU by ASDU, optional fields present or absent.\<close>
theorem sv_round_trip:
  assumes "list_all ok_asdu (asdus p)" "encode_sv_pdu p = Inr bs"
  shows "decode_sv_pdu bs = Inr p"
  using assms by (rule decode_encode_sv)

theorem sv_round_trip_witness: "\<exists>bs. encode_sv_pdu example_sv = Inr bs \<and> decode_sv_pdu bs = Inr example_sv"
proof -
  have "list_all ok_asdu (asdus example_sv)" by (simp add: example_sv_def ok_asdu_def ok_utc_def)
  then show ?thesis using example_sv_encodes sv_round_trip [of example_sv] by blast
qed

text \<open>The direct loop of \<^verbatim>\<open>_asdu_fields\<close> is the fold over the TLVs that \<^verbatim>\<open>iter_tlvs\<close> yields, and it
  fails exactly when the generator does.\<close>
lemma asdu_loop_equivalent:
  "(case asdu_fields content of
      Inr m \<Rightarrow> snd (iter_tlvs content) = None
        \<and> m = fold (\<lambda>t m. m(tlv_tag t - 0x80 \<mapsto> tlv_value t)) (fst (iter_tlvs content)) Map.empty
    | Inl e \<Rightarrow> snd (iter_tlvs content) \<noteq> None \<and> is_ber_error e)"
proof -
  have "e \<in> {BerError, SvDecodeError} \<Longrightarrow> is_ber_error e" for e by auto
  then show ?thesis
    using asdu_fields_from_iter [of content 0 Map.empty]
    unfolding asdu_fields_def iter_tlvs_def by (auto split: sum.splits)
qed

text \<open>Whatever the octets, decoding a SavPdu raises \<^verbatim>\<open>SvDecodeError\<close> or returns: no other
  exception of the BER layer or of the fields comes through.\<close>
lemma sv_decode_total: "decode_sv_pdu data \<in> insert (Inl SvDecodeError) (range Inr)"
  using decode_sv_error [of data] by (cases "decode_sv_pdu data") auto

end
