(* ===== verification/Supervision.thy ===== *)
theory Supervision
  imports Complex_Main Goose Sv "HOL-Library.AList"
begin

text \<open>
  \<^verbatim>\<open>src/open61850/supervision.py\<close>: the GOOSE and Sampled Values supervisors and the bus supervisor
  that feeds them raw frames. Reception times are rationals (the code's floats, without rounding).
  A dictionary of streams is the list of its items in insertion order. The texts of the events are
  left out, their kind and their \<^verbatim>\<open>missed\<close> count kept. An operation that may raise returns the state it
  leaves behind together with its result, since the state survives the exception. The messages
  fed are distinct objects, so that \<^verbatim>\<open>stream.last is pdu\<close> holds for a new stream only. The summary
  lines and the command line are not modelled.
\<close>

section \<open>Events\<close>

datatype event_kind =
    NEW_STREAM | STATE_CHANGE | DATA_WITHOUT_STATE_CHANGE | GAP | DUPLICATE | OUT_OF_ORDER | RESTART
  | TIMEOUT | RESUMED | CONFIG_CHANGED | SIMULATION | NDS_COM | SYNCH_CHANGED | INCONSISTENT

record event =
  ev_kind :: event_kind
  ev_stream :: ustr
  ev_time :: rat
  ev_missed :: int

definition UINT32_MAX :: int where "UINT32_MAX = 0xFFFFFFFF"
definition REORDER_WINDOW :: nat where "REORDER_WINDOW = 16"

type_synonym notice = "event_kind \<times> int" \<comment> \<open>what \<^verbatim>\<open>emit\<close> is called with\<close>
type_synonym event_counts = "event_kind \<Rightarrow> nat"

definition events_of :: "ustr \<Rightarrow> rat \<Rightarrow> notice list \<Rightarrow> event list" where
  "events_of ref now ns = map (\<lambda>(k, m). \<lparr>ev_kind = k, ev_stream = ref, ev_time = now, ev_missed = m\<rparr>) ns"

text \<open>\<^verbatim>\<open>_count\<close>, and \<^verbatim>\<open>append\<close> on a \<^verbatim>\<open>deque(maxlen=REORDER_WINDOW)\<close>.\<close>

definition count_events :: "notice list \<Rightarrow> event_counts \<Rightarrow> event_counts" where
  "count_events ns c = foldl (\<lambda>c n. c(fst n := Suc (c (fst n)))) c ns"

definition push_recent :: "int list \<Rightarrow> int \<Rightarrow> int list" where
  "push_recent r v = (let r' = r @ [v] in drop (length r' - REORDER_WINDOW) r')"

text \<open>\<^verbatim>\<open>_late\<close> on the window and the missed count, which is all it touches.\<close>

definition late :: "int list \<Rightarrow> int \<Rightarrow> int \<Rightarrow> int list \<times> int \<times> notice" where
  "late recent missed v =
     (if v \<in> set recent then (recent, missed, (DUPLICATE, 0))
      else (push_recent recent v, max 0 (missed - 1), (OUT_OF_ORDER, 0)))"

text \<open>The loop of the two \<^verbatim>\<open>check\<close> methods over the streams, in insertion order.\<close>

definition check_all :: "('s \<Rightarrow> 's \<times> event list) \<Rightarrow> (ustr \<times> 's) list \<Rightarrow> (ustr \<times> 's) list \<times> event list" where
  "check_all f xs = (map (\<lambda>(k, s). (k, fst (f s))) xs, concat (map (\<lambda>(k, s). snd (f s)) xs))"

section \<open>GOOSE\<close>

record goose_stream =
  gs_ref :: ustr
  gs_first_seen :: rat
  gs_last_seen :: rat
  gs_last :: goose_pdu
  gs_app_id :: "int option"
  gs_src_mac :: "ustr option"
  gs_messages :: nat
  gs_missed :: int
  gs_timed_out :: bool
  gs_events :: event_counts
  gs_recent :: "int list"

definition deadline :: "goose_stream \<Rightarrow> rat" where
  "deadline s = gs_last_seen s + of_int (time_allowed_to_live (gs_last s)) / 1000"

definition st_ahead :: "int \<Rightarrow> int \<Rightarrow> int" where
  "st_ahead previous current =
     (if current > previous then current - previous
      else if previous = UINT32_MAX \<and> current \<ge> 1 then current
      else 0)"

definition sq_next :: "int \<Rightarrow> int \<Rightarrow> bool" where
  "sq_next previous current \<longleftrightarrow>
     current = previous + 1 \<or> (previous = UINT32_MAX \<and> current \<in> {0, 1})"

text \<open>
  Python's \<open>==\<close> on Data values: that of the floats is IEEE 754's, so that the zeros are equal and a
  NaN differs from itself.
\<close>

definition is_nan :: "pyfloat \<Rightarrow> bool" where
  "is_nan f = (case f of
      F32 w \<Rightarrow> take_bit 31 w > 0x7F800000
    | F64 w \<Rightarrow> take_bit 63 w > 0x7FF0000000000000)"

definition is_zero :: "pyfloat \<Rightarrow> bool" where
  "is_zero f = (case f of F32 w \<Rightarrow> take_bit 31 w = 0 | F64 w \<Rightarrow> take_bit 63 w = 0)"

definition same_width :: "pyfloat \<Rightarrow> pyfloat \<Rightarrow> bool" where
  "same_width f g = (case (f, g) of (F32 _, F32 _) \<Rightarrow> True | (F64 _, F64 _) \<Rightarrow> True | _ \<Rightarrow> False)"

definition float_eq :: "pyfloat \<Rightarrow> pyfloat \<Rightarrow> bool" where
  "float_eq f g \<longleftrightarrow> same_width f g \<and> \<not> is_nan f \<and> \<not> is_nan g \<and> (f = g \<or> (is_zero f \<and> is_zero g))"

fun data_eq :: "iecdata \<Rightarrow> iecdata \<Rightarrow> bool" where
  "data_eq (FloatData f) d = (case d of FloatData g \<Rightarrow> float_eq f g | _ \<Rightarrow> False)"
| "data_eq (StructureData ms) d = (case d of StructureData ns \<Rightarrow> list_all2 data_eq ms ns | _ \<Rightarrow> False)"
| "data_eq (ArrayData ms) d = (case d of ArrayData ns \<Rightarrow> list_all2 data_eq ms ns | _ \<Rightarrow> False)"
| "data_eq a b = (a = b)"

text \<open>\<^verbatim>\<open>_changed_entries\<close>: encoding the two values may raise.\<close>

definition entry_changed :: "iecdata \<Rightarrow> iecdata \<Rightarrow> bool result" where
  "entry_changed a b =
     (if data_eq a b then Inr False
      else bindE (encode_data a) (\<lambda>x. bindE (encode_data b) (\<lambda>y. Inr (x \<noteq> y))))"

definition changed_entries :: "iecdata list \<Rightarrow> iecdata list \<Rightarrow> nat list result" where
  "changed_entries old new =
     (if length old \<noteq> length new then Inr [0..<max (length old) (length new)]
      else bindE (traverse (\<lambda>(a, b). entry_changed a b) (zip old new))
        (\<lambda>cs. Inr (filter (\<lambda>i. cs ! i) [0..<length cs])))"

definition consistent :: "goose_pdu \<Rightarrow> bool" where
  "consistent pdu \<longleftrightarrow> num_dat_set_entries pdu = int (length (all_data pdu))"

definition compare_goose_config :: "goose_pdu \<Rightarrow> goose_pdu \<Rightarrow> notice list" where
  "compare_goose_config prev pdu =
     (if conf_rev prev \<noteq> conf_rev pdu \<or> dat_set prev \<noteq> dat_set pdu \<or> go_id prev \<noteq> go_id pdu
          \<or> num_dat_set_entries prev \<noteq> num_dat_set_entries pdu then [(CONFIG_CHANGED, 0)] else [])
     @ (if simulation pdu \<noteq> simulation prev then [(SIMULATION, 0)] else [])
     @ (if nds_com pdu \<noteq> nds_com prev then [(NDS_COM, 0)] else [])"

definition follow_goose :: "goose_stream \<Rightarrow> goose_pdu \<Rightarrow> goose_stream \<times> (notice list \<times> bool) result" where
  "follow_goose s pdu =
     (let prev = gs_last s in
      if st_num pdu = st_num prev then
        if sq_num pdu = sq_num prev \<or> (sq_num pdu < sq_num prev \<and> \<not> sq_next (sq_num prev) (sq_num pdu)) then
          case late (gs_recent s) (gs_missed s) (sq_num pdu) of (r, m, n) \<Rightarrow>
            (s\<lparr>gs_recent := r, gs_missed := m\<rparr>, Inr ([n], False))
        else
          let gap = sq_num pdu - sq_num prev - 1;
              lost = \<not> sq_next (sq_num prev) (sq_num pdu);
              s1 = (if lost then s\<lparr>gs_missed := gs_missed s + gap\<rparr> else s);
              ns = (if lost then [(GAP, gap)] else [])
          in (s1, mapE (\<lambda>ch. (ns @ (if ch \<noteq> [] then [(DATA_WITHOUT_STATE_CHANGE, 0)] else []), True))
                (changed_entries (all_data prev) (all_data pdu)))
      else
        let s1 = s\<lparr>gs_recent := []\<rparr>; ahead = st_ahead (st_num prev) (st_num pdu)
        in if ahead = 0 then (s1, Inr ([(RESTART, 0)], True))
           else case changed_entries (all_data prev) (all_data pdu) of
               Inl e \<Rightarrow> (s1, Inl e)
             | Inr _ \<Rightarrow> (s1\<lparr>gs_missed := gs_missed s1 + (ahead - 1)\<rparr>, Inr ([(STATE_CHANGE, ahead - 1)], True)))"

type_synonym goose_supervisor = "(ustr \<times> goose_stream) list"

definition new_goose_stream :: "ustr \<Rightarrow> rat \<Rightarrow> goose_pdu \<Rightarrow> goose_stream" where
  "new_goose_stream ref now pdu =
     \<lparr>gs_ref = ref, gs_first_seen = now, gs_last_seen = now, gs_last = pdu, gs_app_id = None,
      gs_src_mac = None, gs_messages = 0, gs_missed = 0, gs_timed_out = False,
      gs_events = (\<lambda>_. 0), gs_recent = []\<rparr>"

text \<open>
  The end of \<^verbatim>\<open>feed\<close>, common to a new and to a known stream: \<open>was_ok\<close> tells that the stream was
  consistent (or is new), \<open>ns\<close> what was emitted so far.
\<close>

definition goose_accounted ::
    "goose_stream \<Rightarrow> goose_pdu \<Rightarrow> rat \<Rightarrow> ethernet_frame option \<Rightarrow> bool \<Rightarrow> notice list \<Rightarrow> bool \<Rightarrow> goose_stream \<times> notice list" where
  "goose_accounted s pdu now eth was_ok ns accept =
     (let ns' = ns @ (if \<not> consistent pdu \<and> was_ok then [(INCONSISTENT, 0)] else []);
          s1 = s\<lparr>gs_messages := Suc (gs_messages s), gs_last_seen := now\<rparr>;
          s2 = (if accept then s1\<lparr>gs_last := pdu, gs_recent := push_recent (gs_recent s1) (sq_num pdu)\<rparr> else s1);
          s3 = (case eth of
                  Some f \<Rightarrow> if accept then s2\<lparr>gs_app_id := Some (app_id f), gs_src_mac := Some (src_mac f)\<rparr> else s2
                | None \<Rightarrow> s2)
      in (s3\<lparr>gs_events := count_events ns' (gs_events s3)\<rparr>, ns'))"

definition goose_feed ::
    "goose_supervisor \<Rightarrow> goose_pdu \<Rightarrow> rat \<Rightarrow> ethernet_frame option \<Rightarrow> goose_supervisor \<times> event list result" where
  "goose_feed st pdu now eth =
     (let ref = gocb_ref pdu in
      case map_of st ref of
        None \<Rightarrow>
          (let ns = [(NEW_STREAM, 0)] @ (if simulation pdu then [(SIMULATION, 0)] else [])
                 @ (if nds_com pdu then [(NDS_COM, 0)] else []);
               (s, ns') = goose_accounted (new_goose_stream ref now pdu) pdu now eth True ns True
           in (AList.update ref s st, Inr (events_of ref now ns')))
      | Some s \<Rightarrow>
          (let s1 = s\<lparr>gs_timed_out := False\<rparr>;
               ns = (if gs_timed_out s then [(RESUMED, 0)] else []) @ compare_goose_config (gs_last s) pdu
           in case follow_goose s1 pdu of
                (s2, Inl e) \<Rightarrow> (AList.update ref s2 st, Inl e)
              | (s2, Inr (ns2, accept)) \<Rightarrow>
                  (case goose_accounted s2 pdu now eth (consistent (gs_last s)) (ns @ ns2) accept of
                     (s3, ns3) \<Rightarrow> (AList.update ref s3 st, Inr (events_of ref now ns3)))))"

definition goose_check_stream :: "rat \<Rightarrow> goose_stream \<Rightarrow> goose_stream \<times> event list" where
  "goose_check_stream now s =
     (if \<not> gs_timed_out s \<and> now > deadline s then
        (s\<lparr>gs_timed_out := True, gs_events := count_events [(TIMEOUT, 0)] (gs_events s)\<rparr>,
         events_of (gs_ref s) now [(TIMEOUT, 0)])
      else (s, []))"

definition goose_check :: "goose_supervisor \<Rightarrow> rat \<Rightarrow> goose_supervisor \<times> event list" where
  "goose_check st now = check_all (goose_check_stream now) st"

section \<open>Sampled Values\<close>

record sv_stream =
  ss_id :: ustr
  ss_first_seen :: rat
  ss_last_seen :: rat
  ss_smp_cnt :: int
  ss_conf_rev :: int
  ss_smp_synch :: int
  ss_dat_set :: "ustr option"
  ss_app_id :: "int option"
  ss_src_mac :: "ustr option"
  ss_samples :: nat
  ss_missed :: int
  ss_max_seen :: int
  ss_wrapped :: bool
  ss_timed_out :: bool
  ss_events :: event_counts
  ss_recent :: "int list"

record sv_supervisor =
  sv_rate :: "int option"
  sv_rates :: "ustr \<rightharpoonup> int"
  sv_timeout :: "rat option"
  sv_streams :: "(ustr \<times> sv_stream) list"

definition sv_wrap :: "sv_supervisor \<Rightarrow> sv_stream \<Rightarrow> sv_asdu \<Rightarrow> int option" where
  "sv_wrap st s a =
     (let rate = (case sv_rates st (ss_id s) of Some r \<Rightarrow> Some r | None \<Rightarrow> sv_rate st) in
      case (case rate of Some r \<Rightarrow> if r = 0 then None else Some r | None \<Rightarrow> None) of
        Some r \<Rightarrow> Some r
      | None \<Rightarrow>
          (case (case smp_rate a of Some r \<Rightarrow> if r \<noteq> 0 \<and> smp_mod a = Some 1 then Some r else None | None \<Rightarrow> None) of
             Some r \<Rightarrow> Some r
           | None \<Rightarrow> if ss_wrapped s then Some (ss_max_seen s + 1) else None))"

text \<open>The signed distance from the last accepted counter, modulo the wrap when it is known.\<close>

definition sv_ahead :: "int option \<Rightarrow> int \<Rightarrow> int \<Rightarrow> int" where
  "sv_ahead wrap prev cnt =
     (case wrap of
        Some w \<Rightarrow>
          if max prev cnt < w then
            let ahead = (cnt - prev) mod w in if w div 2 \<le> ahead then ahead - w else ahead
          else cnt - prev
      | None \<Rightarrow> cnt - prev)"

definition sv_follow :: "sv_supervisor \<Rightarrow> sv_stream \<Rightarrow> sv_asdu \<Rightarrow> sv_stream \<times> notice list \<times> bool" where
  "sv_follow st s a =
     (let prev = ss_smp_cnt s; cnt = smp_cnt a; known = sv_wrap st s a;
          first_wrap = (known = None \<and> prev - cnt > int REORDER_WINDOW);
          s1 = (if first_wrap then s\<lparr>ss_wrapped := True\<rparr> else s);
          wrap = (if first_wrap then Some (ss_max_seen s + 1) else known);
          ahead = sv_ahead wrap prev cnt
      in if ahead \<le> 0 then
           if - ahead \<le> int REORDER_WINDOW then
             (case late (ss_recent s1) (ss_missed s1) cnt of (r, m, n) \<Rightarrow>
                (s1\<lparr>ss_recent := r, ss_missed := m\<rparr>, [n], False))
           else (s1\<lparr>ss_recent := []\<rparr>, [(RESTART, 0)], True)
         else if ahead > 1 then
           (s1\<lparr>ss_missed := ss_missed s1 + (ahead - 1)\<rparr>, [(GAP, ahead - 1)], True)
         else (s1, [], True))"

definition new_sv_stream :: "ustr \<Rightarrow> rat \<Rightarrow> sv_asdu \<Rightarrow> sv_stream" where
  "new_sv_stream key now a =
     \<lparr>ss_id = key, ss_first_seen = now, ss_last_seen = now, ss_smp_cnt = smp_cnt a,
      ss_conf_rev = sv_conf_rev a, ss_smp_synch = smp_synch a, ss_dat_set = sv_dat_set a,
      ss_app_id = None, ss_src_mac = None, ss_samples = 0, ss_missed = 0, ss_max_seen = 0,
      ss_wrapped = False, ss_timed_out = False, ss_events = (\<lambda>_. 0), ss_recent = []\<rparr>"

definition compare_sv_config :: "sv_stream \<Rightarrow> sv_asdu \<Rightarrow> notice list" where
  "compare_sv_config s a =
     (if ss_conf_rev s \<noteq> sv_conf_rev a \<or> ss_dat_set s \<noteq> sv_dat_set a then [(CONFIG_CHANGED, 0)] else [])
     @ (if smp_synch a \<noteq> ss_smp_synch s then [(SYNCH_CHANGED, 0)] else [])"

definition sv_accounted ::
    "sv_stream \<Rightarrow> sv_asdu \<Rightarrow> rat \<Rightarrow> ethernet_frame option \<Rightarrow> notice list \<Rightarrow> bool \<Rightarrow> sv_stream" where
  "sv_accounted s a now eth ns accept =
     (let s1 = s\<lparr>ss_samples := Suc (ss_samples s), ss_last_seen := now\<rparr>;
          s2 = (if accept then s1\<lparr>ss_smp_cnt := smp_cnt a, ss_max_seen := max (ss_max_seen s1) (smp_cnt a),
                  ss_recent := push_recent (ss_recent s1) (smp_cnt a)\<rparr> else s1);
          s3 = (case eth of
                  Some f \<Rightarrow> if accept then s2\<lparr>ss_app_id := Some (app_id f), ss_src_mac := Some (src_mac f)\<rparr> else s2
                | None \<Rightarrow> s2)
      in s3\<lparr>ss_events := count_events ns (ss_events s3)\<rparr>)"

text \<open>The stream a sample leaves, from the stream before it (\<open>None\<close> for a new svID), and what was emitted.\<close>

definition sv_next_stream ::
    "sv_supervisor \<Rightarrow> sv_asdu \<Rightarrow> rat \<Rightarrow> ethernet_frame option \<Rightarrow> sv_stream option \<Rightarrow> sv_stream \<times> notice list" where
  "sv_next_stream st a now eth old =
     (case old of
        None \<Rightarrow> (sv_accounted (new_sv_stream (sv_id a) now a) a now eth [(NEW_STREAM, 0)] True, [(NEW_STREAM, 0)])
      | Some s \<Rightarrow>
          (let ns = (if ss_timed_out s then [(RESUMED, 0)] else []) @ compare_sv_config s a;
               s1 = s\<lparr>ss_timed_out := False, ss_conf_rev := sv_conf_rev a, ss_dat_set := sv_dat_set a,
                 ss_smp_synch := smp_synch a\<rparr>
           in case sv_follow st s1 a of (s2, ns2, accept) \<Rightarrow>
                (sv_accounted s2 a now eth (ns @ ns2) accept, ns @ ns2)))"

definition sv_feed_asdu ::
    "sv_supervisor \<Rightarrow> sv_asdu \<Rightarrow> rat \<Rightarrow> ethernet_frame option \<Rightarrow> sv_supervisor \<times> event list" where
  "sv_feed_asdu st a now eth =
     (case sv_next_stream st a now eth (map_of (sv_streams st) (sv_id a)) of (s, ns) \<Rightarrow>
        (st\<lparr>sv_streams := AList.update (sv_id a) s (sv_streams st)\<rparr>, events_of (sv_id a) now ns))"

definition sv_feed ::
    "sv_supervisor \<Rightarrow> sv_pdu \<Rightarrow> rat \<Rightarrow> ethernet_frame option \<Rightarrow> sv_supervisor \<times> event list" where
  "sv_feed st pdu now eth =
     foldl (\<lambda>(st, evs) a. case sv_feed_asdu st a now eth of (st', evs') \<Rightarrow> (st', evs @ evs'))
       (st, []) (asdus pdu)"

definition sv_check_stream :: "rat \<Rightarrow> rat \<Rightarrow> sv_stream \<Rightarrow> sv_stream \<times> event list" where
  "sv_check_stream timeout now s =
     (if \<not> ss_timed_out s \<and> now - ss_last_seen s > timeout then
        (s\<lparr>ss_timed_out := True, ss_events := count_events [(TIMEOUT, 0)] (ss_events s)\<rparr>,
         events_of (ss_id s) now [(TIMEOUT, 0)])
      else (s, []))"

definition sv_check :: "sv_supervisor \<Rightarrow> rat \<Rightarrow> sv_supervisor \<times> event list" where
  "sv_check st now =
     (case sv_timeout st of
        None \<Rightarrow> (st, [])
      | Some t \<Rightarrow>
          (case check_all (sv_check_stream t now) (sv_streams st) of (xs, evs) \<Rightarrow>
             (st\<lparr>sv_streams := xs\<rparr>, evs)))"

section \<open>Both, from raw frames\<close>

definition frame_ethertype :: "bytes \<Rightarrow> int option" where
  "frame_ethertype raw =
     (if length raw < 14 then None
      else let et = from_bytes (slice raw 12 14)
        in Some (if et = ETHERTYPE_VLAN \<and> 18 \<le> length raw then from_bytes (slice raw 16 18) else et))"

record bus_supervisor =
  bus_goose :: goose_supervisor
  bus_sv :: sv_supervisor
  frames_goose :: nat
  frames_sv :: nat
  frames_other :: nat
  malformed_goose :: nat
  malformed_sv :: nat

record captured_frame =
  cf_timestamp :: rat
  cf_data :: bytes

definition bus_check :: "bus_supervisor \<Rightarrow> rat \<Rightarrow> bus_supervisor \<times> event list" where
  "bus_check b now =
     (case goose_check (bus_goose b) now of (g, eg) \<Rightarrow>
      case sv_check (bus_sv b) now of (v, ev) \<Rightarrow> (b\<lparr>bus_goose := g, bus_sv := v\<rparr>, eg @ ev))"

text \<open>\<^verbatim>\<open>try: decode except ber.BerError: None\<close>; another exception would go through.\<close>

definition none_on_ber_error :: "'a option result \<Rightarrow> 'a option result" where
  "none_on_ber_error m = (case m of Inl e \<Rightarrow> if is_ber_error e then Inr None else Inl e | Inr x \<Rightarrow> Inr x)"

definition bus_feed :: "bus_supervisor \<Rightarrow> captured_frame \<Rightarrow> bus_supervisor \<times> event list result" where
  "bus_feed b f =
     (case bus_check b (cf_timestamp f) of (b0, evs) \<Rightarrow>
        if frame_ethertype (cf_data f) = Some ETHERTYPE_GOOSE then
          (let b1 = b0\<lparr>frames_goose := Suc (frames_goose b0)\<rparr> in
           case none_on_ber_error (decode_goose_frame (cf_data f) False) of
             Inl e \<Rightarrow> (b1, Inl e)
           | Inr None \<Rightarrow> (b1\<lparr>malformed_goose := Suc (malformed_goose b1)\<rparr>, Inr evs)
           | Inr (Some (eth, pdu)) \<Rightarrow>
               (case goose_feed (bus_goose b1) pdu (cf_timestamp f) (Some eth) of
                  (g, r) \<Rightarrow> (b1\<lparr>bus_goose := g\<rparr>, mapE (\<lambda>es. evs @ es) r)))
        else if frame_ethertype (cf_data f) = Some ETHERTYPE_SV then
          (let b1 = b0\<lparr>frames_sv := Suc (frames_sv b0)\<rparr> in
           case none_on_ber_error (decode_sv_frame (cf_data f)) of
             Inl e \<Rightarrow> (b1, Inl e)
           | Inr None \<Rightarrow> (b1\<lparr>malformed_sv := Suc (malformed_sv b1)\<rparr>, Inr evs)
           | Inr (Some (eth, pdu)) \<Rightarrow>
               (case sv_feed (bus_sv b1) pdu (cf_timestamp f) (Some eth) of
                  (v, es) \<Rightarrow> (b1\<lparr>bus_sv := v\<rparr>, Inr (evs @ es))))
        else (b0\<lparr>frames_other := Suc (frames_other b0)\<rparr>, Inr evs))"

section \<open>Silent streams\<close>

text \<open>
  What the two \<^verbatim>\<open>check\<close> methods promise on one stream: a \<open>TIMEOUT\<close> when it is overdue and not yet
  reported, nothing otherwise.
\<close>

locale silence_check =
  fixes ident :: "'s \<Rightarrow> ustr"
    and reported :: "'s \<Rightarrow> bool"
    and overdue :: "rat \<Rightarrow> 's \<Rightarrow> bool"
    and check1 :: "rat \<Rightarrow> 's \<Rightarrow> 's \<times> event list"
  assumes quiet: "reported s \<or> \<not> overdue now s \<Longrightarrow> check1 now s = (s, [])"
    and report: "\<not> reported s \<Longrightarrow> overdue now s \<Longrightarrow>
      snd (check1 now s) = events_of (ident s) now [(TIMEOUT, 0)] \<and> reported (fst (check1 now s))"
    and ident_kept: "ident (fst (check1 now s)) = ident s"
    and overdue_kept: "overdue now' (fst (check1 now s)) = overdue now' s"
begin

lemma reported_iff: "reported (fst (check1 now s)) \<longleftrightarrow> reported s \<or> overdue now s"
  using quiet [of s now] report [of s now] by (cases "reported s"; cases "overdue now s") auto

text \<open>One event per stream that became silent, in the order of the streams.\<close>

lemma check_all_events:
  "snd (check_all (check1 now) xs)
   = concat (map (\<lambda>(k, s). if \<not> reported s \<and> overdue now s then events_of (ident s) now [(TIMEOUT, 0)] else []) xs)"
  using quiet report by (fastforce simp: check_all_def intro!: arg_cong [where f = concat])

text \<open>A silence is reported once: checking again, at any later time, reports what is newly silent only.\<close>

lemma check_all_again:
  assumes "now' \<le> now"
    and mono: "\<And>s t t'. t \<le> t' \<Longrightarrow> overdue t s \<Longrightarrow> overdue t' s"
  shows "snd (check_all (check1 now') (fst (check_all (check1 now) xs))) = []"
proof -
  have "check1 now' (fst (check1 now s)) = (fst (check1 now s), [])" for s
    using assms by (intro quiet) (auto simp: reported_iff overdue_kept)
  then show ?thesis by (simp add: check_all_def comp_def case_prod_unfold)
qed

end

interpretation goose_silence: silence_check gs_ref gs_timed_out "\<lambda>now s. now > deadline s" goose_check_stream
  by unfold_locales (auto simp: goose_check_stream_def deadline_def)

interpretation sv_silence: silence_check ss_id ss_timed_out "\<lambda>now s. now - ss_last_seen s > timeout"
  "sv_check_stream timeout" for timeout
  by unfold_locales (auto simp: sv_check_stream_def)

section \<open>The distance between sample counters\<close>

text \<open>
  With a known wrap the distance is the representative of \<open>cnt - prev\<close> modulo the wrap that lies
  from half a second behind (included) to half a second ahead (excluded).
\<close>

lemma sv_ahead_spec:
  assumes "0 \<le> prev" "prev < w" "0 \<le> cnt" "cnt < w"
  shows "(prev + sv_ahead (Some w) prev cnt) mod w = cnt"
    "w div 2 - w \<le> sv_ahead (Some w) prev cnt" "sv_ahead (Some w) prev cnt < w div 2"
proof -
  let ?d = "(cnt - prev) mod w"
  have w: "0 < w" using assms by simp
  have d: "0 \<le> ?d" "?d < w" using w by simp_all
  define h where "h = w div 2"
  have h: "w div 2 = h" "0 \<le> h" "h \<le> w" using w by (auto simp: h_def)
  have ah: "sv_ahead (Some w) prev cnt = (if w div 2 \<le> ?d then ?d - w else ?d)"
    using assms by (simp add: sv_ahead_def Let_def)
  have "(prev + ?d) mod w = cnt mod w" by (simp add: mod_add_right_eq)
  moreover have "(prev + (?d - w)) mod w = (prev + ?d) mod w"
    using minus_mod_self2 [of "prev + ?d" w] by (simp add: add_diff_eq)
  moreover have "cnt mod w = cnt" using assms by simp
  ultimately show "(prev + sv_ahead (Some w) prev cnt) mod w = cnt"
    using assms by (auto simp: sv_ahead_def Let_def)
  show "w div 2 - w \<le> sv_ahead (Some w) prev cnt" "sv_ahead (Some w) prev cnt < w div 2"
    unfolding ah h(1) using d h(2,3) by (simp_all split: if_split)
qed

lemma sv_ahead_unique:
  assumes "0 \<le> prev" "prev < w" "w div 2 - w \<le> k" "k < w div 2"
  shows "sv_ahead (Some w) prev ((prev + k) mod w) = k"
proof -
  let ?c = "(prev + k) mod w"
  have w: "0 < w" using assms by simp
  have c: "0 \<le> ?c" "?c < w" using w by simp_all
  have m: "(?c - prev) mod w = k mod w" by (simp add: mod_diff_left_eq)
  show ?thesis
  proof (cases "0 \<le> k")
    case True
    then have "k mod w = k" using assms w by (intro mod_pos_pos_trivial) auto
    then show ?thesis using assms c m by (simp add: sv_ahead_def)
  next
    case False
    have "k mod w = (k + w) mod w" by simp
    also have "\<dots> = k + w" using False assms w by (intro mod_pos_pos_trivial) auto
    finally show ?thesis using assms c m False by (simp add: sv_ahead_def Let_def)
  qed
qed

lemma push_recent_length: "length (push_recent r v) \<le> REORDER_WINDOW"
  by (simp add: push_recent_def Let_def)

text \<open>A sample \<open>k\<close> places ahead, for a stream of known rate.\<close>

lemma sv_follow_ahead:
  assumes "sv_wrap st s a = Some w" "0 \<le> ss_smp_cnt s" "ss_smp_cnt s < w"
    "0 < k" "k < w div 2" "smp_cnt a = (ss_smp_cnt s + k) mod w"
  shows "sv_follow st s a =
    (s\<lparr>ss_missed := ss_missed s + (k - 1)\<rparr>, if k = 1 then [] else [(GAP, k - 1)], True)"
proof -
  have "sv_ahead (Some w) (ss_smp_cnt s) (smp_cnt a) = k"
    unfolding assms(6) using assms by (intro sv_ahead_unique) auto
  then show ?thesis using assms(1,4) by (auto simp: sv_follow_def Let_def)
qed

section \<open>Regular Sampled Values streams\<close>

text \<open>
  \<open>samples st s n m\<close>: the supervisor's stream \<open>s\<close> has received \<open>m\<close> samples, the last one being the
  n-th since the first (numbered 0, without wrapping).
\<close>

definition ok_rate :: "sv_supervisor \<Rightarrow> ustr \<Rightarrow> int \<Rightarrow> bool" where
  "ok_rate st key w \<longleftrightarrow> 4 \<le> w \<and> (case sv_rates st key of Some r \<Rightarrow> r = w | None \<Rightarrow> sv_rate st = Some w)"

lemma ok_rate_wrap: "ok_rate st (ss_id s) w \<Longrightarrow> sv_wrap st s a = Some w"
  by (auto simp: ok_rate_def sv_wrap_def Let_def split: option.splits)

definition followed :: "sv_stream \<Rightarrow> ustr \<Rightarrow> int \<Rightarrow> nat \<Rightarrow> nat \<Rightarrow> nat \<Rightarrow> bool" where
  "followed s key w first n m \<longleftrightarrow>
     ss_id s = key \<and> ss_smp_cnt s = int n mod w \<and> ss_samples s = m \<and> 0 < m
     \<and> ss_missed s + int m = int n - int first + 1"

lemma sv_next_stream_ahead:
  assumes f: "followed s key w first n m" and r: "ok_rate st key w"
    and a: "sv_id a = key" "smp_cnt a = int n' mod w" and n': "n < n'" "int n' - int n < w div 2"
  shows "followed (fst (sv_next_stream st a now eth (Some s))) key w first n' (Suc m)"
    "filter (\<lambda>(k, _). k \<in> {GAP, DUPLICATE, OUT_OF_ORDER, RESTART}) (snd (sv_next_stream st a now eth (Some s)))
     = (if n' = Suc n then [] else [(GAP, int n' - int n - 1)])"
proof -
  define s1 where "s1 = s\<lparr>ss_timed_out := False, ss_conf_rev := sv_conf_rev a, ss_dat_set := sv_dat_set a,
                 ss_smp_synch := smp_synch a\<rparr>"
  let ?k = "int n' - int n"
  have w: "0 < w" using r by (simp add: ok_rate_def)
  have "(int n mod w + ?k) mod w = int n' mod w" by (simp add: mod_add_left_eq)
  then have fo: "sv_follow st s1 a =
      (s1\<lparr>ss_missed := ss_missed s1 + (?k - 1)\<rparr>, if ?k = 1 then [] else [(GAP, ?k - 1)], True)"
    using f r a n' w by (intro sv_follow_ahead [OF ok_rate_wrap]) (auto simp: s1_def followed_def)
  have nx: "sv_next_stream st a now eth (Some s) =
     (let ns = ((if ss_timed_out s then [(RESUMED, 0)] else []) @ compare_sv_config s a)
          @ (if ?k = 1 then [] else [(GAP, ?k - 1)])
      in (sv_accounted (s1\<lparr>ss_missed := ss_missed s1 + (?k - 1)\<rparr>) a now eth ns True, ns))"
    using fo by (simp add: sv_next_stream_def Let_def s1_def)
  show "followed (fst (sv_next_stream st a now eth (Some s))) key w first n' (Suc m)"
    unfolding nx using f a n' by (auto simp: followed_def Let_def sv_accounted_def s1_def split: option.splits)
  show "filter (\<lambda>(k, _). k \<in> {GAP, DUPLICATE, OUT_OF_ORDER, RESTART}) (snd (sv_next_stream st a now eth (Some s)))
     = (if n' = Suc n then [] else [(GAP, int n' - int n - 1)])"
    unfolding nx using n' by (auto simp: Let_def compare_sv_config_def)
qed

text \<open>
  The samples numbered \<open>ns\<close> of a stream of \<open>w\<close> samples per second, some being lost (never half a
  second of them at once): \<open>missed\<close> counts exactly those that were lost.
\<close>

fun sparse :: "int \<Rightarrow> nat list \<Rightarrow> bool" where
  "sparse w (n # n' # ns) = (n < n' \<and> int n' - int n < w div 2 \<and> sparse w (n' # ns))"
| "sparse w _ = True"

definition sv_receive :: "sv_supervisor \<Rightarrow> (sv_asdu \<times> rat) list \<Rightarrow> sv_supervisor" where
  "sv_receive st as = foldl (\<lambda>st (a, now). fst (sv_feed_asdu st a now None)) st as"

lemma sv_receive_followed:
  assumes "map_of (sv_streams st) key = Some s" "followed s key w first n m" "ok_rate st key w"
    "list_all2 (\<lambda>(a, now) n. sv_id a = key \<and> smp_cnt a = int n mod w) as ns" "sparse w (n # ns)"
  shows "\<exists>s'. map_of (sv_streams (sv_receive st as)) key = Some s'
    \<and> followed s' key w first (last (n # ns)) (m + length ns)"
  using assms
proof (induction as ns arbitrary: st s n m rule: list_induct2')
  case (4 p as n' ns)
  obtain a now where p: "p = (a, now)" by (cases p)
  let ?s' = "fst (sv_next_stream st a now None (Some s))"
  let ?st' = "fst (sv_feed_asdu st a now None)"
  have fed: "?st' = st\<lparr>sv_streams := AList.update key ?s' (sv_streams st)\<rparr>"
    using 4(2,5) by (simp add: sv_feed_asdu_def p case_prod_unfold)
  have "followed ?s' key w first n' (Suc m)"
    using 4 by (intro sv_next_stream_ahead(1)) (auto simp: p)
  moreover have "map_of (sv_streams ?st') key = Some ?s'" unfolding fed by (simp add: update_conv')
  moreover have "ok_rate ?st' key w" using 4(4) unfolding fed
    by (cases "sv_rates st key") (simp_all add: ok_rate_def)
  ultimately show ?case
    using 4(1) [of ?st' ?s' n' "Suc m"] 4(5,6) by (simp add: sv_receive_def p)
qed (auto simp: sv_receive_def)

lemma sv_receive_new:
  assumes "map_of (sv_streams st) key = None" "ok_rate st key w" "as \<noteq> []"
    "list_all2 (\<lambda>(a, now) n. sv_id a = key \<and> smp_cnt a = int n mod w) as ns" "sparse w ns"
  shows "\<exists>s. map_of (sv_streams (sv_receive st as)) key = Some s
    \<and> ss_samples s = length ns \<and> ss_missed s = int (last ns) - int (hd ns) - (int (length ns) - 1)"
proof -
  obtain a now as' n ns' where as: "as = (a, now) # as'" and ns: "ns = n # ns'"
    using assms(3,4) by (cases as; cases ns) auto
  let ?s = "sv_accounted (new_sv_stream key now a) a now None [(NEW_STREAM, 0)] True"
  let ?st = "fst (sv_feed_asdu st a now None)"
  have key: "sv_id a = key" "smp_cnt a = int n mod w" using assms(4) by (auto simp: as ns)
  then have fed: "?st = st\<lparr>sv_streams := AList.update key ?s (sv_streams st)\<rparr>"
    using assms(1) by (simp add: sv_feed_asdu_def sv_next_stream_def)
  have "followed ?s key w n n (Suc 0)"
    using key by (simp add: followed_def sv_accounted_def new_sv_stream_def Let_def)
  moreover have "map_of (sv_streams ?st) key = Some ?s" unfolding fed by (simp add: update_conv')
  moreover have "ok_rate ?st key w"
    using assms(2) unfolding fed by (cases "sv_rates st key") (simp_all add: ok_rate_def)
  ultimately obtain s' where "map_of (sv_streams (sv_receive ?st as')) key = Some s'"
    "followed s' key w n (last (n # ns')) (Suc 0 + length ns')"
    using sv_receive_followed [of ?st key ?s w n n "Suc 0" as' ns'] assms(4,5) by (auto simp: as ns)
  then show ?thesis by (auto simp: sv_receive_def as ns followed_def)
qed

section \<open>GOOSE: invariant\<close>

definition wf_goose_stream :: "ustr \<Rightarrow> goose_stream \<Rightarrow> bool" where
  "wf_goose_stream k s \<longleftrightarrow> gs_ref s = k \<and> gocb_ref (gs_last s) = k \<and> 0 \<le> gs_missed s
     \<and> length (gs_recent s) \<le> REORDER_WINDOW"

definition wf_goose :: "goose_supervisor \<Rightarrow> bool" where
  "wf_goose st \<longleftrightarrow> distinct (map fst st) \<and> (\<forall>(k, s) \<in> set st. wf_goose_stream k s)"

lemma late_bounds:
  "late r m v = (r', m', n) \<Longrightarrow> length r \<le> REORDER_WINDOW \<Longrightarrow> 0 \<le> m \<Longrightarrow>
   length r' \<le> REORDER_WINDOW \<and> 0 \<le> m'"
  by (auto simp: late_def push_recent_length split: if_splits)

lemma st_ahead_nonneg: "0 \<le> st_ahead p c"
  by (simp add: st_ahead_def)

lemma follow_goose_wf:
  assumes "wf_goose_stream k s" "gocb_ref pdu = k"
  shows "wf_goose_stream k (fst (follow_goose s pdu))"
proof -
  have gap: "0 \<le> gs_missed s + (sq_num pdu - sq_num (gs_last s) - 1)"
    if "\<not> (sq_num pdu = sq_num (gs_last s) \<or> (sq_num pdu < sq_num (gs_last s) \<and> \<not> sq_next (sq_num (gs_last s)) (sq_num pdu)))"
      "\<not> sq_next (sq_num (gs_last s)) (sq_num pdu)"
    using that assms(1) by (auto simp: wf_goose_stream_def)
  have "1 \<le> st_ahead (st_num (gs_last s)) (st_num pdu)" if "st_ahead (st_num (gs_last s)) (st_num pdu) \<noteq> 0"
    using that st_ahead_nonneg [of "st_num (gs_last s)" "st_num pdu"] by linarith
  then show ?thesis
    using assms gap unfolding follow_goose_def Let_def
    by (auto simp: wf_goose_stream_def dest: late_bounds split: prod.splits sum.splits)
qed

lemma goose_accounted_wf:
  "wf_goose_stream k s \<Longrightarrow> gocb_ref pdu = k \<Longrightarrow> wf_goose_stream k (fst (goose_accounted s pdu now eth ok ns acc))"
  by (auto simp: goose_accounted_def Let_def wf_goose_stream_def push_recent_length split: option.splits)

lemma wf_goose_update:
  assumes "wf_goose st" "wf_goose_stream k s"
  shows "wf_goose (AList.update k s st)"
proof -
  have "set (AList.update k s st) \<subseteq> insert (k, s) (set st)"
    by (induction st) auto
  then show ?thesis using assms distinct_update [of st k s] by (auto simp: wf_goose_def)
qed

lemma wf_goose_lookup: "wf_goose st \<Longrightarrow> map_of st k = Some s \<Longrightarrow> wf_goose_stream k s"
  by (auto simp: wf_goose_def dest: map_of_SomeD)

lemma goose_feed_wf:
  assumes "wf_goose st"
  shows "wf_goose (fst (goose_feed st pdu now eth))"
proof (cases "map_of st (gocb_ref pdu)")
  case None
  have "wf_goose_stream (gocb_ref pdu) (new_goose_stream (gocb_ref pdu) now pdu)"
    by (simp add: wf_goose_stream_def new_goose_stream_def)
  then have "wf_goose (AList.update (gocb_ref pdu)
      (fst (goose_accounted (new_goose_stream (gocb_ref pdu) now pdu) pdu now eth True ns True)) st)" for ns
    using assms by (intro wf_goose_update goose_accounted_wf) simp_all
  then show ?thesis using None by (simp add: goose_feed_def Let_def case_prod_unfold)
next
  case (Some s)
  let ?s1 = "s\<lparr>gs_timed_out := False\<rparr>"
  have "wf_goose_stream (gocb_ref pdu) ?s1"
    using wf_goose_lookup [OF assms Some] by (simp add: wf_goose_stream_def)
  then have "wf_goose_stream (gocb_ref pdu) (fst (follow_goose ?s1 pdu))" by (rule follow_goose_wf) simp
  moreover from this have "wf_goose (AList.update (gocb_ref pdu)
      (fst (goose_accounted (fst (follow_goose ?s1 pdu)) pdu now eth ok ns acc)) st)" for ok ns acc
    using assms by (intro wf_goose_update goose_accounted_wf) simp_all
  ultimately show ?thesis
    using Some wf_goose_update [OF assms]
    by (cases "follow_goose ?s1 pdu") (simp add: goose_feed_def Let_def case_prod_unfold split: sum.splits)
qed

lemma goose_check_wf: "wf_goose st \<Longrightarrow> wf_goose (fst (goose_check st now))"
proof -
  assume "wf_goose st"
  moreover have "wf_goose_stream k (fst (goose_check_stream now s)) \<longleftrightarrow> wf_goose_stream k s" for k s
    by (simp add: goose_check_stream_def wf_goose_stream_def)
  ultimately show ?thesis
    by (auto simp: wf_goose_def goose_check_def check_all_def comp_def case_prod_unfold)
qed

section \<open>GOOSE: exceptions\<close>

text \<open>What a feed may raise comes from encoding the values it compares.\<close>

definition encodable :: "goose_pdu \<Rightarrow> bool" where
  "encodable p \<longleftrightarrow> (\<forall>d \<in> set (all_data p). \<exists>bs. encode_data d = Inr bs)"

lemma entry_changed_total: "encode_data a = Inr x \<Longrightarrow> encode_data b = Inr y \<Longrightarrow> \<exists>c. entry_changed a b = Inr c"
  by (cases "data_eq a b") (auto simp: entry_changed_def)

lemma changed_entries_total:
  assumes "encodable p" "encodable q"
  shows "\<exists>ch. changed_entries (all_data p) (all_data q) = Inr ch"
proof (cases "length (all_data p) = length (all_data q)")
  case True
  have "\<exists>cs. traverse (\<lambda>(a, b). entry_changed a b) (zip ds es) = Inr cs"
    if "\<forall>d \<in> set ds. \<exists>bs. encode_data d = Inr bs" "\<forall>d \<in> set es. \<exists>bs. encode_data d = Inr bs" for ds es
    using that
  proof (induction ds es rule: list_induct2')
    case (4 d ds e es)
    then obtain cs c where "traverse (\<lambda>(a, b). entry_changed a b) (zip ds es) = Inr cs" "entry_changed d e = Inr c"
      using entry_changed_total by fastforce
    then show ?case by simp
  qed simp_all
  then obtain cs where "traverse (\<lambda>(a, b). entry_changed a b) (zip (all_data p) (all_data q)) = Inr cs"
    using assms unfolding encodable_def by blast
  then show ?thesis using True by (simp add: changed_entries_def)
qed (simp add: changed_entries_def)

lemma goose_feed_total:
  assumes "encodable pdu" "\<And>s. map_of st (gocb_ref pdu) = Some s \<Longrightarrow> encodable (gs_last s)"
  shows "\<exists>evs. snd (goose_feed st pdu now eth) = Inr evs"
proof (cases "map_of st (gocb_ref pdu)")
  case None
  then show ?thesis by (simp add: goose_feed_def Let_def split: prod.splits)
next
  case (Some s)
  obtain ch where "changed_entries (all_data (gs_last s)) (all_data pdu) = Inr ch"
    using changed_entries_total [OF assms(2) [OF Some] assms(1)] by blast
  then have "\<exists>s' r. follow_goose (s\<lparr>gs_timed_out := False\<rparr>) pdu = (s', Inr r)"
    by (auto simp: follow_goose_def Let_def split: prod.splits)
  then show ?thesis using Some by (auto simp: goose_feed_def Let_def split: prod.splits)
qed

section \<open>Regular GOOSE streams\<close>

text \<open>
  The message a publisher sends after \<open>p\<close>: the same configuration, and either the next sqNum of the
  same state, unchanged, or the next stNum.
\<close>

definition regular_next :: "goose_pdu \<Rightarrow> goose_pdu \<Rightarrow> bool" where
  "regular_next p q \<longleftrightarrow>
     gocb_ref q = gocb_ref p \<and> conf_rev q = conf_rev p \<and> dat_set q = dat_set p \<and> go_id q = go_id p
     \<and> num_dat_set_entries q = num_dat_set_entries p \<and> simulation q = simulation p \<and> nds_com q = nds_com p
     \<and> consistent p \<and> consistent q \<and> encodable p \<and> encodable q
     \<and> (st_num q = st_num p \<and> sq_next (sq_num p) (sq_num q) \<and> all_data q = all_data p
        \<or> st_num q \<noteq> st_num p \<and> st_ahead (st_num p) (st_num q) = 1)"

fun regular :: "goose_pdu list \<Rightarrow> bool" where
  "regular (p # q # ps) = (regular_next p q \<and> regular (q # ps))"
| "regular _ = True"

definition fault :: "event \<Rightarrow> bool" where
  "fault e \<longleftrightarrow> ev_kind e \<notin> {NEW_STREAM, STATE_CHANGE, RESUMED, SIMULATION, NDS_COM} \<or> ev_missed e \<noteq> 0"

lemma changed_entries_same:
  assumes "encodable p"
  shows "changed_entries (all_data p) (all_data p) = Inr []"
proof -
  have "traverse (\<lambda>(a, b). entry_changed a b) (zip ds ds) = Inr (replicate (length ds) False)"
    if "\<forall>d \<in> set ds. \<exists>bs. encode_data d = Inr bs" for ds
    using that by (induction ds) (auto simp: entry_changed_def)
  then show ?thesis
    using assms by (simp add: changed_entries_def encodable_def filter_empty_conv)
qed

lemma follow_goose_regular:
  assumes "regular_next (gs_last s) q"
  shows "follow_goose s q =
    (if st_num q = st_num (gs_last s) then (s, Inr ([], True))
     else (s\<lparr>gs_recent := []\<rparr>, Inr ([(STATE_CHANGE, 0)], True)))"
proof (cases "st_num q = st_num (gs_last s)")
  case True
  then have q: "sq_next (sq_num (gs_last s)) (sq_num q)" "all_data q = all_data (gs_last s)" "encodable (gs_last s)"
    using assms by (auto simp: regular_next_def)
  moreover have "sq_num q \<noteq> sq_num (gs_last s)" using q(1) by (auto simp: sq_next_def UINT32_MAX_def)
  ultimately show ?thesis using True by (simp add: follow_goose_def Let_def changed_entries_same)
next
  case False
  then have "st_ahead (st_num (gs_last s)) (st_num q) = 1" using assms by (auto simp: regular_next_def)
  moreover obtain ch where "changed_entries (all_data (gs_last s)) (all_data q) = Inr ch"
    using changed_entries_total [of "gs_last s" q] assms by (auto simp: regular_next_def)
  ultimately show ?thesis using False by (simp add: follow_goose_def Let_def)
qed

lemma goose_feed_regular:
  assumes "map_of st k = Some s" "gocb_ref q = k" "regular_next (gs_last s) q" "gs_missed s = 0"
  shows "\<exists>s' evs. goose_feed st q now eth = (AList.update k s' st, Inr evs)
    \<and> gs_last s' = q \<and> gs_missed s' = 0 \<and> \<not> (\<exists>e \<in> set evs. fault e)
    \<and> (STATE_CHANGE \<in> ev_kind ` set evs \<longleftrightarrow> st_num q \<noteq> st_num (gs_last s))"
proof -
  have c: "compare_goose_config (gs_last s) q = []" "consistent q" "consistent (gs_last s)"
    using assms(3) by (auto simp: regular_next_def compare_goose_config_def)
  have f: "follow_goose (s\<lparr>gs_timed_out := False\<rparr>) q =
    (if st_num q = st_num (gs_last s) then (s\<lparr>gs_timed_out := False\<rparr>, Inr ([], True))
     else (s\<lparr>gs_timed_out := False, gs_recent := []\<rparr>, Inr ([(STATE_CHANGE, 0)], True)))"
    using follow_goose_regular [of "s\<lparr>gs_timed_out := False\<rparr>" q] assms(3) by simp
  show ?thesis
    using assms c f
    by (auto simp: goose_feed_def Let_def goose_accounted_def events_of_def fault_def split: option.splits)
qed

definition receive_step ::
    "goose_supervisor \<times> event list result \<Rightarrow> goose_pdu \<times> rat \<Rightarrow> goose_supervisor \<times> event list result" where
  "receive_step = (\<lambda>(st, r) (p, now). case r of
       Inl e \<Rightarrow> (st, Inl e)
     | Inr evs \<Rightarrow> (case goose_feed st p now None of (st', r') \<Rightarrow> (st', mapE (\<lambda>es. evs @ es) r')))"

definition goose_receive :: "goose_supervisor \<Rightarrow> (goose_pdu \<times> rat) list \<Rightarrow> goose_supervisor \<times> event list result" where
  "goose_receive st ps = foldl receive_step (st, Inr []) ps"

lemma goose_receive_regular_from:
  assumes "map_of st k = Some s" "gs_missed s = 0" "regular (gs_last s # map fst ps)"
    "\<forall>p \<in> set ps. gocb_ref (fst p) = k" "\<not> (\<exists>e \<in> set evs0. fault e)"
  shows "\<exists>st' s' evs. foldl receive_step (st, Inr evs0) ps
      = (st', Inr evs) \<and> \<not> (\<exists>e \<in> set evs. fault e)
    \<and> map_of st' k = Some s' \<and> gs_missed s' = 0 \<and> gs_last s' = last (gs_last s # map fst ps)"
  using assms
proof (induction ps arbitrary: st s evs0)
  case Nil
  then show ?case by auto
next
  case (Cons pn ps)
  obtain q now where pn: "pn = (q, now)" by (cases pn)
  have "regular_next (gs_last s) q" "gocb_ref q = k" using Cons.prems by (auto simp: pn)
  from goose_feed_regular [OF Cons.prems(1) this(2,1) Cons.prems(2), of now None] obtain s' evs where
    f: "goose_feed st q now None = (AList.update k s' st, Inr evs)" "gs_last s' = q" "gs_missed s' = 0"
      "\<not> (\<exists>e \<in> set evs. fault e)" by blast
  have "map_of (AList.update k s' st) k = Some s'" by (simp add: update_conv')
  moreover have "regular (gs_last s' # map fst ps)" using Cons.prems(3) by (simp add: pn f(2))
  moreover have "\<forall>p \<in> set ps. gocb_ref (fst p) = k" "\<not> (\<exists>e \<in> set (evs0 @ evs). fault e)"
    using Cons.prems(4,5) f(4) by auto
  ultimately have "\<exists>st' s'' evs'. foldl receive_step (AList.update k s' st, Inr (evs0 @ evs)) ps = (st', Inr evs')
    \<and> \<not> (\<exists>e \<in> set evs'. fault e) \<and> map_of st' k = Some s'' \<and> gs_missed s'' = 0
    \<and> gs_last s'' = last (gs_last s' # map fst ps)"
    using f(3) by (intro Cons.IH)
  moreover have "receive_step (st, Inr evs0) pn = (AList.update k s' st, Inr (evs0 @ evs))"
    by (simp add: receive_step_def pn f(1))
  ultimately show ?case by (simp add: pn f(2))
qed

lemma goose_receive_regular:
  assumes "map_of st k = None" "regular (map fst ps)" "ps \<noteq> []" "\<forall>p \<in> set ps. gocb_ref (fst p) = k"
    "\<forall>p \<in> set ps. consistent (fst p)"
  shows "\<exists>st' s evs. goose_receive st ps = (st', Inr evs) \<and> \<not> (\<exists>e \<in> set evs. fault e)
    \<and> map_of st' k = Some s \<and> gs_missed s = 0 \<and> gs_last s = last (map fst ps)"
proof -
  obtain p now ps' where ps: "ps = (p, now) # ps'" using assms(3) by (cases ps) auto
  have k: "gocb_ref p = k" "consistent p" using assms(4,5) by (auto simp: ps)
  define ns where "ns = [(NEW_STREAM, 0)] @ (if simulation p then [(SIMULATION, 0)] else [])
     @ (if nds_com p then [(NDS_COM, 0 :: int)] else [])"
  let ?s = "fst (goose_accounted (new_goose_stream k now p) p now None True ns True)"
  let ?evs = "events_of k now (snd (goose_accounted (new_goose_stream k now p) p now None True ns True))"
  have f: "goose_feed st p now None = (AList.update k ?s st, Inr ?evs)"
    using assms(1) k by (simp add: goose_feed_def Let_def case_prod_unfold ns_def)
  have "\<not> (\<exists>e \<in> set ?evs. fault e)"
    using k by (auto simp: goose_accounted_def Let_def events_of_def fault_def ns_def split: if_splits)
  moreover have "map_of (AList.update k ?s st) k = Some ?s" by (simp add: update_conv')
  moreover have s: "gs_missed ?s = 0" "gs_last ?s = p" by (simp_all add: goose_accounted_def Let_def new_goose_stream_def)
  ultimately show ?thesis
    using goose_receive_regular_from [of "AList.update k ?s st" k ?s ps' ?evs] assms(2,4)
    by (auto simp: goose_receive_def receive_step_def ps f)
qed

section \<open>Frames that stop the bus supervisor\<close>

text \<open>
  A lenient decoding accepts a BIT STRING of more than 7 unused bits, which \<^verbatim>\<open>encode_data\<close> refuses: comparing
  two such values raises a \<^verbatim>\<open>ValueError\<close> that nothing between \<^verbatim>\<open>_changed_entries\<close> and \<^verbatim>\<open>main\<close> catches.
\<close>

definition empty_bus :: bus_supervisor where
  "empty_bus = \<lparr>bus_goose = [], bus_sv = \<lparr>sv_rate = None, sv_rates = Map.empty, sv_timeout = None, sv_streams = []\<rparr>,
     frames_goose = 0, frames_sv = 0, frames_other = 0, malformed_goose = 0, malformed_sv = 0\<rparr>"

text \<open>A GOOSE frame of one BIT STRING of 9 unused bits: stNum 1, the sqNum and the octet given.\<close>

definition poison_frame :: "byte \<Rightarrow> byte \<Rightarrow> bytes" where
  "poison_frame sq octet =
     [1, 12, 205, 1, 0, 1, 0, 0, 0, 0, 0, 1, 136, 184, 0, 1, 0, 53, 0, 0, 0, 0, 97, 43, 128, 1, 103, 129, 1, 100,
      130, 1, 100, 132, 8, 0, 0, 0, 0, 0, 0, 0, 0, 133, 1, 1, 134, 1, sq, 135, 1, 0, 136, 1, 1, 137, 1, 0, 138, 1, 1,
      171, 4, 132, 2, 9, octet]"

definition poison_pdu :: "int \<Rightarrow> byte \<Rightarrow> goose_pdu" where
  "poison_pdu sq octet = \<lparr>gocb_ref = [103], time_allowed_to_live = 100, dat_set = [100], go_id = None, timestamp = 0,
     st_num = 1, sq_num = sq, simulation = False, conf_rev = 1, nds_com = False, num_dat_set_entries = 1,
     all_data = [BitStringData [octet] 9], time_quality = 0\<rparr>"

lemmas decode_eval = poison_frame_def poison_pdu_def parse_frame_def parse_vlan_def slice_def from_bytes_def be_nat_def
  Let_def ETHERTYPE_VLAN_def ETHERTYPE_GOOSE_def HEADER_LEN_def decode_goose_pdu_eq decode_goose_lenient_eq
  goose_fields_def expect_tlv_def TAG_GOOSE_PDU_def for_tlvs_def iter_tlvs_def iter_tlvs_from.simps decode_tlv_def
  add_field_def goose_tag_numbers MANDATORY_def goose_of_fields_eq lookup_def get_default_def counter_def
  decode_unsigned_def decode_utc_time_def decode_ascii_replace_def decode_data_sequence_def decode_data.simps
  decode_data_seq.simps lenient_bool_def decode_goose_frame_def

lemma poison_decodes:
  "case decode_goose_frame (poison_frame 0 0) False of Inr (Some (eth, p)) \<Rightarrow> p = poison_pdu 0 0 | _ \<Rightarrow> False"
  "case decode_goose_frame (poison_frame 1 128) False of Inr (Some (eth, p)) \<Rightarrow> p = poison_pdu 1 128 | _ \<Rightarrow> False"
  by (simp_all add: decode_eval)

lemma poison_ethertype:
  "frame_ethertype (poison_frame 0 0) = Some ETHERTYPE_GOOSE"
  "frame_ethertype (poison_frame 1 128) = Some ETHERTYPE_GOOSE"
  by (simp_all add: frame_ethertype_def decode_eval)

lemma encode_too_unused: "7 < u \<Longrightarrow> encode_data (BitStringData bs u) = Inl ValueError"
  by simp

lemma changed_entries_raises:
  assumes "length xs = length xs'" "length ys = length ys'" "bs \<noteq> bs' \<or> u \<noteq> u'" "7 < u"
    "\<forall>d \<in> set xs \<union> set xs'. \<exists>e. encode_data d = Inr e"
  shows "changed_entries (xs @ BitStringData bs u # ys) (xs' @ BitStringData bs' u' # ys') = Inl ValueError"
proof -
  have "traverse (\<lambda>(a, b). entry_changed a b) (zip (xs @ BitStringData bs u # ys) (xs' @ BitStringData bs' u' # ys')) = Inl ValueError"
    using assms(1,5)
  proof (induction xs xs' rule: list_induct2)
    case Nil
    have "entry_changed (BitStringData bs u) (BitStringData bs' u') = Inl ValueError"
      using assms(3,4) by (auto simp: entry_changed_def encode_too_unused)
    then show ?case by simp
  next
    case (Cons x xs x' xs')
    obtain e e' where "encode_data x = Inr e" "encode_data x' = Inr e'" using Cons.prems by auto
    then obtain c where "entry_changed x x' = Inr c" using entry_changed_total by blast
    then show ?case using Cons by simp
  qed
  then show ?thesis using assms(1,2) by (simp add: changed_entries_def)
qed

text \<open>The message that follows is compared: a later one of the same state, or one of a later state.\<close>

definition compared :: "goose_pdu \<Rightarrow> goose_pdu \<Rightarrow> bool" where
  "compared p q \<longleftrightarrow> (if st_num q = st_num p then sq_num p < sq_num q else st_ahead (st_num p) (st_num q) \<noteq> 0)"

lemma follow_raises:
  assumes "compared (gs_last s) q" "changed_entries (all_data (gs_last s)) (all_data q) = Inl e"
  shows "snd (follow_goose s q) = Inl e"
  using assms by (auto simp: follow_goose_def Let_def compared_def split: if_splits)

lemma bus_check_goose:
  "bus_check b now = (b', evs) \<Longrightarrow> bus_goose b' = map (\<lambda>(k, s). (k, fst (goose_check_stream now s))) (bus_goose b)"
  by (auto simp: bus_check_def goose_check_def check_all_def split: prod.splits)

lemma bus_feed_follow:
  assumes "frame_ethertype (cf_data f) = Some ETHERTYPE_GOOSE" "decode_goose_frame (cf_data f) False = Inr (Some (eth, q))"
    "map_of (bus_goose b) (gocb_ref q) = Some s" "compared (gs_last s) q"
    "changed_entries (all_data (gs_last s)) (all_data q) = Inl e"
  shows "snd (bus_feed b f) = Inl e"
proof -
  obtain b0 evs where c: "bus_check b (cf_timestamp f) = (b0, evs)" by (cases "bus_check b (cf_timestamp f)")
  let ?s = "fst (goose_check_stream (cf_timestamp f) s)"
  have "map_of (bus_goose b0) (gocb_ref q) = Some ?s"
    unfolding bus_check_goose [OF c] using assms(3) by (simp add: map_of_map)
  moreover have "gs_last (?s\<lparr>gs_timed_out := False\<rparr>) = gs_last s" by (simp add: goose_check_stream_def)
  then have "snd (follow_goose (?s\<lparr>gs_timed_out := False\<rparr>) q) = Inl e" using assms(4,5) by (intro follow_raises) simp_all
  then obtain s2 where "follow_goose (?s\<lparr>gs_timed_out := False\<rparr>) q = (s2, Inl e)" by (metis prod.collapse)
  ultimately show ?thesis
    by (simp add: bus_feed_def c assms(1,2) none_on_ber_error_def goose_feed_def Let_def)
qed

text \<open>A supervisor that has received the first of the two frames.\<close>

lemma poisoned_stream:
  "\<exists>s. map_of (bus_goose (fst (bus_feed empty_bus \<lparr>cf_timestamp = 0, cf_data = poison_frame 0 0\<rparr>))) [103] = Some s
    \<and> gs_last s = poison_pdu 0 0"
proof -
  obtain e1 where "decode_goose_frame (poison_frame 0 0) False = Inr (Some (e1, poison_pdu 0 0))"
    using poison_decodes(1) by (auto split: sum.splits option.splits)
  then show ?thesis
    by (simp add: bus_feed_def poison_ethertype none_on_ber_error_def bus_check_def empty_bus_def goose_accounted_def
        goose_check_def check_all_def sv_check_def goose_feed_def Let_def poison_pdu_def case_prod_unfold)
qed

lemma none_on_ber_error_goose: "\<exists>d. none_on_ber_error (decode_goose_frame raw strict) = Inr d"
  by (auto simp: none_on_ber_error_def decode_goose_frame_def bindE_Inl_iff dest!: decode_goose_error
      split: option.splits sum.splits)

lemma none_on_ber_error_sv: "\<exists>d. none_on_ber_error (decode_sv_frame raw) = Inr d"
  by (auto simp: none_on_ber_error_def decode_sv_frame_def bindE_Inl_iff dest!: decode_sv_error
      split: option.splits sum.splits)





lemma bus_goose_wf: "wf_goose (bus_goose b) \<Longrightarrow> wf_goose (bus_goose (fst (bus_feed b f)))"
proof -
  assume w: "wf_goose (bus_goose b)"
  obtain b0 evs where c: "bus_check b (cf_timestamp f) = (b0, evs)" by (cases "bus_check b (cf_timestamp f)")
  then have "bus_goose b0 = fst (goose_check (bus_goose b) (cf_timestamp f))"
    by (auto simp: bus_check_def split: prod.splits)
  then have w0: "wf_goose (bus_goose b0)" using goose_check_wf [OF w] by simp
  obtain dg where "none_on_ber_error (decode_goose_frame (cf_data f) False) = Inr dg" using none_on_ber_error_goose by blast
  moreover obtain ds where "none_on_ber_error (decode_sv_frame (cf_data f)) = Inr ds" using none_on_ber_error_sv by blast
  ultimately show ?thesis
    using w0 goose_feed_wf [OF w0]
    by (auto simp: bus_feed_def c Let_def case_prod_unfold split: option.splits)
qed

section \<open>The bus supervisor: streams and counts\<close>























section \<open>Properties\<close>

text \<open>C7: for a Sampled Values stream of known rate, \<open>missed\<close> is exactly the number of samples lost
  between the first and the last received, whatever the wraps, as long as less than half a second of
  samples is lost at once.\<close>
theorem sv_missed_exact:
  assumes "map_of (sv_streams st) key = None" "ok_rate st key w" "as \<noteq> []"
    "list_all2 (\<lambda>(a, now) n. sv_id a = key \<and> smp_cnt a = int n mod w) as ns" "sparse w ns"
  shows "\<exists>s. map_of (sv_streams (sv_receive st as)) key = Some s
    \<and> ss_samples s = length ns \<and> ss_missed s = int (last ns) - int (hd ns) - (int (length ns) - 1)"
  using assms by (rule sv_receive_new)

definition example_asdu :: "int \<Rightarrow> sv_asdu" where
  "example_asdu n = \<lparr>sv_id = [77], smp_cnt = n, sv_conf_rev = 1, smp_synch = 2, sample = [], sv_dat_set = None,
     refr_tm = None, smp_rate = None, smp_mod = None, gm_identity = None\<rparr>"

definition example_sv_supervisor :: sv_supervisor where
  "example_sv_supervisor = \<lparr>sv_rate = Some 80, sv_rates = Map.empty, sv_timeout = None, sv_streams = []\<rparr>"

theorem sv_missed_exact_witness:
  "\<exists>s. map_of (sv_streams (sv_receive example_sv_supervisor
      [(example_asdu 78, 0), (example_asdu 79, 1), (example_asdu 2, 2)])) [77] = Some s
    \<and> ss_samples s = 3 \<and> ss_missed s = 2"
proof -
  let ?as = "[(example_asdu 78, 0), (example_asdu 79, 1), (example_asdu 2, 2)] :: (sv_asdu \<times> rat) list"
  have "map_of (sv_streams example_sv_supervisor) [77] = None" "ok_rate example_sv_supervisor [77] 80"
    by (simp_all add: example_sv_supervisor_def ok_rate_def)
  moreover have "list_all2 (\<lambda>(a, now) n. sv_id a = [77] \<and> smp_cnt a = int n mod 80) ?as [78, 79, 82]"
    by (simp add: example_asdu_def)
  moreover have "sparse 80 [78, 79, 82]" by simp
  ultimately show ?thesis
    using sv_missed_exact [of example_sv_supervisor "[77]" 80 ?as "[78, 79, 82]"] by (simp add: eval_nat_numeral)
qed

text \<open>The distance between two sample counters is the one that is congruent to their difference
  modulo the wrap and lies within half a second of 0, and only that one.\<close>
lemma sv_distance_exact:
  assumes "0 \<le> prev" "prev < w" "0 \<le> cnt" "cnt < w"
  shows "sv_ahead (Some w) prev cnt = k \<longleftrightarrow>
    (prev + k) mod w = cnt \<and> w div 2 - w \<le> k \<and> k < w div 2"
  using sv_ahead_spec [OF assms] sv_ahead_unique [OF assms(1,2), of k] by auto

text \<open>What the supervisor of a publisher that numbers its messages regularly reports: the new
  stream and its state changes, never a fault, and it counts no message as missed.\<close>
lemma regular_stream_no_fault:
  assumes "map_of st k = None" "regular (map fst ps)" "ps \<noteq> []" "\<forall>p \<in> set ps. gocb_ref (fst p) = k"
    "\<forall>p \<in> set ps. consistent (fst p)"
  shows "\<exists>st' s evs. goose_receive st ps = (st', Inr evs) \<and> \<not> (\<exists>e \<in> set evs. fault e)
    \<and> map_of st' k = Some s \<and> gs_missed s = 0 \<and> gs_last s = last (map fst ps)"
  using assms by (rule goose_receive_regular)



text \<open>C9: a GOOSE stream can stop the bus supervisor. When the last message of a stream holds a BIT STRING that announces
  more than 7 unused bits, which the lenient decoder accepts, and the next message, later in the same state or of a later
  state, has another BIT STRING there and values before it that encode, \<^verbatim>\<open>feed\<close> raises ValueError, which is not a BerError.\<close>
theorem bus_feed_raises:
  assumes "frame_ethertype (cf_data f) = Some ETHERTYPE_GOOSE" "decode_goose_frame (cf_data f) False = Inr (Some (eth, q))"
    and "map_of (bus_goose b) (gocb_ref q) = Some s" "compared (gs_last s) q"
    and "all_data (gs_last s) = xs @ BitStringData bs u # ys" "all_data q = xs' @ BitStringData bs' u' # ys'"
    and "length xs = length xs'" "length ys = length ys'" "bs \<noteq> bs' \<or> u \<noteq> u'" "7 < u"
    and "\<forall>d \<in> set xs \<union> set xs'. \<exists>e. encode_data d = Inr e"
  shows "snd (bus_feed b f) = Inl ValueError \<and> \<not> is_ber_error ValueError"
  using bus_feed_follow [OF assms(1-4)] changed_entries_raises [OF assms(7-11)] assms(5,6) by simp

theorem bus_feed_raises_witness:
  "snd (bus_feed (fst (bus_feed empty_bus \<lparr>cf_timestamp = 0, cf_data = poison_frame 0 0\<rparr>))
     \<lparr>cf_timestamp = 1, cf_data = poison_frame 1 128\<rparr>) = Inl ValueError"
proof -
  obtain s where s: "map_of (bus_goose (fst (bus_feed empty_bus \<lparr>cf_timestamp = 0, cf_data = poison_frame 0 0\<rparr>))) [103] = Some s"
    "gs_last s = poison_pdu 0 0" using poisoned_stream by blast
  obtain e2 where e2: "decode_goose_frame (poison_frame 1 128) False = Inr (Some (e2, poison_pdu 1 128))"
    using poison_decodes(2) by (auto split: sum.splits option.splits)
  show ?thesis
    using bus_feed_raises [of "\<lparr>cf_timestamp = 1, cf_data = poison_frame 1 128\<rparr>" e2 "poison_pdu 1 128"
        "fst (bus_feed empty_bus \<lparr>cf_timestamp = 0, cf_data = poison_frame 0 0\<rparr>)" s "[]" "[0]" 9 "[]" "[]" "[128]" 9 "[]"]
      s e2 poison_ethertype(2) by (simp add: poison_pdu_def compared_def)
qed

text \<open>Feeding the GOOSE supervisor raises nothing as long as the values received can be encoded,
  whatever the counters, the references and the times.\<close>
lemma goose_feed_no_raise:
  assumes "encodable pdu" "\<forall>s. map_of st (gocb_ref pdu) = Some s \<longrightarrow> encodable (gs_last s)"
  shows "\<exists>evs. snd (goose_feed st pdu now eth) = Inr evs"
  using assms by (intro goose_feed_total) blast+

text \<open>A silence is reported once: after a check at some time, checking again up to that time reports
  nothing, for GOOSE and for Sampled Values.\<close>
lemma silence_reported_once:
  assumes "now' \<le> now"
  shows "snd (goose_check (fst (goose_check g now)) now') = []
    \<and> snd (sv_check (fst (sv_check v now)) now') = []"
proof
  show "snd (goose_check (fst (goose_check g now)) now') = []"
    unfolding goose_check_def using assms by (rule goose_silence.check_all_again) auto
  show "snd (sv_check (fst (sv_check v now)) now') = []"
  proof (cases "sv_timeout v")
    case None
    then show ?thesis by (simp add: sv_check_def)
  next
    case (Some t)
    have "snd (check_all (sv_check_stream t now') (fst (check_all (sv_check_stream t now) (sv_streams v)))) = []"
      using assms by (rule sv_silence.check_all_again) auto
    then show ?thesis using Some by (simp add: sv_check_def case_prod_unfold)
  qed
qed

end
