(* ===== verification/GoosePublisher.thy ===== *)
theory GoosePublisher
  imports Complex_Main Goose
begin

text \<open>
  \<^verbatim>\<open>src/open61850/goose_publisher.py\<close>: the publisher's state and the operations that change it. The
  clocks and the outcome of a transmission (\<open>True\<close>: sent, \<open>False\<close>: OSError) are arguments; monotonic times are
  rationals in seconds, instants microseconds since 1970. \<open>trace\<close> records the messages handed to
  \<^verbatim>\<open>send\<close>, newest first. An operation that may raise returns the state it leaves with its result.
  Every operation runs with the condition held, so that an execution is a sequence of whole
  operations: calls of \<^verbatim>\<open>publish\<close>, \<^verbatim>\<open>start\<close> and \<^verbatim>\<open>stop\<close>, and iterations of the loop of \<^verbatim>\<open>_run\<close>, whatever they raise.
  \<open>p_running\<close> tells that the thread is in its loop: an exception ends it, and \<^verbatim>\<open>stop\<close> returns when it has ended.
  \<open>p_raised\<close> counts the messages that could not be built; the code keeps no such count. The reading of values on the
  command line is not modelled.
\<close>

record goose_control =
  c_gocb_ref :: ustr
  c_dat_set :: ustr
  c_app_id :: int
  c_dst_mac :: ustr
  c_src_mac :: ustr
  c_go_id :: "ustr option"
  c_conf_rev :: int
  c_vlan_id :: "int option"
  c_vlan_priority :: "int option"
  c_min_time_ms :: int
  c_max_time_ms :: int
  c_tal_factor :: int
  c_simulation :: bool
  c_nds_com :: bool
  c_time_quality :: int

definition check_control :: "goose_control \<Rightarrow> unit result" where
  "check_control c =
     (if \<not> (0 < c_min_time_ms c \<and> c_min_time_ms c \<le> c_max_time_ms c) then Inl ValueError
      else if c_tal_factor c < 1 then Inl ValueError
      else Inr ())"

text \<open>The generator of intervals: its state is the next interval, before it is clipped.\<close>

definition next_interval :: "int \<Rightarrow> int \<Rightarrow> int \<times> int" where
  "next_interval max_ms interval = (min interval max_ms, interval * 2)"

record publisher =
  p_control :: goose_control
  p_values :: "iecdata list"
  p_has_send :: bool
  p_own_socket :: bool
  p_thread :: bool
  p_stopping :: bool
  p_changed :: bool
  p_st_num :: int
  p_sq_num :: int
  p_t :: int
  p_frames_sent :: nat
  p_send_errors :: nat
  p_interval :: int
  p_due :: rat
  p_running :: bool
  p_raised :: nat
  p_trace :: "goose_pdu list"

definition new_publisher :: "goose_control \<Rightarrow> iecdata list \<Rightarrow> bool \<Rightarrow> int \<Rightarrow> rat \<Rightarrow> publisher" where
  "new_publisher c vs has_send wall now =
     \<lparr>p_control = c, p_values = vs, p_has_send = has_send, p_own_socket = False, p_thread = False,
      p_stopping = False, p_changed = False, p_st_num = 0, p_sq_num = 0, p_t = wall, p_frames_sent = 0,
      p_send_errors = 0, p_interval = c_min_time_ms c, p_due = now, p_running = False, p_raised = 0, p_trace = []\<rparr>"

definition publisher_pdu :: "publisher \<Rightarrow> int \<Rightarrow> goose_pdu" where
  "publisher_pdu p tal =
     (let c = p_control p in
      \<lparr>gocb_ref = c_gocb_ref c, time_allowed_to_live = tal, dat_set = c_dat_set c, go_id = c_go_id c,
       timestamp = p_t p, st_num = p_st_num p, sq_num = p_sq_num p, simulation = c_simulation c,
       conf_rev = c_conf_rev c, nds_com = c_nds_com c, num_dat_set_entries = int (length (p_values p)),
       all_data = p_values p, time_quality = c_time_quality c\<rparr>)"

definition publisher_frame :: "publisher \<Rightarrow> int \<Rightarrow> bytes result" where
  "publisher_frame p tal =
     (let c = p_control p in
      encode_goose_frame (publisher_pdu p tal) (c_dst_mac c) (c_src_mac c) (c_app_id c) (c_vlan_id c)
        (c_vlan_priority c))"

definition new_state :: "publisher \<Rightarrow> int \<Rightarrow> publisher" where
  "new_state p wall =
     p\<lparr>p_st_num := (if p_st_num p = 0xFFFFFFFF then 1 else p_st_num p + 1), p_sq_num := 0, p_t := wall\<rparr>"

definition next_sq :: "publisher \<Rightarrow> publisher" where
  "next_sq p = p\<lparr>p_sq_num := (if p_sq_num p = 0xFFFFFFFF then 1 else p_sq_num p + 1)\<rparr>"

definition transmit :: "publisher \<Rightarrow> int \<Rightarrow> bool \<Rightarrow> publisher \<times> unit result" where
  "transmit p interval ok =
     (let tal = c_tal_factor (p_control p) * interval in
      case publisher_frame p tal of
        Inl e \<Rightarrow> (p, Inl e)
      | Inr _ \<Rightarrow>
          if \<not> p_has_send p then (p, Inl AssertionError)
          else let p1 = p\<lparr>p_trace := publisher_pdu p tal # p_trace p\<rparr>
            in (if ok then p1\<lparr>p_frames_sent := Suc (p_frames_sent p1)\<rparr>
                else p1\<lparr>p_send_errors := Suc (p_send_errors p1)\<rparr>, Inr ()))"

definition send_due :: "publisher \<Rightarrow> bool \<Rightarrow> publisher \<times> unit result" where
  "send_due p ok =
     (case next_interval (c_max_time_ms (p_control p)) (p_interval p) of (interval, rest) \<Rightarrow>
      case transmit (p\<lparr>p_interval := rest\<rparr>) interval ok of
        (p1, Inl e) \<Rightarrow> (p1\<lparr>p_raised := Suc (p_raised p1)\<rparr>, Inl e)
      | (p1, Inr _) \<Rightarrow> (next_sq (p1\<lparr>p_due := p_due p1 + of_int interval / 1000\<rparr>), Inr ()))"

definition publish ::
    "publisher \<Rightarrow> iecdata list \<Rightarrow> bool \<Rightarrow> int \<Rightarrow> rat \<Rightarrow> bool \<Rightarrow> publisher \<times> unit result" where
  "publish p vs send_now wall now ok =
     (if length vs \<noteq> length (p_values p) then (p, Inl ValueError)
      else let p1 = p\<lparr>p_values := vs\<rparr>
        in if send_now \<and> p_has_send p1 \<and> p_thread p1 then
             send_due ((new_state (p1\<lparr>p_changed := False\<rparr>) wall)
               \<lparr>p_interval := c_min_time_ms (p_control p1), p_due := now\<rparr>) ok
           else (p1\<lparr>p_changed := True\<rparr>, Inr ()))"

text \<open>\<open>bound\<close>: whether the socket could be opened and bound, when the publisher opens its own.\<close>

definition start :: "publisher \<Rightarrow> bool \<Rightarrow> publisher \<times> unit result" where
  "start p bound =
     (if p_thread p then (p, Inl RuntimeError)
      else if \<not> p_has_send p \<and> \<not> bound then (p, Inl OSError)
      else (p\<lparr>p_has_send := True, p_own_socket := p_own_socket p \<or> \<not> p_has_send p, p_stopping := False,
              p_changed := True, p_thread := True, p_running := True\<rparr>, Inr ()))"

definition stop :: "publisher \<Rightarrow> publisher" where
  "stop p = p\<lparr>p_stopping := True, p_thread := False, p_has_send := p_has_send p \<and> \<not> p_own_socket p,
     p_own_socket := False, p_running := False\<rparr>"

text \<open>
  One iteration of \<^verbatim>\<open>while not self._stopping\<close>: the time to wait for, or a message sent. \<open>now\<close> and \<open>now'\<close> are
  the two readings of the monotonic clock.
\<close>

datatype loop_step = Ended | Waiting rat | Sent | Raised exn

definition run_step :: "publisher \<Rightarrow> int \<Rightarrow> rat \<Rightarrow> rat \<Rightarrow> bool \<Rightarrow> publisher \<times> loop_step" where
  "run_step p wall now now' ok =
     (if p_stopping p then (p\<lparr>p_running := False\<rparr>, Ended)
      else let p1 = (if p_changed p
             then (new_state (p\<lparr>p_changed := False\<rparr>) wall)\<lparr>p_interval := c_min_time_ms (p_control p), p_due := now\<rparr>
             else p);
           wait = p_due p1 - now'
        in if wait > 0 \<and> \<not> p_changed p1 then (p1, Waiting wait)
           else case send_due p1 ok of (p2, Inl e) \<Rightarrow> (p2\<lparr>p_running := False\<rparr>, Raised e) | (p2, Inr _) \<Rightarrow> (p2, Sent))"

section \<open>The intervals\<close>

text \<open>What the generator yields is the doubling interval, clipped.\<close>

fun intervals :: "int \<Rightarrow> int \<Rightarrow> nat \<Rightarrow> int list" where
  "intervals max_ms interval 0 = []"
| "intervals max_ms interval (Suc n) =
     fst (next_interval max_ms interval) # intervals max_ms (snd (next_interval max_ms interval)) n"

lemma intervals_nth: "i < n \<Longrightarrow> intervals mx k n ! i = min (k * 2 ^ i) mx"
  by (induction n arbitrary: k i) (auto simp: next_interval_def nth_Cons mult.assoc split: nat.splits)

lemma intervals_length [simp]: "length (intervals mx k n) = n"
  by (induction n arbitrary: k) auto

section \<open>Executions\<close>

inductive pub_step :: "publisher \<Rightarrow> publisher \<Rightarrow> bool" where
  Publish: "publish p vs now_flag wall now ok = (p', r) \<Longrightarrow> pub_step p p'"
| Start: "start p bound = (p', r) \<Longrightarrow> pub_step p p'"
| Stop: "pub_step p (stop p)"
| Run: "p_running p \<Longrightarrow> now \<le> now' \<Longrightarrow> run_step p wall now now' ok = (p', s) \<Longrightarrow> pub_step p p'"

inductive_cases pub_stepE: "pub_step p p'"

text \<open>
  The messages in the order they were sent, and the chain the supervisor expects of them. When \<open>r\<close> messages could not be
  built, up to \<open>r\<close> state numbers were taken without a message.
\<close>

definition next_st :: "int \<Rightarrow> int" where
  "next_st n = (if n = 0xFFFFFFFF then 1 else n + 1)"

definition same_source :: "goose_pdu \<Rightarrow> goose_pdu \<Rightarrow> bool" where
  "same_source a b \<longleftrightarrow>
     gocb_ref b = gocb_ref a \<and> conf_rev b = conf_rev a \<and> dat_set b = dat_set a \<and> go_id b = go_id a
     \<and> num_dat_set_entries b = num_dat_set_entries a \<and> simulation b = simulation a \<and> nds_com b = nds_com a
     \<and> num_dat_set_entries a = int (length (all_data a)) \<and> num_dat_set_entries b = int (length (all_data b))"

definition repeats :: "goose_pdu \<Rightarrow> goose_pdu \<Rightarrow> bool" where
  "repeats a b \<longleftrightarrow> st_num b = st_num a \<and> sq_num b = (if sq_num a = 0xFFFFFFFF then 1 else sq_num a + 1)
     \<and> all_data b = all_data a \<and> timestamp b = timestamp a"

definition follows_upto :: "nat \<Rightarrow> goose_pdu \<Rightarrow> goose_pdu \<Rightarrow> bool" where
  "follows_upto r a b \<longleftrightarrow> same_source a b
     \<and> (repeats a b \<or> (\<exists>k \<le> r. st_num b = next_st ((next_st ^^ k) (st_num a)) \<and> sq_num b = 0))"

definition follows :: "goose_pdu \<Rightarrow> goose_pdu \<Rightarrow> bool" where
  "follows a b \<longleftrightarrow> same_source a b \<and> (repeats a b \<or> st_num b = next_st (st_num a) \<and> sq_num b = 0)"

fun chained_by :: "(goose_pdu \<Rightarrow> goose_pdu \<Rightarrow> bool) \<Rightarrow> goose_pdu list \<Rightarrow> bool" where
  "chained_by R (b # a # ps) = (R a b \<and> chained_by R (a # ps))"
| "chained_by R _ = True"

abbreviation chained :: "goose_pdu list \<Rightarrow> bool" where "chained \<equiv> chained_by follows"

lemma chained_by_mono: "chained_by R ps \<Longrightarrow> (\<And>a b. R a b \<Longrightarrow> S a b) \<Longrightarrow> chained_by S ps"
  by (induction R ps rule: chained_by.induct) auto

lemma follows_upto_mono: "follows_upto r a b \<Longrightarrow> r \<le> r' \<Longrightarrow> follows_upto r' a b"
  unfolding follows_upto_def using le_trans by blast

lemma follows_upto_0: "follows_upto 0 a b \<longleftrightarrow> follows a b"
  by (simp add: follows_upto_def follows_def)

text \<open>
  The invariant: the trace is a chain, and the message to send next goes on from the last one: it repeats it, or is the first
  of a state that is pending or whose message could not be built.
\<close>

definition goes_on :: "publisher \<Rightarrow> goose_pdu \<Rightarrow> nat \<Rightarrow> bool" where
  "goes_on p a k \<longleftrightarrow> p_st_num p = (next_st ^^ k) (st_num a)
     \<and> (p_changed p
        \<or> k = 0 \<and> all_data a = p_values p \<and> timestamp a = p_t p \<and> p_sq_num p = (if sq_num a = 0xFFFFFFFF then 1 else sq_num a + 1)
        \<or> 0 < k \<and> p_sq_num p = 0)"

definition last_sent :: "goose_control \<Rightarrow> nat \<Rightarrow> goose_pdu \<Rightarrow> bool" where
  "last_sent c n a \<longleftrightarrow> gocb_ref a = c_gocb_ref c \<and> conf_rev a = c_conf_rev c \<and> dat_set a = c_dat_set c
     \<and> go_id a = c_go_id c \<and> simulation a = c_simulation c \<and> nds_com a = c_nds_com c
     \<and> num_dat_set_entries a = int n \<and> length (all_data a) = n"

definition pub_inv :: "goose_control \<Rightarrow> nat \<Rightarrow> publisher \<Rightarrow> bool" where
  "pub_inv c n p \<longleftrightarrow>
     p_control p = c \<and> length (p_values p) = n \<and> chained_by (follows_upto (p_raised p)) (p_trace p)
     \<and> (\<forall>a \<in> set (p_trace p). \<exists>bs. encode_goose_pdu a = Inr bs)
     \<and> (\<forall>a as. p_trace p = a # as \<longrightarrow> last_sent c n a \<and> (\<exists>k \<le> p_raised p. goes_on p a k))"

text \<open>What \<^verbatim>\<open>_send_due\<close> leaves, whether the message is built or not.\<close>

lemma send_due_cases:
  obtains (sent) p' where "send_due p ok = (p', Inr ())" "p_trace p' = publisher_pdu p (c_tal_factor (p_control p) * min (p_interval p) (c_max_time_ms (p_control p))) # p_trace p"
    "p_control p' = p_control p" "p_values p' = p_values p" "p_st_num p' = p_st_num p" "p_t p' = p_t p" "p_changed p' = p_changed p"
    "p_sq_num p' = (if p_sq_num p = 0xFFFFFFFF then 1 else p_sq_num p + 1)" "p_raised p' = p_raised p"
    "\<exists>bs. encode_goose_pdu (publisher_pdu p (c_tal_factor (p_control p) * min (p_interval p) (c_max_time_ms (p_control p)))) = Inr bs"
  | (raised) e where "send_due p ok = (p\<lparr>p_interval := p_interval p * 2, p_raised := Suc (p_raised p)\<rparr>, Inl e)"
proof -
  let ?iv = "min (p_interval p) (c_max_time_ms (p_control p))"
  let ?q = "p\<lparr>p_interval := p_interval p * 2\<rparr>"
  let ?tal = "c_tal_factor (p_control p) * ?iv"
  have pdu: "publisher_pdu ?q tal = publisher_pdu p tal" for tal by (simp add: publisher_pdu_def)
  show ?thesis
  proof (cases "publisher_frame ?q ?tal")
    case (Inl e)
    then show ?thesis using raised by (simp add: send_due_def next_interval_def transmit_def Let_def)
  next
    case (Inr f)
    then have enc: "\<exists>bs. encode_goose_pdu (publisher_pdu p ?tal) = Inr bs"
      by (auto simp: publisher_frame_def pdu encode_goose_frame_def bindE_Inr_iff Let_def)
    show ?thesis
    proof (cases "p_has_send p")
      case True
      then show ?thesis using sent [of "fst (send_due p ok)"] enc Inr
        by (simp add: send_due_def next_interval_def transmit_def Let_def next_sq_def pdu)
    next
      case False
      then show ?thesis using raised Inr by (simp add: send_due_def next_interval_def transmit_def Let_def)
    qed
  qed
qed

text \<open>Sending, from a state whose next message goes on from the last one.\<close>

lemma send_due_inv:
  assumes "p_control p = c" "length (p_values p) = n" "p_changed p = False" "chained_by (follows_upto (p_raised p)) (p_trace p)"
    "\<forall>a \<in> set (p_trace p). \<exists>bs. encode_goose_pdu a = Inr bs"
    "\<And>a as. p_trace p = a # as \<Longrightarrow> last_sent c n a \<and> (\<exists>k \<le> Suc (p_raised p). goes_on p a k)"
  shows "pub_inv c n (fst (send_due p ok))"
proof (cases rule: send_due_cases [of p ok])
  case (sent p')
  let ?pdu = "publisher_pdu p (c_tal_factor (p_control p) * min (p_interval p) (c_max_time_ms (p_control p)))"
  have "follows_upto (p_raised p) a ?pdu" if tr: "p_trace p = a # as" for a as
  proof -
    have "last_sent c n a" using assms(6) [OF tr] by blast
    then have "same_source a ?pdu" using assms(1,2) by (simp add: same_source_def last_sent_def publisher_pdu_def Let_def)
    moreover obtain k where k: "k \<le> Suc (p_raised p)" "goes_on p a k" using assms(6) [OF tr] by blast
    moreover have "repeats a ?pdu" if "k = 0"
      using k that assms(3) by (simp add: goes_on_def repeats_def publisher_pdu_def Let_def)
    moreover have "\<exists>j \<le> p_raised p. st_num ?pdu = next_st ((next_st ^^ j) (st_num a)) \<and> sq_num ?pdu = 0" if "k \<noteq> 0"
      using k that assms(3) by (intro exI [of _ "k - 1"]) (cases k; simp add: goes_on_def publisher_pdu_def Let_def)
    ultimately show ?thesis unfolding follows_upto_def by (cases "k = 0") auto
  qed
  then have "chained_by (follows_upto (p_raised p)) (?pdu # p_trace p)" using assms(4) by (cases "p_trace p") auto
  moreover have "last_sent c n ?pdu \<and> goes_on p' ?pdu 0"
    using assms(1,2) sent(2-9) by (simp add: last_sent_def goes_on_def publisher_pdu_def Let_def)
  ultimately show ?thesis using assms(1,2,5) sent by (auto simp: pub_inv_def)
next
  case (raised e)
  have "chained_by (follows_upto (Suc (p_raised p))) (p_trace p)"
    by (rule chained_by_mono [OF assms(4)]) (erule follows_upto_mono, simp)
  moreover have "goes_on (p\<lparr>p_interval := i, p_raised := r\<rparr>) a k = goes_on p a k" for i r a k by (simp add: goes_on_def)
  ultimately show ?thesis using assms(1,2,5,6) raised by (simp add: pub_inv_def)
qed

lemma new_state_inv:
  assumes "pub_inv c n p" "length vs = n"
  shows "pub_inv c n (fst (send_due (new_state (p\<lparr>p_values := vs, p_changed := False\<rparr>) wall\<lparr>p_interval := i, p_due := d\<rparr>) ok))"
proof (rule send_due_inv)
  let ?q = "new_state (p\<lparr>p_values := vs, p_changed := False\<rparr>) wall\<lparr>p_interval := i, p_due := d\<rparr>"
  fix a as assume "p_trace ?q = a # as"
  then obtain k where k: "last_sent c n a" "k \<le> p_raised p" "goes_on p a k"
    using assms(1) by (auto simp: pub_inv_def new_state_def)
  then have "goes_on ?q a (Suc k)" by (simp add: goes_on_def new_state_def next_st_def)
  then show "last_sent c n a \<and> (\<exists>k \<le> Suc (p_raised ?q). goes_on ?q a k)"
    using k by (intro conjI exI [of _ "Suc k"]) (simp_all add: new_state_def)
qed (use assms in \<open>simp_all add: pub_inv_def new_state_def\<close>)

lemma pending_inv:
  "pub_inv c n p \<Longrightarrow> length vs = n \<Longrightarrow>
   pub_inv c n (p\<lparr>p_values := vs, p_changed := True, p_thread := th, p_stopping := sp, p_has_send := hs, p_own_socket := os, p_running := rn\<rparr>)"
  by (auto simp: pub_inv_def goes_on_def)

lemma publish_inv:
  assumes "pub_inv c n p"
  shows "pub_inv c n (fst (publish p vs now_flag wall now ok))"
proof (cases "length vs = length (p_values p)")
  case True
  then have len: "length vs = n" using assms by (simp add: pub_inv_def)
  show ?thesis
  proof (cases "now_flag \<and> p_has_send p \<and> p_thread p")
    case True
    then show ?thesis
      using \<open>length vs = length (p_values p)\<close> new_state_inv [OF assms len, where wall = wall and i = "c_min_time_ms (p_control p)" and d = now and ok = ok]
      by (simp add: publish_def)
  next
    case False
    then have "fst (publish p vs now_flag wall now ok) = p\<lparr>p_values := vs, p_changed := True\<rparr>"
      using \<open>length vs = length (p_values p)\<close> by (auto simp: publish_def Let_def)
    then show ?thesis
      using pending_inv [OF assms len, where th = "p_thread p" and sp = "p_stopping p" and hs = "p_has_send p"
          and os = "p_own_socket p" and rn = "p_running p"] by simp
  qed
qed (use assms in \<open>simp add: publish_def\<close>)

lemma run_step_inv:
  assumes "pub_inv c n p" "now \<le> now'"
  shows "pub_inv c n (fst (run_step p wall now now' ok))"
proof -
  have stopped: "pub_inv c n (q\<lparr>p_running := False\<rparr>)" if "pub_inv c n q" for q using that by (simp add: pub_inv_def goes_on_def)
  have sent: "fst (case send_due q ok of (p2, Inl e) \<Rightarrow> (p2\<lparr>p_running := False\<rparr>, Raised e) | (p2, Inr _) \<Rightarrow> (p2, Sent))
      \<in> {fst (send_due q ok), fst (send_due q ok)\<lparr>p_running := False\<rparr>}" for q
    by (cases "send_due q ok"; cases "snd (send_due q ok)") auto
  consider (ended) "p_stopping p" | (fresh) "\<not> p_stopping p" "p_changed p" | (wait) "\<not> p_stopping p" "\<not> p_changed p" "p_due p - now' > 0"
    | (due) "\<not> p_stopping p" "\<not> p_changed p" "\<not> p_due p - now' > 0" by blast
  then show ?thesis
  proof cases
    case ended
    then show ?thesis using stopped [OF assms(1)] by (simp add: run_step_def)
  next
    case fresh
    let ?q = "(new_state (p\<lparr>p_changed := False\<rparr>) wall)\<lparr>p_interval := c_min_time_ms (p_control p), p_due := now\<rparr>"
    have len: "length (p_values p) = n" using assms by (simp add: pub_inv_def)
    have inv: "pub_inv c n (fst (send_due ?q ok))"
      using new_state_inv [OF assms(1) len, where wall = wall and i = "c_min_time_ms (p_control p)" and d = now and ok = ok] by simp
    show ?thesis using fresh assms(2) sent [of ?q] inv stopped [OF inv] by (auto simp: run_step_def new_state_def Let_def)
  next
    case wait
    then show ?thesis using assms by (simp add: run_step_def)
  next
    case due
    have "pub_inv c n (fst (send_due p ok))"
    proof (rule send_due_inv)
      fix a as assume "p_trace p = a # as"
      then show "last_sent c n a \<and> (\<exists>k \<le> Suc (p_raised p). goes_on p a k)"
        using assms le_SucI unfolding pub_inv_def by blast
    qed (use assms due in \<open>simp_all add: pub_inv_def\<close>)
    then show ?thesis using due sent [of p] stopped by (auto simp: run_step_def Let_def)
  qed
qed

lemma pub_step_inv: "pub_step p p' \<Longrightarrow> pub_inv c n p \<Longrightarrow> pub_inv c n p'"
proof (induction rule: pub_step.induct)
  case (Start p bound p' r)
  have "p' = p \<or> p' = p\<lparr>p_values := p_values p, p_changed := True, p_thread := True, p_stopping := False,
      p_has_send := True, p_own_socket := p_own_socket p \<or> \<not> p_has_send p, p_running := True\<rparr>"
    using Start(1) by (auto simp: start_def split: if_splits)
  then show ?case using Start(2) pending_inv [OF Start(2), of "p_values p"] by (elim disjE) (simp_all add: pub_inv_def)
next
  case (Stop p)
  then show ?case by (simp add: stop_def pub_inv_def goes_on_def)
next
  case (Publish p vs now_flag wall now ok p' r)
  then show ?case using publish_inv [OF Publish(2)] by (metis fst_conv)
next
  case (Run p now now' wall ok p' s)
  then show ?case using run_step_inv [OF Run(4,2)] by (metis fst_conv)
qed

lemma new_publisher_inv: "pub_inv c (length vs) (new_publisher c vs hs wall now)"
  by (simp add: pub_inv_def new_publisher_def)

lemma pub_steps_inv: "pub_step\<^sup>*\<^sup>* p p' \<Longrightarrow> pub_inv c n p \<Longrightarrow> pub_inv c n p'"
  by (induction rule: rtranclp_induct) (auto dest: pub_step_inv)

text \<open>A message's timeAllowedtoLive covers the wait until the next one.\<close>

lemma send_due_schedule:
  assumes "send_due p ok = (p', Inr ())"
  shows "\<exists>a. p_trace p' = a # p_trace p
    \<and> time_allowed_to_live a = c_tal_factor (p_control p) * min (p_interval p) (c_max_time_ms (p_control p))
    \<and> p_due p' = p_due p + of_int (min (p_interval p) (c_max_time_ms (p_control p))) / 1000
    \<and> p_interval p' = 2 * p_interval p"
  using assms
  by (auto simp: send_due_def next_interval_def transmit_def Let_def next_sq_def publisher_pdu_def
      split: sum.splits if_splits)

lemma tal_covers_wait:
  assumes "send_due p ok = (p', Inr ())" "check_control (p_control p) = Inr ()" "0 < p_interval p"
  shows "\<exists>a. p_trace p' = a # p_trace p \<and> p_due p' \<le> p_due p + of_int (time_allowed_to_live a) / 1000
    \<and> p_due p < p_due p' \<and> 0 < p_interval p'"
proof -
  let ?iv = "min (p_interval p) (c_max_time_ms (p_control p))"
  let ?f = "c_tal_factor (p_control p)"
  have f: "1 \<le> ?f" and iv: "0 < ?iv" using assms(2,3) by (auto simp: check_control_def split: if_splits)
  obtain a where a: "p_trace p' = a # p_trace p" "time_allowed_to_live a = ?f * ?iv"
    "p_due p' = p_due p + of_int ?iv / 1000" "p_interval p' = 2 * p_interval p"
    using send_due_schedule [OF assms(1)] by blast
  have "?iv \<le> ?f * ?iv" using f iv by simp
  then have "(of_int ?iv :: rat) \<le> of_int (?f * ?iv)" by (simp only: of_int_le_iff)
  moreover have "(0 :: rat) < of_int ?iv" using iv by (simp only: of_int_0_less_iff)
  ultimately show ?thesis using a assms(3) by (intro exI [of _ a]) (simp add: divide_right_mono)
qed

section \<open>Properties\<close>

text \<open>C6: whatever the order of the calls of \<^verbatim>\<open>publish\<close> (with or without \<^verbatim>\<open>send_now\<close>), \<^verbatim>\<open>start\<close>, \<^verbatim>\<open>stop\<close> and of the
  sending thread, whatever transmissions fail and whatever raises: each message handed to \<^verbatim>\<open>send\<close> comes from the same
  control block as the one before, and is its repetition, the next sqNum with the same values and time, or the first of a
  later state, sqNum 0 and a stNum at most as many numbers ahead as there were messages that could not be built; the next
  stNum exactly when all could.\<close>
theorem publisher_chain:
  assumes "pub_step\<^sup>*\<^sup>* (new_publisher c vs hs wall now) p"
  shows "chained_by (follows_upto (p_raised p)) (p_trace p) \<and> (p_raised p = 0 \<longrightarrow> chained_by follows (p_trace p))"
proof -
  have chain: "chained_by (follows_upto (p_raised p)) (p_trace p)"
    using pub_steps_inv [OF assms new_publisher_inv] by (simp add: pub_inv_def)
  then show ?thesis using chained_by_mono [OF chain, of follows] by (auto simp: follows_upto_0)
qed

definition example_mac :: "byte \<Rightarrow> ustr" where
  "example_mac b = mac_to_str [1, 12, 205, 1, 0, b]"

definition example_control :: goose_control where
  "example_control = \<lparr>c_gocb_ref = [71], c_dat_set = [68], c_app_id = 1, c_dst_mac = example_mac 1, c_src_mac = example_mac 2, c_go_id = None, c_conf_rev = 1, c_vlan_id = None,
     c_vlan_priority = None, c_min_time_ms = 4, c_max_time_ms = 1000, c_tal_factor = 3, c_simulation = False,
     c_nds_com = False, c_time_quality = 0\<rparr>"

lemma example_macs: "mac_to_bytes (example_mac b) = Inr [1, 12, 205, 1, 0, b]"
  unfolding example_mac_def by (rule mac_round_trip) simp

definition example_started :: publisher where
  "example_started = fst (start (new_publisher example_control [BoolData False] True 1000000 0) True)"

lemmas publish_eval = run_step_def send_due_def transmit_def new_state_def next_sq_def next_interval_def
  publisher_frame_def publisher_pdu_def encode_goose_frame_def encode_goose_pdu_def ctx_pair enc_pair_def encode_eval
  TAG_GOOSE_PDU_def build_frame_def vlan_octets_def HEADER_LEN_def ETHERTYPE_GOOSE_def example_macs

definition example_sent :: publisher where
  "example_sent = fst (run_step example_started 1000000 0 0 True)"

lemma example_run:
  "run_step example_started 1000000 0 0 True = (example_sent, Sent)"
  "map (\<lambda>a. (st_num a, sq_num a, time_allowed_to_live a)) (p_trace example_sent) = [(1, 0, 12)]"
  unfolding example_sent_def
  by (simp_all add: example_started_def start_def new_publisher_def example_control_def publish_eval)

lemma example_steps: "pub_step\<^sup>*\<^sup>* (new_publisher example_control [BoolData False] True 1000000 0) example_sent"
proof -
  have "pub_step (new_publisher example_control [BoolData False] True 1000000 0) example_started"
    unfolding example_started_def by (rule pub_step.Start) (rule prod.collapse [symmetric])
  moreover have "pub_step example_started example_sent"
    by (rule pub_step.Run [OF _ _ example_run(1)])
      (simp_all add: example_started_def start_def new_publisher_def)
  ultimately show ?thesis by (meson converse_rtranclp_into_rtranclp rtranclp.rtrancl_refl)
qed

text \<open>Three messages: a state, its repetition and the next state; and a state whose value cannot be encoded between two others.\<close>

definition example_repeated :: publisher where
  "example_repeated = fst (run_step example_sent 1000000 1 1 True)"

definition example_published :: publisher where
  "example_published = fst (publish example_repeated [BoolData True] True 2000000 2 True)"

definition example_broken :: publisher where
  "example_broken = fst (publish example_sent [BitStringData [0] 9] True 2000000 2 True)"

definition example_mended :: publisher where
  "example_mended = fst (publish example_broken [BoolData True] True 3000000 3 True)"

lemma example_traces:
  "map (\<lambda>a. (st_num a, sq_num a)) (p_trace example_published) = [(2, 0), (1, 1), (1, 0)]" "p_raised example_published = 0"
  "map (\<lambda>a. (st_num a, sq_num a)) (p_trace example_mended) = [(3, 0), (1, 0)]" "p_raised example_mended = 1"
  unfolding example_published_def example_repeated_def example_mended_def example_broken_def example_sent_def example_started_def
  by (simp_all add: start_def new_publisher_def example_control_def publish_def publish_eval)

lemma example_more_steps:
  "pub_step\<^sup>*\<^sup>* (new_publisher example_control [BoolData False] True 1000000 0) example_published"
  "pub_step\<^sup>*\<^sup>* (new_publisher example_control [BoolData False] True 1000000 0) example_mended"
proof -
  have "pub_step example_sent example_repeated"
    unfolding example_repeated_def
    by (rule pub_step.Run [OF _ order_refl prod.collapse [symmetric]])
       (simp add: example_sent_def example_started_def start_def new_publisher_def example_control_def publish_eval)
  moreover have "pub_step p (fst (publish p vs now_flag wall now ok))" for p vs now_flag wall now ok
    by (rule pub_step.Publish) (rule prod.collapse [symmetric])
  ultimately show "pub_step\<^sup>*\<^sup>* (new_publisher example_control [BoolData False] True 1000000 0) example_published"
    "pub_step\<^sup>*\<^sup>* (new_publisher example_control [BoolData False] True 1000000 0) example_mended"
    unfolding example_published_def example_mended_def example_broken_def
    by (meson example_steps rtranclp.rtrancl_into_rtrancl)+
qed

theorem publisher_chain_witness:
  "chained_by follows (p_trace example_published) \<and> length (p_trace example_published) = 3
    \<and> chained_by (follows_upto 1) (p_trace example_mended) \<and> length (p_trace example_mended) = 2"
proof -
  have "length (p_trace example_published) = 3" "length (p_trace example_mended) = 2"
    using arg_cong [OF example_traces(1), of length] arg_cong [OF example_traces(3), of length] by simp_all
  then show ?thesis
    using publisher_chain [OF example_more_steps(1)] publisher_chain [OF example_more_steps(2)] example_traces(2,4) by simp
qed

text \<open>C24: each message announces a timeAllowedtoLive that covers the wait until the next one, and the wait
  is not empty.\<close>
theorem tal_covers_next:
  assumes "send_due p ok = (p', Inr ())" "check_control (p_control p) = Inr ()" "0 < p_interval p"
  shows "\<exists>a. p_trace p' = a # p_trace p \<and> p_due p' \<le> p_due p + of_int (time_allowed_to_live a) / 1000
    \<and> p_due p < p_due p' \<and> 0 < p_interval p'"
  using assms by (rule tal_covers_wait)

theorem tal_covers_next_witness:
  "\<exists>p' a. send_due example_started True = (p', Inr ()) \<and> p_trace p' = [a] \<and> time_allowed_to_live a \<ge> 4
    \<and> p_due p' \<le> of_int (time_allowed_to_live a) / 1000"
proof -
  let ?p' = "fst (send_due example_started True)"
  have s: "send_due example_started True = (?p', Inr ())"
    by (simp add: example_started_def start_def new_publisher_def example_control_def publish_eval)
  have "check_control (p_control example_started) = Inr ()" "0 < p_interval example_started"
    "p_trace example_started = []" "p_due example_started = 0"
    by (simp_all add: example_started_def start_def new_publisher_def example_control_def check_control_def)
  moreover have "p_due ?p' = 4 / 1000"
    by (simp add: example_started_def start_def new_publisher_def example_control_def publish_eval)
  ultimately obtain a where a: "p_trace ?p' = [a]" "p_due ?p' \<le> of_int (time_allowed_to_live a) / 1000"
    using tal_covers_next [OF s] by auto
  have "time_allowed_to_live a \<ge> 4"
    using a(2) \<open>p_due ?p' = 4 / 1000\<close> by (simp add: divide_le_cancel)
  then show ?thesis using s a by blast
qed

text \<open>The waits after the messages of a state: min, 2 min, 4 min, ..., then max for ever.\<close>
lemma intervals_double:
  assumes "i < n"
  shows "intervals max_ms min_ms n ! i = min (min_ms * 2 ^ i) max_ms"
  using assms by (rule intervals_nth)

end
