(* ===== verification/TlvSeq.thy ===== *)
theory TlvSeq
  imports MmsData
begin

text \<open>
  Sequences of TLVs, as the MMS layers write and read them: \<open>cat\<close> is the \<^verbatim>\<open>+\<close> (or \<^verbatim>\<open>b"".join\<close>) of
  encodings that may raise, \<open>tlv_fields\<close> the dictionary by tag (\<^verbatim>\<open>_fields\<close> of \<^verbatim>\<open>mms/association.py\<close>),
  \<open>first_tlv\<close> a search that stops at the first match. \<open>items ps bs\<close> says that the content \<open>bs\<close> is the
  TLVs \<open>ps\<close> one after the other; the lemmas carry it from the encoders to the decoders.
\<close>

section \<open>Writing\<close>

fun cat :: "bytes result list \<Rightarrow> bytes result" where
  "cat [] = Inr []"
| "cat (m # ms) = bindE m (\<lambda>b. bindE (cat ms) (\<lambda>bs. Inr (b @ bs)))"

lemma cat_Cons_iff: "cat (m # ms) = Inr bs \<longleftrightarrow> (\<exists>a c. m = Inr a \<and> cat ms = Inr c \<and> bs = a @ c)"
  by (auto simp: bindE_Inr_iff)

lemma cat_Inl: "cat ms = Inl e \<Longrightarrow> \<exists>m \<in> set ms. m = Inl e"
  by (induction ms) (auto simp: bindE_Inl_iff)

lemma raises_only_cat [raises]: "(\<And>m. m \<in> set ms \<Longrightarrow> raises_only E m) \<Longrightarrow> raises_only E (cat ms)"
  by (auto simp: raises_only_def dest!: cat_Inl)

section \<open>Reading\<close>

definition tlv_fields :: "bytes \<Rightarrow> (int \<rightharpoonup> bytes) result" where
  "tlv_fields content = mapE (\<lambda>ts. map_of (rev (map (\<lambda>t. (tlv_tag t, tlv_value t)) ts))) (all_tlvs content)"

definition field :: "(int \<rightharpoonup> bytes) \<Rightarrow> int \<Rightarrow> bytes result" where
  "field m k = (case m k of Some v \<Rightarrow> Inr v | None \<Rightarrow> Inl KeyError)"

definition first_tlv :: "int \<Rightarrow> bytes \<Rightarrow> tlv option result" where
  "first_tlv tag content =
     (case find (\<lambda>t. tlv_tag t = tag) (fst (iter_tlvs content)) of
        Some t \<Rightarrow> Inr (Some t)
      | None \<Rightarrow> (case snd (iter_tlvs content) of None \<Rightarrow> Inr None | Some e \<Rightarrow> Inl e))"

text \<open>\<^verbatim>\<open>a, b = generator\<close>: a third item, a missing one and an error of the generator are told apart.\<close>

definition unpack2 :: "'a list \<times> exn option \<Rightarrow> ('a \<times> 'a) result" where
  "unpack2 g =
     (case g of
        ([a, b], None) \<Rightarrow> Inr (a, b)
      | ([], Some e) \<Rightarrow> Inl e
      | ([_], Some e) \<Rightarrow> Inl e
      | ([_, _], Some e) \<Rightarrow> Inl e
      | _ \<Rightarrow> Inl ValueError)"

text \<open>\<^verbatim>\<open>a, b = list(generator)[:2]\<close>.\<close>

definition first_two :: "'a list \<times> exn option \<Rightarrow> ('a \<times> 'a) result" where
  "first_two g = bindE (gen_list g) (\<lambda>xs. case xs of a # b # _ \<Rightarrow> Inr (a, b) | _ \<Rightarrow> Inl ValueError)"

lemma for_tlvs_cong [fundef_cong]:
  "data = data' \<Longrightarrow> (\<And>t s. t \<in> set (fst (iter_tlvs data')) \<Longrightarrow> body t s = body' t s) \<Longrightarrow> s = s' \<Longrightarrow>
   for_tlvs body data s = for_tlvs body' data' s'"
  by (simp add: for_tlvs_def cong: foldE_cong)

lemma tlv_fields_smaller: "tlv_fields content = Inr m \<Longrightarrow> m k = Some v \<Longrightarrow> 2 + length v \<le> length content"
  using iter_tlvs_bounds [of _ content]
  by (auto simp: tlv_fields_def mapE_Inr_iff all_tlvs_def gen_list_def dest!: map_of_SomeD split: option.splits)

lemma field_Inr [simp]: "field m k = Inr v \<longleftrightarrow> m k = Some v"
  by (simp add: field_def split: option.splits)

lemma field_update [simp]:
  "field (m(k \<mapsto> v)) k = Inr v" "k \<noteq> k' \<Longrightarrow> field (m(k' \<mapsto> v)) k = field m k" "field Map.empty k = Inl KeyError"
  by (simp_all add: field_def)

section \<open>Contents made of TLVs\<close>

primrec items :: "(int \<times> bytes) list \<Rightarrow> bytes \<Rightarrow> bool" where
  "items [] bs \<longleftrightarrow> bs = []"
| "items (p # ps) bs \<longleftrightarrow> (\<exists>a r. bs = a @ r \<and> wf_tag (fst p) \<and> encode_tlv (fst p) (snd p) = Inr a \<and> items ps r)"

lemma items_Cons: "wf_tag t \<Longrightarrow> encode_tlv t c = Inr a \<Longrightarrow> items ps bs \<Longrightarrow> items ((t, c) # ps) (a @ bs)"
  by auto

lemma items_single: "wf_tag t \<Longrightarrow> encode_tlv t c = Inr a \<Longrightarrow> items [(t, c)] a"
  by auto

lemma items_append: "items ps as \<Longrightarrow> items qs bs \<Longrightarrow> items (ps @ qs) (as @ bs)"
proof (induction ps arbitrary: as)
  case (Cons p ps)
  obtain t c where p: "p = (t, c)" by (cases p)
  from Cons.prems(1) obtain a r where a: "as = a @ r" "wf_tag t" "encode_tlv t c = Inr a" and r: "items ps r"
    by (auto simp: p)
  have "items ((t, c) # (ps @ qs)) (a @ (r @ bs))"
    using a(2,3) Cons.IH [OF r Cons.prems(2)] by (rule items_Cons)
  then show ?case by (simp only: p a(1) append_Cons append_assoc)
qed simp

lemma items_pieces:
  "items ps bs \<Longrightarrow> \<exists>bss. bs = concat bss \<and> list_all2 (\<lambda>p b. wf_tag (fst p) \<and> encode_tlv (fst p) (snd p) = Inr b) ps bss"
proof (induction ps arbitrary: bs)
  case (Cons p ps)
  from Cons.prems obtain a r where a: "bs = a @ r" "wf_tag (fst p)" "encode_tlv (fst p) (snd p) = Inr a" and r: "items ps r"
    by auto
  obtain bss where "r = concat bss" "list_all2 (\<lambda>p b. wf_tag (fst p) \<and> encode_tlv (fst p) (snd p) = Inr b) ps bss"
    using Cons.IH [OF r] by blast
  with a show ?case by (intro exI [of _ "a # bss"]) simp
qed simp

lemma items_concat: "list_all2 items pss bss \<Longrightarrow> items (concat pss) (concat bss)"
  by (induction pss bss rule: list_all2_induct) (auto intro: items_append)

lemma items_iter:
  assumes "items ps bs"
  shows "\<exists>ts. iter_tlvs bs = (ts, None) \<and> map pair_of ts = ps"
proof -
  obtain bss where bss: "bs = concat bss"
    "list_all2 (\<lambda>p b. wf_tag (fst p) \<and> encode_tlv (fst p) (snd p) = Inr b) ps bss"
    using items_pieces [OF assms] by blast
  have "ok_pair p" if "wf_tag (fst p)" "encode_tlv (fst p) (snd p) = Inr b" for p b
    using that by (auto simp: ok_pair_def encode_length_ok encode_tlv_def bindE_Inr_iff)
  then have "list_all ok_pair ps" using bss(2) by (simp add: list_all_length list_all2_conv_all_nth)
  moreover have "traverse enc_pair ps = Inr bss"
    using bss(2) by (auto simp: traverse_Inr_list_all2 enc_pair_def elim: list_all2_mono)
  ultimately show ?thesis unfolding bss(1) by (rule iter_tlvs_enc)
qed

lemma items_list:
  assumes "items ps bs"
  shows "\<exists>ts. iter_tlvs bs = (ts, None) \<and> all_tlvs bs = Inr ts \<and> map pair_of ts = ps"
  using items_iter [OF assms] by (auto simp: all_tlvs_def gen_list_def)

lemma items_fields: "items ps bs \<Longrightarrow> tlv_fields bs = Inr (map_of (rev ps))"
  using items_list [of ps bs] by (auto simp: tlv_fields_def pair_of_def [abs_def])

lemma items_for_tlvs:
  assumes "items ps bs" "\<And>t s. body t s = g (tlv_tag t, tlv_value t) s"
  shows "for_tlvs body bs s = foldE g ps s"
proof -
  obtain ts where ts: "iter_tlvs bs = (ts, None)" "map pair_of ts = ps" using items_iter [OF assms(1)] by blast
  have "foldE body ts s = foldE g (map pair_of ts) s"
    unfolding foldE_map by (rule foldE_cong) (simp_all add: assms(2) pair_of_def)
  then show ?thesis using ts by (simp add: for_tlvs_def)
qed

lemma items_two:
  assumes "items [p, q] bs"
  shows "\<exists>t u. iter_tlvs bs = ([t, u], None) \<and> pair_of t = p \<and> pair_of u = q"
  using items_iter [OF assms] by (auto simp: map_eq_Cons_conv)

lemma pair_of_eq: "pair_of t = (a, b) \<longleftrightarrow> tlv_tag t = a \<and> tlv_value t = b"
  by (simp add: pair_of_def)

text \<open>A loop that appends one value per TLV.\<close>

lemma foldE_collect:
  "foldE (\<lambda>p acc. bindE (f p) (\<lambda>x. Inr (acc @ [x]))) ps acc = bindE (traverse f ps) (\<lambda>xs. Inr (acc @ xs))"
  by (induction ps arbitrary: acc) (simp_all add: bindE_assoc cong: bindE_cong)

lemma items_collect:
  assumes "items ps bs" "\<And>t. f t = h (tlv_tag t, tlv_value t)"
  shows "for_tlvs (\<lambda>t acc. bindE (f t) (\<lambda>x. Inr (acc @ [x]))) bs [] = traverse h ps"
proof -
  have "for_tlvs (\<lambda>t acc. bindE (f t) (\<lambda>x. Inr (acc @ [x]))) bs [] = foldE (\<lambda>p acc. bindE (h p) (\<lambda>x. Inr (acc @ [x]))) ps []"
    by (rule items_for_tlvs [OF assms(1)]) (simp add: assms(2))
  then show ?thesis by (simp add: foldE_collect)
qed

lemma items_first:
  assumes "items ps bs"
  shows "mapE (map_option pair_of) (first_tlv tag bs) = Inr (find (\<lambda>p. fst p = tag) ps)"
proof -
  obtain ts where ts: "iter_tlvs bs = (ts, None)" "map pair_of ts = ps" using items_iter [OF assms] by blast
  have "map_option pair_of (find (\<lambda>t. tlv_tag t = tag) ts) = find (\<lambda>p. fst p = tag) (map pair_of ts)"
    by (induction ts) auto
  then show ?thesis using ts by (auto simp: first_tlv_def split: option.splits)
qed

lemma decode_tlv_front:
  "wf_tag t \<Longrightarrow> encode_tlv t c = Inr bs \<Longrightarrow>
   decode_tlv (bs @ rest) 0 = Inr \<lparr>tlv_tag = t, tlv_value = c, tlv_end = length bs\<rparr>"
  using decode_encode_tlv [of t c bs "[]" rest] by simp

lemma decode_tlv_whole:
  "wf_tag t \<Longrightarrow> encode_tlv t c = Inr bs \<Longrightarrow>
   decode_tlv bs 0 = Inr \<lparr>tlv_tag = t, tlv_value = c, tlv_end = length bs\<rparr>"
  using decode_tlv_front [of t c bs "[]"] by simp

lemma expect_tlv_at:
  "wf_tag t \<Longrightarrow> encode_tlv t c = Inr bs \<Longrightarrow>
   expect_tlv (pre @ bs @ rest) (length pre) t = Inr \<lparr>tlv_tag = t, tlv_value = c, tlv_end = length pre + length bs\<rparr>"
  using decode_encode_tlv [of t c bs pre rest] by (simp add: expect_tlv_def)

lemma wf_tag_numeral [simp]: "numeral n < (256 :: int) \<Longrightarrow> numeral n mod 32 \<noteq> (31 :: int) \<Longrightarrow> wf_tag (numeral n)"
  by (rule wf_low_tag(2)) simp_all

lemma encode_tlv_nonempty: "encode_tlv t c \<noteq> Inr []"
  by (auto simp: encode_tlv_def bindE_Inr_iff)

text \<open>The context tags of the services and of the error classes.\<close>

lemma context_tag:
  assumes "0 \<le> n" "n < 31"
  shows "make_tag n CLASS_CONTEXT c = Inr ((if c then 0xA0 else 0x80) + n)"
    "wf_tag ((if c then 0xA0 else 0x80) + n)" "tag_number ((if c then 0xA0 else 0x80) + n) = Inr n"
proof -
  have "0x80 OR n = 0x80 + n" "0xA0 OR n = 0xA0 + n"
    using push_bit_or_int [of n 5 4] push_bit_or_int [of n 5 5] assms by simp_all
  then show "make_tag n CLASS_CONTEXT c = Inr ((if c then 0xA0 else 0x80) + n)"
    using assms by (simp add: make_tag_def CLASS_CONTEXT_def CONSTRUCTED_def)
  have m: "((if c then 0xA0 else 0x80) + n) mod 32 = n" using assms by (auto simp: mod_add_left_eq [symmetric])
  show "wf_tag ((if c then 0xA0 else 0x80) + n)" by (rule wf_low_tag(2)) (use assms m in auto)
  show "tag_number ((if c then 0xA0 else 0x80) + n) = Inr n"
    using tag_number_low [of "(if c then 0xA0 else 0x80) + n"] assms m by simp
qed

section \<open>The exceptions of the primitives\<close>

lemma raises_decode_tlv [raises]: "BerError \<in> E \<Longrightarrow> raises_only E (decode_tlv data offset)"
  by (auto intro!: raises_onlyI dest: decode_tlv_error)

lemma raises_expect_tlv' [raises]: "BerError \<in> E \<Longrightarrow> raises_only E (expect_tlv data offset tag)"
  unfolding expect_tlv_def by (intro raises)

lemma raises_all_tlvs [raises]: "BerError \<in> E \<Longrightarrow> raises_only E (all_tlvs data)"
  by (auto intro!: raises_onlyI dest: all_tlvs_error)

lemma raises_for_tlvs [raises]:
  "BerError \<in> E \<Longrightarrow> (\<And>t s. t \<in> set (fst (iter_tlvs data)) \<Longrightarrow> raises_only E (body t s)) \<Longrightarrow>
   raises_only E (for_tlvs body data s)"
  unfolding for_tlvs_def using iter_tlvs_error [of data] by (intro raises) auto

lemma raises_tlv_fields [raises]: "BerError \<in> E \<Longrightarrow> raises_only E (tlv_fields data)"
  unfolding tlv_fields_def by (intro raises)

lemma raises_field [raises]: "KeyError \<in> E \<Longrightarrow> raises_only E (field m k)"
  unfolding field_def by (intro raises)

lemma raises_first_tlv [raises]: "BerError \<in> E \<Longrightarrow> raises_only E (first_tlv tag data)"
  unfolding first_tlv_def using iter_tlvs_error [of data]
  by (auto split: option.splits intro!: raises_onlyI)

lemma raises_unpack2 [raises]:
  "BerError \<in> E \<Longrightarrow> ValueError \<in> E \<Longrightarrow> raises_only E (unpack2 (iter_tlvs data))"
  using iter_tlvs_error [of data]
  by (auto simp: unpack2_def split: prod.splits list.splits option.splits intro!: raises_onlyI)

lemma raises_first_two [raises]:
  "BerError \<in> E \<Longrightarrow> ValueError \<in> E \<Longrightarrow> raises_only E (first_two (iter_tlvs data))"
  using iter_tlvs_error [of data]
  by (auto simp: first_two_def gen_list_def split: prod.splits list.splits option.splits intro!: raises_onlyI)

lemma raises_decode_integer [raises]: "BerError \<in> E \<Longrightarrow> raises_only E (decode_integer c)"
  by (simp add: decode_integer_def raises_only_def)

lemma raises_decode_unsigned [raises]: "BerError \<in> E \<Longrightarrow> raises_only E (decode_unsigned c)"
  by (simp add: decode_unsigned_def raises_only_def)

lemma raises_decode_boolean [raises]: "BerError \<in> E \<Longrightarrow> raises_only E (decode_boolean c)"
  by (auto simp: decode_boolean_def raises_only_def split: list.splits)

lemma raises_decode_oid [raises]: "BerError \<in> E \<Longrightarrow> raises_only E (decode_oid c)"
  by (auto simp: decode_oid_def raises_only_def Let_def)

lemma raises_decode_data [raises]: "BerError \<in> E \<Longrightarrow> raises_only E (decode_data tag v)"
  by (auto intro!: raises_onlyI dest: decode_data_error)

lemma raises_decode_data_sequence [raises]: "BerError \<in> E \<Longrightarrow> raises_only E (decode_data_sequence v)"
  by (auto intro!: raises_onlyI dest: decode_data_sequence_error)

lemma raises_encode_integer [raises]: "raises_only E (encode_integer v)"
  by (simp add: encode_integer_eq raises_only_def)

lemma raises_encode_unsigned [raises]: "ValueError \<in> E \<Longrightarrow> raises_only E (encode_unsigned v)"
  by (simp add: encode_unsigned_def encode_integer_eq raises_only_def)

lemma raises_encode_ascii [raises]: "UnicodeError \<in> E \<Longrightarrow> raises_only E (encode_ascii v)"
  by (simp add: encode_ascii_def raises_only_def)

lemma tag_number_wf: "wf_tag t \<Longrightarrow> \<exists>n. tag_number t = Inr n"
  by (auto simp: tag_number_def wf_tag_def split: sum.splits)

lemma raises_tag_number_wf: "wf_tag t \<Longrightarrow> raises_only E (tag_number t)"
  using tag_number_wf [of t] by (auto simp: raises_only_def)

end
