(* ===== verification/MmsPdu.thy ===== *)
theory MmsPdu
  imports TlvSeq
begin

text \<open>
  \<^verbatim>\<open>src/open61850/mms/pdu.py\<close>: object names, the session and presentation envelope, the requests a client
  encodes and the PDUs it decodes. A \<^verbatim>\<open>DataAccessError\<close> in place of a value is the constructor
  \<open>Access_error\<close> with its code.
\<close>

section \<open>Constants\<close>

definition SESSION_DATA :: bytes where "SESSION_DATA = [1, 0, 1, 0]"
definition MMS_PRESENTATION_CONTEXT :: int where "MMS_PRESENTATION_CONTEXT = 3"

definition TAG_CONFIRMED_REQUEST :: int where "TAG_CONFIRMED_REQUEST = 0xA0"
definition TAG_CONFIRMED_RESPONSE :: int where "TAG_CONFIRMED_RESPONSE = 0xA1"
definition TAG_CONFIRMED_ERROR :: int where "TAG_CONFIRMED_ERROR = 0xA2"
definition TAG_UNCONFIRMED :: int where "TAG_UNCONFIRMED = 0xA3"
definition TAG_REJECT :: int where "TAG_REJECT = 0xA4"
definition TAG_CONCLUDE_REQUEST :: int where "TAG_CONCLUDE_REQUEST = 0x8B"
definition TAG_CONCLUDE_RESPONSE :: int where "TAG_CONCLUDE_RESPONSE = 0x8C"

definition SERVICE_GET_NAME_LIST :: int where "SERVICE_GET_NAME_LIST = 1"
definition SERVICE_READ :: int where "SERVICE_READ = 4"
definition SERVICE_WRITE :: int where "SERVICE_WRITE = 5"
definition SERVICE_GET_VARIABLE_ACCESS_ATTRIBUTES :: int where "SERVICE_GET_VARIABLE_ACCESS_ATTRIBUTES = 6"
definition SERVICE_GET_NAMED_VARIABLE_LIST_ATTRIBUTES :: int where "SERVICE_GET_NAMED_VARIABLE_LIST_ATTRIBUTES = 12"

definition OBJECT_CLASS_NAMED_VARIABLE :: int where "OBJECT_CLASS_NAMED_VARIABLE = 0"
definition OBJECT_CLASS_NAMED_VARIABLE_LIST :: int where "OBJECT_CLASS_NAMED_VARIABLE_LIST = 2"
definition OBJECT_CLASS_DOMAIN :: int where "OBJECT_CLASS_DOMAIN = 9"

lemmas pdu_tags = TAG_CONFIRMED_REQUEST_def TAG_CONFIRMED_RESPONSE_def TAG_CONFIRMED_ERROR_def TAG_UNCONFIRMED_def
  TAG_REJECT_def TAG_CONCLUDE_REQUEST_def TAG_CONCLUDE_RESPONSE_def

lemmas pdu_services = SERVICE_GET_NAME_LIST_def SERVICE_READ_def SERVICE_WRITE_def
  SERVICE_GET_VARIABLE_ACCESS_ATTRIBUTES_def SERVICE_GET_NAMED_VARIABLE_LIST_ATTRIBUTES_def

section \<open>Names\<close>

record object_name =
  on_item :: ustr
  on_domain :: "ustr option"

definition encode_object_name :: "object_name \<Rightarrow> bytes result" where
  "encode_object_name name =
     (case on_domain name of
        None \<Rightarrow> bindE (encode_ascii (on_item name)) (encode_tlv 0x80)
      | Some domain \<Rightarrow>
          bindE (cat [bindE (encode_ascii domain) (encode_tlv 0x1A), bindE (encode_ascii (on_item name)) (encode_tlv 0x1A)])
            (encode_tlv 0xA1))"

definition decode_object_name :: "tlv \<Rightarrow> object_name result" where
  "decode_object_name t =
     (if tlv_tag t = 0x80 then Inr \<lparr>on_item = decode_ascii_replace (tlv_value t), on_domain = None\<rparr>
      else if tlv_tag t = 0xA1 then
        bindE (unpack2 (iter_tlvs (tlv_value t))) (\<lambda>(domain, item).
          Inr \<lparr>on_item = decode_ascii_replace (tlv_value item), on_domain = Some (decode_ascii_replace (tlv_value domain))\<rparr>)
      else Inl MmsProtocolError)"

text \<open>The items of a VariableAccessSpecification listOfVariable, and the specification.\<close>

definition variable_items :: "object_name list \<Rightarrow> bytes result" where
  "variable_items names =
     cat (map (\<lambda>n. bindE (bindE (encode_object_name n) (encode_tlv 0xA0)) (encode_tlv 0x30)) names)"

definition variable_list :: "object_name list \<Rightarrow> bytes result" where
  "variable_list names = bindE (variable_items names) (encode_tlv 0xA0)"

definition decode_variable :: "tlv \<Rightarrow> object_name result" where
  "decode_variable entry =
     bindE (decode_tlv (tlv_value entry) 0) (\<lambda>spec.
       if tlv_tag spec \<noteq> 0xA0 then Inl MmsProtocolError
       else bindE (decode_tlv (tlv_value spec) 0) decode_object_name)"

definition decode_variable_list :: "bytes \<Rightarrow> object_name list result" where
  "decode_variable_list content =
     for_tlvs (\<lambda>entry names. bindE (decode_variable entry) (\<lambda>n. Inr (names @ [n]))) content []"

section \<open>Envelope\<close>

definition wrap :: "bytes \<Rightarrow> int \<Rightarrow> bytes result" where
  "wrap mms_pdu context =
     bindE (cat [bindE (encode_integer context) (encode_tlv 0x02), encode_tlv 0xA0 mms_pdu]) (\<lambda>pdv.
     bindE (encode_tlv 0x30 pdv) (\<lambda>l. bindE (encode_tlv 0x61 l) (\<lambda>p. Inr (SESSION_DATA @ p))))"

definition unwrap :: "bytes \<Rightarrow> bytes result" where
  "unwrap user_data =
     (if take 4 user_data \<noteq> SESSION_DATA then Inl MmsProtocolError
      else bindE (rethrow is_ber_error MmsProtocolError
        (bindE (expect_tlv user_data 4 0x61) (\<lambda>pres.
         bindE (expect_tlv (tlv_value pres) 0 0x30) (\<lambda>pdv.
         mapE (filter (\<lambda>t. tlv_tag t = 0xA0)) (all_tlvs (tlv_value pdv))))))
        (\<lambda>single. case single of [] \<Rightarrow> Inl MmsProtocolError | t # _ \<Rightarrow> Inr (tlv_value t)))"

section \<open>Requests\<close>

definition confirmed_request :: "int \<Rightarrow> bytes \<Rightarrow> bytes result" where
  "confirmed_request invoke_id service =
     bindE (cat [bindE (encode_unsigned invoke_id) (encode_tlv 0x02), Inr service]) (encode_tlv TAG_CONFIRMED_REQUEST)"

definition conclude_request :: "bytes result" where
  "conclude_request = encode_tlv TAG_CONCLUDE_REQUEST []"

definition service_tlv :: "int \<Rightarrow> bytes \<Rightarrow> bytes result" where
  "service_tlv service content = bindE (make_tag service CLASS_CONTEXT True) (\<lambda>tag. encode_tlv tag content)"

definition read_request :: "object_name list \<Rightarrow> bytes result" where
  "read_request names = bindE (bindE (variable_list names) (encode_tlv 0xA1)) (service_tlv SERVICE_READ)"

definition write_request :: "object_name list \<Rightarrow> iecdata list \<Rightarrow> bytes result" where
  "write_request names new_values =
     (if length names \<noteq> length new_values then Inl ValueError
      else bindE (bindE (cat (map encode_data new_values)) (encode_tlv 0xA0)) (\<lambda>data.
           bindE (cat [variable_list names, Inr data]) (service_tlv SERVICE_WRITE)))"

definition get_name_list_request :: "int \<Rightarrow> ustr option \<Rightarrow> ustr option \<Rightarrow> bytes result" where
  "get_name_list_request object_class domain continue_after =
     bindE (cat ([bindE (bindE (encode_unsigned object_class) (encode_tlv 0x80)) (encode_tlv 0xA0),
                  bindE (case domain of None \<Rightarrow> encode_tlv 0x80 [] | Some d \<Rightarrow> bindE (encode_ascii d) (encode_tlv 0x81))
                    (encode_tlv 0xA1)]
                 @ (case continue_after of None \<Rightarrow> [] | Some c \<Rightarrow> [bindE (encode_ascii c) (encode_tlv 0x82)])))
       (service_tlv SERVICE_GET_NAME_LIST)"

definition get_variable_access_attributes_request :: "object_name \<Rightarrow> bytes result" where
  "get_variable_access_attributes_request name =
     bindE (bindE (encode_object_name name) (encode_tlv 0xA0)) (service_tlv SERVICE_GET_VARIABLE_ACCESS_ATTRIBUTES)"

definition get_named_variable_list_attributes_request :: "object_name \<Rightarrow> bytes result" where
  "get_named_variable_list_attributes_request name =
     bindE (encode_object_name name) (service_tlv SERVICE_GET_NAMED_VARIABLE_LIST_ATTRIBUTES)"

section \<open>Incoming PDUs\<close>

datatype access_result = Access_value iecdata | Access_error int

datatype incoming_pdu =
    ConfirmedResponse int int bytes \<comment> \<open>invoke identifier, service number, content\<close>
  | ConfirmedError int int int \<comment> \<open>invoke identifier, error class, code\<close>
  | Reject "int option" int int \<comment> \<open>invoke identifier, reason tag, code\<close>
  | InformationReport "object_name option" "object_name list" "access_result list"
  | ConcludeResponse

definition decode_access_result :: "tlv \<Rightarrow> access_result result" where
  "decode_access_result t =
     (if tlv_tag t = 0x80 then mapE Access_error (decode_integer (tlv_value t))
      else mapE Access_value (decode_data (tlv_tag t) (tlv_value t)))"

definition decode_access_results :: "bytes \<Rightarrow> access_result list result" where
  "decode_access_results content =
     for_tlvs (\<lambda>t results. bindE (decode_access_result t) (\<lambda>r. Inr (results @ [r]))) content []"

definition decode_confirmed_error :: "bytes \<Rightarrow> incoming_pdu result" where
  "decode_confirmed_error content =
     bindE (tlv_fields content) (\<lambda>f.
     bindE (field f 0xA2) (\<lambda>e. bindE (decode_tlv e 0) (\<lambda>error. bindE (decode_tlv (tlv_value error) 0) (\<lambda>klass.
     bindE (field f 0x80) (\<lambda>i. bindE (decode_unsigned i) (\<lambda>invoke.
     bindE (tag_number (tlv_tag klass)) (\<lambda>n. bindE (decode_integer (tlv_value klass)) (\<lambda>code.
       Inr (ConfirmedError invoke n code)))))))))"

definition decode_reject :: "bytes \<Rightarrow> incoming_pdu result" where
  "decode_reject content =
     mapE (\<lambda>(invoke, reason, code). Reject invoke reason code)
       (for_tlvs (\<lambda>t (invoke, reason, code).
          if tlv_tag t = 0x80 then bindE (decode_unsigned (tlv_value t)) (\<lambda>i. Inr (Some i, reason, code))
          else bindE (tag_number (tlv_tag t)) (\<lambda>n. bindE (decode_integer (tlv_value t)) (\<lambda>c. Inr (invoke, n, c))))
          content (None, -1, -1))"

definition decode_information_report :: "bytes \<Rightarrow> incoming_pdu result" where
  "decode_information_report content =
     bindE (decode_tlv content 0) (\<lambda>service.
       if tlv_tag service \<noteq> 0xA0 then Inl MmsProtocolError
       else bindE (first_two (iter_tlvs (tlv_value service))) (\<lambda>(spec, results).
            bindE (decode_access_results (tlv_value results)) (\<lambda>rs.
              if tlv_tag spec = 0xA1 then
                bindE (decode_tlv (tlv_value spec) 0) (\<lambda>t. bindE (decode_object_name t) (\<lambda>n.
                  Inr (InformationReport (Some n) [] rs)))
              else if tlv_tag spec = 0xA0 then
                bindE (decode_variable_list (tlv_value spec)) (\<lambda>vs. Inr (InformationReport None vs rs))
              else Inr (InformationReport None [] rs))))"

text \<open>The body of the \<^verbatim>\<open>try\<close>; a tag none of the branches takes falls through to the last \<^verbatim>\<open>raise\<close>.\<close>

definition decode_pdu_body :: "bytes \<Rightarrow> incoming_pdu result" where
  "decode_pdu_body mms_pdu =
     bindE (decode_tlv mms_pdu 0) (\<lambda>outer.
       if tlv_tag outer = TAG_CONFIRMED_RESPONSE then
         bindE (first_two (iter_tlvs (tlv_value outer))) (\<lambda>(invoke, service).
         bindE (decode_unsigned (tlv_value invoke)) (\<lambda>i. bindE (tag_number (tlv_tag service)) (\<lambda>n.
           Inr (ConfirmedResponse i n (tlv_value service)))))
       else if tlv_tag outer = TAG_CONFIRMED_ERROR then decode_confirmed_error (tlv_value outer)
       else if tlv_tag outer = TAG_REJECT then decode_reject (tlv_value outer)
       else if tlv_tag outer = TAG_UNCONFIRMED then decode_information_report (tlv_value outer)
       else if tlv_tag outer = TAG_CONCLUDE_RESPONSE then Inr ConcludeResponse
       else Inl MmsProtocolError)"

definition decode_pdu :: "bytes \<Rightarrow> incoming_pdu result" where
  "decode_pdu mms_pdu = rethrow (\<lambda>e. is_value_error e \<or> e = KeyError) MmsProtocolError (decode_pdu_body mms_pdu)"

section \<open>Contents of the responses\<close>

definition read_response :: "bytes \<Rightarrow> access_result list result" where
  "read_response content =
     bindE (first_tlv 0xA1 content) (\<lambda>r. case r of
        Some t \<Rightarrow> decode_access_results (tlv_value t)
      | None \<Rightarrow> Inl MmsProtocolError)"

definition write_result :: "tlv \<Rightarrow> int option result" where
  "write_result t =
     (if tlv_tag t = 0x80 then mapE Some (decode_integer (tlv_value t))
      else if tlv_tag t = 0x81 then Inr None
      else Inl MmsProtocolError)"

definition write_response :: "bytes \<Rightarrow> int option list result" where
  "write_response content = for_tlvs (\<lambda>t out. bindE (write_result t) (\<lambda>r. Inr (out @ [r]))) content []"

definition get_name_list_response :: "bytes \<Rightarrow> (ustr list \<times> bool) result" where
  "get_name_list_response content =
     for_tlvs (\<lambda>t (names, more_follows).
       if tlv_tag t = 0xA0 then
         bindE (all_tlvs (tlv_value t)) (\<lambda>ns. Inr (map (\<lambda>n. decode_ascii_replace (tlv_value n)) ns, more_follows))
       else if tlv_tag t = 0x81 then bindE (decode_boolean (tlv_value t)) (\<lambda>b. Inr (names, b))
       else Inr (names, more_follows))
       content ([], True)"

definition get_named_variable_list_attributes_response :: "bytes \<Rightarrow> object_name list result" where
  "get_named_variable_list_attributes_response content =
     bindE (first_tlv 0xA1 content) (\<lambda>r. case r of
        Some t \<Rightarrow> decode_variable_list (tlv_value t)
      | None \<Rightarrow> Inl MmsProtocolError)"

section \<open>Names read back\<close>

definition ok_name :: "object_name \<Rightarrow> bool" where
  "ok_name n \<longleftrightarrow> is_ascii (on_item n) \<and> (case on_domain n of None \<Rightarrow> True | Some d \<Rightarrow> is_ascii d)"

lemma encode_object_name_ok: "encode_object_name n = Inr bs \<Longrightarrow> ok_name n"
  by (auto simp: encode_object_name_def ok_name_def bindE_Inr_iff encode_ascii_def split: option.splits if_splits)

lemma decode_encode_object_name:
  assumes "encode_object_name n = Inr bs"
  shows "\<exists>t. decode_tlv bs 0 = Inr t \<and> decode_object_name t = Inr n"
proof (cases "on_domain n")
  case None
  then obtain a where "encode_ascii (on_item n) = Inr a" "encode_tlv 0x80 a = Inr bs"
    using assms by (auto simp: encode_object_name_def)
  then show ?thesis using None decode_tlv_whole [of "0x80" a bs]
    by (simp add: decode_object_name_def decode_encode_ascii)
next
  case (Some d)
  then obtain a b da ib c where d: "encode_ascii d = Inr a" "encode_tlv 0x1A a = Inr da"
    and i: "encode_ascii (on_item n) = Inr b" "encode_tlv 0x1A b = Inr ib" and c: "encode_tlv 0xA1 (da @ ib) = Inr bs"
    using assms by (auto simp: encode_object_name_def bindE_Inr_iff)
  have it: "items [(0x1A, a), (0x1A, b)] (da @ ib)"
    by (intro items_Cons items_single d i) simp_all
  obtain t u where tu: "iter_tlvs (da @ ib) = ([t, u], None)" "tlv_value t = a" "tlv_value u = b"
    using items_two [OF it] by (auto simp: pair_of_eq)
  have "decode_object_name \<lparr>tlv_tag = 0xA1, tlv_value = da @ ib, tlv_end = length bs\<rparr> = Inr n"
    using Some by (simp add: decode_object_name_def unpack2_def tu decode_encode_ascii [OF d(1)] decode_encode_ascii [OF i(1)])
  then show ?thesis using decode_tlv_whole [OF _ c] by simp
qed

text \<open>Names in lists: each item is one TLV whose content leads to the name.\<close>

definition variable_entry :: "object_name \<Rightarrow> bytes \<Rightarrow> bool" where
  "variable_entry n c \<longleftrightarrow> (\<exists>bs. encode_object_name n = Inr bs \<and> encode_tlv 0xA0 bs = Inr c)"

lemma variable_items_TLVs:
  "variable_items ns = Inr bs \<Longrightarrow> \<exists>cs. items (map (Pair 0x30) cs) bs \<and> list_all2 variable_entry ns cs"
proof (induction ns arbitrary: bs)
  case Nil
  then show ?case by (simp add: variable_items_def)
next
  case (Cons n ns)
  then obtain o_bs c a r where n: "encode_object_name n = Inr o_bs" "encode_tlv 0xA0 o_bs = Inr c" "encode_tlv 0x30 c = Inr a"
    and r: "variable_items ns = Inr r" and bs: "bs = a @ r"
    by (auto simp: variable_items_def bindE_Inr_iff)
  obtain cs where "items (map (Pair 0x30) cs) r" "list_all2 variable_entry ns cs"
    using Cons.IH [OF r] by blast
  moreover from this have "items (map (Pair 0x30) (c # cs)) bs"
    unfolding bs list.map by (intro items_Cons n) simp_all
  moreover have "variable_entry n c" using n by (auto simp: variable_entry_def)
  ultimately show ?case by (intro exI [of _ "c # cs"]) simp
qed

lemma decode_variable_entry: "variable_entry n c \<Longrightarrow> tlv_value t = c \<Longrightarrow> decode_variable t = Inr n"
  using decode_encode_object_name [of n] decode_tlv_whole [of "0xA0" _ c]
  by (fastforce simp: variable_entry_def decode_variable_def)

lemma decode_variable_items:
  assumes "variable_items ns = Inr bs"
  shows "decode_variable_list bs = Inr ns"
proof -
  obtain cs where items: "items (map (Pair 0x30) cs) bs" and cs: "list_all2 variable_entry ns cs"
    using variable_items_TLVs [OF assms] by blast
  let ?h = "\<lambda>p. decode_variable \<lparr>tlv_tag = fst p, tlv_value = snd p, tlv_end = 0\<rparr>"
  have "decode_variable_list bs = traverse ?h (map (Pair 0x30) cs)"
    unfolding decode_variable_list_def by (rule items_collect [OF items]) (simp add: decode_variable_def)
  also have "\<dots> = Inr ns" using cs
    by (auto simp: traverse_Inr_list_all2 list_all2_map1 list_all2_conv_all_nth decode_variable_entry)
  finally show ?thesis .
qed

section \<open>The envelope read back\<close>

lemma unwrap_wrap:
  assumes "wrap mms_pdu context = Inr bs"
  shows "unwrap bs = Inr mms_pdu"
proof -
  obtain ci c p l pr where c: "encode_integer context = Inr ci" "encode_tlv 0x02 ci = Inr c"
    and p: "encode_tlv 0xA0 mms_pdu = Inr p" and l: "encode_tlv 0x30 (c @ p) = Inr l"
    and pr: "encode_tlv 0x61 l = Inr pr" and bs: "bs = SESSION_DATA @ pr"
    using assms by (auto simp: wrap_def bindE_Inr_iff)
  have it: "items [(0x02, ci), (0xA0, mms_pdu)] (c @ p)" by (intro items_Cons items_single c p) simp_all
  obtain t u where tu: "iter_tlvs (c @ p) = ([t, u], None)" "tlv_tag t = 0x02" "tlv_tag u = 0xA0" "tlv_value u = mms_pdu"
    using items_two [OF it] by (auto simp: pair_of_eq)
  have len: "length SESSION_DATA = 4" by (simp add: SESSION_DATA_def)
  have pres: "expect_tlv bs 4 0x61 = Inr \<lparr>tlv_tag = 0x61, tlv_value = l, tlv_end = 4 + length pr\<rparr>"
    using expect_tlv_at [OF _ pr, of SESSION_DATA "[]"] by (simp add: bs len)
  have pdv: "expect_tlv l 0 0x30 = Inr \<lparr>tlv_tag = 0x30, tlv_value = c @ p, tlv_end = length l\<rparr>"
    using expect_tlv_at [OF _ l, of "[]" "[]"] by simp
  show ?thesis using pres pdv tu
    by (simp add: unwrap_def bs len all_tlvs_def gen_list_def)
qed

lemma unwrap_error: "raises_only {MmsProtocolError} (unwrap user_data)"
proof -
  have "raises_only {BerError} (bindE (expect_tlv user_data 4 0x61) (\<lambda>pres.
      bindE (expect_tlv (tlv_value pres) 0 0x30) (\<lambda>pdv. mapE (filter (\<lambda>t. tlv_tag t = 0xA0)) (all_tlvs (tlv_value pdv)))))"
    by (intro raises) simp_all
  then show ?thesis unfolding unwrap_def
    by (intro raises raises_only_rethrow [where F = "{BerError}"]) simp_all
qed

section \<open>Errors of the decoder\<close>

abbreviation pdu_errors :: "exn set" where
  "pdu_errors \<equiv> {BerError, KeyError, ValueError, MmsProtocolError}"

lemma raises_decode_object_name [raises]:
  "pdu_errors \<subseteq> E \<Longrightarrow> raises_only E (decode_object_name t)"
  unfolding decode_object_name_def by (intro raises) auto

lemma raises_decode_variable [raises]: "pdu_errors \<subseteq> E \<Longrightarrow> raises_only E (decode_variable t)"
  unfolding decode_variable_def by (intro raises) auto

lemma raises_decode_variable_list [raises]: "pdu_errors \<subseteq> E \<Longrightarrow> raises_only E (decode_variable_list c)"
  unfolding decode_variable_list_def by (intro raises) auto

lemma raises_decode_access_results [raises]: "BerError \<in> E \<Longrightarrow> raises_only E (decode_access_results c)"
  unfolding decode_access_results_def decode_access_result_def by (intro raises)

lemma iter_tlvs_wf_tag: "t \<in> set (fst (iter_tlvs data)) \<Longrightarrow> wf_tag (tlv_tag t)"
  unfolding iter_tlvs_def by (rule iter_tlvs_from_wf_tag)

lemma first_two_set: "first_two g = Inr (a, b) \<Longrightarrow> a \<in> set (fst g) \<and> b \<in> set (fst g)"
  by (auto simp: first_two_def gen_list_def bindE_Inr_iff split: option.splits list.splits)

lemma raises_decode_confirmed_error: "raises_only pdu_errors (decode_confirmed_error c)"
  unfolding decode_confirmed_error_def
  by (intro raises raises_tag_number_wf) (auto dest: decode_tlv_wf_tag)

lemma raises_decode_reject: "raises_only pdu_errors (decode_reject c)"
  unfolding decode_reject_def by (intro raises raises_tag_number_wf) (auto dest: iter_tlvs_wf_tag)

lemma raises_decode_information_report: "raises_only pdu_errors (decode_information_report c)"
  unfolding decode_information_report_def by (intro raises) simp_all

lemma raises_decode_pdu_body: "raises_only pdu_errors (decode_pdu_body c)"
  unfolding decode_pdu_body_def
  by (intro raises raises_tag_number_wf raises_decode_confirmed_error raises_decode_reject raises_decode_information_report)
     (auto dest: first_two_set iter_tlvs_wf_tag)

lemma decode_pdu_error: "raises_only {MmsProtocolError} (decode_pdu mms_pdu)"
  unfolding decode_pdu_def by (rule raises_only_rethrow [OF raises_decode_pdu_body]) auto

section \<open>Access results read back\<close>

text \<open>The two kinds of results, as \<^verbatim>\<open>protocol.access_results\<close> of the server writes them.\<close>

fun encode_access_result :: "access_result \<Rightarrow> bytes result" where
  "encode_access_result (Access_error code) = bindE (encode_integer code) (encode_tlv 0x80)"
| "encode_access_result (Access_value d) = encode_data d"

fun ok_access :: "access_result \<Rightarrow> bool" where
  "ok_access (Access_error code) = True"
| "ok_access (Access_value d) = ok_data d"

lemma encode_data_TLV:
  assumes "ok_data d" "encode_data d = Inr b"
  shows "\<exists>tag c. wf_tag tag \<and> tag \<noteq> 0x80 \<and> encode_tlv tag c = Inr b \<and> decode_data tag c = Inr d"
proof -
  obtain tag c where tc: "wf_tag tag" "encode_tlv tag c = Inr b" "decode_data tag c = Inr d"
    using encode_data_tlv [OF assms] by (auto simp: tlv_of_def)
  show ?thesis
  proof (cases "tag = 0x80")
    case True
    then have "d = VisibleStringData (decode_ascii_replace c)" using tc(3) by (simp add: decode_data.simps)
    then obtain s where d: "d = VisibleStringData s" by blast
    then have "encode_tlv 0x8A (encode_ascii_replace s) = Inr b" "is_ascii s" using assms by simp_all
    moreover from this have "decode_data 0x8A (encode_ascii_replace s) = Inr d"
      by (simp add: decode_data.simps d decode_encode_ascii encode_ascii_ok encode_ascii_replace_ascii)
    ultimately show ?thesis by (intro exI [of _ "0x8A"] exI [of _ "encode_ascii_replace s"]) simp
  qed (use tc in blast)
qed

definition encode_access_results :: "access_result list \<Rightarrow> bytes result" where
  "encode_access_results results = cat (map encode_access_result results)"

definition access_entry :: "access_result \<Rightarrow> int \<times> bytes \<Rightarrow> bool" where
  "access_entry r p \<longleftrightarrow> (\<forall>t. tlv_tag t = fst p \<longrightarrow> tlv_value t = snd p \<longrightarrow> decode_access_result t = Inr r)"

lemma encode_access_TLV:
  assumes "ok_access r" "encode_access_result r = Inr b"
  shows "\<exists>tag c. wf_tag tag \<and> encode_tlv tag c = Inr b \<and> access_entry r (tag, c)"
proof (cases r)
  case (Access_error code)
  then obtain c where "encode_integer code = Inr c" "encode_tlv 0x80 c = Inr b"
    using assms(2) by (auto simp: bindE_Inr_iff)
  then show ?thesis using integer_codec.dec_enc [of code c] Access_error
    by (intro exI [of _ "0x80"] exI [of _ c]) (simp add: access_entry_def decode_access_result_def)
next
  case (Access_value d)
  then obtain tag c where "wf_tag tag" "tag \<noteq> 0x80" "encode_tlv tag c = Inr b" "decode_data tag c = Inr d"
    using encode_data_TLV [of d b] assms by auto
  then show ?thesis using Access_value
    by (intro exI [of _ tag] exI [of _ c]) (simp add: access_entry_def decode_access_result_def)
qed

text \<open>What a reader gets for a result written: most are read as they are.\<close>

definition reads_as :: "access_result \<Rightarrow> access_result \<Rightarrow> bool" where
  "reads_as r r' \<longleftrightarrow> (\<forall>b. encode_access_result r = Inr b \<longrightarrow> (\<exists>tag c. wf_tag tag \<and> encode_tlv tag c = Inr b \<and> access_entry r' (tag, c)))"

lemma reads_as_same: "ok_access r \<Longrightarrow> reads_as r r"
  using encode_access_TLV by (auto simp: reads_as_def)

lemma reads_as_items:
  "list_all2 reads_as rs rs' \<Longrightarrow> encode_access_results rs = Inr bs \<Longrightarrow> \<exists>ps. items ps bs \<and> list_all2 access_entry rs' ps"
proof (induction rs rs' arbitrary: bs rule: list_all2_induct)
  case Nil
  then show ?case by (simp add: encode_access_results_def)
next
  case (Cons r rs r' rs')
  then obtain b rest where r: "encode_access_result r = Inr b" and rest: "encode_access_results rs = Inr rest" and bs: "bs = b @ rest"
    by (auto simp: encode_access_results_def bindE_Inr_iff)
  obtain tag c where tc: "wf_tag tag" "encode_tlv tag c = Inr b" "access_entry r' (tag, c)"
    using Cons.hyps(1) r by (auto simp: reads_as_def)
  obtain ps where ps: "items ps rest" "list_all2 access_entry rs' ps" using Cons.IH [OF rest] by auto
  have "items ((tag, c) # ps) bs" unfolding bs by (intro items_Cons tc ps)
  then show ?case using tc(3) ps(2) by (intro exI [of _ "(tag, c) # ps"]) simp
qed

lemma encode_access_results_items:
  "list_all ok_access rs \<Longrightarrow> encode_access_results rs = Inr bs \<Longrightarrow> \<exists>ps. items ps bs \<and> list_all2 access_entry rs ps"
  by (rule reads_as_items) (auto simp: list_all_iff intro!: list.rel_refl_strong reads_as_same)

lemma decode_access_items:
  assumes "items ps bs" "list_all2 access_entry rs ps"
  shows "decode_access_results bs = Inr rs"
proof -
  let ?h = "\<lambda>p. decode_access_result \<lparr>tlv_tag = fst p, tlv_value = snd p, tlv_end = 0\<rparr>"
  have "decode_access_results bs = traverse ?h ps"
    unfolding decode_access_results_def by (rule items_collect [OF assms(1)]) (simp add: decode_access_result_def)
  also have "\<dots> = Inr rs" using assms(2)
    by (auto simp: traverse_Inr_list_all2 list_all2_conv_all_nth access_entry_def)
  finally show ?thesis .
qed

lemma decode_encode_access_results:
  "list_all ok_access rs \<Longrightarrow> encode_access_results rs = Inr bs \<Longrightarrow> decode_access_results bs = Inr rs"
  using encode_access_results_items decode_access_items by blast

text \<open>Both kinds in one buffer, as a report concatenates values and reasons encoded apart.\<close>

lemma decode_access_append:
  assumes "list_all ok_access rs" "encode_access_results rs = Inr as" "list_all ok_access qs" "encode_access_results qs = Inr bs"
  shows "decode_access_results (as @ bs) = Inr (rs @ qs)"
proof -
  obtain ps ps' where "items ps as" "list_all2 access_entry rs ps" "items ps' bs" "list_all2 access_entry qs ps'"
    using encode_access_results_items assms by metis
  then show ?thesis by (intro decode_access_items [of "ps @ ps'"] items_append list_all2_appendI)
qed

section \<open>Properties\<close>

text \<open>An MMS PDU put in the session and presentation envelope is taken out of it unchanged, whatever the
  presentation context; anything else than an envelope raises \<^verbatim>\<open>MmsProtocolError\<close> only.\<close>
lemma envelope_round_trip:
  "(\<forall>bs. wrap mms_pdu context = Inr bs \<longrightarrow> unwrap bs = Inr mms_pdu)
   \<and> raises_only {MmsProtocolError} (unwrap user_data)"
  using unwrap_wrap unwrap_error by blast

text \<open>Whatever a server sends, \<^verbatim>\<open>decode_pdu\<close> ends and raises \<^verbatim>\<open>MmsProtocolError\<close> only: no error of the BER
  layer, no missing field and no unpacking error escapes.\<close>
lemma decode_pdu_total: "raises_only {MmsProtocolError} (decode_pdu mms_pdu)"
  by (rule decode_pdu_error)

end
