(* ===== verification/Report.thy ===== *)
theory Report
  imports MmsPdu
begin

text \<open>
  \<^verbatim>\<open>src/open61850/mms/report.py\<close>: IEC 61850 reports carried by MMS informationReports. The local
  functions \<^verbatim>\<open>take\<close> and \<^verbatim>\<open>take_uint\<close> of \<^verbatim>\<open>decode_report\<close>, which move \<^verbatim>\<open>pos\<close> along \<^verbatim>\<open>results\<close>, are parsers on the
  list of results that are left.
\<close>

unbundle bit_operations_syntax

section \<open>Bit strings\<close>

text \<open>\<^verbatim>\<open>xs[:stop]\<close>, where a negative \<^verbatim>\<open>stop\<close> counts from the end.\<close>

definition py_take :: "int \<Rightarrow> 'a list \<Rightarrow> 'a list" where
  "py_take stop xs = take (nat (if stop < 0 then stop + int (length xs) else stop)) xs"

definition bits_of :: "bytes \<Rightarrow> int \<Rightarrow> bool list" where
  "bits_of v unused =
     (let out = concat (map (\<lambda>b. map (\<lambda>i. b AND drop_bit i 0x80 \<noteq> 0) [0..<8]) v) in
      if unused \<noteq> 0 then py_take (int (length out) - unused) out else out)"

definition set_bit_at :: "bytes \<Rightarrow> nat \<times> bool \<Rightarrow> bytes" where
  "set_bit_at raw p =
     (case p of (i, flag) \<Rightarrow> if flag then raw[i div 8 := raw ! (i div 8) OR drop_bit (i mod 8) 0x80] else raw)"

definition bitstring_of :: "bool list \<Rightarrow> iecdata" where
  "bitstring_of flags =
     BitStringData (foldl set_bit_at (replicate ((length flags + 7) div 8) 0) (enumerate 0 flags))
       ((8 - int (length flags) mod 8) mod 8)"

section \<open>Flags\<close>

record opt_flds =
  of_sequence_number :: bool
  of_report_time_stamp :: bool
  of_reason_for_inclusion :: bool
  of_data_set_name :: bool
  of_data_reference :: bool
  of_buffer_overflow :: bool
  of_entry_id :: bool
  of_conf_revision :: bool
  of_segmentation :: bool

record trg_ops =
  to_data_change :: bool
  to_quality_change :: bool
  to_data_update :: bool
  to_integrity :: bool
  to_general_interrogation :: bool

record reason_code =
  rc_data_change :: bool
  rc_quality_change :: bool
  rc_data_update :: bool
  rc_integrity :: bool
  rc_general_interrogation :: bool
  rc_application_trigger :: bool

text \<open>\<^verbatim>\<open>_Flags\<close>: bit \<open>i + 1\<close> is the field \<open>i\<close>, bits beyond the string are FALSE, bit 0 is reserved.\<close>

definition flag_bits :: "nat \<Rightarrow> bytes \<Rightarrow> int \<Rightarrow> nat \<Rightarrow> bool" where
  "flag_bits n v unused = (let bits = bits_of v unused @ replicate n False in (\<lambda>i. bits ! (i + 1)))"

definition flags_bitstring :: "nat \<Rightarrow> bool list \<Rightarrow> iecdata" where
  "flags_bitstring n values = bitstring_of (take n (False # values))"

definition opt_flds_from :: "bytes \<Rightarrow> int \<Rightarrow> opt_flds" where
  "opt_flds_from v unused =
     (let b = flag_bits 10 v unused in
      \<lparr>of_sequence_number = b 0, of_report_time_stamp = b 1, of_reason_for_inclusion = b 2, of_data_set_name = b 3,
       of_data_reference = b 4, of_buffer_overflow = b 5, of_entry_id = b 6, of_conf_revision = b 7, of_segmentation = b 8\<rparr>)"

definition opt_flds_bitstring :: "opt_flds \<Rightarrow> iecdata" where
  "opt_flds_bitstring opt =
     flags_bitstring 10 [of_sequence_number opt, of_report_time_stamp opt, of_reason_for_inclusion opt, of_data_set_name opt,
       of_data_reference opt, of_buffer_overflow opt, of_entry_id opt, of_conf_revision opt, of_segmentation opt]"

definition trg_ops_from :: "bytes \<Rightarrow> int \<Rightarrow> trg_ops" where
  "trg_ops_from v unused =
     (let b = flag_bits 6 v unused in
      \<lparr>to_data_change = b 0, to_quality_change = b 1, to_data_update = b 2, to_integrity = b 3,
       to_general_interrogation = b 4\<rparr>)"

definition trg_ops_bitstring :: "trg_ops \<Rightarrow> iecdata" where
  "trg_ops_bitstring t =
     flags_bitstring 6 [to_data_change t, to_quality_change t, to_data_update t, to_integrity t, to_general_interrogation t]"

definition reason_code_from :: "bytes \<Rightarrow> int \<Rightarrow> reason_code" where
  "reason_code_from v unused =
     (let b = flag_bits 7 v unused in
      \<lparr>rc_data_change = b 0, rc_quality_change = b 1, rc_data_update = b 2, rc_integrity = b 3,
       rc_general_interrogation = b 4, rc_application_trigger = b 5\<rparr>)"

definition reason_code_bitstring :: "reason_code \<Rightarrow> iecdata" where
  "reason_code_bitstring r =
     flags_bitstring 7 [rc_data_change r, rc_quality_change r, rc_data_update r, rc_integrity r,
       rc_general_interrogation r, rc_application_trigger r]"

section \<open>Reports\<close>

record report_entry =
  re_index :: nat
  re_value :: access_result
  re_reference :: "ustr option"
  re_reason :: "reason_code option"

record report =
  rp_rpt_id :: ustr
  rp_opt_flds :: opt_flds
  rp_seq_num :: "int option"
  rp_time_of_entry :: "int option"
  rp_data_set :: "ustr option"
  rp_buf_ovfl :: "bool option"
  rp_entry_id :: "bytes option"
  rp_conf_rev :: "int option"
  rp_sub_seq_num :: "int option"
  rp_more_segments_follow :: "bool option"
  rp_inclusion :: "bool list"
  rp_entries :: "report_entry list"

definition RPT :: object_name where "RPT = \<lparr>on_item = asc ''RPT'', on_domain = None\<rparr>"

text \<open>\<^verbatim>\<open>take(kind, what)\<close>, with the contents of a value of that kind, and \<^verbatim>\<open>take_uint\<close>.\<close>

definition take_kind :: "(iecdata \<Rightarrow> 'a option) \<Rightarrow> access_result list \<Rightarrow> ('a \<times> access_result list) result" where
  "take_kind kind rs =
     (case rs of
        Access_value v # rest \<Rightarrow> (case kind v of Some x \<Rightarrow> Inr (x, rest) | None \<Rightarrow> Inl ReportDecodeError)
      | _ \<Rightarrow> Inl ReportDecodeError)"

fun as_visible :: "iecdata \<Rightarrow> ustr option" where "as_visible (VisibleStringData s) = Some s" | "as_visible _ = None"
fun as_bits :: "iecdata \<Rightarrow> (bytes \<times> int) option" where "as_bits (BitStringData v u) = Some (v, u)" | "as_bits _ = None"
fun as_octets :: "iecdata \<Rightarrow> bytes option" where "as_octets (OctetStringData v) = Some v" | "as_octets _ = None"
fun as_bool :: "iecdata \<Rightarrow> bool option" where "as_bool (BoolData b) = Some b" | "as_bool _ = None"
fun as_time :: "iecdata \<Rightarrow> int option" where "as_time (TimestampData t q) = Some t" | "as_time _ = None"
fun as_uint :: "iecdata \<Rightarrow> int option" where "as_uint (UIntData n) = Some n" | "as_uint _ = None"

definition take_uint :: "access_result list \<Rightarrow> (int \<times> access_result list) result" where
  "take_uint rs = (case rs of Access_value (IntData n) # rest \<Rightarrow> Inr (n, rest) | _ \<Rightarrow> take_kind as_uint rs)"

text \<open>A field that is there when its bit is set.\<close>

definition take_if :: "bool \<Rightarrow> (access_result list \<Rightarrow> ('a \<times> access_result list) result) \<Rightarrow> access_result list \<Rightarrow>
    ('a option \<times> access_result list) result" where
  "take_if present kind_of rs = (if present then mapE (\<lambda>(x, rest). (Some x, rest)) (kind_of rs) else Inr (None, rs))"

text \<open>One for each included member, in their order.\<close>

fun take_each :: "nat \<Rightarrow> (access_result list \<Rightarrow> ('a \<times> access_result list) result) \<Rightarrow> access_result list \<Rightarrow>
    ('a list \<times> access_result list) result" where
  "take_each 0 kind_of rs = Inr ([], rs)"
| "take_each (Suc n) kind_of rs = bindE (kind_of rs) (\<lambda>(x, rest). mapE (\<lambda>(xs, r). (x # xs, r)) (take_each n kind_of rest))"

definition take_value :: "access_result list \<Rightarrow> (access_result \<times> access_result list) result" where
  "take_value rs = (case rs of [] \<Rightarrow> Inl ReportDecodeError | v # rest \<Rightarrow> Inr (v, rest))"

definition take_reason :: "access_result list \<Rightarrow> (reason_code \<times> access_result list) result" where
  "take_reason rs = mapE (\<lambda>((v, u), rest). (reason_code_from v u, rest)) (take_kind as_bits rs)"

definition optional_each :: "bool \<Rightarrow> nat \<Rightarrow> (access_result list \<Rightarrow> ('a \<times> access_result list) result) \<Rightarrow> access_result list \<Rightarrow>
    ('a option list \<times> access_result list) result" where
  "optional_each present n kind_of rs =
     (if present then mapE (\<lambda>(xs, rest). (map Some xs, rest)) (take_each n kind_of rs) else Inr (replicate n None, rs))"

definition included_members :: "bool list \<Rightarrow> nat list" where
  "included_members inclusion = map fst (filter snd (enumerate 0 inclusion))"

definition make_entry :: "nat \<Rightarrow> access_result \<times> ustr option \<times> reason_code option \<Rightarrow> report_entry" where
  "make_entry i p = (case p of (v, r, c) \<Rightarrow> \<lparr>re_index = i, re_value = v, re_reference = r, re_reason = c\<rparr>)"

definition decode_results :: "access_result list \<Rightarrow> report result" where
  "decode_results results =
     bindE (take_kind as_visible results) (\<lambda>(rpt_id, r1).
     bindE (take_kind as_bits r1) (\<lambda>((v, unused), r2).
     let opt = opt_flds_from v unused in
     bindE (take_if (of_sequence_number opt) take_uint r2) (\<lambda>(seq_num, r3).
     bindE (take_if (of_report_time_stamp opt) (take_kind as_time) r3) (\<lambda>(time_of_entry, r4).
     bindE (take_if (of_data_set_name opt) (take_kind as_visible) r4) (\<lambda>(data_set, r5).
     bindE (take_if (of_buffer_overflow opt) (take_kind as_bool) r5) (\<lambda>(buf_ovfl, r6).
     bindE (take_if (of_entry_id opt) (take_kind as_octets) r6) (\<lambda>(entry_id, r7).
     bindE (take_if (of_conf_revision opt) take_uint r7) (\<lambda>(conf_rev, r8).
     bindE (take_if (of_segmentation opt) take_uint r8) (\<lambda>(sub_seq_num, r9).
     bindE (take_if (of_segmentation opt) (take_kind as_bool) r9) (\<lambda>(more_segments, r10).
     bindE (take_kind as_bits r10) (\<lambda>((iv, iu), r11).
     let inclusion = bits_of iv iu; indexes = included_members inclusion; n = length indexes in
     bindE (optional_each (of_data_reference opt) n (take_kind as_visible) r11) (\<lambda>(references, r12).
     bindE (take_each n take_value r12) (\<lambda>(values, r13).
     bindE (optional_each (of_reason_for_inclusion opt) n take_reason r13) (\<lambda>(reasons, r14).
       if r14 \<noteq> [] then Inl ReportDecodeError
       else Inr \<lparr>rp_rpt_id = rpt_id, rp_opt_flds = opt, rp_seq_num = seq_num, rp_time_of_entry = time_of_entry,
                 rp_data_set = data_set, rp_buf_ovfl = buf_ovfl, rp_entry_id = entry_id, rp_conf_rev = conf_rev,
                 rp_sub_seq_num = sub_seq_num, rp_more_segments_follow = more_segments, rp_inclusion = inclusion,
                 rp_entries = map2 make_entry indexes (zip values (zip references reasons))\<rparr>))))))))))))))"

text \<open>\<^verbatim>\<open>is_report\<close>, and \<^verbatim>\<open>decode_report\<close> of the PDUs it is given.\<close>

definition is_report :: "object_name option \<Rightarrow> bool" where
  "is_report list_name = (case list_name of Some n \<Rightarrow> on_domain n = None \<and> on_item n = asc ''RPT'' | None \<Rightarrow> False)"

definition decode_report :: "object_name option \<Rightarrow> access_result list \<Rightarrow> report result" where
  "decode_report list_name results =
     (if is_report list_name then decode_results results else Inl ReportDecodeError)"

section \<open>Bit strings read back\<close>

lemma length_set_bits [simp]: "length (foldl set_bit_at raw ps) = length raw"
  by (induction ps arbitrary: raw) (auto simp: set_bit_at_def split: prod.splits)

lemma bit_0x80: "bit (0x80 :: byte) i \<longleftrightarrow> i = 7"
proof -
  have "(0x80 :: byte) = 2 ^ 7" by simp
  then show ?thesis by (simp only: bit_exp_iff possible_bit_word) auto
qed

lemma bit_mask: "i < 8 \<Longrightarrow> bit (drop_bit i (0x80 :: byte)) n \<longleftrightarrow> n = 7 - i"
proof -
  assume i: "i < 8"
  have "bit (drop_bit i (0x80 :: byte)) n \<longleftrightarrow> bit (0x80 :: byte) (i + n)" by (simp only: bit_drop_bit_eq o_apply)
  also have "\<dots> \<longleftrightarrow> i + n = 7" by (rule bit_0x80)
  finally show ?thesis using i by auto
qed

lemma and_mask_bit: "i < 8 \<Longrightarrow> (b :: byte) AND drop_bit i 0x80 \<noteq> 0 \<longleftrightarrow> bit b (7 - i)"
proof -
  assume i: "i < 8"
  have "b AND drop_bit i 0x80 = (if bit b (7 - i) then drop_bit i 0x80 else 0)"
    by (rule bit_eqI) (use bit_mask [OF i] in \<open>auto simp: bit_and_iff\<close>)
  moreover have "drop_bit i (0x80 :: byte) \<noteq> 0" using bit_mask [OF i, of "7 - i"] by auto
  ultimately show ?thesis by simp
qed

lemma set_bits_nth:
  assumes "length fs \<le> 8 * n" "j < n" "k < 8"
  shows "bit (foldl set_bit_at (replicate n 0) (enumerate 0 fs) ! j) (7 - k) \<longleftrightarrow> 8 * j + k < length fs \<and> fs ! (8 * j + k)"
  using assms
proof (induction fs rule: rev_induct)
  case Nil
  then show ?case by simp
next
  case (snoc x fs)
  let ?raw = "foldl set_bit_at (replicate n 0) (enumerate 0 fs)"
  let ?m = "length fs"
  have IH: "bit (?raw ! j) (7 - k) \<longleftrightarrow> 8 * j + k < ?m \<and> fs ! (8 * j + k)" using snoc by simp
  have split: "8 * j + k = ?m \<longleftrightarrow> j = ?m div 8 \<and> k = ?m mod 8"
  proof
    assume "8 * j + k = ?m"
    then have "?m div 8 = (8 * j + k) div 8" "?m mod 8 = (8 * j + k) mod 8" by simp_all
    then show "j = ?m div 8 \<and> k = ?m mod 8" using snoc.prems(3) by simp
  qed simp
  have step: "foldl set_bit_at (replicate n 0) (enumerate 0 (fs @ [x])) = set_bit_at ?raw (?m, x)"
    by (simp add: enumerate_append_eq)
  show ?case
  proof (cases "x \<and> j = ?m div 8")
    case True
    have "bit (set_bit_at ?raw (?m, x) ! j) (7 - k) \<longleftrightarrow> bit (?raw ! j) (7 - k) \<or> k = ?m mod 8"
      using True snoc.prems bit_mask [of "?m mod 8" "7 - k"] by (auto simp: set_bit_at_def bit_or_iff)
    then show ?thesis unfolding step IH using True split by (auto simp: nth_append less_Suc_eq)
  next
    case False
    have "set_bit_at ?raw (?m, x) ! j = ?raw ! j" using False by (auto simp: set_bit_at_def)
    then show ?thesis unfolding step using IH False split by (auto simp: nth_append less_Suc_eq)
  qed
qed

lemma concat_nth_eight:
  assumes "\<And>b. length (f b) = 8" "i < 8 * length v"
  shows "concat (map f v) ! i = f (v ! (i div 8)) ! (i mod 8)"
  using assms(2)
proof (induction v arbitrary: i)
  case (Cons b v)
  show ?case
  proof (cases "i < 8")
    case True
    then show ?thesis using assms(1) by (simp add: nth_append)
  next
    case False
    then have "concat (map f (b # v)) ! i = concat (map f v) ! (i - 8)" using assms(1) by (simp add: nth_append)
    also have "\<dots> = f (v ! ((i - 8) div 8)) ! ((i - 8) mod 8)" using False Cons by simp
    finally have "concat (map f (b # v)) ! i = f (v ! ((i - 8) div 8)) ! ((i - 8) mod 8)" .
    moreover have "i div 8 = Suc ((i - 8) div 8)" "(i - 8) mod 8 = i mod 8" using False by (simp_all add: le_div_geq le_mod_geq)
    ultimately show ?thesis by simp
  qed
qed simp

lemma length_concat_eight: "(\<And>b. length (f b) = 8) \<Longrightarrow> length (concat (map f v)) = 8 * length v"
  by (induction v) simp_all

lemma octets_unused: "int (8 * ((n + 7) div 8)) - (8 - int n mod 8) mod 8 = int n"
proof -
  define q r where "q = n div 8" and "r = n mod 8"
  have n: "n = 8 * q + r" "r < 8" unfolding q_def r_def by simp_all
  show ?thesis
  proof (cases "r = 0")
    case False
    then have "(r + 7) div 8 = 1" using n(2) by presburger
    moreover have "n + 7 = (r + 7) + 8 * q" using n by simp
    ultimately have "(n + 7) div 8 = q + 1" by simp
    moreover have "(8 - int n mod 8) mod 8 = 8 - int r"
    proof -
      have "int n mod 8 = int r" using n by simp
      moreover have "(8 - int r) mod 8 = 8 - int r" using False n(2) by (intro mod_pos_pos_trivial) simp_all
      ultimately show ?thesis by (simp only:)
    qed
    moreover have "int (8 * (q + 1)) - (8 - int r) = int n" using n(1) by simp
    ultimately show ?thesis by (simp only:)
  qed (simp add: n(1))
qed

lemma bitstring_of_bits: "\<exists>v u. bitstring_of fs = BitStringData v u \<and> bits_of v u = fs \<and> 0 \<le> u \<and> u < 8"
proof -
  let ?n = "(length fs + 7) div 8"
  let ?v = "foldl set_bit_at (replicate ?n 0) (enumerate 0 fs)"
  let ?u = "(8 - int (length fs) mod 8) mod 8"
  let ?f = "\<lambda>b :: byte. map (\<lambda>i. b AND drop_bit i 0x80 \<noteq> 0) [0..<8]"
  let ?out = "concat (map ?f ?v)"
  have len: "length ?out = 8 * ?n" by (subst length_concat_eight) (simp_all del: upt_rec_numeral)
  have u: "int (8 * ?n) - ?u = int (length fs)" by (rule octets_unused)
  have "?out ! i = fs ! i" if "i < length fs" for i
  proof -
    have n: "length fs \<le> 8 * ?n" by linarith
    then have i: "i < 8 * ?n" "i div 8 < ?n" "i mod 8 < 8" using that by simp_all
    have "?out ! i = (?v ! (i div 8) AND drop_bit (i mod 8) 0x80 \<noteq> 0)"
      using i(1) by (subst concat_nth_eight) (simp_all del: upt_rec_numeral)
    also have "\<dots> = bit (?v ! (i div 8)) (7 - i mod 8)" by (rule and_mask_bit) simp
    also have "\<dots> = fs ! i" using set_bits_nth [OF n i(2,3)] that by simp
    finally show ?thesis .
  qed
  then have take: "take (length fs) ?out = fs" using len by (intro nth_equalityI) simp_all
  have "bits_of ?v ?u = (if ?u \<noteq> 0 then py_take (int (length ?out) - ?u) ?out else ?out)"
    by (simp only: bits_of_def Let_def)
  also have "\<dots> = take (length fs) ?out"
  proof (cases "?u = 0")
    case True
    then have "length ?out = length fs" using len u by linarith
    then show ?thesis using True by (simp only: if_False take_all order_refl simp_thms)
  next
    case False
    have "int (length ?out) - ?u = int (length fs)" using u len by simp
    then show ?thesis using False by (simp only: if_True simp_thms py_take_def) simp
  qed
  finally have "bits_of ?v ?u = take (length fs) ?out" .
  then have bits: "bits_of ?v ?u = fs" unfolding take .
  have "0 \<le> ?u" "?u < 8" by (rule pos_mod_sign, simp, rule pos_mod_bound, simp)
  have "bitstring_of fs = BitStringData ?v ?u" by (rule bitstring_of_def)
  show ?thesis by (rule exI, rule exI, rule conjI, fact, rule conjI, fact, rule conjI, fact+)
qed

lemma flags_bitstring_bits:
  assumes "length values < n"
  shows "\<exists>v u. flags_bitstring n values = BitStringData v u \<and> (\<forall>m i. i < length values \<longrightarrow> flag_bits m v u i = values ! i) \<and> 0 \<le> u \<and> u < 8"
proof -
  have t: "take n (False # values) = False # values" using assms by simp
  obtain v u where v: "bitstring_of (False # values) = BitStringData v u" "bits_of v u = False # values" "0 \<le> u" "u < 8"
    using bitstring_of_bits by blast
  then show ?thesis unfolding flags_bitstring_def t
    by (intro exI [of _ v] exI [of _ u]) (simp add: flag_bits_def Let_def nth_append)
qed

text \<open>Each set of flags is read back from its bit string.\<close>

lemma opt_flds_back: "opt_flds_bitstring opt = BitStringData v u \<Longrightarrow> opt_flds_from v u = opt"
proof -
  let ?vs = "[of_sequence_number opt, of_report_time_stamp opt, of_reason_for_inclusion opt, of_data_set_name opt,
       of_data_reference opt, of_buffer_overflow opt, of_entry_id opt, of_conf_revision opt, of_segmentation opt]"
  assume "opt_flds_bitstring opt = BitStringData v u"
  then have "\<forall>m i. i < length ?vs \<longrightarrow> flag_bits m v u i = ?vs ! i"
    using flags_bitstring_bits [of ?vs 10] by (auto simp: opt_flds_bitstring_def)
  then have "\<And>m i. i < 9 \<Longrightarrow> flag_bits m v u i = ?vs ! i" by simp
  then show ?thesis by (simp add: opt_flds_from_def)
qed

lemma trg_ops_back: "trg_ops_bitstring t = BitStringData v u \<Longrightarrow> trg_ops_from v u = t"
proof -
  let ?vs = "[to_data_change t, to_quality_change t, to_data_update t, to_integrity t, to_general_interrogation t]"
  assume "trg_ops_bitstring t = BitStringData v u"
  then have "\<forall>m i. i < length ?vs \<longrightarrow> flag_bits m v u i = ?vs ! i"
    using flags_bitstring_bits [of ?vs 6] by (auto simp: trg_ops_bitstring_def)
  then have "\<And>m i. i < 5 \<Longrightarrow> flag_bits m v u i = ?vs ! i" by simp
  then show ?thesis by (simp add: trg_ops_from_def)
qed

lemma reason_code_back: "reason_code_bitstring r = BitStringData v u \<Longrightarrow> reason_code_from v u = r"
proof -
  let ?vs = "[rc_data_change r, rc_quality_change r, rc_data_update r, rc_integrity r,
       rc_general_interrogation r, rc_application_trigger r]"
  assume "reason_code_bitstring r = BitStringData v u"
  then have "\<forall>m i. i < length ?vs \<longrightarrow> flag_bits m v u i = ?vs ! i"
    using flags_bitstring_bits [of ?vs 7] by (auto simp: reason_code_bitstring_def)
  then have "\<And>m i. i < 6 \<Longrightarrow> flag_bits m v u i = ?vs ! i" by simp
  then show ?thesis by (simp add: reason_code_from_def)
qed

lemma flags_bitstring_shape:
  "\<exists>v u. opt_flds_bitstring opt = BitStringData v u" "\<exists>v u. trg_ops_bitstring t = BitStringData v u"
  "\<exists>v u. reason_code_bitstring r = BitStringData v u"
  using bitstring_of_bits by (auto simp: opt_flds_bitstring_def trg_ops_bitstring_def reason_code_bitstring_def
      flags_bitstring_def) blast+

section \<open>The layout of a report\<close>

text \<open>The access results of a report, in the order of the module's documentation, each optional field there when it
  has a value.\<close>

definition opt_field :: "('a \<Rightarrow> iecdata) \<Rightarrow> 'a option \<Rightarrow> access_result list" where
  "opt_field f x = (case x of None \<Rightarrow> [] | Some v \<Rightarrow> [Access_value (f v)])"

definition present_fields :: "('a \<Rightarrow> iecdata) \<Rightarrow> 'a option list \<Rightarrow> access_result list" where
  "present_fields f xs = concat (map (opt_field f) xs)"

definition report_layout :: "report \<Rightarrow> access_result list" where
  "report_layout r =
     [Access_value (VisibleStringData (rp_rpt_id r)), Access_value (opt_flds_bitstring (rp_opt_flds r))]
     @ opt_field UIntData (rp_seq_num r) @ opt_field (\<lambda>t. TimestampData t 0) (rp_time_of_entry r)
     @ opt_field VisibleStringData (rp_data_set r) @ opt_field BoolData (rp_buf_ovfl r)
     @ opt_field OctetStringData (rp_entry_id r) @ opt_field UIntData (rp_conf_rev r)
     @ opt_field UIntData (rp_sub_seq_num r) @ opt_field BoolData (rp_more_segments_follow r)
     @ [Access_value (bitstring_of (rp_inclusion r))]
     @ present_fields VisibleStringData (map re_reference (rp_entries r))
     @ map re_value (rp_entries r)
     @ present_fields reason_code_bitstring (map re_reason (rp_entries r))"

definition wf_report :: "report \<Rightarrow> bool" where
  "wf_report r \<longleftrightarrow> (let opt = rp_opt_flds r in
     (of_sequence_number opt \<longleftrightarrow> rp_seq_num r \<noteq> None) \<and> (of_report_time_stamp opt \<longleftrightarrow> rp_time_of_entry r \<noteq> None)
     \<and> (of_data_set_name opt \<longleftrightarrow> rp_data_set r \<noteq> None) \<and> (of_buffer_overflow opt \<longleftrightarrow> rp_buf_ovfl r \<noteq> None)
     \<and> (of_entry_id opt \<longleftrightarrow> rp_entry_id r \<noteq> None) \<and> (of_conf_revision opt \<longleftrightarrow> rp_conf_rev r \<noteq> None)
     \<and> (of_segmentation opt \<longleftrightarrow> rp_sub_seq_num r \<noteq> None) \<and> (of_segmentation opt \<longleftrightarrow> rp_more_segments_follow r \<noteq> None)
     \<and> map re_index (rp_entries r) = included_members (rp_inclusion r)
     \<and> list_all (\<lambda>e. (of_data_reference opt \<longleftrightarrow> re_reference e \<noteq> None) \<and> (of_reason_for_inclusion opt \<longleftrightarrow> re_reason e \<noteq> None))
         (rp_entries r))"

lemma take_kind_value [simp]: "take_kind kind (Access_value v # rest) = (case kind v of Some x \<Rightarrow> Inr (x, rest) | None \<Rightarrow> Inl ReportDecodeError)"
  by (simp add: take_kind_def)

lemma take_uint_value [simp]: "take_uint (Access_value (UIntData n) # rest) = Inr (n, rest)"
  by (simp add: take_uint_def)

lemma take_if_field:
  assumes "present \<longleftrightarrow> x \<noteq> None" "\<And>v rest. kind_of (Access_value (f v) # rest) = Inr (v, rest)"
  shows "take_if present kind_of (opt_field f x @ rest) = Inr (x, rest)"
  using assms by (cases x) (simp_all add: take_if_def opt_field_def)

lemma take_each_map:
  assumes "\<And>x rest. kind_of (g x # rest) = Inr (x, rest)"
  shows "take_each (length xs) kind_of (map g xs @ rest) = Inr (xs, rest)"
  by (induction xs) (simp_all add: assms)

lemma present_fields_some: "\<forall>x\<in>set xs. x \<noteq> None \<Longrightarrow> present_fields f xs = map (\<lambda>v. Access_value (f v)) (map the xs)"
  by (induction xs) (auto simp: present_fields_def opt_field_def)

lemma present_fields_none: "\<forall>x\<in>set xs. x = None \<Longrightarrow> present_fields f xs = [] \<and> replicate (length xs) None = xs"
  by (induction xs) (auto simp: present_fields_def opt_field_def)

lemma optional_each_fields:
  assumes "\<forall>x\<in>set xs. present \<longleftrightarrow> x \<noteq> None" "\<And>v rest. kind_of (Access_value (f v) # rest) = Inr (v, rest)"
  shows "optional_each present (length xs) kind_of (present_fields f xs @ rest) = Inr (xs, rest)"
proof (cases present)
  case True
  then have "map Some (map the xs) = xs" "present_fields f xs = map (\<lambda>v. Access_value (f v)) (map the xs)"
    using assms(1) present_fields_some [of xs f] by (auto intro: map_idI)
  then show ?thesis using True take_each_map [of kind_of "\<lambda>v. Access_value (f v)" "map the xs" rest, OF assms(2)]
    by (simp add: optional_each_def)
next
  case False
  then show ?thesis using assms(1) present_fields_none [of xs f] by (simp add: optional_each_def)
qed

lemma make_entries: "map re_index es = ns \<Longrightarrow>
    map2 make_entry ns (zip (map re_value es) (zip (map re_reference es) (map re_reason es))) = es"
  by (induction es arbitrary: ns) (auto simp: make_entry_def)

lemma decode_report_layout:
  assumes "wf_report r"
  shows "decode_report (Some RPT) (report_layout r) = Inr r"
proof -
  note wf = assms [unfolded wf_report_def Let_def]
  obtain v u where o: "opt_flds_bitstring (rp_opt_flds r) = BitStringData v u" using flags_bitstring_shape(1) by blast
  obtain iv iu where i: "bitstring_of (rp_inclusion r) = BitStringData iv iu" "bits_of iv iu = rp_inclusion r"
    using bitstring_of_bits by blast
  have idx: "map re_index (rp_entries r) = included_members (rp_inclusion r)" using wf by simp
  then have n: "length (included_members (rp_inclusion r)) = length (rp_entries r)" by (metis length_map)
  have reason: "take_reason (Access_value (reason_code_bitstring c) # rest) = Inr (c, rest)" for c rest
    using flags_bitstring_shape(3) [of c] by (auto simp: take_reason_def reason_code_back)
  have fields: "take_if (of_sequence_number (rp_opt_flds r)) take_uint (opt_field UIntData (rp_seq_num r) @ rest) = Inr (rp_seq_num r, rest)"
    "take_if (of_report_time_stamp (rp_opt_flds r)) (take_kind as_time) (opt_field (\<lambda>t. TimestampData t 0) (rp_time_of_entry r) @ rest) = Inr (rp_time_of_entry r, rest)"
    "take_if (of_data_set_name (rp_opt_flds r)) (take_kind as_visible) (opt_field VisibleStringData (rp_data_set r) @ rest) = Inr (rp_data_set r, rest)"
    "take_if (of_buffer_overflow (rp_opt_flds r)) (take_kind as_bool) (opt_field BoolData (rp_buf_ovfl r) @ rest) = Inr (rp_buf_ovfl r, rest)"
    "take_if (of_entry_id (rp_opt_flds r)) (take_kind as_octets) (opt_field OctetStringData (rp_entry_id r) @ rest) = Inr (rp_entry_id r, rest)"
    "take_if (of_conf_revision (rp_opt_flds r)) take_uint (opt_field UIntData (rp_conf_rev r) @ rest) = Inr (rp_conf_rev r, rest)"
    "take_if (of_segmentation (rp_opt_flds r)) take_uint (opt_field UIntData (rp_sub_seq_num r) @ rest) = Inr (rp_sub_seq_num r, rest)"
    "take_if (of_segmentation (rp_opt_flds r)) (take_kind as_bool) (opt_field BoolData (rp_more_segments_follow r) @ rest) = Inr (rp_more_segments_follow r, rest)" for rest
    by (rule take_if_field, (insert wf, elim conjE, assumption), simp)+
  have refs: "optional_each (of_data_reference (rp_opt_flds r)) (length (rp_entries r)) (take_kind as_visible)
      (present_fields VisibleStringData (map re_reference (rp_entries r)) @ rest) = Inr (map re_reference (rp_entries r), rest)" for rest
    using optional_each_fields [of "map re_reference (rp_entries r)" "of_data_reference (rp_opt_flds r)" "take_kind as_visible" VisibleStringData rest] wf
    by (auto simp: list_all_iff)
  have vals: "take_each (length (rp_entries r)) take_value (map re_value (rp_entries r) @ rest) = Inr (map re_value (rp_entries r), rest)" for rest
    using take_each_map [of take_value id "map re_value (rp_entries r)" rest] by (simp add: take_value_def)
  have reasons: "optional_each (of_reason_for_inclusion (rp_opt_flds r)) (length (rp_entries r)) take_reason
      (present_fields reason_code_bitstring (map re_reason (rp_entries r))) = Inr (map re_reason (rp_entries r), [])"
    using optional_each_fields [of "map re_reason (rp_entries r)" "of_reason_for_inclusion (rp_opt_flds r)"
        take_reason reason_code_bitstring "[]"] wf reason
    by (auto simp: list_all_iff)
  have "decode_results (report_layout r) = Inr r"
    by (simp add: make_entries [OF idx] decode_results_def report_layout_def o i opt_flds_back [OF o] fields refs vals reasons n Let_def)
  then show ?thesis by (simp add: decode_report_def is_report_def RPT_def)
qed

section \<open>Errors\<close>

lemma raises_only_prod_app [raises]:
  "(\<And>x y. p = (x, y) \<Longrightarrow> raises_only E (f x y b)) \<Longrightarrow> raises_only E ((case p of (x, y) \<Rightarrow> f x y) b)"
  by (cases p) simp

lemma raises_take_kind [raises]: "ReportDecodeError \<in> E \<Longrightarrow> raises_only E (take_kind kind rs)"
  by (auto simp: take_kind_def raises_only_def split: list.splits access_result.splits option.splits)

lemma raises_take_uint [raises]: "ReportDecodeError \<in> E \<Longrightarrow> raises_only E (take_uint rs)"
  using raises_take_kind [of E as_uint]
  by (auto simp: take_uint_def raises_only_def split: list.splits access_result.splits iecdata.splits)

lemma raises_take_if [raises]: "(\<And>rs. raises_only E (kind_of rs)) \<Longrightarrow> raises_only E (take_if present kind_of rs)"
  unfolding take_if_def by (intro raises)

lemma raises_take_each [raises]: "(\<And>rs. raises_only E (kind_of rs)) \<Longrightarrow> raises_only E (take_each n kind_of rs)"
  by (induction n arbitrary: rs) (auto intro!: raises)

lemma raises_take_value [raises]: "ReportDecodeError \<in> E \<Longrightarrow> raises_only E (take_value rs)"
  unfolding take_value_def by (intro raises)

lemma raises_take_reason [raises]: "ReportDecodeError \<in> E \<Longrightarrow> raises_only E (take_reason rs)"
  unfolding take_reason_def by (intro raises)

lemma raises_optional_each [raises]: "(\<And>rs. raises_only E (kind_of rs)) \<Longrightarrow> raises_only E (optional_each present n kind_of rs)"
  unfolding optional_each_def by (intro raises)

lemma decode_report_error: "raises_only {ReportDecodeError} (decode_report list_name results)"
  unfolding decode_report_def decode_results_def Let_def by (intro raises) simp_all

section \<open>Properties\<close>

text \<open>C39: a report laid out as the standard says is decoded to itself: each optional field OptFlds announces, the
  inclusion bits, and for each included member its reference, value (or access error) and reason. Whatever the
  results, \<^verbatim>\<open>decode_report\<close> raises \<^verbatim>\<open>ReportDecodeError\<close> only.\<close>
theorem report_round_trip:
  assumes "wf_report r"
  shows "decode_report (Some RPT) (report_layout r) = Inr r \<and> raises_only {ReportDecodeError} (decode_report list_name results)"
  using decode_report_layout [OF assms] decode_report_error by blast

definition example_report :: report where
  "example_report =
     \<lparr>rp_rpt_id = asc ''r'', rp_opt_flds = (opt_flds_from [0x41, 0] 6), rp_seq_num = Some 7, rp_time_of_entry = None,
      rp_data_set = None, rp_buf_ovfl = None, rp_entry_id = Some [0, 1], rp_conf_rev = None, rp_sub_seq_num = None,
      rp_more_segments_follow = None, rp_inclusion = [False, True],
      rp_entries = [\<lparr>re_index = 1, re_value = Access_error 10, re_reference = None, re_reason = None\<rparr>]\<rparr>"

theorem report_round_trip_witness:
  "wf_report example_report \<and> decode_report (Some RPT) (report_layout example_report) = Inr example_report"
proof -
  have "wf_report example_report"
    by (simp add: wf_report_def example_report_def opt_flds_from_def flag_bits_def bits_of_def py_take_def Let_def
        upt_rec included_members_def)
  then show ?thesis using report_round_trip by blast
qed

end
