(* ===== verification/MmsTypes.thy ===== *)
theory MmsTypes
  imports TlvSeq
begin

text \<open>
  \<^verbatim>\<open>src/open61850/mms/types.py\<close>: the types of MMS variables, their TypeDescription and the names of
  the leaves of a value. A kind is the string the code uses.
\<close>

section \<open>Types\<close>

definition PRIMITIVES :: "(int \<times> string) list" where
  "PRIMITIVES =
     [(3, ''boolean''), (4, ''bit-string''), (5, ''integer''), (6, ''unsigned''), (7, ''float''),
      (9, ''octet-string''), (10, ''visible-string''), (11, ''generalized-time''), (12, ''binary-time''),
      (13, ''bcd''), (15, ''objId''), (16, ''mms-string''), (17, ''utc-time'')]"

datatype mms_type =
    PrimitiveType string "int option"
  | StructureType "(ustr \<times> mms_type) list"
  | ArrayType int mms_type
  | NamedType ustr

definition component :: "(ustr \<times> mms_type) list \<Rightarrow> ustr \<Rightarrow> mms_type option" where
  "component components name = map_option snd (find (\<lambda>(n, _). n = name) components)"

section \<open>Decoding\<close>

text \<open>A primitive TypeDescription: the number of its tag and its content.\<close>

definition decode_primitive :: "int \<Rightarrow> bytes \<Rightarrow> mms_type result" where
  "decode_primitive number content =
     (case map_of PRIMITIVES number of
        None \<Rightarrow> Inl MmsProtocolError
      | Some kind \<Rightarrow>
          if number = 7 then
            bindE (if content = [] then Inr []
                   else bindE (all_tlvs content) (traverse (\<lambda>t. decode_unsigned (tlv_value t)))) (\<lambda>width.
              Inr (PrimitiveType kind (case width of [] \<Rightarrow> None | w # _ \<Rightarrow> Some w)))
          else if content \<noteq> [] \<and> number \<in> {4, 5, 6, 9, 10, 13, 16} then
            bindE (decode_integer content) (\<lambda>n. Inr (PrimitiveType kind (Some n)))
          else Inr (PrimitiveType kind None))"

text \<open>One component of a structure: its name, empty when absent, and its type.\<close>

definition finish_component :: "ustr \<times> mms_type option \<Rightarrow> (ustr \<times> mms_type) result" where
  "finish_component p = (case p of (name, None) \<Rightarrow> Inl MmsProtocolError | (name, Some ctype) \<Rightarrow> Inr (name, ctype))"

function (sequential)
      decode_type_description :: "tlv \<Rightarrow> mms_type result"
  and decode_type_specification :: "tlv \<Rightarrow> mms_type result" where
  "decode_type_description t =
     bindE (tag_number (tlv_tag t)) (\<lambda>number.
       if number = 2 then
         bindE (for_tlvs (\<lambda>part components.
                  if tlv_tag part \<noteq> 0xA1 then Inr components
                  else for_tlvs (\<lambda>entry components.
                    bindE (bindE (for_tlvs (\<lambda>item (name, ctype).
                             if tlv_tag item = 0x80 then Inr (decode_ascii_replace (tlv_value item), ctype)
                             else if tlv_tag item = 0xA1 then
                               bindE (decode_tlv (tlv_value item) 0) (\<lambda>s.
                               bindE (decode_type_specification s) (\<lambda>c. Inr (name, Some c)))
                             else Inr (name, ctype))
                             (tlv_value entry) ([], None)) finish_component)
                      (\<lambda>c. Inr (components @ [c])))
                    (tlv_value part) components)
                  (tlv_value t) [])
           (\<lambda>components. Inr (StructureType components))
       else if number = 1 then
         bindE (tlv_fields (tlv_value t)) (\<lambda>f.
         bindE (field f 0xA2) (\<lambda>e. bindE (decode_tlv e 0) (\<lambda>s. bindE (decode_type_specification s) (\<lambda>element.
         bindE (field f 0x81) (\<lambda>c. bindE (decode_unsigned c) (\<lambda>count. Inr (ArrayType count element)))))))
       else decode_primitive number (tlv_value t))"
| "decode_type_specification t =
     (if tlv_tag t = 0xA0 then
        bindE (decode_tlv (tlv_value t) 0) (\<lambda>inner. Inr (NamedType (decode_ascii_replace (tlv_value inner))))
      else decode_type_description t)"
  by pat_completeness auto
termination
proof (relation "measure (\<lambda>x. case x of Inl t \<Rightarrow> 2 * length (tlv_value t) | Inr t \<Rightarrow> 2 * length (tlv_value t) + 1)", goal_cases)
  case (2 t number part cs entry cs' item st name ctype s)
  have "length (tlv_value s) \<le> length (tlv_value item)" using decode_tlv_progress [of "tlv_value item" 0 s] 2 by linarith
  then show ?case using iter_tlvs_bounds [of part "tlv_value t"] iter_tlvs_bounds [of entry "tlv_value part"]
      iter_tlvs_bounds [of item "tlv_value entry"] 2 by simp
next
  case (3 t number f e s)
  have "length (tlv_value s) \<le> length e" using decode_tlv_progress [of e 0 s] 3 by linarith
  then show ?case using tlv_fields_smaller [of "tlv_value t" f "0xA2" e] 3 by simp
qed simp_all

declare decode_type_description.simps [simp del] decode_type_specification.simps [simp del]

definition get_variable_access_attributes_response :: "bytes \<Rightarrow> mms_type result" where
  "get_variable_access_attributes_response content =
     bindE (first_tlv 0xA2 content) (\<lambda>r. case r of
        Some t \<Rightarrow> bindE (decode_tlv (tlv_value t) 0) decode_type_description
      | None \<Rightarrow> Inl MmsProtocolError)"

section \<open>Encoding\<close>

definition primitive_tag :: "string \<Rightarrow> int result" where
  "primitive_tag kind = (case map_of (map (\<lambda>(n, k). (k, n)) PRIMITIVES) kind of
     Some n \<Rightarrow> Inr n | None \<Rightarrow> Inl KeyError)"

definition float_exponent :: "int \<Rightarrow> int result" where
  "float_exponent width = (if width = 32 then Inr 8 else if width = 64 then Inr 11 else Inl KeyError)"

definition encode_primitive :: "string \<Rightarrow> int option \<Rightarrow> bytes result" where
  "encode_primitive kind size_opt =
     bindE (primitive_tag kind) (\<lambda>number.
       if kind = ''float'' then
         let width = (case size_opt of None \<Rightarrow> 32 | Some w \<Rightarrow> if w = 0 then 32 else w) in
         bindE (cat [bindE (encode_unsigned width) (encode_tlv 0x02),
                     bindE (bindE (float_exponent width) encode_unsigned) (encode_tlv 0x02)]) (\<lambda>body.
         bindE (make_tag number CLASS_CONTEXT True) (\<lambda>tag. encode_tlv tag body))
       else bindE (make_tag number CLASS_CONTEXT False) (\<lambda>tag.
         if kind = ''binary-time'' then encode_tlv tag (encode_boolean True)
         else case size_opt of
             None \<Rightarrow> encode_tlv tag []
           | Some n \<Rightarrow> bindE (encode_integer n) (encode_tlv tag)))"

fun encode_type_description :: "mms_type \<Rightarrow> bytes result" where
  "encode_type_description (StructureType components) =
     bindE (cat (map (\<lambda>p. bindE (cat [bindE (encode_ascii (fst p)) (encode_tlv 0x80),
                                       bindE (encode_type_description (snd p)) (encode_tlv 0xA1)])
                            (encode_tlv 0x30)) components)) (\<lambda>cs.
     bindE (encode_tlv 0xA1 cs) (encode_tlv 0xA2))"
| "encode_type_description (ArrayType count element) =
     bindE (cat [bindE (encode_unsigned count) (encode_tlv 0x81),
                 bindE (encode_type_description element) (encode_tlv 0xA2)]) (encode_tlv 0xA1)"
| "encode_type_description (NamedType name) = Inl ValueError"
| "encode_type_description (PrimitiveType kind size_opt) = encode_primitive kind size_opt"

section \<open>Texts and labels\<close>

text \<open>\<^verbatim>\<open>str\<close> of an integer.\<close>

fun dec_nat :: "nat \<Rightarrow> ustr" where
  "dec_nat n = (if n < 10 then [48 + n] else dec_nat (n div 10) @ [48 + n mod 10])"

declare dec_nat.simps [simp del]

definition dec_int :: "int \<Rightarrow> ustr" where
  "dec_int v = (if v < 0 then asc ''-'' @ dec_nat (nat (- v)) else dec_nat (nat v))"

fun describe :: "mms_type option \<Rightarrow> ustr" where
  "describe None = asc ''?''"
| "describe (Some (PrimitiveType kind size_opt)) =
     (case size_opt of
        None \<Rightarrow> asc kind
      | Some n \<Rightarrow>
          if kind \<in> {''integer'', ''unsigned'', ''float''} then asc kind @ dec_int n
          else if n < 0 then asc kind @ asc ''(<='' @ dec_int (- n) @ asc '')''
          else asc kind @ asc ''('' @ dec_int n @ asc '')'')"
| "describe (Some (StructureType components)) = asc ''structure of '' @ dec_nat (length components)"
| "describe (Some (ArrayType count element)) =
     asc ''array['' @ dec_int count @ asc ''] of '' @ describe (Some element)"
| "describe (Some (NamedType name)) = asc ''type '' @ name"

text \<open>The name and the type of the member at \<open>i\<close>: its index when the type does not say.\<close>

definition member_type :: "mms_type option \<Rightarrow> nat \<Rightarrow> ustr \<times> mms_type option" where
  "member_type t i =
     (case t of
        Some (StructureType comps) \<Rightarrow> if i < length comps then (fst (comps ! i), Some (snd (comps ! i))) else (dec_nat i, None)
      | _ \<Rightarrow> (dec_nat i, None))"

definition element_type :: "mms_type option \<Rightarrow> mms_type option" where
  "element_type t = (case t of Some (ArrayType _ e) \<Rightarrow> Some e | _ \<Rightarrow> None)"

function label :: "iecdata \<Rightarrow> mms_type option \<Rightarrow> ustr \<Rightarrow> (ustr \<times> iecdata) list" where
  "label (StructureData members) t prefix =
     concat (map (\<lambda>(i, m). case member_type t i of (name, ctype) \<Rightarrow>
         label m ctype (if prefix \<noteq> [] then prefix @ asc ''.'' @ name else name)) (zip [0..<length members] members))"
| "label (ArrayData elements) t prefix =
     concat (map (\<lambda>(i, m). label m (element_type t) (prefix @ asc ''['' @ dec_nat i @ asc '']''))
       (zip [0..<length elements] elements))"
| "label (BoolData v) t prefix = [(prefix, BoolData v)]"
| "label (IntData v) t prefix = [(prefix, IntData v)]"
| "label (UIntData v) t prefix = [(prefix, UIntData v)]"
| "label (FloatData v) t prefix = [(prefix, FloatData v)]"
| "label (BitStringData v n) t prefix = [(prefix, BitStringData v n)]"
| "label (OctetStringData v) t prefix = [(prefix, OctetStringData v)]"
| "label (VisibleStringData v) t prefix = [(prefix, VisibleStringData v)]"
| "label (MmsStringData v) t prefix = [(prefix, MmsStringData v)]"
| "label (TimestampData v q) t prefix = [(prefix, TimestampData v q)]"
| "label (RawData n v) t prefix = [(prefix, RawData n v)]"
  by pat_completeness auto
termination
  by (relation "measure (\<lambda>(d, _, _). size d)")
     (auto dest!: set_zip_rightD simp: less_Suc_eq_le intro: size_list_estimation')

section \<open>Types read back\<close>

text \<open>The types whose description says everything: the sizes a description carries, a float of a known width.\<close>

definition sized_kinds :: "string list" where
  "sized_kinds = [''bit-string'', ''integer'', ''unsigned'', ''octet-string'', ''visible-string'', ''bcd'', ''mms-string'']"

fun ok_type :: "mms_type \<Rightarrow> bool" where
  "ok_type (PrimitiveType kind n) =
     (if kind = ''float'' then n = Some 32 \<or> n = Some 64
      else kind \<in> snd ` set PRIMITIVES \<and> (n = None \<or> kind \<in> set sized_kinds))"
| "ok_type (StructureType components) = list_all (\<lambda>p. ok_type (snd p)) components"
| "ok_type (ArrayType count element) = ok_type element"
| "ok_type (NamedType name) = False"

definition described :: "mms_type \<Rightarrow> bytes \<Rightarrow> bool" where
  "described ty bs \<longleftrightarrow> (\<exists>tag c. wf_tag tag \<and> tag \<noteq> 0xA0 \<and> encode_tlv tag c = Inr bs
     \<and> (\<forall>t. tlv_tag t = tag \<longrightarrow> tlv_value t = c \<longrightarrow> decode_type_description t = Inr ty))"

definition decode_component :: "tlv \<Rightarrow> (ustr \<times> mms_type) result" where
  "decode_component entry =
     bindE (for_tlvs (\<lambda>item (name, ctype).
              if tlv_tag item = 0x80 then Inr (decode_ascii_replace (tlv_value item), ctype)
              else if tlv_tag item = 0xA1 then
                bindE (decode_tlv (tlv_value item) 0) (\<lambda>s.
                bindE (decode_type_specification s) (\<lambda>c. Inr (name, Some c)))
              else Inr (name, ctype))
              (tlv_value entry) ([], None)) finish_component"

definition decode_part :: "tlv \<Rightarrow> (ustr \<times> mms_type) list \<Rightarrow> (ustr \<times> mms_type) list result" where
  "decode_part part components =
     (if tlv_tag part \<noteq> 0xA1 then Inr components
      else for_tlvs (\<lambda>entry components. bindE (decode_component entry) (\<lambda>c. Inr (components @ [c])))
        (tlv_value part) components)"

lemma decode_structure:
  "tag_number (tlv_tag t) = Inr 2 \<Longrightarrow>
   decode_type_description t = bindE (for_tlvs decode_part (tlv_value t) []) (\<lambda>cs. Inr (StructureType cs))"
  unfolding decode_part_def [abs_def] decode_component_def [abs_def]
  by (subst decode_type_description.simps) simp

lemma described_description:
  assumes "described ty bs"
  shows "\<exists>s. decode_tlv bs 0 = Inr s \<and> tlv_tag s \<noteq> 0xA0 \<and> decode_type_description s = Inr ty"
proof -
  obtain tag c where tag: "wf_tag tag" "tag \<noteq> 0xA0" "encode_tlv tag c = Inr bs"
    and ty: "\<And>t. tlv_tag t = tag \<Longrightarrow> tlv_value t = c \<Longrightarrow> decode_type_description t = Inr ty"
    using assms by (auto simp: described_def)
  show ?thesis using decode_tlv_whole [OF tag(1,3)] tag(2) ty by simp
qed

lemma described_specification: "described ty bs \<Longrightarrow> \<exists>s. decode_tlv bs 0 = Inr s \<and> decode_type_specification s = Inr ty"
  using described_description [of ty bs] by (auto simp: decode_type_specification.simps)

definition component_entry :: "ustr \<times> mms_type \<Rightarrow> bytes \<Rightarrow> bool" where
  "component_entry p c \<longleftrightarrow> (\<exists>a bs. items [(0x80, a), (0xA1, bs)] c \<and> encode_ascii (fst p) = Inr a \<and> described (snd p) bs)"

lemma decode_component_items:
  assumes "component_entry p (tlv_value entry)"
  shows "decode_component entry = Inr p"
proof -
  obtain name ty where p: "p = (name, ty)" by (cases p)
  obtain a bs where it: "items [(0x80, a), (0xA1, bs)] (tlv_value entry)" and a: "encode_ascii name = Inr a"
    and ty: "described ty bs" using assms unfolding component_entry_def p by (simp only: fst_conv snd_conv) blast
  obtain s where s: "decode_tlv bs 0 = Inr s" "decode_type_specification s = Inr ty"
    using described_specification [OF ty] by blast
  obtain t u where "iter_tlvs (tlv_value entry) = ([t, u], None)" "tlv_tag t = 0x80" "tlv_value t = a"
    "tlv_tag u = 0xA1" "tlv_value u = bs"
    using items_two [OF it] by (auto simp: pair_of_eq)
  then show ?thesis
    using s by (simp add: p decode_component_def for_tlvs_def finish_component_def decode_encode_ascii [OF a])
qed

lemma tag_numbers:
  "tag_number 0xA2 = Inr 2" "tag_number 0xA1 = Inr 1" "tag_number 0xA7 = Inr 7"
  by (simp_all add: tag_number_low)

lemma described_structure:
  assumes "list_all2 component_entry components cs" "items (map (Pair 0x30) cs) content" "encode_tlv 0xA1 content = Inr part" "encode_tlv 0xA2 part = Inr bs"
  shows "described (StructureType components) bs"
proof -
  have entry: "for_tlvs (\<lambda>entry components. bindE (decode_component entry) (\<lambda>c. Inr (components @ [c]))) content [] = Inr components"
  proof -
    let ?h = "\<lambda>p. decode_component \<lparr>tlv_tag = fst p, tlv_value = snd p, tlv_end = 0\<rparr>"
    have "for_tlvs (\<lambda>entry components. bindE (decode_component entry) (\<lambda>c. Inr (components @ [c]))) content []
        = traverse ?h (map (Pair 0x30) cs)"
      by (rule items_collect [OF assms(2)]) (simp add: decode_component_def)
    also have "\<dots> = Inr components" using assms(1)
      by (auto simp: traverse_Inr_list_all2 list_all2_map1 list_all2_conv_all_nth decode_component_items)
    finally show ?thesis .
  qed
  have part: "items [(0xA1, content)] part" using assms(3) by (intro items_single) simp_all
  have "for_tlvs decode_part part [] = Inr components"
    using items_iter [OF part] entry by (auto simp: for_tlvs_def [of decode_part] decode_part_def pair_of_eq)
  then show ?thesis using assms(4) unfolding described_def
    by (intro exI [of _ "0xA2"] exI [of _ part]) (simp add: decode_structure tag_numbers)
qed

lemma described_array:
  assumes "0 \<le> count" "encode_unsigned count = Inr c" "encode_tlv 0x81 c = Inr cb" "described element eb"
    "encode_tlv 0xA2 eb = Inr ebb" "encode_tlv 0xA1 (cb @ ebb) = Inr bs"
  shows "described (ArrayType count element) bs"
proof -
  have it: "items [(0x81, c), (0xA2, eb)] (cb @ ebb)" by (intro items_Cons items_single assms) simp_all
  obtain s where s: "decode_tlv eb 0 = Inr s" "decode_type_specification s = Inr element"
    using described_specification [OF assms(4)] by blast
  have "decode_unsigned c = Inr count" using unsigned_codec.dec_enc [OF assms(1,2)] .
  then have "decode_type_description t = Inr (ArrayType count element)" if "tlv_tag t = 0xA1" "tlv_value t = cb @ ebb" for t
    using s that by (subst decode_type_description.simps) (simp add: tag_numbers items_fields [OF it])
  then show ?thesis using assms(6) unfolding described_def
    by (intro exI [of _ "0xA1"] exI [of _ "cb @ ebb"]) simp
qed

lemma primitive_kinds:
  assumes "kind \<in> snd ` set PRIMITIVES"
  shows "\<exists>n. 3 \<le> n \<and> n \<le> 17 \<and> primitive_tag kind = Inr n \<and> map_of PRIMITIVES n = Some kind
    \<and> (kind = ''float'' \<longleftrightarrow> n = 7) \<and> (kind \<in> set sized_kinds \<longleftrightarrow> n \<in> {4, 5, 6, 9, 10, 13, 16})"
  using assms by (auto simp: PRIMITIVES_def primitive_tag_def sized_kinds_def)

lemma described_plain:
  assumes "3 \<le> n" "n \<le> 17" "n \<noteq> 7" "encode_tlv (0x80 + n) c = Inr bs" "decode_primitive n c = Inr ty"
  shows "described ty bs"
  unfolding described_def
  by (intro exI [of _ "0x80 + n"] exI [of _ c])
     (use assms context_tag(2,3) [of n False] in \<open>auto simp: decode_type_description.simps\<close>)

lemma described_primitive:
  assumes "ok_type (PrimitiveType kind k)" "encode_primitive kind k = Inr bs"
  shows "described (PrimitiveType kind k) bs"
proof (cases "kind = ''float''")
  case False
  then have kind: "kind \<in> snd ` set PRIMITIVES" "k = None \<or> kind \<in> set sized_kinds" using assms(1) by simp_all
  obtain n where n: "3 \<le> n" "n \<le> 17" "primitive_tag kind = Inr n" "map_of PRIMITIVES n = Some kind" "n \<noteq> 7"
    "kind \<in> set sized_kinds \<longleftrightarrow> n \<in> {4, 5, 6, 9, 10, 13, 16}"
    using primitive_kinds [OF kind(1)] False by blast
  have tag: "make_tag n CLASS_CONTEXT False = Inr (0x80 + n)" using context_tag(1) [of n False] n by simp
  show ?thesis
  proof (cases "kind = ''binary-time''")
    case True
    then have "k = None" "n \<notin> {4, 5, 6, 9, 10, 13, 16}" using kind(2) n(6) by (auto simp: sized_kinds_def)
    then show ?thesis using assms(2) True False n tag
      by (intro described_plain [OF n(1,2,5)]) (auto simp: encode_primitive_def decode_primitive_def)
  next
    case bt: False
    show ?thesis
    proof (cases k)
      case None
      then show ?thesis using assms(2) bt False n tag
        by (intro described_plain [OF n(1,2,5)]) (auto simp: encode_primitive_def decode_primitive_def)
    next
      case (Some v)
      then obtain c where c: "encode_integer v = Inr c" "encode_tlv (0x80 + n) c = Inr bs"
        using assms(2) bt False n tag by (auto simp: encode_primitive_def bindE_Inr_iff)
      have "n \<in> {4, 5, 6, 9, 10, 13, 16}" using kind(2) Some n(6) by simp
      moreover have "decode_integer c = Inr v" using integer_codec.dec_enc [OF _ c(1)] by simp
      moreover from this have "c \<noteq> []" by (auto simp: decode_integer_def)
      ultimately show ?thesis using Some n c(2)
        by (intro described_plain [OF n(1,2,5)]) (auto simp: decode_primitive_def)
    qed
  qed
next
  case True
  then obtain w where w: "k = Some w" "w = 32 \<or> w = 64" using assms(1) by auto
  have tag: "make_tag 7 CLASS_CONTEXT True = Inr 0xA7" using context_tag(1) [of 7 True] by simp
  have "primitive_tag ''float'' = Inr 7" "map_of PRIMITIVES 7 = Some ''float''"
    by (simp_all add: primitive_tag_def PRIMITIVES_def)
  then obtain a e ab eb where a: "encode_unsigned w = Inr a" "encode_tlv 0x02 a = Inr ab"
    and e: "float_exponent w = Inr e" "encode_unsigned e = Inr eb"
    and bs: "\<exists>x. encode_tlv 0x02 eb = Inr x \<and> encode_tlv 0xA7 (ab @ x) = Inr bs"
    using assms(2) w True tag by (auto simp: encode_primitive_def bindE_Inr_iff)
  then obtain x where x: "encode_tlv 0x02 eb = Inr x" "encode_tlv 0xA7 (ab @ x) = Inr bs" by blast
  have it: "items [(0x02, a), (0x02, eb)] (ab @ x)" by (intro items_Cons items_single a x) simp_all
  obtain t u where tu: "iter_tlvs (ab @ x) = ([t, u], None)" "tlv_value t = a" "tlv_value u = eb"
    using items_two [OF it] by (auto simp: pair_of_eq)
  have "decode_unsigned a = Inr w" "decode_unsigned eb = Inr e"
    using unsigned_codec.dec_enc [of w a] unsigned_codec.dec_enc [of e eb] a e w
    by (auto simp: float_exponent_def split: if_splits)
  then have "decode_primitive 7 (ab @ x) = Inr (PrimitiveType kind k)"
    using tu w True \<open>map_of PRIMITIVES 7 = Some ''float''\<close> encode_tlv_nonempty [of "0x02" a] a(2)
    by (auto simp: decode_primitive_def all_tlvs_def gen_list_def)
  then show ?thesis using x(2) unfolding described_def
    by (intro exI [of _ "0xA7"] exI [of _ "ab @ x"]) (auto simp: decode_type_description.simps tag_numbers)
qed

lemma encode_component_entry:
  assumes "cat [bindE (encode_ascii (fst p)) (encode_tlv 0x80), bindE (encode_type_description (snd p)) (encode_tlv 0xA1)] = Inr c"
    and "\<And>bs. encode_type_description (snd p) = Inr bs \<Longrightarrow> described (snd p) bs"
  shows "component_entry p c"
proof -
  obtain a ab b bb where a: "encode_ascii (fst p) = Inr a" "encode_tlv 0x80 a = Inr ab"
    and b: "encode_type_description (snd p) = Inr b" "encode_tlv 0xA1 b = Inr bb" and c: "c = ab @ bb"
    using assms(1) by (auto simp: bindE_Inr_iff)
  have "items [(0x80, a), (0xA1, b)] c" unfolding c by (intro items_Cons items_single a b) simp_all
  then show ?thesis using a(1) assms(2) [OF b(1)] unfolding component_entry_def by blast
qed

lemma encode_components:
  assumes "cat (map (\<lambda>p. bindE (cat [bindE (encode_ascii (fst p)) (encode_tlv 0x80),
      bindE (encode_type_description (snd p)) (encode_tlv 0xA1)]) (encode_tlv 0x30)) components) = Inr content"
    and "\<And>p bs. p \<in> set components \<Longrightarrow> encode_type_description (snd p) = Inr bs \<Longrightarrow> described (snd p) bs"
  shows "\<exists>cs. items (map (Pair 0x30) cs) content \<and> list_all2 component_entry components cs"
  using assms
proof (induction components arbitrary: content)
  case (Cons p ps)
  let ?m = "cat [bindE (encode_ascii (fst p)) (encode_tlv 0x80), bindE (encode_type_description (snd p)) (encode_tlv 0xA1)]"
  obtain a r where a: "bindE ?m (encode_tlv 0x30) = Inr a" and content: "content = a @ r"
    and r: "cat (map (\<lambda>p. bindE (cat [bindE (encode_ascii (fst p)) (encode_tlv 0x80),
      bindE (encode_type_description (snd p)) (encode_tlv 0xA1)]) (encode_tlv 0x30)) ps) = Inr r"
    using Cons.prems(1) by (simp only: list.map cat_Cons_iff) blast
  obtain c where c: "?m = Inr c" "encode_tlv 0x30 c = Inr a" using a by (auto simp only: bindE_Inr_iff)
  have p: "component_entry p c" using c(1) by (rule encode_component_entry) (rule Cons.prems(2), simp_all)
  obtain cs where cs: "items (map (Pair 0x30) cs) r" "list_all2 component_entry ps cs"
    using Cons.IH [OF r] Cons.prems(2) by auto
  have "items (map (Pair 0x30) (c # cs)) content"
    unfolding content list.map by (intro items_Cons c cs) simp
  then show ?case using p cs(2) by (intro exI [of _ "c # cs"]) simp
qed simp

lemma encode_described: "ok_type ty \<Longrightarrow> encode_type_description ty = Inr bs \<Longrightarrow> described ty bs"
proof (induction ty arbitrary: bs rule: encode_type_description.induct)
  case (1 components)
  obtain content part where c: "cat (map (\<lambda>p. bindE (cat [bindE (encode_ascii (fst p)) (encode_tlv 0x80),
      bindE (encode_type_description (snd p)) (encode_tlv 0xA1)]) (encode_tlv 0x30)) components) = Inr content"
    "encode_tlv 0xA1 content = Inr part" "encode_tlv 0xA2 part = Inr bs"
    using 1(3) by (auto simp only: encode_type_description.simps bindE_Inr_iff)
  have "\<exists>cs. items (map (Pair 0x30) cs) content \<and> list_all2 component_entry components cs"
    using c(1) by (rule encode_components) (use 1 in \<open>auto simp: list_all_iff\<close>)
  then show ?case using described_structure c(2,3) by blast
next
  case (2 count element)
  then obtain c cb e eb where "encode_unsigned count = Inr c" "encode_tlv 0x81 c = Inr cb"
    "encode_type_description element = Inr e" "encode_tlv 0xA2 e = Inr eb" "encode_tlv 0xA1 (cb @ eb) = Inr bs"
    by (auto simp: bindE_Inr_iff)
  moreover from this have "0 \<le> count" by (auto simp: encode_unsigned_def split: if_splits)
  ultimately show ?case using 2 by (intro described_array) auto
qed (auto intro: described_primitive)

section \<open>Errors of the decoder\<close>

lemma raises_decode_primitive [raises]:
  "BerError \<in> E \<Longrightarrow> MmsProtocolError \<in> E \<Longrightarrow> raises_only E (decode_primitive n c)"
  unfolding decode_primitive_def by (intro raises)

lemma raises_finish_component [raises]: "MmsProtocolError \<in> E \<Longrightarrow> raises_only E (finish_component p)"
  unfolding finish_component_def by (intro raises)

lemma decode_type_error:
  "wf_tag (tlv_tag t) \<Longrightarrow> raises_only {BerError, KeyError, MmsProtocolError} (decode_type_description t)"
  "wf_tag (tlv_tag u) \<Longrightarrow> raises_only {BerError, KeyError, MmsProtocolError} (decode_type_specification u)"
proof (induction t and u rule: decode_type_description_decode_type_specification.induct)
  case (1 t)
  show ?case
    unfolding decode_type_description.simps [of t]
    by (intro raises raises_tag_number_wf) (use 1 decode_tlv_wf_tag in simp_all)
next
  case (2 t)
  then show ?case unfolding decode_type_specification.simps [of t] by (intro raises) simp_all
qed

section \<open>Leaves\<close>

fun leaves :: "iecdata \<Rightarrow> iecdata list" where
  "leaves (StructureData ms) = concat (map leaves ms)"
| "leaves (ArrayData es) = concat (map leaves es)"
| "leaves d = [d]"

lemma map_zip_snd:
  assumes "length is = length xs" "\<And>i x. (i, x) \<in> set (zip is xs) \<Longrightarrow> g (i, x) = f x"
  shows "map g (zip is xs) = map f xs"
proof -
  have "map g (zip is xs) = map (\<lambda>p. f (snd p)) (zip is xs)" using assms(2) by (intro map_cong) auto
  also have "\<dots> = map f (map snd (zip is xs))" by simp
  finally show ?thesis using assms(1) by simp
qed

lemma label_leaves: "map snd (label d t prefix) = leaves d"
proof (induction d t prefix rule: label.induct)
  case (1 members t prefix)
  have "map snd (label (StructureData members) t prefix) =
      concat (map (\<lambda>(i, m). map snd (case member_type t i of (name, ctype) \<Rightarrow>
        label m ctype (if prefix \<noteq> [] then prefix @ asc ''.'' @ name else name))) (zip [0..<length members] members))"
    by (simp add: map_concat comp_def case_prod_unfold)
  also have "\<dots> = concat (map leaves members)"
    by (intro arg_cong [of _ _ concat] map_zip_snd) (use 1 in \<open>auto split: prod.splits\<close>)
  finally show ?case by simp
next
  case (2 elements t prefix)
  have "map snd (label (ArrayData elements) t prefix) =
      concat (map (\<lambda>(i, m). map snd (label m (element_type t) (prefix @ asc ''['' @ dec_nat i @ asc '']'')))
        (zip [0..<length elements] elements))"
    by (simp add: map_concat comp_def case_prod_unfold)
  also have "\<dots> = concat (map leaves elements)"
    by (intro arg_cong [of _ _ concat] map_zip_snd) (use 2 in \<open>auto split: prod.splits\<close>)
  finally show ?case by simp
qed simp_all

lemma get_variable_access_attributes_response_error:
  "raises_only {BerError, KeyError, MmsProtocolError} (get_variable_access_attributes_response content)"
  unfolding get_variable_access_attributes_response_def
  by (intro raises decode_type_error) (auto dest: decode_tlv_wf_tag)

section \<open>Properties\<close>

text \<open>A type whose description says everything is read back from its TypeDescription, nested structures and
  arrays included.\<close>
lemma type_round_trip:
  assumes "ok_type ty" "encode_type_description ty = Inr bs"
  shows "bindE (decode_tlv bs 0) decode_type_description = Inr ty"
  using described_description [OF encode_described [OF assms]] by auto

text \<open>The decoder of type descriptions ends on every input and raises \<^verbatim>\<open>BerError\<close>, \<^verbatim>\<open>KeyError\<close> or
  \<^verbatim>\<open>MmsProtocolError\<close> only.\<close>
lemma type_decode_raises:
  "raises_only {BerError, KeyError, MmsProtocolError} (get_variable_access_attributes_response content)"
  by (rule get_variable_access_attributes_response_error)

text \<open>\<^verbatim>\<open>label\<close> names every leaf of a value once, in order, whatever the type it is given.\<close>
lemma label_names_leaves: "map snd (label d t prefix) = leaves d"
  by (rule label_leaves)

end
