(* ===== verification/ServerModel.thy ===== *)
theory ServerModel
  imports MmsTypes MmsPdu Ethernet "HOL-Library.List_Lexorder" "HOL-Library.Sublist"
begin

text \<open>
  The values part of \<^verbatim>\<open>src/open61850/server/model.py\<close>: types of attributes, \<^verbatim>\<open>Node\<close> and \<^verbatim>\<open>IedModel\<close>. A node is a
  value of its own: a path of names stands for the reference the code keeps, and an assignment gives the new node and
  the paths of the leaves that changed, with their triggers. A dictionary is an association list in insertion order.
  A \<^verbatim>\<open>NamedType\<close>, for which the code asserts, never occurs in a server's model. Two floats that are the same Python
  object (a NaN assigned to where it was read from) are compared by their value only.
\<close>

section \<open>Codes\<close>

definition ACCESS_TEMPORARILY_UNAVAILABLE :: int where "ACCESS_TEMPORARILY_UNAVAILABLE = 2"
definition ACCESS_OBJECT_ACCESS_DENIED :: int where "ACCESS_OBJECT_ACCESS_DENIED = 3"
definition ACCESS_TYPE_INCONSISTENT :: int where "ACCESS_TYPE_INCONSISTENT = 7"
definition ACCESS_OBJECT_NON_EXISTENT :: int where "ACCESS_OBJECT_NON_EXISTENT = 10"
definition ACCESS_OBJECT_VALUE_INVALID :: int where "ACCESS_OBJECT_VALUE_INVALID = 11"

lemmas access_codes = ACCESS_TEMPORARILY_UNAVAILABLE_def ACCESS_OBJECT_ACCESS_DENIED_def ACCESS_TYPE_INCONSISTENT_def
  ACCESS_OBJECT_NON_EXISTENT_def ACCESS_OBJECT_VALUE_INVALID_def

definition WRITABLE_FCS :: "ustr list" where
  "WRITABLE_FCS = map asc [''CF'', ''DC'', ''SP'', ''SV'', ''SE'', ''BL'']"

section \<open>Values\<close>

text \<open>The value of a fresh attribute.\<close>

definition zero_bits :: "int option \<Rightarrow> iecdata" where
  "zero_bits n = (let bits = nat \<bar>case n of None \<Rightarrow> 0 | Some k \<Rightarrow> k\<bar>; octets = (bits + 7) div 8 in
     BitStringData (replicate octets 0) (int octets * 8 - int bits))"

fun default_value :: "mms_type \<Rightarrow> iecdata" where
  "default_value (StructureType components) = StructureData (map (\<lambda>(_, t). default_value t) components)"
| "default_value (ArrayType count element) = ArrayData (map (\<lambda>_. default_value element) [0..<nat count])"
| "default_value (PrimitiveType kind n) =
     (if kind = ''boolean'' then BoolData False
      else if kind = ''integer'' then IntData 0
      else if kind = ''unsigned'' then UIntData 0
      else if kind = ''float'' then FloatData (if n = Some 64 then F64 0 else F32 0)
      else if kind = ''bit-string'' then zero_bits n
      else if kind = ''utc-time'' then TimestampData 0 0
      else if kind = ''binary-time'' then RawData 0x8C [0, 0, 0, 0, 0, 0]
      else if kind = ''octet-string'' then
        OctetStringData (case n of Some k \<Rightarrow> if k > 0 then replicate (nat k) 0 else [] | None \<Rightarrow> [])
      else if kind = ''mms-string'' then MmsStringData []
      else VisibleStringData [])"
| "default_value (NamedType name) = VisibleStringData []"

text \<open>\<^verbatim>\<open>_KIND_CLASSES\<close>, and the sizes a value of a kind may have: exact, or up to its opposite when negative.\<close>

fun kind_accepts :: "string \<Rightarrow> iecdata \<Rightarrow> bool" where
  "kind_accepts kind (BoolData _) = (kind = ''boolean'')"
| "kind_accepts kind (IntData _) = (kind \<in> {''integer'', ''unsigned''})"
| "kind_accepts kind (UIntData _) = (kind = ''unsigned'')"
| "kind_accepts kind (FloatData _) = (kind = ''float'')"
| "kind_accepts kind (BitStringData _ _) = (kind = ''bit-string'')"
| "kind_accepts kind (TimestampData _ _) = (kind \<in> {''utc-time'', ''binary-time''})"
| "kind_accepts kind (RawData _ _) = (kind = ''binary-time'')"
| "kind_accepts kind (OctetStringData _) = (kind = ''octet-string'')"
| "kind_accepts kind (VisibleStringData _) = (kind \<in> {''visible-string'', ''mms-string''})"
| "kind_accepts kind (MmsStringData _) = (kind = ''mms-string'')"
| "kind_accepts kind (StructureData _) = False"
| "kind_accepts kind (ArrayData _) = False"

definition size_fits :: "int \<Rightarrow> int option \<Rightarrow> bool" where
  "size_fits actual n = (case n of None \<Rightarrow> True | Some k \<Rightarrow> if k > 0 then actual = k else actual \<le> - k)"

fun primitive_fits :: "string \<Rightarrow> int option \<Rightarrow> iecdata \<Rightarrow> bool" where
  "primitive_fits kind n (BitStringData v unused) =
     (kind_accepts kind (BitStringData v unused) \<and> size_fits (int (length v) * 8 - unused) n)"
| "primitive_fits kind n (VisibleStringData s) = (kind_accepts kind (VisibleStringData s) \<and> size_fits (int (length s)) n)"
| "primitive_fits kind n (MmsStringData s) = (kind_accepts kind (MmsStringData s) \<and> size_fits (int (length s)) n)"
| "primitive_fits kind n (OctetStringData s) = (kind_accepts kind (OctetStringData s) \<and> size_fits (int (length s)) n)"
| "primitive_fits kind n v = kind_accepts kind v"

fun fits :: "mms_type \<Rightarrow> iecdata \<Rightarrow> bool"
  and fits_members :: "(ustr \<times> mms_type) list \<Rightarrow> iecdata list \<Rightarrow> bool"
where
  "fits (StructureType components) v = (case v of StructureData ms \<Rightarrow> fits_members components ms | _ \<Rightarrow> False)"
| "fits (ArrayType count element) v =
     (case v of ArrayData es \<Rightarrow> int (length es) = count \<and> list_all (fits element) es | _ \<Rightarrow> False)"
| "fits (PrimitiveType kind n) v = primitive_fits kind n v"
| "fits (NamedType name) v = False"
| "fits_members [] vs = (vs = [])"
| "fits_members (p # ps) vs = (case vs of [] \<Rightarrow> False | v # rest \<Rightarrow> fits (snd p) v \<and> fits_members ps rest)"

text \<open>\<^verbatim>\<open>==\<close> of values: floats by their number (a NaN is not equal to itself, the zeros are), the rest by their fields.\<close>

fun float_eq :: "pyfloat \<Rightarrow> pyfloat \<Rightarrow> bool" where
  "float_eq (F32 a) (F32 b) = ((a = b \<and> a AND 0x7FFFFFFF \<le> 0x7F800000) \<or> (a AND 0x7FFFFFFF = 0 \<and> b AND 0x7FFFFFFF = 0))"
| "float_eq (F64 a) (F64 b) =
     ((a = b \<and> a AND 0x7FFFFFFFFFFFFFFF \<le> 0x7FF0000000000000)
      \<or> (a AND 0x7FFFFFFFFFFFFFFF = 0 \<and> b AND 0x7FFFFFFFFFFFFFFF = 0))"
| "float_eq _ _ = False"

fun data_eq :: "iecdata \<Rightarrow> iecdata \<Rightarrow> bool" and datas_eq :: "iecdata list \<Rightarrow> iecdata list \<Rightarrow> bool" where
  "data_eq (FloatData x) v = (case v of FloatData y \<Rightarrow> float_eq x y | _ \<Rightarrow> False)"
| "data_eq (StructureData xs) v = (case v of StructureData ys \<Rightarrow> datas_eq xs ys | _ \<Rightarrow> False)"
| "data_eq (ArrayData xs) v = (case v of ArrayData ys \<Rightarrow> datas_eq xs ys | _ \<Rightarrow> False)"
| "data_eq a v = (a = v)"
| "datas_eq [] vs = (vs = [])"
| "datas_eq (x # xs) vs = (case vs of [] \<Rightarrow> False | v # rest \<Rightarrow> data_eq x v \<and> datas_eq xs rest)"

section \<open>Nodes\<close>

datatype trigger = Dchg | Qchg | Dupd

datatype node = Node (n_name: ustr) (n_fc: "ustr option") (n_type: mms_type) (n_triggers: "trigger set")
  (n_children: "node list") (n_value: "iecdata option")

definition child :: "ustr \<Rightarrow> node list \<Rightarrow> node option" where
  "child name cs = find (\<lambda>c. n_name c = name) cs"

text \<open>\<^verbatim>\<open>children[name] = node\<close>: in its place when the name is there, else at the end.\<close>

fun put_child :: "node list \<Rightarrow> node \<Rightarrow> node list" where
  "put_child [] c = [c]"
| "put_child (d # ds) c = (if n_name d = n_name c then c # ds else d # put_child ds c)"

fun build :: "ustr option \<Rightarrow> ustr \<Rightarrow> mms_type \<Rightarrow> node" where
  "build fc name (StructureType components) =
     Node name fc (StructureType components) {} (foldl put_child [] (map (\<lambda>(n, t). build fc n t) components)) None"
| "build fc name (ArrayType count element) =
     Node name fc (ArrayType count element) {} (foldl put_child [] (map (\<lambda>i. build fc (dec_nat i) element) [0..<nat count])) None"
| "build fc name (PrimitiveType kind n) =
     Node name fc (PrimitiveType kind n) {} [] (Some (default_value (PrimitiveType kind n)))"
| "build fc name (NamedType ty) = Node name fc (NamedType ty) {} [] (Some (default_value (NamedType ty)))"

fun node_data :: "node \<Rightarrow> iecdata result" where
  "node_data (Node name fc ty tr cs v) =
     (if cs \<noteq> [] then
        mapE (\<lambda>ms. case ty of ArrayType _ _ \<Rightarrow> ArrayData ms | _ \<Rightarrow> StructureData ms) (traverse node_data cs)
      else case v of None \<Rightarrow> Inl AssertionError | Some d \<Rightarrow> Inr d)"

text \<open>\<^verbatim>\<open>leaves\<close>, by their paths below the node, and the leaf itself.\<close>

fun leaves :: "node \<Rightarrow> (ustr list \<times> node) list" where
  "leaves (Node name fc ty tr cs v) =
     (if cs = [] then [([name], Node name fc ty tr cs v)]
      else concat (map (\<lambda>c. map (\<lambda>(p, l). (name # p, l)) (leaves c)) cs))"

type_synonym change = "ustr list \<times> trigger set"

text \<open>\<^verbatim>\<open>assign\<close>: the new node, and the leaves that changed. A value without members raises AttributeError.\<close>

fun assign :: "node \<Rightarrow> iecdata \<Rightarrow> (node \<times> change list) result"
  and assign_children :: "node list \<Rightarrow> iecdata list \<Rightarrow> (node list \<times> change list) result"
where
  "assign (Node name fc ty tr cs v) d =
     (if cs \<noteq> [] then
        (case d of
           ArrayData ms \<Rightarrow> mapE (\<lambda>(cs', ch). (Node name fc ty tr cs' v, map (\<lambda>(p, t). (name # p, t)) ch)) (assign_children cs ms)
         | StructureData ms \<Rightarrow> mapE (\<lambda>(cs', ch). (Node name fc ty tr cs' v, map (\<lambda>(p, t). (name # p, t)) ch)) (assign_children cs ms)
         | _ \<Rightarrow> Inl AttributeError)
      else if (case v of None \<Rightarrow> False | Some w \<Rightarrow> data_eq w d) then Inr (Node name fc ty tr cs v, [])
      else Inr (Node name fc ty tr cs (Some d), [([name], tr)]))"
| "assign_children [] ms = Inr ([], [])"
| "assign_children (c # cs) ms =
     (case ms of
        [] \<Rightarrow> Inr (c # cs, [])
      | m # rest \<Rightarrow> bindE (assign c m) (\<lambda>(c', ch). mapE (\<lambda>(cs', chs). (c' # cs', ch @ chs)) (assign_children cs rest)))"

section \<open>The model\<close>

record setting_groups =
  sg_count :: int
  sg_resv_tms :: int
  sg_values :: "(int \<times> (ustr \<times> iecdata) list) list"

definition SGCB_RESV_TMS :: int where "SGCB_RESV_TMS = 300"

text \<open>\<^verbatim>\<open>group_key\<close> of a leaf, by its item's parts: \<^verbatim>\<open>LN.DO.DA\<close> without its FC.\<close>

fun join :: "nat \<Rightarrow> ustr list \<Rightarrow> ustr" where
  "join sep [] = []"
| "join sep [p] = p"
| "join sep (p # q # ps) = p @ sep # join sep (q # ps)"

definition group_key :: "ustr list \<Rightarrow> ustr" where
  "group_key parts = join 46 (hd parts # drop 2 parts)"

record ied_model =
  im_devices :: "(ustr \<times> (ustr \<times> node) list) list"
  im_data_sets :: "(object_name \<times> object_name list) list"
  im_groups :: "(ustr \<times> setting_groups) list"

fun descend :: "node option \<Rightarrow> ustr list \<Rightarrow> node option" where
  "descend n [] = n"
| "descend n (p # ps) = (case n of None \<Rightarrow> None | Some m \<Rightarrow> descend (child p (n_children m)) ps)"

definition domain_of :: "object_name \<Rightarrow> ustr" where
  "domain_of obj = (case on_domain obj of None \<Rightarrow> [] | Some d \<Rightarrow> d)"

definition path_of :: "object_name \<Rightarrow> ustr list" where "path_of obj = split_on 36 (on_item obj)"

definition node_at :: "ied_model \<Rightarrow> ustr \<Rightarrow> ustr list \<Rightarrow> node option" where
  "node_at m ld parts =
     (case map_of (im_devices m) ld of
        None \<Rightarrow> None
      | Some lns \<Rightarrow> (case parts of [] \<Rightarrow> None | p # ps \<Rightarrow> descend (map_of lns p) ps))"

definition find_node :: "ied_model \<Rightarrow> object_name \<Rightarrow> node option" where
  "find_node m obj = node_at m (domain_of obj) (path_of obj)"

text \<open>\<^verbatim>\<open>names\<close>: array elements have no names.\<close>

fun walk :: "node \<Rightarrow> ustr \<Rightarrow> ustr list" where
  "walk (Node name fc ty tr cs v) pre =
     pre # (case ty of ArrayType _ _ \<Rightarrow> [] | _ \<Rightarrow> concat (map (\<lambda>c. walk c (pre @ 36 # n_name c)) cs))"

definition names :: "ied_model \<Rightarrow> ustr \<Rightarrow> ustr list" where
  "names m ld =
     sort (concat (map (\<lambda>(ln, n). walk n ln) (case map_of (im_devices m) ld of None \<Rightarrow> [] | Some lns \<Rightarrow> lns)))"

definition read_node :: "ied_model \<Rightarrow> object_name \<Rightarrow> access_result result" where
  "read_node m obj =
     (case find_node m obj of
        None \<Rightarrow> Inr (Access_error ACCESS_OBJECT_NON_EXISTENT)
      | Some n \<Rightarrow> mapE Access_value (node_data n))"

definition get_node :: "ied_model \<Rightarrow> object_name \<Rightarrow> iecdata result" where
  "get_node m obj = (case find_node m obj of None \<Rightarrow> Inl KeyError | Some n \<Rightarrow> node_data n)"

text \<open>The mutation of a node in place: the node at the end of a path is replaced.\<close>

fun put_at :: "node \<Rightarrow> ustr list \<Rightarrow> node \<Rightarrow> node" where
  "put_at n [] x = x"
| "put_at n (p # ps) x =
     Node (n_name n) (n_fc n) (n_type n) (n_triggers n)
       (map (\<lambda>c. if n_name c = p then put_at c ps x else c) (n_children n)) (n_value n)"

definition put_node :: "ied_model \<Rightarrow> ustr \<Rightarrow> ustr list \<Rightarrow> node \<Rightarrow> ied_model" where
  "put_node m ld parts x =
     m\<lparr>im_devices := map (\<lambda>(d, lns). (d, if d = ld then
         map (\<lambda>(k, n). (k, if k = hd parts then put_at n (tl parts) x else n)) lns else lns)) (im_devices m)\<rparr>"

text \<open>What \<^verbatim>\<open>set\<close> and \<^verbatim>\<open>write\<close> share: assign to the node of a name; the changes with their domain and whole path, for the
  listeners. \<^verbatim>\<open>set\<close> is given Data here: the other Python values \<^verbatim>\<open>to_data\<close> takes are the application's.\<close>

definition assign_at :: "ied_model \<Rightarrow> object_name \<Rightarrow> node \<Rightarrow> iecdata \<Rightarrow> (ied_model \<times> (ustr \<times> change) list) result" where
  "assign_at m obj n d =
     mapE (\<lambda>(n', ch). (put_node m (domain_of obj) (path_of obj) n',
         map (\<lambda>(p, t). (domain_of obj, butlast (path_of obj) @ p, t)) ch)) (assign n d)"

definition set_node :: "ied_model \<Rightarrow> object_name \<Rightarrow> iecdata \<Rightarrow> (ied_model \<times> (ustr \<times> change) list) result" where
  "set_node m obj d =
     (case find_node m obj of
        None \<Rightarrow> Inl KeyError
      | Some n \<Rightarrow> if \<not> fits (n_type n) d then Inl TypeError else assign_at m obj n d)"

definition write_node :: "ied_model \<Rightarrow> object_name \<Rightarrow> iecdata \<Rightarrow> (int option \<times> ied_model \<times> (ustr \<times> change) list) result" where
  "write_node m obj d =
     (case find_node m obj of
        None \<Rightarrow> Inr (Some ACCESS_OBJECT_NON_EXISTENT, m, [])
      | Some n \<Rightarrow>
          if n_fc n \<notin> Some ` set WRITABLE_FCS then Inr (Some ACCESS_OBJECT_ACCESS_DENIED, m, [])
          else if \<not> fits (n_type n) d then Inr (Some ACCESS_TYPE_INCONSISTENT, m, [])
          else mapE (\<lambda>(m', ch). (None, m', ch)) (assign_at m obj n d))"

section \<open>Types of values\<close>

lemma fits_members_iff: "fits_members ps vs \<longleftrightarrow> list_all2 (\<lambda>p v. fits (snd p) v) ps vs"
  by (induction ps arbitrary: vs) (auto split: list.splits)

text \<open>Values that are equal, or the same object.\<close>

fun same_value :: "iecdata \<Rightarrow> iecdata \<Rightarrow> bool" and same_values :: "iecdata list \<Rightarrow> iecdata list \<Rightarrow> bool" where
  "same_value (FloatData x) v = (case v of FloatData y \<Rightarrow> x = y \<or> float_eq x y | _ \<Rightarrow> False)"
| "same_value (StructureData xs) v = (case v of StructureData ys \<Rightarrow> same_values xs ys | _ \<Rightarrow> False)"
| "same_value (ArrayData xs) v = (case v of ArrayData ys \<Rightarrow> same_values xs ys | _ \<Rightarrow> False)"
| "same_value a v = (a = v)"
| "same_values [] vs = (vs = [])"
| "same_values (x # xs) vs = (case vs of [] \<Rightarrow> False | v # rest \<Rightarrow> same_value x v \<and> same_values xs rest)"

lemma same_values_refl: "(\<And>d. d \<in> set ds \<Longrightarrow> same_value d d) \<Longrightarrow> same_values ds ds"
  by (induction ds) auto

lemma same_value_refl: "same_value d d"
  by (induction d) (auto intro: same_values_refl)

lemma data_eq_same: "data_eq d v \<Longrightarrow> same_value d v" "datas_eq ds vs \<Longrightarrow> same_values ds vs"
  by (induction d v and ds vs rule: data_eq_datas_eq.induct) (auto split: iecdata.splits list.splits)

lemma same_values_iff: "same_values xs ys \<longleftrightarrow> list_all2 same_value xs ys"
  by (induction xs arbitrary: ys) (auto split: list.splits)

text \<open>Types whose default value fits: those a server's model is made of.\<close>

definition known_kinds :: "string list" where
  "known_kinds = [''boolean'', ''integer'', ''unsigned'', ''float'', ''bit-string'', ''utc-time'', ''binary-time'',
     ''octet-string'', ''visible-string'', ''mms-string'']"

fun wf_type :: "mms_type \<Rightarrow> bool" where
  "wf_type (StructureType components) \<longleftrightarrow> components \<noteq> [] \<and> distinct (map fst components) \<and> list_all (\<lambda>p. wf_type (snd p)) components"
| "wf_type (ArrayType count element) \<longleftrightarrow> 0 < count \<and> wf_type element"
| "wf_type (PrimitiveType kind n) \<longleftrightarrow>
     kind \<in> set known_kinds \<and> (kind \<in> {''visible-string'', ''mms-string''} \<longrightarrow> (case n of None \<Rightarrow> True | Some k \<Rightarrow> k \<le> 0))"
| "wf_type (NamedType name) \<longleftrightarrow> False"

lemma size_fits_abs: "size_fits \<bar>case n of None \<Rightarrow> 0 | Some k \<Rightarrow> k\<bar> n"
  by (cases n) (simp_all add: size_fits_def)

lemma default_fits: "wf_type t \<Longrightarrow> fits t (default_value t)"
proof (induction t rule: wf_type.induct)
  case (1 components)
  then show ?case by (auto simp: fits_members_iff list_all2_map2 list_all_iff case_prod_unfold intro!: list.rel_refl_strong)
next
  case (2 count element)
  then show ?case by (simp add: list_all_iff)
next
  case (3 kind n)
  have "\<exists>v u. zero_bits n = BitStringData v u \<and> int (length v) * 8 - u = \<bar>case n of None \<Rightarrow> 0 | Some k \<Rightarrow> k\<bar>"
    unfolding zero_bits_def Let_def by (simp only: iecdata.inject ex_simps simp_thms length_replicate) simp
  then have bits: "primitive_fits ''bit-string'' n (zero_bits n)" using size_fits_abs [of n] by auto
  have octets: "primitive_fits ''octet-string'' n
      (OctetStringData (case n of Some k \<Rightarrow> if k > 0 then replicate (nat k) 0 else [] | None \<Rightarrow> []))"
    by (simp add: size_fits_def split: option.splits)
  have "kind = ''boolean'' \<or> kind = ''integer'' \<or> kind = ''unsigned'' \<or> kind = ''float'' \<or> kind = ''bit-string''
    \<or> kind = ''utc-time'' \<or> kind = ''binary-time'' \<or> kind = ''octet-string'' \<or> kind = ''visible-string'' \<or> kind = ''mms-string''"
    using 3 by (simp only: wf_type.simps known_kinds_def list.set insert_iff empty_iff simp_thms)
  moreover have "size_fits 0 n" if "kind = ''visible-string'' \<or> kind = ''mms-string''"
    using 3 that by (simp add: size_fits_def split: option.splits)
  ultimately show ?case using bits octets by (elim disjE) simp_all
qed simp

section \<open>Well-typed nodes\<close>

text \<open>The shape of a node follows its type, and leaves hold a value that fits.\<close>

fun wt :: "node \<Rightarrow> bool" where
  "wt (Node name fc ty tr cs v) \<longleftrightarrow>
     (case ty of
        StructureType components \<Rightarrow> cs \<noteq> [] \<and> map (\<lambda>c. (n_name c, n_type c)) cs = components \<and> distinct (map n_name cs) \<and> list_all wt cs
      | ArrayType count element \<Rightarrow>
          cs \<noteq> [] \<and> int (length cs) = count \<and> distinct (map n_name cs) \<and> list_all (\<lambda>c. n_type c = element) cs \<and> list_all wt cs
      | PrimitiveType kind n \<Rightarrow> cs = [] \<and> (\<exists>d. v = Some d \<and> fits ty d)
      | NamedType _ \<Rightarrow> False)"

abbreviation same_shape :: "node \<Rightarrow> node \<Rightarrow> bool" where
  "same_shape c c' \<equiv> n_name c' = n_name c \<and> n_type c' = n_type c \<and> n_fc c' = n_fc c \<and> n_triggers c' = n_triggers c \<and> wt c'"

definition assigned :: "node \<Rightarrow> iecdata \<Rightarrow> bool" where
  "assigned n d \<longleftrightarrow> (\<exists>n' ch d'. assign n d = Inr (n', ch) \<and> same_shape n n' \<and> node_data n' = Inr d' \<and> same_value d' d
     \<and> (ch = [] \<longrightarrow> n' = n))"

lemma assign_children_ok:
  assumes "\<And>c d. c \<in> set cs \<Longrightarrow> wt c \<Longrightarrow> fits (n_type c) d \<Longrightarrow> assigned c d" "list_all wt cs"
    "list_all2 (\<lambda>c m. fits (n_type c) m) cs ms"
  shows "\<exists>cs' ch ds. assign_children cs ms = Inr (cs', ch) \<and> list_all2 same_shape cs cs'
    \<and> traverse node_data cs' = Inr ds \<and> list_all2 same_value ds ms \<and> (ch = [] \<longrightarrow> cs' = cs)"
  using assms
proof (induction cs arbitrary: ms)
  case (Cons c cs)
  then obtain m rest where ms: "ms = m # rest" "fits (n_type c) m" "list_all2 (\<lambda>c m. fits (n_type c) m) cs rest"
    by (cases ms) auto
  obtain c' ch d' where c: "assign c m = Inr (c', ch)" "same_shape c c'" "node_data c' = Inr d'" "same_value d' m" "ch = [] \<longrightarrow> c' = c"
    using Cons.prems(1) [of c m] Cons.prems(2) ms(2) by (auto simp: assigned_def)
  obtain cs' chs ds where r: "assign_children cs rest = Inr (cs', chs)" "list_all2 same_shape cs cs'"
    "traverse node_data cs' = Inr ds" "list_all2 same_value ds rest" "chs = [] \<longrightarrow> cs' = cs"
    using Cons.IH [OF _ _ ms(3)] Cons.prems(1,2) by auto
  show ?case
    by (rule exI [of _ "c' # cs'"], rule exI [of _ "ch @ chs"], rule exI [of _ "d' # ds"]) (use c r in \<open>simp add: ms(1)\<close>)
qed simp

lemma same_shape_children:
  assumes "list_all2 same_shape cs cs'"
  shows "map n_name cs' = map n_name cs" "map n_type cs' = map n_type cs" "list_all wt cs'" "cs' = [] \<longleftrightarrow> cs = []"
    "map (\<lambda>c. (n_name c, n_type c)) cs' = map (\<lambda>c. (n_name c, n_type c)) cs"
    "list_all (\<lambda>c. n_type c = e) cs' = list_all (\<lambda>c. n_type c = e) cs"
  using assms by (induction rule: list_all2_induct) auto

lemma assign_ok: "wt n \<Longrightarrow> fits (n_type n) d \<Longrightarrow> assigned n d"
proof (induction n arbitrary: d)
  case (Node name fc ty tr cs v)
  show ?case
  proof (cases ty)
    case (PrimitiveType kind k)
    then obtain w where w: "cs = []" "v = Some w" "fits ty w" using Node.prems by auto
    show ?thesis
    proof (cases "data_eq w d")
      case True
      then show ?thesis using w Node.prems(1) data_eq_same(1) by (auto simp: assigned_def)
    next
      case False
      then show ?thesis using w Node.prems PrimitiveType by (auto simp: assigned_def same_value_refl)
    qed
  next
    case (StructureType components)
    then obtain ms where d: "d = StructureData ms" "fits_members components ms" using Node.prems by (auto split: iecdata.splits)
    have cs: "cs \<noteq> []" "map (\<lambda>c. (n_name c, n_type c)) cs = components" "distinct (map n_name cs)" "list_all wt cs"
      using Node.prems(1) StructureType by auto
    have "list_all2 (\<lambda>c m. fits (n_type c) m) cs ms" using d(2) unfolding cs(2) [symmetric] fits_members_iff list_all2_map1 by simp
    then obtain cs' ch ds where r: "assign_children cs ms = Inr (cs', ch)" "list_all2 same_shape cs cs'"
      "traverse node_data cs' = Inr ds" "list_all2 same_value ds ms" "ch = [] \<longrightarrow> cs' = cs"
      using assign_children_ok [of cs ms] Node.IH cs(4) by blast
    note sh = same_shape_children [OF r(2)]
    have data: "node_data (Node name fc ty tr cs' v) = Inr (StructureData ds)" using r(3) sh(4) cs(1) StructureType by simp
    show ?thesis unfolding assigned_def
      by (rule exI [of _ "Node name fc ty tr cs' v"], rule exI [of _ "map (\<lambda>(p, t). (name # p, t)) ch"], rule exI [of _ "StructureData ds"])
         (use r d cs sh data StructureType in \<open>simp add: same_values_iff\<close>)
  next
    case (ArrayType count element)
    then obtain ms where d: "d = ArrayData ms" "int (length ms) = count" "list_all (fits element) ms" using Node.prems by (auto split: iecdata.splits)
    have cs: "cs \<noteq> []" "int (length cs) = count" "distinct (map n_name cs)" "list_all (\<lambda>c. n_type c = element) cs" "list_all wt cs"
      using Node.prems(1) ArrayType by auto
    have "list_all2 (\<lambda>c m. fits (n_type c) m) cs ms" using d(2,3) cs(2,4) by (auto simp: list_all2_conv_all_nth list_all_length)
    then obtain cs' ch ds where r: "assign_children cs ms = Inr (cs', ch)" "list_all2 same_shape cs cs'"
      "traverse node_data cs' = Inr ds" "list_all2 same_value ds ms" "ch = [] \<longrightarrow> cs' = cs"
      using assign_children_ok [of cs ms] Node.IH cs(5) by blast
    note sh = same_shape_children [OF r(2)]
    have data: "node_data (Node name fc ty tr cs' v) = Inr (ArrayData ds)" using r(3) sh(4) cs(1) ArrayType by simp
    have "length cs' = length cs" using r(2) by (simp add: list_all2_lengthD)
    then show ?thesis unfolding assigned_def
      by (intro exI [of _ "Node name fc ty tr cs' v"] exI [of _ "map (\<lambda>(p, t). (name # p, t)) ch"] exI [of _ "ArrayData ds"])
         (use r d cs sh data ArrayType in \<open>simp add: same_values_iff\<close>)
  next
    case (NamedType x)
    then show ?thesis using Node.prems(1) by simp
  qed
qed

section \<open>Replacing a node\<close>

lemma child_Some: "child p cs = Some c \<Longrightarrow> c \<in> set cs \<and> n_name c = p"
  by (auto simp: child_def find_Some_iff in_set_conv_nth)

lemma child_map: "(\<And>c. c \<in> set cs \<Longrightarrow> n_name (f c) = n_name c) \<Longrightarrow> child q (map f cs) = map_option f (child q cs)"
  by (induction cs) (auto simp: child_def)

lemma descend_None [simp]: "descend None ps = None"
  by (cases ps) simp_all

lemma wt_children: "wt n \<Longrightarrow> c \<in> set (n_children n) \<Longrightarrow> wt c"
  by (cases n) (auto simp: list_all_iff split: mms_type.splits)

lemma descend_wt: "wt n \<Longrightarrow> descend (Some n) ps = Some x \<Longrightarrow> wt x"
proof (induction ps arbitrary: n)
  case (Cons p ps)
  then obtain c where "child p (n_children n) = Some c" by (cases "child p (n_children n)") auto
  then show ?case using Cons child_Some wt_children by fastforce
qed simp

lemma descend_name: "descend (Some n) ps = Some x \<Longrightarrow> n_name x = (if ps = [] then n_name n else last ps)"
proof (induction ps arbitrary: n)
  case (Cons p ps)
  then obtain c where c: "child p (n_children n) = Some c" by (cases "child p (n_children n)") auto
  then show ?case using Cons child_Some by fastforce
qed simp

lemma wt_change_children:
  assumes "wt (Node name fc ty tr cs v)" "list_all2 same_shape cs cs'"
  shows "wt (Node name fc ty tr cs' v)"
  using assms(1) same_shape_children [OF assms(2)] list_all2_lengthD [OF assms(2)] by (auto split: mms_type.splits)

lemma put_at_shape:
  assumes "wt n" "descend (Some n) ps = Some x" "same_shape x x'"
  shows "same_shape n (put_at n ps x')"
  using assms(1,2)
proof (induction ps arbitrary: n)
  case Nil
  then show ?case using assms(3) by simp
next
  case (Cons p ps)
  then obtain c where c: "child p (n_children n) = Some c" "descend (Some c) ps = Some x"
    by (cases "child p (n_children n)") auto
  obtain name fc ty tr cs v where n: "n = Node name fc ty tr cs v" by (cases n)
  let ?f = "\<lambda>d. if n_name d = p then put_at d ps x' else d"
  have dist: "distinct (map n_name cs)" "c \<in> set cs" "n_name c = p"
    using Cons.prems(1) c(1) child_Some [OF c(1)] n by (auto split: mms_type.splits)
  have unique: "d = c" if "d \<in> set cs" "n_name d = p" for d
    using that dist by (auto simp: distinct_map dest: inj_onD)
  have sh: "same_shape d (?f d)" if "d \<in> set cs" for d
    using that unique Cons.IH [OF _ c(2)] wt_children [OF Cons.prems(1)] n by auto
  have "list_all2 same_shape cs (map ?f cs)" unfolding list_all2_map2 by (rule list.rel_refl_strong) (rule sh)
  then have "wt (Node name fc ty tr (map ?f cs) v)" using Cons.prems(1) unfolding n by (rule wt_change_children [rotated])
  then show ?case by (simp add: n)
qed

lemma put_at_names: "n_name x' = n_name x \<Longrightarrow> descend (Some n) ps = Some x \<Longrightarrow> n_name (put_at n ps x') = n_name n"
  by (cases ps) auto

text \<open>The replaced node is found at its path, and the paths that are neither above nor below it find what they did.\<close>

lemma put_at_same:
  assumes "n_name x' = n_name x" "descend (Some n) ps = Some x"
  shows "descend (Some (put_at n ps x')) ps = Some x'"
  using assms(2)
proof (induction ps arbitrary: n)
  case (Cons p ps)
  then obtain c where c: "child p (n_children n) = Some c" "descend (Some c) ps = Some x"
    by (cases "child p (n_children n)") auto
  have x: "ps = [] \<Longrightarrow> n_name x' = p" using c child_Some assms(1) by auto
  have "child p (map (\<lambda>d. if n_name d = p then put_at d ps x' else d) (n_children n)) = Some (put_at c ps x')"
    using c(1) child_Some [OF c(1)] x by (subst child_map) (cases ps, auto)
  then show ?case using Cons.IH [OF c(2)] by simp
qed simp

lemma put_at_other:
  assumes "n_name x' = n_name x" "descend (Some n) ps = Some x" "\<not> prefix ps qs" "\<not> prefix qs ps"
  shows "descend (Some (put_at n ps x')) qs = descend (Some n) qs"
  using assms(2-4)
proof (induction ps arbitrary: n qs)
  case (Cons p ps)
  then obtain c where c: "child p (n_children n) = Some c" "descend (Some c) ps = Some x"
    by (cases "child p (n_children n)") auto
  obtain q rest where q: "qs = q # rest" using Cons.prems(3) by (cases qs) auto
  have x: "ps = [] \<Longrightarrow> n_name x' = p" using c child_Some assms(1) by auto
  have ch: "child q (map (\<lambda>d. if n_name d = p then put_at d ps x' else d) (n_children n))
      = map_option (\<lambda>d. if n_name d = p then put_at d ps x' else d) (child q (n_children n))"
    using x by (subst child_map) (cases ps, auto)
  show ?case
  proof (cases "q = p")
    case True
    then have "descend (Some (put_at c ps x')) rest = descend (Some c) rest"
      using Cons.IH [OF c(2)] Cons.prems(2,3) q by simp
    then show ?thesis using True q ch c(1) child_Some [OF c(1)] by simp
  next
    case False
    then have "map_option (\<lambda>d. if n_name d = p then put_at d ps x' else d) (child q (n_children n)) = child q (n_children n)"
      using child_Some [of q "n_children n"] by (cases "child q (n_children n)") auto
    then show ?thesis using q ch by simp
  qed
qed simp

section \<open>The model stays well typed\<close>

definition wt_lns :: "(ustr \<times> node) list \<Rightarrow> bool" where
  "wt_lns lns \<longleftrightarrow> distinct (map fst lns) \<and> (\<forall>(k, n) \<in> set lns. n_name n = k \<and> wt n)"

definition wt_model :: "ied_model \<Rightarrow> bool" where
  "wt_model m \<longleftrightarrow> distinct (map fst (im_devices m)) \<and> (\<forall>(d, lns) \<in> set (im_devices m). wt_lns lns)"

lemma node_at_Some:
  assumes "node_at m ld parts = Some x"
  shows "\<exists>lns n. map_of (im_devices m) ld = Some lns \<and> parts \<noteq> [] \<and> map_of lns (hd parts) = Some n
    \<and> descend (Some n) (tl parts) = Some x"
proof -
  obtain lns where lns: "map_of (im_devices m) ld = Some lns" using assms by (auto simp: node_at_def split: option.splits)
  obtain p ps where parts: "parts = p # ps" using assms lns by (cases parts) (simp_all add: node_at_def)
  obtain n where "map_of lns p = Some n" using assms lns parts by (cases "map_of lns p") (simp_all add: node_at_def)
  then show ?thesis using assms lns parts by (simp add: node_at_def)
qed

lemma wt_model_ln:
  assumes "wt_model m" "map_of (im_devices m) ld = Some lns" "map_of lns k = Some n"
  shows "n_name n = k" "wt n"
proof -
  have "(ld, lns) \<in> set (im_devices m)" "(k, n) \<in> set lns" using assms by (auto dest: map_of_SomeD)
  then show "n_name n = k" "wt n" using assms(1) unfolding wt_model_def wt_lns_def by fast+
qed

lemma node_at_wt: "wt_model m \<Longrightarrow> node_at m ld parts = Some x \<Longrightarrow> wt x \<and> n_name x = last parts"
proof -
  assume m: "wt_model m" and x: "node_at m ld parts = Some x"
  obtain lns n where n: "map_of (im_devices m) ld = Some lns" "parts \<noteq> []" "map_of lns (hd parts) = Some n"
    "descend (Some n) (tl parts) = Some x" using node_at_Some [OF x] by blast
  show ?thesis using descend_wt [OF _ n(4)] descend_name [OF n(4)] wt_model_ln [OF m n(1,3)] n(2)
    by (cases parts) auto
qed

lemma map_of_map_snd: "map_of (map (\<lambda>(k, v). (k, f k v)) xs) y = map_option (f y) (map_of xs y)"
  by (induction xs) auto

lemma put_node_devices:
  "map_of (im_devices (put_node m ld parts x)) d = map_option (\<lambda>lns. if d = ld then
     map (\<lambda>(k, n). (k, if k = hd parts then put_at n (tl parts) x else n)) lns else lns) (map_of (im_devices m) d)"
  unfolding put_node_def by (simp add: map_of_map_snd)

lemma put_node_wt:
  assumes m: "wt_model m" and x: "node_at m ld parts = Some x" and s: "same_shape x x'"
  shows "wt_model (put_node m ld parts x')"
proof -
  obtain lns n where n: "map_of (im_devices m) ld = Some lns" "parts \<noteq> []" "map_of lns (hd parts) = Some n"
    "descend (Some n) (tl parts) = Some x" using node_at_Some [OF x] by blast
  have sh: "same_shape n (put_at n (tl parts) x')" using wt_model_ln(2) [OF m n(1,3)] n(4) s by (rule put_at_shape)
  have lns: "wt_lns l" if "(d, l) \<in> set (im_devices m)" for d l
    using m that unfolding wt_model_def by auto
  have dist: "distinct (map fst (im_devices m))" using m unfolding wt_model_def by simp
  let ?f = "\<lambda>k a. if k = hd parts then put_at a (tl parts) x' else a"
  have "wt_lns (map (\<lambda>(k, a). (k, ?f k a)) lns)"
  proof -
    have l: "distinct (map fst lns)" "\<And>k a. (k, a) \<in> set lns \<Longrightarrow> n_name a = k \<and> wt a"
      using lns [of ld lns] n(1) by (auto simp: wt_lns_def dest: map_of_SomeD)
    have "n_name (?f k a) = k \<and> wt (?f k a)" if "(k, a) \<in> set lns" for k a
    proof (cases "k = hd parts")
      case True
      then have "a = n" using eq_key_imp_eq_value [OF l(1) that] map_of_SomeD [OF n(3)] by simp
      then show ?thesis using True sh l(2) [OF that] by simp
    qed (use l(2) that in simp)
    then show ?thesis using l(1) by (auto simp: wt_lns_def case_prod_unfold comp_def)
  qed
  then have "wt_lns (if d = ld then map (\<lambda>(k, a). (k, ?f k a)) l else l)" if "(d, l) \<in> set (im_devices m)" for d l
    using that lns n(1) dist by (cases "d = ld") auto
  then have "\<forall>(d, l) \<in> set (im_devices (put_node m ld parts x')). wt_lns l" unfolding put_node_def by auto
  moreover have "map fst (im_devices (put_node m ld parts x')) = map fst (im_devices m)"
    by (simp add: put_node_def case_prod_unfold comp_def)
  ultimately show ?thesis using dist unfolding wt_model_def by simp
qed

lemma put_node_same:
  assumes x: "node_at m ld parts = Some x" and s: "n_name x' = n_name x"
  shows "node_at (put_node m ld parts x') ld parts = Some x'"
proof -
  obtain lns n where n: "map_of (im_devices m) ld = Some lns" "parts \<noteq> []" "map_of lns (hd parts) = Some n"
    "descend (Some n) (tl parts) = Some x" using node_at_Some [OF x] by blast
  then show ?thesis using put_at_same [OF s n(4)]
    by (cases parts) (simp_all add: node_at_def put_node_devices map_of_map_snd)
qed

lemma put_node_other:
  assumes x: "node_at m ld parts = Some x" and s: "n_name x' = n_name x"
    and other: "d \<noteq> ld \<or> \<not> prefix parts qs \<and> \<not> prefix qs parts"
  shows "node_at (put_node m ld parts x') d qs = node_at m d qs"
proof (cases "d = ld")
  case False
  then show ?thesis by (cases "map_of (im_devices m) d") (simp_all add: node_at_def put_node_devices)
next
  case True
  obtain lns n where n: "map_of (im_devices m) ld = Some lns" "parts \<noteq> []" "map_of lns (hd parts) = Some n"
    "descend (Some n) (tl parts) = Some x" using node_at_Some [OF x] by blast
  obtain p ps where parts: "parts = p # ps" using n(2) by (cases parts) simp_all
  show ?thesis
  proof (cases qs)
    case (Cons q rest)
    then have "q \<noteq> p \<or> \<not> prefix ps rest \<and> \<not> prefix rest ps" using other True parts by auto
    then show ?thesis using True n parts Cons put_at_other [OF s n(4), of rest]
      by (cases "map_of lns q") (auto simp: node_at_def put_node_devices map_of_map_snd)
  qed (simp add: node_at_def put_node_devices n(1) True)
qed

section \<open>Reading and writing\<close>

lemma wt_data: "wt n \<Longrightarrow> \<exists>d. node_data n = Inr d \<and> fits (n_type n) d"
proof (induction n)
  case (Node name fc ty tr cs v)
  have all: "\<exists>ds. traverse node_data cs' = Inr ds \<and> list_all2 (\<lambda>c d. fits (n_type c) d) cs' ds"
    if "list_all wt cs'" "set cs' \<subseteq> set cs" for cs'
    using that
  proof (induction cs')
    case (Cons c cs')
    then obtain d ds where "node_data c = Inr d" "fits (n_type c) d" "traverse node_data cs' = Inr ds"
      "list_all2 (\<lambda>c d. fits (n_type c) d) cs' ds" using Node.IH [of c] by auto
    then show ?case by simp
  qed simp
  show ?case
  proof (cases ty)
    case (StructureType components)
    then have cs: "cs \<noteq> []" "map (\<lambda>c. (n_name c, n_type c)) cs = components" "list_all wt cs" using Node.prems by auto
    obtain ds where ds: "traverse node_data cs = Inr ds" "list_all2 (\<lambda>c d. fits (n_type c) d) cs ds" using all [OF cs(3)] by blast
    then have "fits_members components ds" unfolding cs(2) [symmetric] fits_members_iff list_all2_map1 by simp
    then show ?thesis using cs ds StructureType by simp
  next
    case (ArrayType count element)
    then have cs: "cs \<noteq> []" "int (length cs) = count" "list_all (\<lambda>c. n_type c = element) cs" "list_all wt cs" using Node.prems by auto
    obtain ds where ds: "traverse node_data cs = Inr ds" "list_all2 (\<lambda>c d. fits (n_type c) d) cs ds" using all [OF cs(4)] by blast
    then have "list_all (fits element) ds \<and> int (length ds) = count"
      using cs by (auto simp: list_all2_conv_all_nth list_all_length)
    then show ?thesis using cs ds ArrayType by simp
  qed (use Node.prems in auto)
qed

definition overlapping :: "object_name \<Rightarrow> object_name \<Rightarrow> bool" where
  "overlapping a b \<longleftrightarrow> domain_of a = domain_of b \<and> (prefix (path_of a) (path_of b) \<or> prefix (path_of b) (path_of a))"

lemma path_of_nonempty [simp]: "path_of obj \<noteq> []"
  by (simp add: path_of_def)

lemma put_at_id: "wt r \<Longrightarrow> descend (Some r) ps = Some n \<Longrightarrow> put_at r ps n = r"
proof (induction ps arbitrary: r)
  case (Cons p ps)
  then obtain c where c: "child p (n_children r) = Some c" "descend (Some c) ps = Some n"
    by (cases "child p (n_children r)") auto
  have "distinct (map n_name (n_children r))" using Cons.prems(1) by (cases r) (auto split: mms_type.splits)
  then have "d = c" if "d \<in> set (n_children r)" "n_name d = p" for d
    using that child_Some [OF c(1)] by (auto simp: distinct_map dest: inj_onD)
  then have "map (\<lambda>d. if n_name d = p then put_at d ps n else d) (n_children r) = n_children r"
    using Cons.IH [OF _ c(2)] wt_children [OF Cons.prems(1)] by (auto intro!: map_idI)
  then show ?case by (cases r) simp
qed simp

lemma put_node_id:
  assumes m: "wt_model m" and x: "node_at m ld parts = Some x"
  shows "put_node m ld parts x = m"
proof -
  obtain lns n where n: "map_of (im_devices m) ld = Some lns" "parts \<noteq> []" "map_of lns (hd parts) = Some n"
    "descend (Some n) (tl parts) = Some x" using node_at_Some [OF x] by blast
  have id: "put_at n (tl parts) x = n" using wt_model_ln(2) [OF m n(1,3)] n(4) by (rule put_at_id)
  have dist: "distinct (map fst (im_devices m))" "distinct (map fst lns)"
    using m map_of_SomeD [OF n(1)] by (auto simp: wt_model_def wt_lns_def)
  have "map (\<lambda>(k, a). (k, if k = hd parts then put_at a (tl parts) x else a)) lns = lns"
    using eq_key_imp_eq_value [OF dist(2) _ map_of_SomeD [OF n(3)]] id by (auto intro!: map_idI)
  then have lns: "map (\<lambda>(k, a). (k, if k = hd parts then put_at a (tl parts) x else a)) lns = lns" .
  have "map (\<lambda>(d, l). (d, if d = ld then map (\<lambda>(k, a). (k, if k = hd parts then put_at a (tl parts) x else a)) l else l))
      (im_devices m) = im_devices m" (is "map ?g _ = _")
  proof (intro map_idI)
    fix e
    assume e: "e \<in> set (im_devices m)"
    obtain d l where dl: "e = (d, l)" by (cases e)
    show "?g e = e"
    proof (cases "d = ld")
      case True
      then have "l = lns" using eq_key_imp_eq_value [OF dist(1) _ map_of_SomeD [OF n(1)], of l] e dl by simp
      then show ?thesis using lns True by (simp only: dl case_prod_conv if_True refl)
    qed (simp add: dl)
  qed
  then show ?thesis by (simp add: put_node_def)
qed

lemma assign_at_sound:
  assumes m: "wt_model m" and n: "find_node m obj = Some n" and d: "fits (n_type n) d"
  shows "\<exists>m' ch. assign_at m obj n d = Inr (m', ch) \<and> wt_model m' \<and> (ch = [] \<longrightarrow> m' = m)
    \<and> (\<exists>d'. read_node m' obj = Inr (Access_value d') \<and> same_value d' d)
    \<and> (\<forall>other. \<not> overlapping obj other \<longrightarrow> find_node m' other = find_node m other)"
proof -
  have at: "node_at m (domain_of obj) (path_of obj) = Some n" using n by (simp add: find_node_def)
  have wt: "wt n" using node_at_wt [OF m at] by simp
  obtain n' ch d' where a: "assign n d = Inr (n', ch)" "same_shape n n'" "node_data n' = Inr d'" "same_value d' d" "ch = [] \<longrightarrow> n' = n"
    using assign_ok [OF wt d] by (auto simp: assigned_def)
  let ?m = "put_node m (domain_of obj) (path_of obj) n'"
  have same: "find_node ?m obj = Some n'" using put_node_same [OF at] a(2) by (simp add: find_node_def)
  have other: "find_node ?m other = find_node m other" if "\<not> overlapping obj other" for other
    using put_node_other [OF at, of n' "domain_of other" "path_of other"] a(2) that
    by (auto simp: find_node_def overlapping_def)
  have "ch = [] \<Longrightarrow> ?m = m" using a(5) put_node_id [OF m at] by simp
  then show ?thesis using a same other put_node_wt [OF m at a(2)]
    by (simp add: assign_at_def read_node_def)
qed

lemma write_node_sound:
  assumes m: "wt_model m"
  shows "\<exists>r m' ch. write_node m obj d = Inr (r, m', ch) \<and> wt_model m' \<and> (ch = [] \<longrightarrow> m' = m) \<and> (r \<noteq> None \<longrightarrow> ch = [])
    \<and> (r = None \<longrightarrow> (\<exists>d'. read_node m' obj = Inr (Access_value d') \<and> same_value d' d))
    \<and> (r = None \<longleftrightarrow> (\<exists>n. find_node m obj = Some n \<and> n_fc n \<in> Some ` set WRITABLE_FCS \<and> fits (n_type n) d))
    \<and> (\<forall>other. \<not> overlapping obj other \<longrightarrow> find_node m' other = find_node m other)"
proof (cases "find_node m obj")
  case (Some n)
  then show ?thesis using m assign_at_sound [OF m Some, of d] by (auto simp: write_node_def)
qed (simp add: write_node_def m)

lemma set_node_sound:
  assumes m: "wt_model m" and s: "set_node m obj d = Inr (m', ch)"
  shows "wt_model m'" "ch = [] \<Longrightarrow> m' = m" "\<exists>d'. read_node m' obj = Inr (Access_value d') \<and> same_value d' d"
    "\<not> overlapping obj other \<Longrightarrow> find_node m' other = find_node m other"
proof -
  obtain n where n: "find_node m obj = Some n" "fits (n_type n) d" "assign_at m obj n d = Inr (m', ch)"
    using s by (auto simp: set_node_def split: option.splits if_splits)
  show "wt_model m'" "ch = [] \<Longrightarrow> m' = m" "\<exists>d'. read_node m' obj = Inr (Access_value d') \<and> same_value d' d"
    "\<not> overlapping obj other \<Longrightarrow> find_node m' other = find_node m other"
    using assign_at_sound [OF m n(1,2)] n(3) by auto
qed

lemma set_node_raises: "wt_model m \<Longrightarrow> raises_only {KeyError, TypeError} (set_node m obj d)"
  using assign_at_sound [of m obj _ d] by (fastforce simp: set_node_def raises_only_def split: option.splits)

lemma read_node_total: "wt_model m \<Longrightarrow> \<exists>r. read_node m obj = Inr r"
proof (cases "find_node m obj")
  case (Some n)
  moreover assume "wt_model m"
  ultimately show ?thesis using wt_data [of n] node_at_wt [of m "domain_of obj" "path_of obj" n]
    by (auto simp: read_node_def find_node_def)
qed (simp add: read_node_def)

section \<open>Names\<close>

text \<open>The way to a node that crosses no array.\<close>

fun named_path :: "node \<Rightarrow> ustr list \<Rightarrow> bool" where
  "named_path n [] \<longleftrightarrow> True"
| "named_path n (p # ps) \<longleftrightarrow> (\<forall>k e. n_type n \<noteq> ArrayType k e) \<and> (\<exists>c. child p (n_children n) = Some c \<and> named_path c ps)"

fun plain :: "node \<Rightarrow> bool" where
  "plain (Node name fc ty tr cs v) \<longleftrightarrow> 36 \<notin> set name \<and> distinct (map n_name cs) \<and> list_all plain cs"

definition item_from :: "ustr \<Rightarrow> ustr list \<Rightarrow> ustr" where
  "item_from ln ps = ln @ concat (map (\<lambda>p. 36 # p) ps)"

lemma item_from_Cons: "item_from ln (p # ps) = item_from (ln @ 36 # p) ps"
  by (simp add: item_from_def)

lemma set_walk:
  assumes "plain n"
  shows "x \<in> set (walk n pre) \<longleftrightarrow> (\<exists>ps. named_path n ps \<and> x = item_from pre ps)"
  using assms
proof (induction n arbitrary: pre x)
  case (Node name fc ty tr cs v)
  let ?n = "Node name fc ty tr cs v"
  have paths: "(\<exists>ps. named_path ?n ps \<and> x = item_from pre ps) \<longleftrightarrow> x = pre \<or>
      ((\<forall>k e. ty \<noteq> ArrayType k e) \<and> (\<exists>c \<in> set cs. \<exists>ps. named_path c ps \<and> x = item_from (pre @ 36 # n_name c) ps))"
  proof (intro iffI)
    assume "\<exists>ps. named_path ?n ps \<and> x = item_from pre ps"
    then obtain ps where ps: "named_path ?n ps" "x = item_from pre ps" by blast
    show "x = pre \<or> ((\<forall>k e. ty \<noteq> ArrayType k e) \<and> (\<exists>c \<in> set cs. \<exists>ps. named_path c ps \<and> x = item_from (pre @ 36 # n_name c) ps))"
    proof (cases ps)
      case (Cons p rest)
      then show ?thesis using ps child_Some [of p cs] by (auto simp: item_from_Cons)
    qed (use ps in \<open>simp add: item_from_def\<close>)
  next
    assume "x = pre \<or> ((\<forall>k e. ty \<noteq> ArrayType k e) \<and> (\<exists>c \<in> set cs. \<exists>ps. named_path c ps \<and> x = item_from (pre @ 36 # n_name c) ps))"
    then show "\<exists>ps. named_path ?n ps \<and> x = item_from pre ps"
    proof
      assume "x = pre"
      then show ?thesis by (intro exI [of _ "[]"]) (simp add: item_from_def)
    next
      assume "(\<forall>k e. ty \<noteq> ArrayType k e) \<and> (\<exists>c \<in> set cs. \<exists>ps. named_path c ps \<and> x = item_from (pre @ 36 # n_name c) ps)"
      then obtain c ps where c: "\<forall>k e. ty \<noteq> ArrayType k e" "c \<in> set cs" "named_path c ps" "x = item_from (pre @ 36 # n_name c) ps" by blast
      have "child (n_name c) cs = Some c" using c(2) Node.prems
        by (induction cs) (auto simp: child_def)
      then show ?thesis using c by (intro exI [of _ "n_name c # ps"]) (simp add: item_from_Cons)
    qed
  qed
  show ?case unfolding paths using Node.IH Node.prems by (cases ty) (auto simp: list_all_iff)
qed

lemma split_item: "36 \<notin> set ln \<Longrightarrow> \<forall>p \<in> set ps. 36 \<notin> set p \<Longrightarrow> split_on 36 (item_from ln ps) = ln # ps"
proof (induction ps arbitrary: ln)
  case Nil
  then show ?case by (simp add: item_from_def split_on_last)
next
  case (Cons p ps)
  have "item_from ln (p # ps) = ln @ 36 # item_from p ps" by (simp add: item_from_def)
  then show ?case using Cons by (simp add: split_on_app)
qed

lemma split_join: "\<forall>p \<in> set (q # ps). sep \<notin> set p \<Longrightarrow> split_on sep (join sep (q # ps)) = q # ps"
proof (induction ps arbitrary: q)
  case Nil
  then show ?case by (simp add: split_on_last)
next
  case (Cons p ps)
  then show ?case by (simp add: split_on_app)
qed

lemma join_split: "join sep (split_on sep s) = s"
proof (induction s)
  case (Cons c cs)
  obtain p ps where "split_on sep cs = p # ps" by (cases "split_on sep cs") simp_all
  then show ?case using Cons by (cases ps) auto
qed simp

lemma named_path_descend: "named_path n ps \<Longrightarrow> \<exists>x. descend (Some n) ps = Some x"
  by (induction ps arbitrary: n) auto

lemma named_path_plain: "plain n \<Longrightarrow> named_path n ps \<Longrightarrow> p \<in> set ps \<Longrightarrow> 36 \<notin> set p"
proof (induction ps arbitrary: n)
  case (Cons q ps)
  then obtain c where c: "child q (n_children n) = Some c" "named_path c ps" by auto
  have "plain c \<and> n_name c = q" using child_Some [OF c(1)] Cons.prems(1) by (cases n) (auto simp: list_all_iff)
  moreover then have "36 \<notin> set q" by (cases c) auto
  ultimately show ?case using Cons.IH [OF _ c(2)] Cons.prems(3) by auto
qed simp

definition plain_model :: "ied_model \<Rightarrow> bool" where
  "plain_model m \<longleftrightarrow> (\<forall>(d, lns) \<in> set (im_devices m). distinct (map fst lns) \<and> (\<forall>(k, n) \<in> set lns. n_name n = k \<and> plain n))"

lemma set_names:
  assumes "plain_model m" "map_of (im_devices m) ld = Some lns"
  shows "x \<in> set (names m ld) \<longleftrightarrow> (\<exists>k n ps. map_of lns k = Some n \<and> named_path n ps \<and> x = item_from k ps)"
proof -
  have l: "distinct (map fst lns)" "\<And>k n. (k, n) \<in> set lns \<Longrightarrow> n_name n = k \<and> plain n"
    using assms map_of_SomeD [OF assms(2)] by (auto simp: plain_model_def)
  have "x \<in> set (names m ld) \<longleftrightarrow> (\<exists>(k, n) \<in> set lns. x \<in> set (walk n k))"
    by (simp add: names_def assms(2) case_prod_unfold)
  also have "\<dots> \<longleftrightarrow> (\<exists>k n. (k, n) \<in> set lns \<and> (\<exists>ps. named_path n ps \<and> x = item_from k ps))"
    using l(2) set_walk by fast
  also have "\<dots> \<longleftrightarrow> (\<exists>k n ps. map_of lns k = Some n \<and> named_path n ps \<and> x = item_from k ps)"
    using l(1) by auto
  finally show ?thesis .
qed

lemma names_found:
  assumes "plain_model m" "x \<in> set (names m ld)"
  shows "\<exists>n. find_node m \<lparr>on_item = x, on_domain = Some ld\<rparr> = Some n"
proof (cases "map_of (im_devices m) ld")
  case (Some lns)
  obtain k n ps where n: "map_of lns k = Some n" "named_path n ps" "x = item_from k ps"
    using assms(2) set_names [OF assms(1) Some] by blast
  have "n_name n = k \<and> plain n" using assms(1) map_of_SomeD [OF Some] map_of_SomeD [OF n(1)] by (auto simp: plain_model_def)
  then have "split_on 36 x = k # ps" using named_path_plain [OF _ n(2)] n(3) by (cases n) (auto intro!: split_item)
  then show ?thesis using named_path_descend [OF n(2)] n(1) Some
    by (simp add: find_node_def node_at_def domain_of_def path_of_def)
qed (use assms(2) in \<open>simp add: names_def\<close>)

section \<open>What an assignment never changes\<close>

text \<open>A node without its values: names, FCs, types and triggers.\<close>

fun skeleton :: "node \<Rightarrow> node" where
  "skeleton (Node name fc ty tr cs v) = Node name fc ty tr (map skeleton cs) None"

lemma skeleton_simps [simp]:
  "n_name (skeleton n) = n_name n" "n_fc (skeleton n) = n_fc n" "n_type (skeleton n) = n_type n"
  "n_triggers (skeleton n) = n_triggers n" "n_children (skeleton n) = map skeleton (n_children n)"
  by (cases n; simp)+

lemma assign_skeleton:
  "assign n d = Inr (n', ch) \<Longrightarrow> skeleton n' = skeleton n"
  "assign_children cs ms = Inr (cs', ch) \<Longrightarrow> map skeleton cs' = map skeleton cs"
  by (induction n d and cs ms arbitrary: n' ch and cs' ch rule: assign_assign_children.induct)
     (force simp: mapE_Inr_iff bindE_Inr_iff split: if_splits iecdata.splits list.splits option.splits)+

lemma child_skeleton: "map_option skeleton (child p cs) = child p (map skeleton cs)"
  by (induction cs) (simp_all add: child_def)

lemma descend_skeleton: "map_option skeleton (descend (Some n) ps) = descend (Some (skeleton n)) ps"
proof (induction ps arbitrary: n)
  case (Cons p ps)
  then show ?case using child_skeleton [of p "n_children n"] by (cases "child p (n_children n)") auto
qed simp

lemma put_at_skeleton:
  assumes "wt n" "descend (Some n) ps = Some x" "skeleton x' = skeleton x"
  shows "skeleton (put_at n ps x') = skeleton n"
  using assms(1,2)
proof (induction ps arbitrary: n)
  case (Cons p ps)
  then obtain c where c: "child p (n_children n) = Some c" "descend (Some c) ps = Some x"
    by (cases "child p (n_children n)") auto
  have "distinct (map n_name (n_children n))" using Cons.prems(1) by (cases n) (auto split: mms_type.splits)
  then have "d = c" if "d \<in> set (n_children n)" "n_name d = p" for d
    using that child_Some [OF c(1)] by (auto simp: distinct_map dest: inj_onD)
  then have "map skeleton (map (\<lambda>d. if n_name d = p then put_at d ps x' else d) (n_children n)) = map skeleton (n_children n)"
    using Cons.IH [OF _ c(2)] wt_children [OF Cons.prems(1)] by (auto simp: comp_def)
  then show ?case by (cases n) simp
qed (simp add: assms(3))

definition model_skeleton :: "ied_model \<Rightarrow> (ustr \<times> (ustr \<times> node) list) list" where
  "model_skeleton m = map (\<lambda>(d, lns). (d, map (\<lambda>(k, n). (k, skeleton n)) lns)) (im_devices m)"

lemma put_node_skeleton:
  assumes m: "wt_model m" and x: "node_at m ld parts = Some x" and s: "skeleton x' = skeleton x"
  shows "model_skeleton (put_node m ld parts x') = model_skeleton m"
proof -
  obtain lns n where n: "map_of (im_devices m) ld = Some lns" "parts \<noteq> []" "map_of lns (hd parts) = Some n"
    "descend (Some n) (tl parts) = Some x" using node_at_Some [OF x] by blast
  have sk: "skeleton (put_at n (tl parts) x') = skeleton n" using wt_model_ln(2) [OF m n(1,3)] n(4) s by (rule put_at_skeleton)
  have dist: "distinct (map fst (im_devices m))" "distinct (map fst lns)"
    using m map_of_SomeD [OF n(1)] by (auto simp: wt_model_def wt_lns_def)
  let ?f = "\<lambda>k a. if k = hd parts then put_at a (tl parts) x' else a"
  have "skeleton (?f k a) = skeleton a" if "(k, a) \<in> set lns" for k a
  proof (cases "k = hd parts")
    case True
    then have "a = n" using eq_key_imp_eq_value [OF dist(2) that] map_of_SomeD [OF n(3)] by simp
    then show ?thesis using True sk by simp
  qed simp
  then have lns: "map (\<lambda>(k, n). (k, skeleton n)) (map (\<lambda>(k, a). (k, ?f k a)) lns) = map (\<lambda>(k, n). (k, skeleton n)) lns"
    by (auto simp: comp_def)
  have "map (\<lambda>(k, n). (k, skeleton n)) (if d = ld then map (\<lambda>(k, a). (k, ?f k a)) l else l) = map (\<lambda>(k, n). (k, skeleton n)) l"
    if "(d, l) \<in> set (im_devices m)" for d l
  proof (cases "d = ld")
    case True
    then have "l = lns" using that eq_key_imp_eq_value [OF dist(1) _ map_of_SomeD [OF n(1)], of l] by simp
    then show ?thesis using lns True by (simp only: if_True refl)
  qed simp
  then show ?thesis unfolding model_skeleton_def put_node_def by (simp add: case_prod_unfold)
qed

lemma node_at_skeleton:
  "map_option skeleton (node_at m ld parts) =
   (case map_of (model_skeleton m) ld of
      None \<Rightarrow> None
    | Some lns \<Rightarrow> (case parts of [] \<Rightarrow> None | p # ps \<Rightarrow> descend (map_of lns p) ps))"
proof (cases "map_of (im_devices m) ld")
  case (Some lns)
  then show ?thesis
    by (cases parts; cases "map_of lns (hd parts)")
       (simp_all add: node_at_def model_skeleton_def map_of_map_snd [of "\<lambda>_ l. map (\<lambda>(k, n). (k, skeleton n)) l"]
          map_of_map_snd [of "\<lambda>_ n. skeleton n"] descend_skeleton)
qed (simp add: node_at_def model_skeleton_def map_of_map_snd [of "\<lambda>_ l. map (\<lambda>(k, n). (k, skeleton n)) l"])

lemma same_skeleton_node:
  "model_skeleton m' = model_skeleton m \<Longrightarrow> map_option skeleton (node_at m' ld parts) = map_option skeleton (node_at m ld parts)"
  by (simp add: node_at_skeleton)

lemma same_skeleton_Some:
  assumes "model_skeleton m' = model_skeleton m" "node_at m ld parts = Some n"
  shows "\<exists>n'. node_at m' ld parts = Some n' \<and> skeleton n' = skeleton n"
  using same_skeleton_node [OF assms(1), of ld parts] assms(2) by auto

lemma assign_at_skeleton:
  assumes "wt_model m" "find_node m obj = Some n" "assign_at m obj n d = Inr (m', ch)"
  shows "model_skeleton m' = model_skeleton m"
proof -
  obtain n' ch' where a: "assign n d = Inr (n', ch')" "m' = put_node m (domain_of obj) (path_of obj) n'"
    using assms(3) by (auto simp: assign_at_def mapE_Inr_iff)
  show ?thesis using put_node_skeleton [OF assms(1) _ assign_skeleton(1) [OF a(1)]] assms(2) a(2)
    by (simp add: find_node_def)
qed

lemma set_node_skeleton: "wt_model m \<Longrightarrow> set_node m obj d = Inr (m', ch) \<Longrightarrow> model_skeleton m' = model_skeleton m"
  by (auto simp: set_node_def split: option.splits if_splits intro: assign_at_skeleton)

lemma write_node_skeleton: "wt_model m \<Longrightarrow> write_node m obj d = Inr (r, m', ch) \<Longrightarrow> model_skeleton m' = model_skeleton m"
  by (auto simp: write_node_def mapE_Inr_iff split: option.splits if_splits intro: assign_at_skeleton)

section \<open>Fresh nodes\<close>

lemma dec_nat_value: "foldl (\<lambda>a c. a * 10 + (c - 48)) 0 (dec_nat n) = n"
  by (induction n rule: dec_nat.induct) (subst dec_nat.simps, simp)

lemma dec_nat_inj: "dec_nat n = dec_nat k \<Longrightarrow> n = k"
  by (metis dec_nat_value)

lemma foldl_put_child: "distinct (map n_name (acc @ cs)) \<Longrightarrow> foldl put_child acc cs = acc @ cs"
proof (induction cs arbitrary: acc)
  case (Cons c cs)
  have "put_child ds c = ds @ [c]" if "n_name c \<notin> n_name ` set ds" for ds using that by (induction ds) auto
  then show ?case using Cons.IH [of "acc @ [c]"] Cons.prems by auto
qed simp

lemma build_shape [simp]: "n_name (build fc name t) = name" "n_type (build fc name t) = t" "n_fc (build fc name t) = fc"
  by (cases t; simp)+

lemma build_wt: "wf_type t \<Longrightarrow> wt (build fc name t)"
proof (induction t arbitrary: name rule: wf_type.induct)
  case (1 components)
  have "distinct (map n_name (map (\<lambda>(n, t). build fc n t) components))"
    using 1(2) by (simp add: case_prod_unfold comp_def)
  then have "foldl put_child [] (map (\<lambda>(n, t). build fc n t) components) = map (\<lambda>(n, t). build fc n t) components"
    using foldl_put_child [of "[]"] by simp
  then show ?case using 1 by (auto simp: case_prod_unfold comp_def list_all_iff)
next
  case (2 count element)
  have "distinct (map n_name (map (\<lambda>i. build fc (dec_nat i) element) [0..<nat count]))"
    by (auto simp: comp_def distinct_map inj_on_def dest: dec_nat_inj)
  then have "foldl put_child [] (map (\<lambda>i. build fc (dec_nat i) element) [0..<nat count])
      = map (\<lambda>i. build fc (dec_nat i) element) [0..<nat count]"
    using foldl_put_child [of "[]"] by simp
  then show ?case using 2 by (auto simp: comp_def list_all_iff distinct_map inj_on_def dest: dec_nat_inj)
next
  case (3 kind n)
  then show ?case using default_fits [of "PrimitiveType kind n"] by simp
qed simp

section \<open>Properties\<close>

text \<open>C37: a client's write is type safe. In a well-typed model (the nodes follow their types, the leaves hold values
  that fit), \<^verbatim>\<open>write\<close> never raises, leaves the model well typed, succeeds exactly when the variable exists, its FC may
  be written and the value fits its type, and is then read back; a refused write changes nothing, and no write changes
  a variable that is neither inside nor around the one written.\<close>
theorem write_type_safe:
  assumes "wt_model m"
  shows "\<exists>r m' ch. write_node m obj d = Inr (r, m', ch) \<and> wt_model m' \<and> (r \<noteq> None \<longrightarrow> m' = m \<and> ch = [])
    \<and> (r = None \<longleftrightarrow> (\<exists>n. find_node m obj = Some n \<and> n_fc n \<in> Some ` set WRITABLE_FCS \<and> fits (n_type n) d))
    \<and> (r = None \<longrightarrow> (\<exists>d'. read_node m' obj = Inr (Access_value d') \<and> same_value d' d))
    \<and> (\<forall>other. \<not> overlapping obj other \<longrightarrow> read_node m' other = read_node m other)"
proof -
  obtain r m' ch where w: "write_node m obj d = Inr (r, m', ch)" "wt_model m'" "ch = [] \<longrightarrow> m' = m" "r \<noteq> None \<longrightarrow> ch = []"
    "r = None \<longrightarrow> (\<exists>d'. read_node m' obj = Inr (Access_value d') \<and> same_value d' d)"
    "r = None \<longleftrightarrow> (\<exists>n. find_node m obj = Some n \<and> n_fc n \<in> Some ` set WRITABLE_FCS \<and> fits (n_type n) d)"
    "\<forall>other. \<not> overlapping obj other \<longrightarrow> find_node m' other = find_node m other"
    using write_node_sound [OF assms, of obj d] by blast
  have "read_node m' other = read_node m other" if "\<not> overlapping obj other" for other
    using w(7) that by (simp add: read_node_def)
  then show ?thesis using w by blast
qed

definition example_model :: ied_model where
  "example_model =
     \<lparr>im_devices = [(asc ''LD'', [(asc ''LLN0'', Node (asc ''LLN0'') None
         (StructureType [(asc ''SP'', StructureType [(asc ''x'', PrimitiveType ''integer'' (Some 32))])]) {}
         [build (Some (asc ''SP'')) (asc ''SP'') (StructureType [(asc ''x'', PrimitiveType ''integer'' (Some 32))])] None)])],
      im_data_sets = [], im_groups = []\<rparr>"

definition example_variable :: object_name where
  "example_variable = \<lparr>on_item = asc ''LLN0$SP$x'', on_domain = Some (asc ''LD'')\<rparr>"

lemma example_model_wt: "wt_model example_model"
proof -
  have "wt (build (Some (asc ''SP'')) (asc ''SP'') (StructureType [(asc ''x'', PrimitiveType ''integer'' (Some 32))]))"
    by (intro build_wt) (simp add: known_kinds_def)
  then show ?thesis by (simp add: wt_model_def wt_lns_def example_model_def)
qed

lemma example_node: "\<exists>n. find_node example_model example_variable = Some n \<and> n_fc n = Some (asc ''SP'')
    \<and> n_type n = PrimitiveType ''integer'' (Some 32)"
  by (simp add: find_node_def node_at_def domain_of_def path_of_def example_model_def example_variable_def child_def)

theorem write_type_safe_witness:
  "\<exists>m'. write_node example_model example_variable (IntData 7) = Inr (None, m', [(asc ''LD'', [asc ''LLN0'', asc ''SP'', asc ''x''], {})])
    \<and> wt_model m' \<and> read_node m' example_variable = Inr (Access_value (IntData 7))"
proof -
  obtain r m' ch where w: "write_node example_model example_variable (IntData 7) = Inr (r, m', ch)" "wt_model m'"
    "r = None \<longleftrightarrow> (\<exists>n. find_node example_model example_variable = Some n \<and> n_fc n \<in> Some ` set WRITABLE_FCS \<and> fits (n_type n) (IntData 7))"
    "r = None \<longrightarrow> (\<exists>d'. read_node m' example_variable = Inr (Access_value d') \<and> same_value d' (IntData 7))"
    using write_type_safe [OF example_model_wt, of example_variable "IntData 7"] by blast
  have r: "r = None" using w(3) example_node by (auto simp: WRITABLE_FCS_def)
  have "read_node m' example_variable = Inr (Access_value (IntData 7))"
    using w(4) r by (auto elim: same_value.elims)
  moreover have "ch = [(asc ''LD'', [asc ''LLN0'', asc ''SP'', asc ''x''], {})]"
    using w(1) r by (simp add: write_node_def assign_at_def find_node_def node_at_def domain_of_def path_of_def
        example_model_def example_variable_def child_def WRITABLE_FCS_def)
  ultimately show ?thesis using w(1,2) r by auto
qed

text \<open>C38: GetNameList lists the variables of a domain in order, and every name it lists is found by \<^verbatim>\<open>node\<close>: a client
  can read whatever it is told about.\<close>
theorem names_sorted_and_found:
  assumes "plain_model m"
  shows "sorted (names m ld) \<and> (\<forall>x \<in> set (names m ld). \<exists>n. find_node m \<lparr>on_item = x, on_domain = Some ld\<rparr> = Some n)"
  using names_found [OF assms] by (simp add: names_def)

theorem names_sorted_and_found_witness:
  "plain_model example_model \<and> asc ''LLN0$SP'' \<in> set (names example_model (asc ''LD''))
    \<and> (\<exists>n. find_node example_model \<lparr>on_item = asc ''LLN0$SP'', on_domain = Some (asc ''LD'')\<rparr> = Some n)"
proof -
  have p: "plain_model example_model" by (simp add: plain_model_def example_model_def)
  have "asc ''LLN0$SP'' \<in> set (names example_model (asc ''LD''))" by (simp add: names_def example_model_def)
  then show ?thesis using p names_sorted_and_found [OF p, of "asc ''LD''"] by blast
qed

end
