(* ===== verification/StateError.thy ===== *)
theory StateError
  imports Prelude
begin

text \<open>
  Operations with a state and exceptions, for the engines of the server: an operation gives its result, or the
  exception it raises, and the state it leaves, which an exception keeps as it was when it was raised. \<open>triple\<close> says
  what holds after an operation; its rules, in the collection \<open>triple\<close>, follow the structure of the operation.
\<close>

type_synonym ('s, 'a) op = "'s \<Rightarrow> 'a result \<times> 's"

definition ret :: "'a \<Rightarrow> ('s, 'a) op" where "ret x = (\<lambda>s. (Inr x, s))"

definition raise :: "exn \<Rightarrow> ('s, 'a) op" where "raise e = (\<lambda>s. (Inl e, s))"

definition bindS :: "('s, 'a) op \<Rightarrow> ('a \<Rightarrow> ('s, 'b) op) \<Rightarrow> ('s, 'b) op" where
  "bindS m f = (\<lambda>s. case m s of (Inl e, s') \<Rightarrow> (Inl e, s') | (Inr x, s') \<Rightarrow> f x s')"

definition thenS :: "('s, 'a) op \<Rightarrow> ('s, 'b) op \<Rightarrow> ('s, 'b) op" where "thenS m n = bindS m (\<lambda>_. n)"

definition gets :: "('s \<Rightarrow> 'a) \<Rightarrow> ('s, 'a) op" where "gets f = (\<lambda>s. (Inr (f s), s))"

definition modify :: "('s \<Rightarrow> 's) \<Rightarrow> ('s, unit) op" where "modify f = (\<lambda>s. (Inr (), f s))"

definition try_get :: "('s \<Rightarrow> 'a result) \<Rightarrow> ('s, 'a) op" where "try_get f = (\<lambda>s. (f s, s))"

definition whenS :: "bool \<Rightarrow> ('s, unit) op \<Rightarrow> ('s, unit) op" where "whenS b m = (if b then m else ret ())"

fun for_each :: "('a \<Rightarrow> ('s, unit) op) \<Rightarrow> 'a list \<Rightarrow> ('s, unit) op" where
  "for_each f [] = ret ()"
| "for_each f (x # xs) = thenS (f x) (for_each f xs)"

text \<open>What a hook of the server answers: None, True, or a DataAccessError code.\<close>

datatype hook = Not_theirs | Handled | Refused int

lemma ret_apply [simp]: "ret x s = (Inr x, s)" by (simp add: ret_def)

lemma raise_apply [simp]: "raise e s = (Inl e, s)" by (simp add: raise_def)

lemma gets_apply [simp]: "gets f s = (Inr (f s), s)" by (simp add: gets_def)

lemma modify_apply [simp]: "modify f s = (Inr (), f s)" by (simp add: modify_def)

lemma try_get_apply [simp]: "try_get f s = (f s, s)" by (simp add: try_get_def)

lemma bindS_Inr: "m s = (Inr x, s') \<Longrightarrow> bindS m f s = f x s'" by (simp add: bindS_def)

lemma bindS_Inl: "m s = (Inl e, s') \<Longrightarrow> bindS m f s = (Inl e, s')" by (simp add: bindS_def)

lemma bindS_ret [simp]: "bindS (ret x) f = f x" by (simp add: bindS_def ret_def)

lemma bindS_gets [simp]: "bindS (gets g) f s = f (g s) s" by (simp add: bindS_def)

lemma bindS_modify [simp]: "bindS (modify g) f s = f () (g s)" by (simp add: bindS_def)

lemma bindS_raise [simp]: "bindS (raise e) f = raise e" by (simp add: bindS_def raise_def)

lemma thenS_Inr: "m s = (Inr x, s') \<Longrightarrow> thenS m n s = n s'" by (simp add: thenS_def bindS_Inr)

lemma thenS_modify [simp]: "thenS (modify g) n s = n (g s)" by (simp add: thenS_def)

lemma bindS_assoc: "bindS (bindS m f) g = bindS m (\<lambda>x. bindS (f x) g)"
  by (auto simp: bindS_def split: prod.splits sum.splits)

lemma bindS_try_get: "bindS (try_get g) f s = (case g s of Inl e \<Rightarrow> (Inl e, s) | Inr x \<Rightarrow> f x s)"
  by (simp add: bindS_def split: sum.splits)

text \<open>\<open>triple P m Q\<close>: from a state with \<open>P\<close>, \<open>m\<close> raises nothing, and its result and state satisfy \<open>Q\<close>.\<close>

named_theorems triple \<open>what holds after an operation\<close>

definition triple :: "('s \<Rightarrow> bool) \<Rightarrow> ('s, 'a) op \<Rightarrow> ('a \<Rightarrow> 's \<Rightarrow> bool) \<Rightarrow> bool" where
  "triple P m Q \<longleftrightarrow> (\<forall>s. P s \<longrightarrow> (\<exists>x s'. m s = (Inr x, s') \<and> Q x s'))"

lemma tripleI: "(\<And>s. P s \<Longrightarrow> \<exists>x s'. m s = (Inr x, s') \<and> Q x s') \<Longrightarrow> triple P m Q"
  by (simp add: triple_def)

lemma tripleD: "triple P m Q \<Longrightarrow> P s \<Longrightarrow> \<exists>x s'. m s = (Inr x, s') \<and> Q x s'"
  by (simp add: triple_def)

lemma triple_weaken: "triple P m Q \<Longrightarrow> (\<And>s. P' s \<Longrightarrow> P s) \<Longrightarrow> (\<And>x s. Q x s \<Longrightarrow> Q' x s) \<Longrightarrow> triple P' m Q'"
  unfolding triple_def by meson

lemma triple_ret [triple]: "(\<And>s. P s \<Longrightarrow> Q x s) \<Longrightarrow> triple P (ret x) Q"
  by (simp add: triple_def)

lemma triple_gets [triple]: "(\<And>s. P s \<Longrightarrow> Q (f s) s) \<Longrightarrow> triple P (gets f) Q"
  by (simp add: triple_def)

lemma triple_modify [triple]: "(\<And>s. P s \<Longrightarrow> Q () (f s)) \<Longrightarrow> triple P (modify f) Q"
  by (simp add: triple_def)

lemma triple_try_get [triple]: "(\<And>s. P s \<Longrightarrow> \<exists>x. f s = Inr x \<and> Q x s) \<Longrightarrow> triple P (try_get f) Q"
  by (auto simp: triple_def)

lemma triple_bind [triple]: "triple P m R \<Longrightarrow> (\<And>x. triple (R x) (f x) Q) \<Longrightarrow> triple P (bindS m f) Q"
  unfolding triple_def by (metis bindS_Inr)

lemma triple_then [triple]: "triple P m (\<lambda>_. R) \<Longrightarrow> triple R n Q \<Longrightarrow> triple P (thenS m n) Q"
  unfolding thenS_def by (rule triple_bind)

lemma triple_if [triple]:
  "(b \<Longrightarrow> triple P m Q) \<Longrightarrow> (\<not> b \<Longrightarrow> triple P n Q) \<Longrightarrow> triple P (if b then m else n) Q"
  by simp

lemma triple_when [triple]: "(b \<Longrightarrow> triple P m (\<lambda>_. Q)) \<Longrightarrow> (\<And>s. \<not> b \<Longrightarrow> P s \<Longrightarrow> Q s) \<Longrightarrow> triple P (whenS b m) (\<lambda>_. Q)"
  by (auto simp: whenS_def intro: triple_ret)

lemma triple_for_each:
  "(\<And>x. x \<in> set xs \<Longrightarrow> triple I (f x) (\<lambda>_. I)) \<Longrightarrow> triple I (for_each f xs) (\<lambda>_. I)"
  by (induction xs) (auto intro!: triple_ret triple_then)

lemma triple_pure: "(b \<Longrightarrow> triple P m Q) \<Longrightarrow> triple (\<lambda>s. b \<and> P s) m Q"
  by (auto simp: triple_def)

lemma triple_conj: "triple P m Q \<Longrightarrow> triple P m R \<Longrightarrow> triple P m (\<lambda>x s. Q x s \<and> R x s)"
  unfolding triple_def by fastforce

text \<open>\<open>holds P m Q E\<close> is for operations that may raise: the result and its state satisfy \<open>Q\<close>, or the state an exception
  leaves satisfies \<open>E\<close>.\<close>

named_theorems holds \<open>what holds after an operation that may raise\<close>

definition holds :: "('s \<Rightarrow> bool) \<Rightarrow> ('s, 'a) op \<Rightarrow> ('a \<Rightarrow> 's \<Rightarrow> bool) \<Rightarrow> ('s \<Rightarrow> bool) \<Rightarrow> bool" where
  "holds P m Q E \<longleftrightarrow> (\<forall>s. P s \<longrightarrow> (case m s of (Inr x, s') \<Rightarrow> Q x s' | (Inl e, s') \<Rightarrow> E s'))"

lemma holdsI: "(\<And>s. P s \<Longrightarrow> case m s of (Inr x, s') \<Rightarrow> Q x s' | (Inl e, s') \<Rightarrow> E s') \<Longrightarrow> holds P m Q E"
  by (simp add: holds_def)

lemma holdsD: "holds P m Q E \<Longrightarrow> P s \<Longrightarrow> (\<exists>x s'. m s = (Inr x, s') \<and> Q x s') \<or> (\<exists>e s'. m s = (Inl e, s') \<and> E s')"
  unfolding holds_def by (cases "m s"; cases "fst (m s)") fastforce+

lemma holds_weaken:
  "holds P m Q E \<Longrightarrow> (\<And>s. P' s \<Longrightarrow> P s) \<Longrightarrow> (\<And>x s. Q x s \<Longrightarrow> Q' x s) \<Longrightarrow> (\<And>s. E s \<Longrightarrow> E' s) \<Longrightarrow> holds P' m Q' E'"
  unfolding holds_def by (fastforce split: prod.splits sum.splits)

lemma holds_ret [holds]: "(\<And>s. P s \<Longrightarrow> Q x s) \<Longrightarrow> holds P (ret x) Q E"
  by (simp add: holds_def)

lemma holds_raise [holds]: "(\<And>s. P s \<Longrightarrow> E s) \<Longrightarrow> holds P (raise e) Q E"
  by (simp add: holds_def)

lemma holds_gets [holds]: "(\<And>s. P s \<Longrightarrow> Q (f s) s) \<Longrightarrow> holds P (gets f) Q E"
  by (simp add: holds_def)

lemma holds_modify [holds]: "(\<And>s. P s \<Longrightarrow> Q () (f s)) \<Longrightarrow> holds P (modify f) Q E"
  by (simp add: holds_def)

lemma holds_try_get [holds]:
  "(\<And>s x. P s \<Longrightarrow> f s = Inr x \<Longrightarrow> Q x s) \<Longrightarrow> (\<And>s e. P s \<Longrightarrow> f s = Inl e \<Longrightarrow> E s) \<Longrightarrow> holds P (try_get f) Q E"
  by (auto simp: holds_def split: sum.split)

lemma holds_bind [holds]: "holds P m R E \<Longrightarrow> (\<And>x. holds (R x) (f x) Q E) \<Longrightarrow> holds P (bindS m f) Q E"
  unfolding holds_def bindS_def by (fastforce split: prod.splits sum.splits)

lemma holds_then [holds]: "holds P m (\<lambda>_. R) E \<Longrightarrow> holds R n Q E \<Longrightarrow> holds P (thenS m n) Q E"
  unfolding thenS_def by (rule holds_bind)

lemma holds_if [holds]: "(b \<Longrightarrow> holds P m Q E) \<Longrightarrow> (\<not> b \<Longrightarrow> holds P n Q E) \<Longrightarrow> holds P (if b then m else n) Q E"
  by simp

lemma holds_when [holds]:
  "(b \<Longrightarrow> holds P m (\<lambda>_. Q) E) \<Longrightarrow> (\<And>s. \<not> b \<Longrightarrow> P s \<Longrightarrow> Q s) \<Longrightarrow> holds P (whenS b m) (\<lambda>_. Q) E"
  by (auto simp: whenS_def intro: holds_ret)

lemma holds_for_each: "(\<And>x. x \<in> set xs \<Longrightarrow> holds I (f x) (\<lambda>_. I) E) \<Longrightarrow> holds I (for_each f xs) (\<lambda>_. I) E"
  by (induction xs) (auto intro!: holds_ret holds_then)

lemma holds_pure: "(b \<Longrightarrow> holds P m Q E) \<Longrightarrow> holds (\<lambda>s. b \<and> P s) m Q E"
  by (auto simp: holds_def)

lemma holds_state: "holds I m (\<lambda>_. I) I \<Longrightarrow> I s \<Longrightarrow> I (snd (m s))"
  by (cases "m s"; cases "fst (m s)") (fastforce simp: holds_def)+

lemma triple_holds: "triple P m Q \<Longrightarrow> holds P m Q E"
  unfolding triple_def holds_def by fastforce

lemma holds_returns:
  assumes "holds I m (\<lambda>_. I) I" "\<And>s. I s \<Longrightarrow> \<exists>x s'. m s = (Inr x, s')"
  shows "triple I m (\<lambda>_. I)"
proof (rule tripleI)
  fix s assume "I s"
  then show "\<exists>x s'. m s = (Inr x, s') \<and> I s'" using assms(2) holdsD [OF assms(1)] by fastforce
qed

text \<open>\<open>steady J m\<close>: for each \<open>x\<close>, what \<open>J x\<close> says of the state holds after \<open>m\<close>, also when it raises, if it held before: the
  part of the state that \<open>J\<close> speaks of is left as it is.\<close>

named_theorems steady \<open>operations that leave a part of the state\<close>

definition steady :: "('x \<Rightarrow> 's \<Rightarrow> bool) \<Rightarrow> ('s, 'a) op \<Rightarrow> bool" where
  "steady J m \<longleftrightarrow> (\<forall>x. holds (J x) m (\<lambda>_. J x) (J x))"

lemma steadyD: "steady J m \<Longrightarrow> J x s \<Longrightarrow> J x (snd (m s))"
  unfolding steady_def by (rule holds_state) simp_all

lemma steady_bind [steady]: "steady J m \<Longrightarrow> (\<And>x. steady J (f x)) \<Longrightarrow> steady J (bindS m f)"
  unfolding steady_def by (blast intro: holds_bind)

lemma steady_then [steady]: "steady J m \<Longrightarrow> steady J n \<Longrightarrow> steady J (thenS m n)"
  unfolding steady_def by (blast intro: holds_then)

lemma steady_if [steady]: "(c \<Longrightarrow> steady J m) \<Longrightarrow> (\<not> c \<Longrightarrow> steady J n) \<Longrightarrow> steady J (if c then m else n)"
  by simp

lemma steady_when [steady]: "(c \<Longrightarrow> steady J m) \<Longrightarrow> steady J (whenS c m)"
  unfolding whenS_def by (simp add: steady_def holds_ret del: ret_apply)

lemma steady_option [steady]: "steady J m \<Longrightarrow> (\<And>x. steady J (f x)) \<Longrightarrow> steady J (case y of None \<Rightarrow> m | Some x \<Rightarrow> f x)"
  by (cases y) simp_all

lemma steady_prod [steady]: "(\<And>x y. steady J (f x y)) \<Longrightarrow> steady J (case p of (x, y) \<Rightarrow> f x y)"
  by (cases p) simp

lemma steady_simple [steady]: "steady J (ret x)" "steady J (raise e)" "steady J (gets f)" "steady J (try_get g)"
  unfolding steady_def by (auto intro!: holds simp del: ret_apply)

lemma steady_for_each [steady]: "(\<And>x. x \<in> set xs \<Longrightarrow> steady J (f x)) \<Longrightarrow> steady J (for_each f xs)"
  unfolding steady_def by (blast intro: holds_for_each)

lemma steady_modify: "(\<And>x s. J x s \<Longrightarrow> J x (f s)) \<Longrightarrow> steady J (modify f)"
  unfolding steady_def by (auto intro!: holds_modify)

text \<open>
  The engines that plug into the server are called when a client reads, writes or goes, in any order. \<open>engine_calls\<close> is
  what the server relies on: each of these calls keeps the engine's invariant, also when it raises, which the server
  answers with a Reject. The calls of a \<open>server_engine\<close> raise nothing. A write of a name that is not \<open>admissible\<close> is one
  the engine promises nothing of.
\<close>

datatype ('n, 'd) event = Read_event int nat 'n | Write_event int nat 'n 'd | Close_event nat

fun engine_run :: "(int \<Rightarrow> nat \<Rightarrow> 'n \<Rightarrow> 'd \<Rightarrow> ('s, 'w) op) \<Rightarrow> (int \<Rightarrow> nat \<Rightarrow> 'n \<Rightarrow> ('s, 'r) op) \<Rightarrow> (nat \<Rightarrow> ('s, unit) op) \<Rightarrow>
    ('n, 'd) event list \<Rightarrow> ('s, unit) op" where
  "engine_run w r c [] = ret ()"
| "engine_run w r c (Read_event now k n # es) = thenS (r now k n) (engine_run w r c es)"
| "engine_run w r c (Write_event now k n d # es) = thenS (w now k n d) (engine_run w r c es)"
| "engine_run w r c (Close_event k # es) = thenS (c k) (engine_run w r c es)"

fun event_ok :: "('n \<Rightarrow> bool) \<Rightarrow> ('n, 'd) event \<Rightarrow> bool" where
  "event_ok admissible (Write_event now k n d) \<longleftrightarrow> admissible n"
| "event_ok admissible _ \<longleftrightarrow> True"

locale engine_calls =
  fixes inv :: "'s \<Rightarrow> bool"
    and write_hook :: "int \<Rightarrow> nat \<Rightarrow> 'n \<Rightarrow> 'd \<Rightarrow> ('s, 'w) op"
    and read_hook :: "int \<Rightarrow> nat \<Rightarrow> 'n \<Rightarrow> ('s, 'r) op"
    and close_hook :: "nat \<Rightarrow> ('s, unit) op"
    and admissible :: "'n \<Rightarrow> bool"
  assumes write_holds: "admissible n \<Longrightarrow> holds inv (write_hook now k n d) (\<lambda>_. inv) inv"
    and read_holds: "holds inv (read_hook now k n) (\<lambda>_. inv) inv"
    and close_holds: "holds inv (close_hook k) (\<lambda>_. inv) inv"
begin

lemma event_holds: "list_all (event_ok admissible) es \<Longrightarrow> holds inv (engine_run write_hook read_hook close_hook es) (\<lambda>_. inv) inv"
proof (induction es)
  case Nil
  then show ?case by (simp add: holds_ret del: ret_apply)
next
  case (Cons e es)
  then show ?case by (cases e) (auto intro: holds_then write_holds read_holds close_holds)
qed

end

text \<open>An engine whose calls raise nothing besides.\<close>

locale server_engine = engine_calls +
  assumes write_returns: "admissible n \<Longrightarrow> inv s \<Longrightarrow> \<exists>x s'. write_hook now k n d s = (Inr x, s')"
    and read_returns: "inv s \<Longrightarrow> \<exists>x s'. read_hook now k n s = (Inr x, s')"
    and close_returns: "inv s \<Longrightarrow> \<exists>x s'. close_hook k s = (Inr x, s')"
begin

lemma event_keeps: "list_all (event_ok admissible) es \<Longrightarrow> triple inv (engine_run write_hook read_hook close_hook es) (\<lambda>_. inv)"
proof (induction es)
  case Nil
  then show ?case by (simp add: triple_ret del: ret_apply)
next
  case (Cons e es)
  then have rest: "triple inv (engine_run write_hook read_hook close_hook es) (\<lambda>_. inv)" by simp
  show ?case
  proof (cases e)
    case (Write_event now k n d)
    then have "admissible n" using Cons.prems by simp
    then have "triple inv (write_hook now k n d) (\<lambda>_. inv)" using holds_returns [OF write_holds write_returns] by blast
    then show ?thesis unfolding Write_event engine_run.simps by (rule triple_then [OF _ rest])
  qed (auto intro: triple_then rest holds_returns [OF read_holds read_returns] holds_returns [OF close_holds close_returns])
qed

lemma run_keeps: "list_all (event_ok admissible) es \<Longrightarrow> inv s \<Longrightarrow>
    \<exists>s'. engine_run write_hook read_hook close_hook es s = (Inr (), s') \<and> inv s'"
  using tripleD [OF event_keeps] by (metis old.unit.exhaust)

end

lemma triple_engine:
  assumes "\<And>now k n d. adm n \<Longrightarrow> triple I (w now k n d) (\<lambda>_. I)" "\<And>now k n. triple I (r now k n) (\<lambda>_. I)" "\<And>k. triple I (c k) (\<lambda>_. I)"
  shows "server_engine I w r c adm"
proof unfold_locales
  show "holds I (r now k n) (\<lambda>_. I) I" "holds I (c k) (\<lambda>_. I) I" for now k n
    using assms(2,3) by (blast intro: triple_holds)+
  show "holds I (w now k n d) (\<lambda>_. I) I" if "adm n" for now k n d using triple_holds [OF assms(1) [OF that]] .
  show "\<exists>x s'. w now k n d s = (Inr x, s')" if "adm n" "I s" for s now k n d using tripleD [OF assms(1) [OF that(1)] that(2)] by blast
  show "\<exists>x s'. r now k n s = (Inr x, s')" "\<exists>x s'. c k s = (Inr x, s')" if "I s" for s now k n
    using tripleD [OF assms(2) that] tripleD [OF assms(3) that] by blast+
qed

end
