(* ===== verification/Settings.thy ===== *)
theory Settings
  imports ServerModel StateError "HOL-Library.AList"
begin

text \<open>
  \<^verbatim>\<open>src/open61850/server/settings.py\<close>: the setting group control blocks of a server. A client is a number, a time a
  number of microseconds. \<^verbatim>\<open>_Block\<close> keeps the paths of its SG and SE leaves where the code keeps the nodes. The handlers
  of the application are a parameter: functions of the client, the logical device and the group. What the listeners
  of the model are told is collected in \<open>st_told\<close>. Locks are left out: each operation runs alone.
\<close>

section \<open>State\<close>

record sg_block =
  b_groups :: setting_groups
  b_sg :: "(ustr \<times> ustr list) list"
  b_se :: "(ustr \<times> ustr list) list"
  b_editor :: "nat option"
  b_until :: int

record sg_state =
  st_model :: ied_model
  st_blocks :: "(ustr \<times> sg_block) list"
  st_told :: "(ustr \<times> change) list list"

record sg_handlers =
  on_active :: "nat option \<Rightarrow> ustr \<Rightarrow> int \<Rightarrow> int option"
  on_edit :: "nat option \<Rightarrow> ustr \<Rightarrow> int \<Rightarrow> int option"
  on_confirm :: "nat option \<Rightarrow> ustr \<Rightarrow> int \<Rightarrow> int option"

definition SGCB :: ustr where "SGCB = asc ''LLN0$SP$SGCB''"

definition sgcb_attr :: "ustr \<Rightarrow> string \<Rightarrow> object_name" where
  "sgcb_attr ld attr = \<lparr>on_item = SGCB @ 36 # asc attr, on_domain = Some ld\<rparr>"

definition leaf_name :: "ustr \<Rightarrow> ustr list \<Rightarrow> object_name" where
  "leaf_name ld path = \<lparr>on_item = join 36 path, on_domain = Some ld\<rparr>"

text \<open>\<^verbatim>\<open>__init__\<close>: the SG and SE leaves of a logical device by their group keys.\<close>

definition fc_leaves :: "ied_model \<Rightarrow> ustr \<Rightarrow> string \<Rightarrow> (ustr \<times> ustr list) list" where
  "fc_leaves m ld fc =
     fold (\<lambda>(k, p). AList.update k p)
       (concat (map (\<lambda>(ln, n). case child (asc fc) (n_children n) of
            None \<Rightarrow> []
          | Some fc_node \<Rightarrow> map (\<lambda>(p, leaf). (group_key (ln # p), ln # p)) (leaves fc_node))
         (case map_of (im_devices m) ld of None \<Rightarrow> [] | Some lns \<Rightarrow> lns))) []"

definition new_engine :: "ied_model \<Rightarrow> sg_state" where
  "new_engine m =
     \<lparr>st_model = m,
      st_blocks = map (\<lambda>(ld, groups). (ld, \<lparr>b_groups = groups, b_sg = fc_leaves m ld ''SG'', b_se = fc_leaves m ld ''SE'',
        b_editor = None, b_until = 0\<rparr>)) (im_groups m),
      st_told = []\<rparr>"

section \<open>Helpers\<close>

definition with_block :: "ustr \<Rightarrow> (sg_block \<Rightarrow> (sg_state, 'a) op) \<Rightarrow> (sg_state, 'a) op" where
  "with_block ld f = bindS (gets (\<lambda>s. map_of (st_blocks s) ld)) (\<lambda>b. case b of None \<Rightarrow> raise KeyError | Some b \<Rightarrow> f b)"

definition put_block :: "ustr \<Rightarrow> (sg_block \<Rightarrow> sg_block) \<Rightarrow> (sg_state, unit) op" where
  "put_block ld f = modify (\<lambda>s. s\<lparr>st_blocks := map (\<lambda>(d, b). (d, if d = ld then f b else b)) (st_blocks s)\<rparr>)"

definition model_set :: "object_name \<Rightarrow> iecdata \<Rightarrow> (sg_state, unit) op" where
  "model_set obj d = (\<lambda>s. case set_node (st_model s) obj d of
       Inl e \<Rightarrow> (Inl e, s)
     | Inr (m, ch) \<Rightarrow> (Inr (), s\<lparr>st_model := m, st_told := st_told s @ (if ch = [] then [] else [ch])\<rparr>))"

definition uint_attr :: "ied_model \<Rightarrow> ustr \<Rightarrow> string \<Rightarrow> int result" where
  "uint_attr m ld attr =
     mapE (\<lambda>v. case v of UIntData n \<Rightarrow> n | IntData n \<Rightarrow> n | _ \<Rightarrow> 0) (get_node m (sgcb_attr ld attr))"

definition active :: "ustr \<Rightarrow> (sg_state, int) op" where
  "active ld = try_get (\<lambda>s. uint_attr (st_model s) ld ''ActSG'')"

definition set_attr :: "ustr \<Rightarrow> string \<Rightarrow> iecdata \<Rightarrow> (sg_state, unit) op" where
  "set_attr ld attr d =
     bindS (gets (\<lambda>s. find_node (st_model s) (sgcb_attr ld attr))) (\<lambda>n.
       case n of None \<Rightarrow> ret () | Some _ \<Rightarrow> model_set (sgcb_attr ld attr) d)"

definition load_values :: "ustr \<Rightarrow> (ustr \<times> iecdata) list \<Rightarrow> (ustr \<times> ustr list) list \<Rightarrow> (sg_state, unit) op" where
  "load_values ld stored fc_paths =
     for_each (\<lambda>(key, path). case map_of stored key of None \<Rightarrow> ret () | Some v \<Rightarrow> model_set (leaf_name ld path) v) fc_paths"

definition load :: "ustr \<Rightarrow> (sg_block \<Rightarrow> (ustr \<times> ustr list) list) \<Rightarrow> int \<Rightarrow> (sg_state, unit) op" where
  "load ld paths_of grp =
     with_block ld (\<lambda>b. case map_of (sg_values (b_groups b)) grp of
       None \<Rightarrow> raise KeyError
     | Some stored \<Rightarrow> load_values ld stored (paths_of b))"

definition activate :: "int \<Rightarrow> ustr \<Rightarrow> int \<Rightarrow> (sg_state, unit) op" where
  "activate now ld grp =
     thenS (set_attr ld ''ActSG'' (UIntData grp))
       (thenS (set_attr ld ''LActTm'' (TimestampData now 0)) (load ld b_sg grp))"

definition release :: "ustr \<Rightarrow> (sg_state, unit) op" where
  "release ld =
     thenS (put_block ld (\<lambda>b. b\<lparr>b_editor := None\<rparr>))
       (thenS (set_attr ld ''EditSG'' (UIntData 0)) (set_attr ld ''ResvTms'' (UIntData 0)))"

definition expire :: "int \<Rightarrow> ustr \<Rightarrow> (sg_state, unit) op" where
  "expire now ld = with_block ld (\<lambda>b. whenS (b_editor b \<noteq> None \<and> b_until b \<le> now) (release ld))"

section \<open>The application\<close>

definition group_values :: "ustr \<Rightarrow> int \<Rightarrow> (sg_state, (ustr \<times> iecdata) list) op" where
  "group_values ld grp =
     with_block ld (\<lambda>b. case map_of (sg_values (b_groups b)) grp of None \<Rightarrow> raise KeyError | Some vs \<Rightarrow> ret vs)"

definition put_values :: "ustr \<Rightarrow> int \<Rightarrow> (ustr \<times> iecdata) list \<Rightarrow> (sg_state, unit) op" where
  "put_values ld grp vs =
     put_block ld (\<lambda>b. b\<lparr>b_groups := (b_groups b)\<lparr>sg_values := AList.update grp vs (sg_values (b_groups b))\<rparr>\<rparr>)"

definition check_value :: "ied_model \<Rightarrow> ustr \<Rightarrow> sg_block \<Rightarrow> ustr \<times> iecdata \<Rightarrow> (ustr \<times> iecdata) result" where
  "check_value m ld b p =
     (case p of (key, v) \<Rightarrow> case map_of (b_sg b) key of
        None \<Rightarrow> Inl KeyError
      | Some path \<Rightarrow> (case node_at m ld path of
            None \<Rightarrow> Inl KeyError
          | Some leaf \<Rightarrow> if fits (n_type leaf) v then Inr (key, v) else Inl TypeError))"

definition set_values :: "ustr \<Rightarrow> int \<Rightarrow> (ustr \<times> iecdata) list \<Rightarrow> (sg_state, unit) op" where
  "set_values ld grp values =
     with_block ld (\<lambda>b. bindS (group_values ld grp) (\<lambda>stored.
       bindS (try_get (\<lambda>s. traverse (check_value (st_model s) ld b) values)) (\<lambda>converted.
       thenS (put_values ld grp (fold (\<lambda>(k, v). AList.update k v) converted stored))
         (bindS (active ld) (\<lambda>a. whenS (grp = a) (load ld b_sg grp))))))"

definition select_active :: "int \<Rightarrow> ustr \<Rightarrow> int \<Rightarrow> (sg_state, unit) op" where
  "select_active now ld grp =
     with_block ld (\<lambda>b.
       if \<not> (1 \<le> grp \<and> grp \<le> sg_count (b_groups b)) then raise ValueError
       else bindS (active ld) (\<lambda>a. whenS (grp \<noteq> a) (activate now ld grp)))"

section \<open>Reads, writes, clients going\<close>

definition starts_with :: "ustr \<Rightarrow> ustr \<Rightarrow> bool" where "starts_with s p \<longleftrightarrow> take (length p) s = p"

definition on_read :: "int \<Rightarrow> nat \<Rightarrow> object_name \<Rightarrow> (sg_state, hook) op" where
  "on_read now c obj =
     thenS (bindS (gets (\<lambda>s. map_of (st_blocks s) (domain_of obj))) (\<lambda>b.
         whenS (b \<noteq> None \<and> starts_with (on_item obj) (asc ''LLN0'')) (expire now (domain_of obj))))
       (ret Not_theirs)"

fun as_group :: "iecdata \<Rightarrow> int option" where
  "as_group (UIntData n) = Some n"
| "as_group (IntData n) = Some n"
| "as_group _ = None"

definition write_active :: "sg_handlers \<Rightarrow> int \<Rightarrow> nat \<Rightarrow> ustr \<Rightarrow> iecdata \<Rightarrow> (sg_state, hook) op" where
  "write_active h now c ld v =
     with_block ld (\<lambda>b. case as_group v of
       None \<Rightarrow> ret (Refused ACCESS_TYPE_INCONSISTENT)
     | Some grp \<Rightarrow>
         if \<not> (1 \<le> grp \<and> grp \<le> sg_count (b_groups b)) then ret (Refused ACCESS_OBJECT_VALUE_INVALID)
         else bindS (active ld) (\<lambda>a.
           if grp = a then ret Handled
           else case on_active h (Some c) ld grp of
               Some code \<Rightarrow> ret (Refused code)
             | None \<Rightarrow> thenS (activate now ld grp) (ret Handled)))"

definition write_edit :: "sg_handlers \<Rightarrow> int \<Rightarrow> nat \<Rightarrow> ustr \<Rightarrow> iecdata \<Rightarrow> (sg_state, hook) op" where
  "write_edit h now c ld v =
     with_block ld (\<lambda>b. case as_group v of
       None \<Rightarrow> ret (Refused ACCESS_TYPE_INCONSISTENT)
     | Some grp \<Rightarrow>
         if b_editor b \<noteq> None \<and> b_editor b \<noteq> Some c then ret (Refused ACCESS_TEMPORARILY_UNAVAILABLE)
         else if grp = 0 then thenS (release ld) (ret Handled)
         else if \<not> (1 \<le> grp \<and> grp \<le> sg_count (b_groups b)) then ret (Refused ACCESS_OBJECT_VALUE_INVALID)
         else case on_edit h (Some c) ld grp of
             Some code \<Rightarrow> ret (Refused code)
           | None \<Rightarrow>
               thenS (put_block ld (\<lambda>x. x\<lparr>b_editor := Some c, b_until := now + sg_resv_tms (b_groups b) * 1000000\<rparr>))
                 (thenS (set_attr ld ''EditSG'' (UIntData grp))
                 (thenS (set_attr ld ''ResvTms'' (UIntData (sg_resv_tms (b_groups b))))
                 (thenS (load ld b_se grp) (ret Handled)))))"

text \<open>The values of the SE leaves, for the settings the group has.\<close>

definition edited_values :: "ied_model \<Rightarrow> ustr \<Rightarrow> (ustr \<times> ustr list) list \<Rightarrow> (ustr \<times> iecdata) list \<Rightarrow> (ustr \<times> iecdata) list result" where
  "edited_values m ld se stored =
     foldE (\<lambda>(key, path) vs. if map_of vs key = None then Inr vs
         else mapE (\<lambda>d. AList.update key d vs) (get_node m (leaf_name ld path))) se stored"

definition write_confirm :: "sg_handlers \<Rightarrow> nat \<Rightarrow> ustr \<Rightarrow> iecdata \<Rightarrow> (sg_state, hook) op" where
  "write_confirm h c ld v =
     (case v of
        BoolData True \<Rightarrow>
          with_block ld (\<lambda>b. bindS (try_get (\<lambda>s. uint_attr (st_model s) ld ''EditSG'')) (\<lambda>grp.
            if grp = 0 \<or> b_editor b \<noteq> Some c then ret (Refused ACCESS_OBJECT_ACCESS_DENIED)
            else case on_confirm h (Some c) ld grp of
                Some code \<Rightarrow> ret (Refused code)
              | None \<Rightarrow>
                  bindS (group_values ld grp) (\<lambda>stored.
                  bindS (try_get (\<lambda>s. edited_values (st_model s) ld (b_se b) stored)) (\<lambda>edited.
                  thenS (put_values ld grp edited)
                    (bindS (active ld) (\<lambda>a.
                    thenS (whenS (grp = a) (load ld b_sg grp))
                      (thenS (release ld) (ret Handled))))))))
      | BoolData False \<Rightarrow> ret (Refused ACCESS_OBJECT_VALUE_INVALID)
      | _ \<Rightarrow> ret (Refused ACCESS_TYPE_INCONSISTENT))"

definition on_write :: "sg_handlers \<Rightarrow> int \<Rightarrow> nat \<Rightarrow> object_name \<Rightarrow> iecdata \<Rightarrow> (sg_state, hook) op" where
  "on_write h now c obj v =
     (let ld = domain_of obj; parts = path_of obj in
      bindS (gets (\<lambda>s. map_of (st_blocks s) ld)) (\<lambda>b. case b of
        None \<Rightarrow> ret Not_theirs
      | Some _ \<Rightarrow>
          thenS (expire now ld)
            (with_block ld (\<lambda>b.
              if 3 \<le> length parts \<and> parts ! 1 = asc ''SE'' then
                ret (if b_editor b = Some c then Not_theirs else Refused ACCESS_TEMPORARILY_UNAVAILABLE)
              else if \<not> (on_item obj = SGCB \<or> starts_with (on_item obj) (SGCB @ [36])) then ret Not_theirs
              else bindS (gets (\<lambda>s. find_node (st_model s) obj)) (\<lambda>n.
                if n = None then ret (Refused ACCESS_OBJECT_NON_EXISTENT)
                else let attribute = if length parts = 4 then parts ! 3 else [] in
                  if attribute = asc ''ActSG'' then write_active h now c ld v
                  else if attribute = asc ''EditSG'' then write_edit h now c ld v
                  else if attribute = asc ''CnfEdit'' then write_confirm h c ld v
                  else ret (Refused ACCESS_OBJECT_ACCESS_DENIED))))))"

definition on_close :: "nat \<Rightarrow> (sg_state, unit) op" where
  "on_close c =
     bindS (gets st_blocks) (\<lambda>blocks. for_each (\<lambda>(ld, _). with_block ld (\<lambda>b. whenS (b_editor b = Some c) (release ld))) blocks)"

section \<open>The server around the engine\<close>

text \<open>\<^verbatim>\<open>_read\<close> and \<^verbatim>\<open>_write\<close> of a connection, with this engine's hooks: what the engine does not answer is read from the
  model or written to it.\<close>

definition model_write :: "object_name \<Rightarrow> iecdata \<Rightarrow> (sg_state, int option) op" where
  "model_write obj d = (\<lambda>s. case write_node (st_model s) obj d of
       Inl e \<Rightarrow> (Inl e, s)
     | Inr (r, m, ch) \<Rightarrow> (Inr r, s\<lparr>st_model := m, st_told := st_told s @ (if ch = [] then [] else [ch])\<rparr>))"

definition engine_write :: "sg_handlers \<Rightarrow> int \<Rightarrow> nat \<Rightarrow> object_name \<Rightarrow> iecdata \<Rightarrow> (sg_state, int option) op" where
  "engine_write h now c obj v =
     bindS (on_write h now c obj v) (\<lambda>r. case r of
       Handled \<Rightarrow> ret None
     | Refused code \<Rightarrow> ret (Some code)
     | Not_theirs \<Rightarrow> model_write obj v)"

definition engine_read :: "int \<Rightarrow> nat \<Rightarrow> object_name \<Rightarrow> (sg_state, access_result) op" where
  "engine_read now c obj =
     bindS (on_read now c obj) (\<lambda>r. case r of
       Refused code \<Rightarrow> ret (Access_error code)
     | _ \<Rightarrow> try_get (\<lambda>s. read_node (st_model s) obj))"

section \<open>Leaves\<close>

definition plain_path :: "ustr list \<Rightarrow> bool" where "plain_path p \<longleftrightarrow> p \<noteq> [] \<and> (\<forall>x \<in> set p. 36 \<notin> set x)"

definition is_leaf :: "ied_model \<Rightarrow> ustr \<Rightarrow> ustr list \<Rightarrow> mms_type \<Rightarrow> bool" where
  "is_leaf m ld p ty \<longleftrightarrow> plain_path p \<and> (\<exists>n. node_at m ld p = Some n \<and> n_children n = [] \<and> n_type n = ty)"

definition val :: "ied_model \<Rightarrow> ustr \<Rightarrow> ustr list \<Rightarrow> iecdata option" where
  "val m ld p = (case node_at m ld p of None \<Rightarrow> None | Some n \<Rightarrow> n_value n)"

definition sgcb_path :: "string \<Rightarrow> ustr list" where
  "sgcb_path attr = [asc ''LLN0'', asc ''SP'', asc ''SGCB'', asc attr]"

lemma join_item: "join 36 (p # ps) = item_from p ps"
  by (induction ps arbitrary: p) (simp_all add: item_from_def)

lemma leaf_name_path: "plain_path p \<Longrightarrow> path_of (leaf_name ld p) = p" "domain_of (leaf_name ld p) = ld"
  by (cases p; simp add: plain_path_def path_of_def leaf_name_def join_item split_item) (simp add: domain_of_def leaf_name_def)

lemma sgcb_leaf_name: "sgcb_attr ld attr = leaf_name ld (sgcb_path attr)"
  by (simp add: sgcb_attr_def leaf_name_def sgcb_path_def SGCB_def)

lemma is_leaf_plain: "is_leaf m ld p ty \<Longrightarrow> plain_path p" by (simp add: is_leaf_def)

lemma is_leaf_type: "is_leaf m ld p ty \<Longrightarrow> is_leaf m ld p ty' \<Longrightarrow> ty' = ty" by (auto simp: is_leaf_def)

lemma is_leaf_skeleton:
  assumes "model_skeleton m' = model_skeleton m"
  shows "is_leaf m' ld p ty \<longleftrightarrow> is_leaf m ld p ty"
proof -
  have "is_leaf a ld p ty" if leaf: "is_leaf b ld p ty" and same: "model_skeleton a = model_skeleton b" for a b
  proof -
    obtain n where n: "node_at b ld p = Some n" "n_children n = []" "n_type n = ty" "plain_path p"
      using leaf unfolding is_leaf_def by blast
    obtain k where k: "node_at a ld p = Some k" "skeleton k = skeleton n" using same_skeleton_Some [OF same n(1)] by blast
    have "map skeleton (n_children k) = map skeleton (n_children n)" "n_type k = n_type n"
      using k(2) skeleton_simps(5,3) by metis+
    then show ?thesis using k n by (simp add: is_leaf_def)
  qed
  then show ?thesis using assms by metis
qed

lemma node_at_append: "node_at m ld (p # ps @ qs) = (case node_at m ld (p # ps) of None \<Rightarrow> None | Some n \<Rightarrow> descend (Some n) qs)"
proof -
  have "descend x (ps @ qs) = (case descend x ps of None \<Rightarrow> None | Some n \<Rightarrow> descend (Some n) qs)" for x
    by (induction ps arbitrary: x) (auto split: option.splits)
  then show ?thesis by (auto simp: node_at_def split: option.splits)
qed

lemma leaves_apart:
  assumes "is_leaf m ld p ty" "is_leaf m ld q ty'" "p \<noteq> q"
  shows "\<not> prefix p q"
proof
  assume "prefix p q"
  then obtain x xs where q: "q = p @ x # xs" using assms(3) by (metis append_Nil2 neq_Nil_conv prefix_def)
  obtain a ps where p: "p = a # ps" using assms(1) by (cases p) (auto simp: is_leaf_def plain_path_def)
  obtain n where n: "node_at m ld p = Some n" "n_children n = []" using assms(1) by (auto simp: is_leaf_def)
  have "node_at m ld q = None" using n node_at_append [of m ld a ps "x # xs"] p q by (simp add: child_def)
  then show False using assms(2) by (simp add: is_leaf_def)
qed

lemma leaf_value:
  assumes m: "wt_model m" and l: "is_leaf m ld p ty"
  shows "\<exists>d. val m ld p = Some d \<and> fits ty d \<and> get_node m (leaf_name ld p) = Inr d"
proof -
  obtain n where n: "node_at m ld p = Some n" "n_children n = []" "n_type n = ty" using l by (auto simp: is_leaf_def)
  have "wt n" using node_at_wt [OF m n(1)] by simp
  then obtain d where "n_value n = Some d" "fits ty d" "node_data n = Inr d"
    using n(2,3) by (cases n) (auto split: mms_type.splits)
  then show ?thesis using n is_leaf_plain [OF l] by (auto simp: val_def get_node_def find_node_def leaf_name_path)
qed

text \<open>\<open>changed_in P\<close>: the model is still well typed, of the same shape, and only the leaves of \<open>P\<close> may have changed.\<close>

definition changed_in :: "(ustr \<times> ustr list) set \<Rightarrow> ied_model \<Rightarrow> ied_model \<Rightarrow> bool" where
  "changed_in P m m' \<longleftrightarrow> wt_model m' \<and> model_skeleton m' = model_skeleton m
     \<and> (\<forall>ld p ty. is_leaf m ld p ty \<longrightarrow> (ld, p) \<notin> P \<longrightarrow> val m' ld p = val m ld p)"

lemma changed_in_refl: "wt_model m \<Longrightarrow> changed_in P m m" by (simp add: changed_in_def)

lemma changed_in_trans: "changed_in P m m' \<Longrightarrow> changed_in Q m' m'' \<Longrightarrow> changed_in (P \<union> Q) m m''"
  unfolding changed_in_def using is_leaf_skeleton [of m' m] by auto

lemma changed_in_mono: "changed_in P m m' \<Longrightarrow> P \<subseteq> Q \<Longrightarrow> changed_in Q m m'"
  unfolding changed_in_def by blast

lemma changed_in_leaf: "changed_in P m m' \<Longrightarrow> is_leaf m' ld p ty \<longleftrightarrow> is_leaf m ld p ty"
  unfolding changed_in_def using is_leaf_skeleton by blast

lemma changed_in_val: "changed_in P m m' \<Longrightarrow> is_leaf m ld p ty \<Longrightarrow> (ld, p) \<notin> P \<Longrightarrow> val m' ld p = val m ld p"
  unfolding changed_in_def by blast

lemma set_leaf:
  assumes m: "wt_model m" and l: "is_leaf m ld p ty" and f: "fits ty d"
  shows "\<exists>m' ch d'. set_node m (leaf_name ld p) d = Inr (m', ch) \<and> changed_in {(ld, p)} m m'
    \<and> val m' ld p = Some d' \<and> same_value d' d"
proof -
  note path = leaf_name_path(1) [OF is_leaf_plain [OF l], of ld] leaf_name_path(2) [of ld p]
  obtain n where n: "find_node m (leaf_name ld p) = Some n" "n_type n = ty"
    using l path by (auto simp: is_leaf_def find_node_def)
  obtain m' ch where s: "set_node m (leaf_name ld p) d = Inr (m', ch)"
    using assign_at_sound [OF m n(1), of d] n f by (auto simp: set_node_def)
  note sound = set_node_sound [OF m s]
  have sk: "model_skeleton m' = model_skeleton m" using set_node_skeleton [OF m s] .
  have l': "is_leaf m' ld p ty" using l is_leaf_skeleton [OF sk] by simp
  obtain d' where d: "val m' ld p = Some d'" "get_node m' (leaf_name ld p) = Inr d'" using leaf_value [OF sound(1) l'] by blast
  have "same_value d' d" using sound(3) d(2) by (auto simp: read_node_def get_node_def mapE_Inr_iff split: option.splits)
  moreover have "val m' ld' q = val m ld' q" if "is_leaf m ld' q ty'" "(ld', q) \<noteq> (ld, p)" for ld' q ty'
  proof -
    note pq = leaf_name_path(1) [OF is_leaf_plain [OF that(1)], of ld'] leaf_name_path(2) [of ld' q]
    have "\<not> overlapping (leaf_name ld p) (leaf_name ld' q)"
      using that leaves_apart [OF l, of q] leaves_apart [of m ld' q ty' p ty] l by (auto simp: overlapping_def path pq)
    then have "find_node m' (leaf_name ld' q) = find_node m (leaf_name ld' q)" using sound(4) by blast
    then show ?thesis by (simp add: val_def find_node_def pq)
  qed
  ultimately show ?thesis using s sound(1) sk d(1) by (auto simp: changed_in_def)
qed

text \<open>\<open>leads a m B m' B'\<close>: from the model \<open>m\<close> and the blocks \<open>B\<close>, \<open>a\<close> raises nothing and leaves \<open>m'\<close> and \<open>B'\<close>.\<close>

type_synonym sg_blocks = "(ustr \<times> sg_block) list"

definition leads :: "(sg_state, unit) op \<Rightarrow> ied_model \<Rightarrow> sg_blocks \<Rightarrow> ied_model \<Rightarrow> sg_blocks \<Rightarrow> bool" where
  "leads a m B m' B' \<longleftrightarrow> (\<forall>s. st_model s = m \<longrightarrow> st_blocks s = B \<longrightarrow>
     (\<exists>told. a s = (Inr (), \<lparr>st_model = m', st_blocks = B', st_told = told\<rparr>)))"

lemma leadsD:
  "leads a m B m' B' \<Longrightarrow> st_model s = m \<Longrightarrow> st_blocks s = B \<Longrightarrow>
     \<exists>told. a s = (Inr (), \<lparr>st_model = m', st_blocks = B', st_told = told\<rparr>)"
  by (simp add: leads_def)

lemma leads_ret: "leads (ret ()) m B m B"
  unfolding leads_def by (metis ret_apply sg_state.surjective old.unit.exhaust)

lemma leads_then: "leads a m B m1 B1 \<Longrightarrow> leads b m1 B1 m2 B2 \<Longrightarrow> leads (thenS a b) m B m2 B2"
  unfolding leads_def by (metis thenS_Inr sg_state.select_convs(1,2))

lemma leads_modify: "(\<And>s. st_blocks (f s) = g (st_blocks s) \<and> st_model (f s) = st_model s) \<Longrightarrow> leads (modify f) m B m (g B)"
  unfolding leads_def by (metis modify_apply sg_state.surjective old.unit.exhaust)

lemma leads_gets: "(\<And>s. st_model s = m \<Longrightarrow> st_blocks s = B \<Longrightarrow> leads (f (g s)) m B m' B') \<Longrightarrow> leads (bindS (gets g) f) m B m' B'"
  unfolding leads_def by simp

lemma model_set_leaf:
  assumes "wt_model m" "is_leaf m ld p ty" "fits ty d"
  shows "\<exists>m' d'. leads (model_set (leaf_name ld p) d) m B m' B \<and> changed_in {(ld, p)} m m' \<and> val m' ld p = Some d' \<and> same_value d' d"
proof -
  obtain m' ch d' where m: "set_node m (leaf_name ld p) d = Inr (m', ch)" "changed_in {(ld, p)} m m'"
    "val m' ld p = Some d'" "same_value d' d" using set_leaf [OF assms] by blast
  have "leads (model_set (leaf_name ld p) d) m B m' B"
    using m(1) by (auto simp: leads_def model_set_def intro!: sg_state.equality)
  then show ?thesis using m by blast
qed

text \<open>A group's values loaded into leaves.\<close>

definition mirror :: "ied_model \<Rightarrow> ustr \<Rightarrow> (ustr \<times> ustr list) list \<Rightarrow> (ustr \<times> iecdata) list \<Rightarrow> bool" where
  "mirror m ld ps vs \<longleftrightarrow> (\<forall>k p v. (k, p) \<in> set ps \<longrightarrow> map_of vs k = Some v \<longrightarrow> (\<exists>d. val m ld p = Some d \<and> same_value d v))"

abbreviation paths_in :: "ustr \<Rightarrow> (ustr \<times> ustr list) list \<Rightarrow> (ustr \<times> ustr list) set" where
  "paths_in ld ps \<equiv> (\<lambda>(k, p). (ld, p)) ` set ps"

lemma load_values_ok:
  assumes "wt_model m" "\<And>k p. (k, p) \<in> set ps \<Longrightarrow> is_leaf m ld p (T k)"
    "\<And>k p v. (k, p) \<in> set ps \<Longrightarrow> map_of vs k = Some v \<Longrightarrow> fits (T k) v" "distinct (map snd ps)"
  shows "\<exists>m'. leads (load_values ld vs ps) m B m' B \<and> changed_in (paths_in ld ps) m m' \<and> mirror m' ld ps vs"
  using assms
proof (induction ps arbitrary: m)
  case Nil
  then show ?case by (intro exI [of _ m]) (simp add: load_values_def changed_in_refl mirror_def leads_ret del: ret_apply)
next
  case (Cons kp ps)
  obtain k p where kp: "kp = (k, p)" by (cases kp)
  let ?first = "case map_of vs k of None \<Rightarrow> ret () | Some v \<Rightarrow> model_set (leaf_name ld p) v"
  have load: "load_values ld vs (kp # ps) = thenS ?first (load_values ld vs ps)" by (simp add: load_values_def kp)
  have leaf: "is_leaf m ld p (T k)" using Cons.prems(2) kp by simp
  obtain m1 where s1: "leads ?first m B m1 B" "changed_in {(ld, p)} m m1"
    "\<forall>v. map_of vs k = Some v \<longrightarrow> (\<exists>d. val m1 ld p = Some d \<and> same_value d v)"
  proof (cases "map_of vs k")
    case None
    then show ?thesis using that [of m] Cons.prems(1) by (simp add: changed_in_refl leads_ret)
  next
    case (Some v)
    then have "fits (T k) v" using Cons.prems(3) [of k p v] kp by simp
    then show ?thesis using model_set_leaf [OF Cons.prems(1) leaf] that Some by fastforce
  qed
  have "wt_model m1" using s1(2) by (simp add: changed_in_def)
  moreover have "is_leaf m1 ld q (T i)" if "(i, q) \<in> set ps" for i q
    using Cons.prems(2) that by (simp add: changed_in_leaf [OF s1(2)])
  ultimately obtain m2 where s2: "leads (load_values ld vs ps) m1 B m2 B" "changed_in (paths_in ld ps) m1 m2" "mirror m2 ld ps vs"
    using Cons.IH [of m1] Cons.prems(3) [OF list.set_intros(2)] Cons.prems(4) by auto
  have "p \<notin> snd ` set ps" using Cons.prems(4) kp by simp
  then have "val m2 ld p = val m1 ld p" using changed_in_val [OF s2(2)] leaf changed_in_leaf [OF s1(2)] by force
  then have "mirror m2 ld (kp # ps) vs" using s1(3) s2(3) by (auto simp: mirror_def kp)
  moreover have "changed_in (paths_in ld (kp # ps)) m m2"
    by (rule changed_in_mono [OF changed_in_trans [OF s1(2) s2(2)]]) (auto simp: kp)
  ultimately show ?case unfolding load using leads_then [OF s1(1) s2(1)] by blast
qed

section \<open>What the engine maintains\<close>

definition attr_val :: "ied_model \<Rightarrow> ustr \<Rightarrow> string \<Rightarrow> int" where
  "attr_val m ld attr = (case val m ld (sgcb_path attr) of Some (UIntData n) \<Rightarrow> n | Some (IntData n) \<Rightarrow> n | _ \<Rightarrow> 0)"

definition attr_of_kind :: "string set \<Rightarrow> ied_model \<Rightarrow> ustr \<Rightarrow> string \<Rightarrow> bool" where
  "attr_of_kind kinds m ld attr \<longleftrightarrow> (\<exists>kind n. kind \<in> kinds \<and> is_leaf m ld (sgcb_path attr) (PrimitiveType kind n))"

definition optional_attr :: "string set \<Rightarrow> ied_model \<Rightarrow> ustr \<Rightarrow> string \<Rightarrow> bool" where
  "optional_attr kinds m ld attr \<longleftrightarrow> node_at m ld (sgcb_path attr) = None \<or> attr_of_kind kinds m ld attr"

text \<open>The leaves of one FC, each of the type its key has in both FCs.\<close>

definition leaves_of_fc :: "string \<Rightarrow> (ustr \<Rightarrow> mms_type) \<Rightarrow> ied_model \<Rightarrow> ustr \<Rightarrow> (ustr \<times> ustr list) list \<Rightarrow> bool" where
  "leaves_of_fc fc T m ld ps \<longleftrightarrow> distinct (map snd ps) \<and> distinct (map fst ps)
     \<and> (\<forall>(k, p) \<in> set ps. is_leaf m ld p (T k) \<and> 2 \<le> length p \<and> p ! 1 = asc fc)"

definition values_fit :: "(ustr \<Rightarrow> mms_type) \<Rightarrow> sg_block \<Rightarrow> (ustr \<times> iecdata) list \<Rightarrow> bool" where
  "values_fit T b vs \<longleftrightarrow> (\<forall>k v. map_of vs k = Some v \<longrightarrow> k \<in> fst ` (set (b_sg b) \<union> set (b_se b)) \<longrightarrow> fits (T k) v)"

text \<open>What never changes of a block: its attributes and leaves, and one set of values that fit for each group.\<close>

definition block_static :: "(ustr \<Rightarrow> mms_type) \<Rightarrow> ied_model \<Rightarrow> ustr \<Rightarrow> sg_block \<Rightarrow> bool" where
  "block_static T m ld b \<longleftrightarrow>
     attr_of_kind {''unsigned''} m ld ''ActSG'' \<and> attr_of_kind {''unsigned''} m ld ''EditSG''
     \<and> optional_attr {''unsigned''} m ld ''ResvTms'' \<and> optional_attr {''utc-time'', ''binary-time''} m ld ''LActTm''
     \<and> leaves_of_fc ''SG'' T m ld (b_sg b) \<and> leaves_of_fc ''SE'' T m ld (b_se b)
     \<and> (\<forall>g. if 1 \<le> g \<and> g \<le> sg_count (b_groups b)
            then \<exists>vs. map_of (sg_values (b_groups b)) g = Some vs \<and> values_fit T b vs
            else map_of (sg_values (b_groups b)) g = None)"

text \<open>What holds between operations: the active group exists and the SG leaves hold its values; EditSG is the group
  being edited, 0 when nobody edits.\<close>

definition active_ok :: "ied_model \<Rightarrow> ustr \<Rightarrow> sg_block \<Rightarrow> bool" where
  "active_ok m ld b \<longleftrightarrow> 1 \<le> attr_val m ld ''ActSG'' \<and> attr_val m ld ''ActSG'' \<le> sg_count (b_groups b)
     \<and> (\<forall>vs. map_of (sg_values (b_groups b)) (attr_val m ld ''ActSG'') = Some vs \<longrightarrow> mirror m ld (b_sg b) vs)"

definition edit_ok :: "ied_model \<Rightarrow> ustr \<Rightarrow> sg_block \<Rightarrow> bool" where
  "edit_ok m ld b \<longleftrightarrow> 0 \<le> attr_val m ld ''EditSG'' \<and> attr_val m ld ''EditSG'' \<le> sg_count (b_groups b)
     \<and> (attr_val m ld ''EditSG'' = 0 \<longleftrightarrow> b_editor b = None)"

definition block_ok :: "ied_model \<Rightarrow> ustr \<Rightarrow> sg_block \<Rightarrow> bool" where
  "block_ok m ld b \<longleftrightarrow> (\<exists>T. block_static T m ld b) \<and> active_ok m ld b \<and> edit_ok m ld b"

definition sg_ok :: "sg_state \<Rightarrow> bool" where
  "sg_ok s \<longleftrightarrow> wt_model (st_model s) \<and> distinct (map fst (st_blocks s))
     \<and> (\<forall>ld b. map_of (st_blocks s) ld = Some b \<longrightarrow> block_ok (st_model s) ld b)"

lemma changed_in_node: "changed_in P m m' \<Longrightarrow> node_at m' ld p = None \<longleftrightarrow> node_at m ld p = None"
  unfolding changed_in_def using same_skeleton_node [of m' m ld p] by (metis map_option_is_None)

lemma block_static_changed:
  assumes "changed_in P m m'"
  shows "block_static T m' ld b \<longleftrightarrow> block_static T m ld b"
  unfolding block_static_def attr_of_kind_def optional_attr_def leaves_of_fc_def changed_in_leaf [OF assms] changed_in_node [OF assms] ..

lemma attr_val_changed:
  "changed_in P m m' \<Longrightarrow> attr_of_kind K m ld attr \<Longrightarrow> (ld, sgcb_path attr) \<notin> P \<Longrightarrow> attr_val m' ld attr = attr_val m ld attr"
  by (auto simp: attr_of_kind_def attr_val_def dest!: changed_in_val)

lemma mirror_changed:
  assumes "changed_in P m m'" "leaves_of_fc fc T m ld ps" "\<And>k p. (k, p) \<in> set ps \<Longrightarrow> (ld, p) \<notin> P"
  shows "mirror m' ld ps vs \<longleftrightarrow> mirror m ld ps vs"
proof -
  have "val m' ld p = val m ld p" if "(k, p) \<in> set ps" for k p
    using that assms(2) changed_in_val [OF assms(1) _ assms(3) [OF that]] by (fastforce simp: leaves_of_fc_def)
  then show ?thesis unfolding mirror_def by metis
qed

lemma uint_attr_val:
  "wt_model m \<Longrightarrow> attr_of_kind {''unsigned''} m ld attr \<Longrightarrow> uint_attr m ld attr = Inr (attr_val m ld attr)"
proof -
  assume m: "wt_model m" and a: "attr_of_kind {''unsigned''} m ld attr"
  obtain n where "is_leaf m ld (sgcb_path attr) (PrimitiveType ''unsigned'' n)" using a by (auto simp: attr_of_kind_def)
  then obtain d where d: "val m ld (sgcb_path attr) = Some d" "get_node m (sgcb_attr ld attr) = Inr d"
    using leaf_value [OF m] by (metis sgcb_leaf_name)
  show ?thesis unfolding uint_attr_def attr_val_def d by (simp split: iecdata.split)
qed

lemma sgcb_paths [simp]:
  "sgcb_path a = sgcb_path b \<longleftrightarrow> asc a = asc b" "sgcb_path a ! 1 = asc ''SP''" "length (sgcb_path a) = 4"
  by (simp_all add: sgcb_path_def)

section \<open>What the helpers do\<close>

lemma static_kinds:
  assumes "block_static T m ld b"
  shows "attr_of_kind {''unsigned''} m ld ''ActSG''" "attr_of_kind {''unsigned''} m ld ''EditSG''"
    "optional_attr {''unsigned''} m ld ''ActSG''" "optional_attr {''unsigned''} m ld ''EditSG''"
    "optional_attr {''unsigned''} m ld ''ResvTms''" "optional_attr {''utc-time'', ''binary-time''} m ld ''LActTm''"
    "leaves_of_fc ''SG'' T m ld (b_sg b)" "leaves_of_fc ''SE'' T m ld (b_se b)"
  using assms by (simp_all add: block_static_def optional_attr_def)

lemma static_group:
  assumes "block_static T m ld b" "1 \<le> g" "g \<le> sg_count (b_groups b)"
  shows "\<exists>vs. map_of (sg_values (b_groups b)) g = Some vs \<and> values_fit T b vs"
  using assms by (auto simp: block_static_def)

lemma sgcb_path_apart: "leaves_of_fc fc T m ld ps \<Longrightarrow> asc fc \<noteq> asc ''SP'' \<Longrightarrow> (ld', sgcb_path a) \<notin> paths_in ld ps"
  unfolding leaves_of_fc_def using sgcb_paths(2) by fastforce

lemma paths_apart:
  "leaves_of_fc fc T m ld ps \<Longrightarrow> leaves_of_fc fc' T m ld qs \<Longrightarrow> asc fc \<noteq> asc fc' \<Longrightarrow> (k, p) \<in> set ps \<Longrightarrow> (ld, p) \<notin> paths_in ld qs"
  by (fastforce simp: leaves_of_fc_def)

lemma active_frame:
  assumes "changed_in P m m'" "block_static T m ld b" "(ld, sgcb_path ''ActSG'') \<notin> P" "\<And>k p. (k, p) \<in> set (b_sg b) \<Longrightarrow> (ld, p) \<notin> P"
  shows "active_ok m' ld b \<longleftrightarrow> active_ok m ld b"
proof -
  have "mirror m' ld (b_sg b) vs \<longleftrightarrow> mirror m ld (b_sg b) vs" for vs
    by (rule mirror_changed [OF assms(1) static_kinds(7) [OF assms(2)]]) (rule assms(4))
  then show ?thesis unfolding active_ok_def attr_val_changed [OF assms(1) static_kinds(1) [OF assms(2)] assms(3)] by simp
qed

lemma edit_frame:
  assumes "changed_in P m m'" "block_static T m ld b" "(ld, sgcb_path ''EditSG'') \<notin> P"
  shows "edit_ok m' ld b \<longleftrightarrow> edit_ok m ld b"
  unfolding edit_ok_def attr_val_changed [OF assms(1) static_kinds(2) [OF assms(2)] assms(3)] ..

lemma set_attr_ok:
  assumes m: "wt_model m" and a: "optional_attr K m ld attr" and f: "\<And>kind n. kind \<in> K \<Longrightarrow> fits (PrimitiveType kind n) d"
    and plain: "36 \<notin> set (asc attr)"
  shows "\<exists>m'. leads (set_attr ld attr d) m B m' B \<and> changed_in {(ld, sgcb_path attr)} m m'
    \<and> (\<forall>n. attr_of_kind K m ld attr \<longrightarrow> d = UIntData n \<longrightarrow> attr_val m' ld attr = n)"
proof -
  have "plain_path (sgcb_path attr)" using plain by (simp add: plain_path_def sgcb_path_def)
  then have node: "find_node m (sgcb_attr ld attr) = node_at m ld (sgcb_path attr)"
    by (simp add: find_node_def sgcb_leaf_name leaf_name_path)
  show ?thesis
  proof (cases "attr_of_kind K m ld attr")
    case False
    then have none: "node_at m ld (sgcb_path attr) = None" using a by (simp add: optional_attr_def)
    have "leads (set_attr ld attr d) m B m B"
      unfolding set_attr_def by (rule leads_gets) (use none node in \<open>simp add: leads_ret del: ret_apply\<close>)
    then show ?thesis using False changed_in_refl [OF m] by blast
  next
    case True
    then obtain kind n where l: "kind \<in> K" "is_leaf m ld (sgcb_path attr) (PrimitiveType kind n)" by (auto simp: attr_of_kind_def)
    obtain m' d' where s: "leads (model_set (leaf_name ld (sgcb_path attr)) d) m B m' B" "changed_in {(ld, sgcb_path attr)} m m'"
      "val m' ld (sgcb_path attr) = Some d'" "same_value d' d" using model_set_leaf [OF m l(2) f [OF l(1)]] by blast
    have "leads (set_attr ld attr d) m B m' B"
      unfolding set_attr_def by (rule leads_gets) (use l(2) node s(1) in \<open>auto simp: is_leaf_def sgcb_leaf_name\<close>)
    moreover have "attr_val m' ld attr = k" if "d = UIntData k" for k
      using s(3,4) that by (cases d') (auto simp: attr_val_def split: iecdata.splits)
    ultimately show ?thesis using s(2) by blast
  qed
qed

lemma load_ok:
  assumes "wt_model m" "map_of B ld = Some b" "map_of (sg_values (b_groups b)) g = Some vs" "leaves_of_fc fc T m ld (paths_of b)"
    "values_fit T b vs" "set (paths_of b) \<subseteq> set (b_sg b) \<union> set (b_se b)"
  shows "\<exists>m'. leads (load ld paths_of g) m B m' B \<and> changed_in (paths_in ld (paths_of b)) m m' \<and> mirror m' ld (paths_of b) vs"
proof -
  have "\<exists>m'. leads (load_values ld vs (paths_of b)) m B m' B \<and> changed_in (paths_in ld (paths_of b)) m m' \<and> mirror m' ld (paths_of b) vs"
    by (rule load_values_ok [OF assms(1)]) (use assms(4-6) in \<open>force simp: leaves_of_fc_def values_fit_def\<close>)+
  then obtain m' where m: "leads (load_values ld vs (paths_of b)) m B m' B" "changed_in (paths_in ld (paths_of b)) m m'"
    "mirror m' ld (paths_of b) vs" by blast
  have "leads (load ld paths_of g) m B m' B"
    unfolding load_def with_block_def by (rule leads_gets) (use assms(2,3) m(1) in simp)
  then show ?thesis using m by blast
qed

lemma activate_ok:
  assumes m: "wt_model m" and b: "map_of B ld = Some b" and st: "block_static T m ld b" and g: "1 \<le> g" "g \<le> sg_count (b_groups b)"
  shows "\<exists>m'. leads (activate now ld g) m B m' B \<and> active_ok m' ld b \<and> attr_val m' ld ''ActSG'' = g
    \<and> changed_in ({(ld, sgcb_path ''ActSG''), (ld, sgcb_path ''LActTm'')} \<union> paths_in ld (b_sg b)) m m'"
proof -
  obtain m1 where m1: "leads (set_attr ld ''ActSG'' (UIntData g)) m B m1 B" "changed_in {(ld, sgcb_path ''ActSG'')} m m1"
    "attr_val m1 ld ''ActSG'' = g"
    using set_attr_ok [OF m static_kinds(3) [OF st], of "UIntData g"] static_kinds(1) [OF st] by (auto simp del: attr_val_def)
  have wt1: "wt_model m1" and st1: "block_static T m1 ld b"
    using m1(2) st by (auto simp: changed_in_def block_static_changed [OF m1(2)])
  obtain m2 where m2: "leads (set_attr ld ''LActTm'' (TimestampData now 0)) m1 B m2 B" "changed_in {(ld, sgcb_path ''LActTm'')} m1 m2"
    using set_attr_ok [OF wt1 static_kinds(6) [OF st1], of "TimestampData now 0"] by auto
  have wt2: "wt_model m2" and st2: "block_static T m2 ld b"
    using m2(2) st1 by (auto simp: changed_in_def block_static_changed [OF m2(2)])
  obtain vs where vs: "map_of (sg_values (b_groups b)) g = Some vs" "values_fit T b vs" using static_group [OF st g] by blast
  obtain m3 where m3: "leads (load ld b_sg g) m2 B m3 B" "changed_in (paths_in ld (b_sg b)) m2 m3" "mirror m3 ld (b_sg b) vs"
    using load_ok [OF wt2 b vs(1), of _ T b_sg] static_kinds(7) [OF st2] vs(2) by blast
  have "attr_val m3 ld ''ActSG'' = g"
    using attr_val_changed [OF m3(2) static_kinds(1) [OF st2] sgcb_path_apart [OF static_kinds(7) [OF st2]]]
      attr_val_changed [OF m2(2) static_kinds(1) [OF st1]] m1(3) by simp
  then show ?thesis
    using leads_then [OF m1(1) leads_then [OF m2(1) m3(1)]] changed_in_trans [OF changed_in_trans [OF m1(2) m2(2)] m3(2)]
      vs(1) m3(3) g by (auto simp: activate_def active_ok_def insert_commute)
qed

abbreviation on_block :: "ustr \<Rightarrow> (sg_block \<Rightarrow> sg_block) \<Rightarrow> sg_blocks \<Rightarrow> sg_blocks" where
  "on_block ld f B \<equiv> map (\<lambda>(d, b). (d, if d = ld then f b else b)) B"

lemma put_block_leads: "leads (put_block ld f) m B m (on_block ld f B)"
  unfolding put_block_def by (rule leads_modify) simp

lemma on_block_of: "map_of (on_block ld f B) d = (if d = ld then map_option f (map_of B d) else map_of B d)"
  by (simp add: map_of_map_snd option.map_id0 option.map_ident)

lemma release_ok:
  assumes m: "wt_model m" and st: "block_static T m ld b"
  shows "\<exists>m'. leads (release ld) m B m' (on_block ld (\<lambda>b. b\<lparr>b_editor := None\<rparr>) B) \<and> attr_val m' ld ''EditSG'' = 0
    \<and> changed_in {(ld, sgcb_path ''EditSG''), (ld, sgcb_path ''ResvTms'')} m m'"
proof -
  let ?B = "on_block ld (\<lambda>b. b\<lparr>b_editor := None\<rparr>) B"
  obtain m1 where m1: "leads (set_attr ld ''EditSG'' (UIntData 0)) m ?B m1 ?B" "changed_in {(ld, sgcb_path ''EditSG'')} m m1"
    "attr_val m1 ld ''EditSG'' = 0"
    using set_attr_ok [OF m static_kinds(4) [OF st], of "UIntData 0" ?B] static_kinds(2) [OF st] by auto
  have wt1: "wt_model m1" and st1: "block_static T m1 ld b"
    using m1(2) st by (auto simp: changed_in_def block_static_changed [OF m1(2)])
  obtain m2 where m2: "leads (set_attr ld ''ResvTms'' (UIntData 0)) m1 ?B m2 ?B" "changed_in {(ld, sgcb_path ''ResvTms'')} m1 m2"
    using set_attr_ok [OF wt1 static_kinds(5) [OF st1], of "UIntData 0" ?B] by auto
  have "attr_val m2 ld ''EditSG'' = 0"
    using attr_val_changed [OF m2(2) static_kinds(2) [OF st1]] m1(3) by simp
  then show ?thesis
    using leads_then [OF put_block_leads leads_then [OF m1(1) m2(1)]] changed_in_trans [OF m1(2) m2(2)]
    by (auto simp: release_def insert_commute)
qed

text \<open>Between operations: a step that changes one block and leaves of its device keeps the invariant of the others.\<close>

lemma block_frame:
  assumes "changed_in P m m'" "block_ok m ld b" "\<And>p. (ld, p) \<notin> P"
  shows "block_ok m' ld b"
proof -
  obtain T where "block_static T m ld b" "active_ok m ld b" "edit_ok m ld b" using assms(2) by (auto simp: block_ok_def)
  then show ?thesis unfolding block_ok_def
    using block_static_changed [OF assms(1)] active_frame [OF assms(1)] edit_frame [OF assms(1)] assms(3) by blast
qed

lemma sg_ok_step:
  assumes ok: "sg_ok s" and c: "changed_in P (st_model s) m'" and P: "P \<subseteq> {ld} \<times> UNIV"
    and b: "\<And>b. map_of (st_blocks s) ld = Some b \<Longrightarrow> block_ok m' ld (f b)"
  shows "sg_ok \<lparr>st_model = m', st_blocks = on_block ld f (st_blocks s), st_told = told\<rparr>"
proof -
  have "block_ok m' d x" if "map_of (on_block ld f (st_blocks s)) d = Some x" for d x
  proof (cases "d = ld")
    case True
    then show ?thesis using that b unfolding on_block_of by auto
  next
    case False
    then have "map_of (st_blocks s) d = Some x" using that unfolding on_block_of by simp
    then have "block_ok (st_model s) d x" using ok by (simp add: sg_ok_def)
    then show ?thesis by (rule block_frame [OF c]) (use P False in auto)
  qed
  moreover have "map fst (on_block ld f B) = map fst B" for B by (induction B) auto
  ultimately show ?thesis using ok c by (simp add: sg_ok_def changed_in_def del: map_map)
qed

lemma on_block_id: "on_block ld (\<lambda>b. b) B = B"
  by (induction B) auto

lemma sg_ok_block: "sg_ok s \<Longrightarrow> map_of (st_blocks s) ld = Some b \<Longrightarrow>
    wt_model (st_model s) \<and> (\<exists>T. block_static T (st_model s) ld b) \<and> active_ok (st_model s) ld b \<and> edit_ok (st_model s) ld b"
  by (simp add: sg_ok_def block_ok_def)

section \<open>Operations keep the invariant\<close>

text \<open>\<open>keeps a\<close>: from a state with the invariant, \<open>a\<close> raises nothing and keeps it.\<close>

definition keeps :: "(sg_state, 'a) op \<Rightarrow> bool" where "keeps a \<longleftrightarrow> triple sg_ok a (\<lambda>_. sg_ok)"

lemma keepsD: "keeps a \<Longrightarrow> sg_ok s \<Longrightarrow> \<exists>x s'. a s = (Inr x, s') \<and> sg_ok s'"
  unfolding keeps_def by (rule tripleD)

lemma editor_apart [simp]:
  "block_static T m ld (b\<lparr>b_editor := e\<rparr>) = block_static T m ld b" "active_ok m ld (b\<lparr>b_editor := e\<rparr>) = active_ok m ld b"
  "block_static T m ld (b\<lparr>b_until := t\<rparr>) = block_static T m ld b" "active_ok m ld (b\<lparr>b_until := t\<rparr>) = active_ok m ld b"
  "edit_ok m ld (b\<lparr>b_until := t\<rparr>) = edit_ok m ld b"
  by (simp_all add: block_static_def active_ok_def edit_ok_def values_fit_def)

lemma do_release:
  assumes ok: "sg_ok s" and b: "map_of (st_blocks s) ld = Some b"
  shows "\<exists>s'. release ld s = (Inr (), s') \<and> sg_ok s' \<and> map_of (st_blocks s') ld = Some (b\<lparr>b_editor := None\<rparr>)
    \<and> attr_val (st_model s') ld ''EditSG'' = 0 \<and> st_blocks s' = on_block ld (\<lambda>b. b\<lparr>b_editor := None\<rparr>) (st_blocks s)"
proof -
  obtain T where i: "wt_model (st_model s)" "block_static T (st_model s) ld b" "active_ok (st_model s) ld b" "edit_ok (st_model s) ld b"
    using sg_ok_block [OF ok b] by blast
  let ?f = "\<lambda>b. b\<lparr>b_editor := None\<rparr>"
  obtain m' where m: "leads (release ld) (st_model s) (st_blocks s) m' (on_block ld ?f (st_blocks s))" "attr_val m' ld ''EditSG'' = 0"
    "changed_in {(ld, sgcb_path ''EditSG''), (ld, sgcb_path ''ResvTms'')} (st_model s) m'"
    using release_ok [OF i(1,2)] by blast
  obtain told where r: "release ld s = (Inr (), \<lparr>st_model = m', st_blocks = on_block ld ?f (st_blocks s), st_told = told\<rparr>)"
    using leadsD [OF m(1)] by blast
  have a: "active_ok m' ld b"
    using active_frame [OF m(3) i(2)] i(3) sgcb_path_apart [OF static_kinds(7) [OF i(2)]] by fastforce
  have "block_ok m' ld (?f b)"
    using a i(2,4) m(2) block_static_changed [OF m(3), of T ld b] by (auto simp: block_ok_def) (simp add: edit_ok_def)
  then have "sg_ok \<lparr>st_model = m', st_blocks = on_block ld ?f (st_blocks s), st_told = told\<rparr>"
    by (intro sg_ok_step [OF ok m(3)]) (use b in auto)
  moreover have "map_of (on_block ld ?f (st_blocks s)) ld = Some (?f b)" using b by (simp only: on_block_of) simp
  ultimately show ?thesis using r m(2) by auto
qed

lemma do_activate:
  assumes ok: "sg_ok s" and b: "map_of (st_blocks s) ld = Some b" and g: "1 \<le> g" "g \<le> sg_count (b_groups b)"
  shows "\<exists>s'. activate now ld g s = (Inr (), s') \<and> sg_ok s' \<and> st_blocks s' = st_blocks s
    \<and> attr_val (st_model s') ld ''ActSG'' = g"
proof -
  obtain T where i: "wt_model (st_model s)" "block_static T (st_model s) ld b" "active_ok (st_model s) ld b" "edit_ok (st_model s) ld b"
    using sg_ok_block [OF ok b] by blast
  let ?P = "{(ld, sgcb_path ''ActSG''), (ld, sgcb_path ''LActTm'')} \<union> paths_in ld (b_sg b)"
  obtain m' where m: "leads (activate now ld g) (st_model s) (st_blocks s) m' (st_blocks s)" "active_ok m' ld b"
    "attr_val m' ld ''ActSG'' = g" "changed_in ?P (st_model s) m'"
    using activate_ok [OF i(1) b i(2) g] by blast
  obtain told where r: "activate now ld g s = (Inr (), \<lparr>st_model = m', st_blocks = st_blocks s, st_told = told\<rparr>)"
    using leadsD [OF m(1)] by blast
  have "edit_ok m' ld b"
    using edit_frame [OF m(4) i(2)] i(4) sgcb_path_apart [OF static_kinds(7) [OF i(2)]] by fastforce
  then have "block_ok m' ld b"
    using m(2) i(2) block_static_changed [OF m(4)] by (auto simp: block_ok_def)
  then have "sg_ok \<lparr>st_model = m', st_blocks = on_block ld (\<lambda>b. b) (st_blocks s), st_told = told\<rparr>"
    by (intro sg_ok_step [OF ok m(4)]) (use b in auto)
  then show ?thesis using r m(3) unfolding on_block_id by auto
qed

lemma thenS_assoc: "thenS (thenS a b) c = thenS a (thenS b c)"
  unfolding thenS_def bindS_assoc ..

lemma do_edit:
  assumes ok: "sg_ok s" and b: "map_of (st_blocks s) ld = Some b" and g: "1 \<le> g" "g \<le> sg_count (b_groups b)"
  shows "\<exists>s'. thenS (put_block ld (\<lambda>b. b\<lparr>b_editor := Some c, b_until := t\<rparr>)) (thenS (set_attr ld ''EditSG'' (UIntData g))
      (thenS (set_attr ld ''ResvTms'' (UIntData r)) (load ld b_se g))) s = (Inr (), s') \<and> sg_ok s'
    \<and> map_of (st_blocks s') ld = Some (b\<lparr>b_editor := Some c, b_until := t\<rparr>) \<and> attr_val (st_model s') ld ''EditSG'' = g
    \<and> (\<forall>vs. map_of (sg_values (b_groups b)) g = Some vs \<longrightarrow> mirror (st_model s') ld (b_se b) vs)"
    (is "\<exists>s'. ?op s = _ \<and> _")
proof -
  let ?f = "\<lambda>b. b\<lparr>b_editor := Some c, b_until := t\<rparr>"
  let ?B = "on_block ld ?f (st_blocks s)"
  let ?E = "{(ld, sgcb_path ''EditSG'')}" and ?R = "{(ld, sgcb_path ''ResvTms'')}" and ?S = "paths_in ld (b_se b)"
  obtain T where i: "wt_model (st_model s)" "block_static T (st_model s) ld b" "active_ok (st_model s) ld b" "edit_ok (st_model s) ld b"
    using sg_ok_block [OF ok b] by blast
  obtain m1 where m1: "leads (set_attr ld ''EditSG'' (UIntData g)) (st_model s) ?B m1 ?B" "changed_in ?E (st_model s) m1"
    "attr_val m1 ld ''EditSG'' = g"
    using set_attr_ok [OF i(1) static_kinds(4) [OF i(2)], of "UIntData g" ?B] static_kinds(2) [OF i(2)] by auto
  have i1: "wt_model m1" "block_static T m1 ld b"
    using m1(2) i(2) by (auto simp: changed_in_def block_static_changed [OF m1(2)])
  obtain m2 where m2: "leads (set_attr ld ''ResvTms'' (UIntData r)) m1 ?B m2 ?B" "changed_in ?R m1 m2"
    using set_attr_ok [OF i1(1) static_kinds(5) [OF i1(2)], of "UIntData r" ?B] by auto
  have i2: "wt_model m2" "block_static T m2 ld b"
    using m2(2) i1(2) by (auto simp: changed_in_def block_static_changed [OF m2(2)])
  obtain vs where vs: "map_of (sg_values (b_groups b)) g = Some vs" "values_fit T b vs" using static_group [OF i(2) g] by blast
  have B: "map_of ?B ld = Some (?f b)" using b by (simp only: on_block_of) simp
  obtain m3 where m3: "leads (load ld b_se g) m2 ?B m3 ?B" "changed_in ?S m2 m3" "mirror m3 ld (b_se b) vs"
    using load_ok [OF i2(1) B, of g vs "''SE''" T b_se] vs static_kinds(8) [OF i2(2)] by (auto simp: values_fit_def)
  have run: "leads ?op (st_model s) (st_blocks s) m3 ?B"
    by (rule leads_then [OF put_block_leads leads_then [OF m1(1) leads_then [OF m2(1) m3(1)]]])
  obtain told where r: "?op s = (Inr (), \<lparr>st_model = m3, st_blocks = ?B, st_told = told\<rparr>)" using leadsD [OF run] by blast
  note c = changed_in_trans [OF changed_in_trans [OF m1(2) m2(2)] m3(2)]
  have e: "attr_val m3 ld ''EditSG'' = g"
    using attr_val_changed [OF m3(2) static_kinds(2) [OF i2(2)] sgcb_path_apart [OF static_kinds(8) [OF i2(2)]]]
      attr_val_changed [OF m2(2) static_kinds(2) [OF i1(2)]] m1(3) by simp
  have "active_ok m3 ld b"
    using active_frame [OF c i(2)] i(3) sgcb_path_apart [OF static_kinds(8) [OF i(2)]] sgcb_path_apart [OF static_kinds(7) [OF i(2)]]
      paths_apart [OF static_kinds(7,8) [OF i(2)]] by fastforce
  then have "block_ok m3 ld (?f b)"
    using i(2) g e block_static_changed [OF c, of T ld b] by (auto simp: block_ok_def) (simp add: edit_ok_def)
  then have "sg_ok \<lparr>st_model = m3, st_blocks = ?B, st_told = told\<rparr>"
    by (intro sg_ok_step [OF ok c]) (use b in auto)
  then show ?thesis using r e B m3(3) vs(1) by auto
qed

text \<open>New values of a group, and the SG leaves after them when it is the active one.\<close>

definition with_values :: "int \<Rightarrow> (ustr \<times> iecdata) list \<Rightarrow> sg_block \<Rightarrow> sg_block" where
  "with_values grp vs b = b\<lparr>b_groups := (b_groups b)\<lparr>sg_values := AList.update grp vs (sg_values (b_groups b))\<rparr>\<rparr>"

lemma with_values_simps [simp]:
  "b_sg (with_values g vs b) = b_sg b" "b_se (with_values g vs b) = b_se b" "b_editor (with_values g vs b) = b_editor b"
  "sg_count (b_groups (with_values g vs b)) = sg_count (b_groups b)" "b_until (with_values g vs b) = b_until b"
  "edit_ok m ld (with_values g vs b) = edit_ok m ld b"
  by (simp_all add: with_values_def edit_ok_def)

lemma with_values_of: "map_of (sg_values (b_groups (with_values g vs b))) k = (if k = g then Some vs else map_of (sg_values (b_groups b)) k)"
  by (simp add: with_values_def update_conv')

lemma with_values_static:
  assumes "block_static T m ld b" "values_fit T b vs" "1 \<le> g" "g \<le> sg_count (b_groups b)"
  shows "block_static T m ld (with_values g vs b)"
proof -
  have "values_fit T (with_values g vs b) = values_fit T b" by (intro ext) (simp add: values_fit_def)
  then show ?thesis using assms by (simp add: block_static_def with_values_of)
qed

lemma do_values:
  assumes ok: "sg_ok s" and b: "map_of (st_blocks s) ld = Some b" and g: "1 \<le> g" "g \<le> sg_count (b_groups b)"
    and T: "block_static T (st_model s) ld b" and f: "values_fit T b vs"
  shows "\<exists>s'. thenS (put_values ld g vs) (bindS (active ld) (\<lambda>a. whenS (g = a) (load ld b_sg g))) s = (Inr (), s') \<and> sg_ok s'
    \<and> map_of (st_blocks s') ld = Some (with_values g vs b)"
proof -
  have i: "wt_model (st_model s)" "active_ok (st_model s) ld b" "edit_ok (st_model s) ld b"
    using sg_ok_block [OF ok b] by blast+
  let ?B = "on_block ld (with_values g vs) (st_blocks s)"
  have B: "map_of ?B ld = Some (with_values g vs b)" using b by (simp only: on_block_of) simp
  note st = with_values_static [OF T f g]
  have act: "uint_attr (st_model s) ld ''ActSG'' = Inr (attr_val (st_model s) ld ''ActSG'')"
    by (rule uint_attr_val [OF i(1) static_kinds(1) [OF T]])
  have "\<exists>m'. leads (whenS (g = attr_val (st_model s) ld ''ActSG'') (load ld b_sg g)) (st_model s) ?B m' ?B
      \<and> changed_in (paths_in ld (b_sg b)) (st_model s) m' \<and> active_ok m' ld (with_values g vs b)"
  proof (cases "g = attr_val (st_model s) ld ''ActSG''")
    case True
    have "values_fit T (with_values g vs b) vs" using f by (simp add: values_fit_def)
    then obtain m' where m: "leads (load ld b_sg g) (st_model s) ?B m' ?B" "changed_in (paths_in ld (b_sg b)) (st_model s) m'"
      "mirror m' ld (b_sg b) vs"
      using load_ok [OF i(1) B, of g vs "''SG''" T b_sg] static_kinds(7) [OF T] by (auto simp: with_values_of)
    have "attr_val m' ld ''ActSG'' = g"
      using attr_val_changed [OF m(2) static_kinds(1) [OF T] sgcb_path_apart [OF static_kinds(7) [OF T]]] True by simp
    then have "active_ok m' ld (with_values g vs b)" using m(3) g by (simp add: active_ok_def with_values_of)
    then show ?thesis using m True by (auto simp: whenS_def)
  next
    case False
    then have "active_ok (st_model s) ld (with_values g vs b)" using i(2) by (simp add: active_ok_def with_values_of)
    then show ?thesis using False changed_in_refl [OF i(1)] leads_ret by (auto simp: whenS_def simp del: ret_apply)
  qed
  then obtain m' where m: "leads (whenS (g = attr_val (st_model s) ld ''ActSG'') (load ld b_sg g)) (st_model s) ?B m' ?B"
    "changed_in (paths_in ld (b_sg b)) (st_model s) m'" "active_ok m' ld (with_values g vs b)" by blast
  have put: "put_values ld g vs = put_block ld (with_values g vs)" by (simp add: put_values_def with_values_def [abs_def])
  obtain told where r: "thenS (put_values ld g vs) (bindS (active ld) (\<lambda>a. whenS (g = a) (load ld b_sg g))) s
      = (Inr (), \<lparr>st_model = m', st_blocks = ?B, st_told = told\<rparr>)"
    using leadsD [OF m(1), of "s\<lparr>st_blocks := ?B\<rparr>"]
    by (auto simp: put put_block_def active_def bindS_try_get act)
  have "edit_ok m' ld (with_values g vs b)"
    using edit_frame [OF m(2) T sgcb_path_apart [OF static_kinds(7) [OF T]]] i(3) by simp
  then have "block_ok m' ld (with_values g vs b)" using m(3) st block_static_changed [OF m(2)] by (auto simp: block_ok_def)
  then have "sg_ok \<lparr>st_model = m', st_blocks = ?B, st_told = told\<rparr>"
    by (intro sg_ok_step [OF ok m(2)]) (use b in auto)
  then show ?thesis using r B by auto
qed

lemma edited_ok:
  assumes m: "wt_model m" and se: "\<And>k p. (k, p) \<in> set ps \<Longrightarrow> is_leaf m ld p (T k)"
    and f: "\<And>k v. map_of vs k = Some v \<Longrightarrow> k \<in> K \<Longrightarrow> fits (T k) v"
  shows "\<exists>vs'. edited_values m ld ps vs = Inr vs' \<and> (\<forall>k v. map_of vs' k = Some v \<longrightarrow> k \<in> K \<longrightarrow> fits (T k) v)
    \<and> dom (map_of vs') = dom (map_of vs) \<and> (\<forall>k. k \<notin> fst ` set ps \<longrightarrow> map_of vs' k = map_of vs k)
    \<and> (distinct (map fst ps) \<longrightarrow> (\<forall>(k, p) \<in> set ps. map_of vs k \<noteq> None \<longrightarrow> map_of vs' k = val m ld p))"
  using se f
proof (induction ps arbitrary: vs)
  case Nil
  then show ?case by (simp add: edited_values_def)
next
  case (Cons kp ps)
  obtain k p where kp: "kp = (k, p)" by (cases kp)
  have leaf: "is_leaf m ld p (T k)" using Cons.prems(1) kp by simp
  obtain d where d: "fits (T k) d" "get_node m (leaf_name ld p) = Inr d" "val m ld p = Some d" using leaf_value [OF m leaf] by blast
  let ?vs = "if map_of vs k = None then vs else AList.update k d vs"
  have step: "edited_values m ld (kp # ps) vs = edited_values m ld ps ?vs"
    by (simp add: edited_values_def kp d(2))
  have "fits (T i) v" if "map_of ?vs i = Some v" "i \<in> K" for i v
    using that d(1) Cons.prems(2) [of i v] by (auto simp: update_conv' split: if_splits)
  then obtain vs' where vs': "edited_values m ld ps ?vs = Inr vs'" "\<forall>k v. map_of vs' k = Some v \<longrightarrow> k \<in> K \<longrightarrow> fits (T k) v"
    "dom (map_of vs') = dom (map_of ?vs)" "\<forall>k. k \<notin> fst ` set ps \<longrightarrow> map_of vs' k = map_of ?vs k"
    "distinct (map fst ps) \<longrightarrow> (\<forall>(k, p) \<in> set ps. map_of ?vs k \<noteq> None \<longrightarrow> map_of vs' k = val m ld p)"
    using Cons.IH [of ?vs] Cons.prems(1) [OF list.set_intros(2)] by blast
  have dom: "dom (map_of ?vs) = dom (map_of vs)" by (auto simp: update_conv')
  then have none: "map_of ?vs i = None \<longleftrightarrow> map_of vs i = None" for i by (metis domIff)
  have other: "\<forall>i. i \<notin> fst ` set (kp # ps) \<longrightarrow> map_of vs' i = map_of vs i" using vs'(4) by (auto simp: kp update_conv')
  have own: "\<forall>(i, q) \<in> set (kp # ps). map_of vs i \<noteq> None \<longrightarrow> map_of vs' i = val m ld q" if "distinct (map fst (kp # ps))"
  proof -
    have "map_of vs' k = val m ld p" if "map_of vs k \<noteq> None"
      using vs'(4) \<open>distinct (map fst (kp # ps))\<close> d(3) that by (simp add: kp update_conv')
    moreover have "\<forall>(i, q) \<in> set ps. map_of vs i \<noteq> None \<longrightarrow> map_of vs' i = val m ld q"
      using vs'(5) that none by auto
    ultimately show ?thesis by (simp add: kp)
  qed
  show ?case unfolding step
    by (rule exI [of _ vs'], intro conjI, rule vs'(1), rule vs'(2), simp only: vs'(3) dom, rule other, intro impI, rule own)
qed

section \<open>The engine\<close>

lemma keeps_expire: "sg_ok s \<Longrightarrow> map_of (st_blocks s) ld \<noteq> None \<Longrightarrow>
    \<exists>s' b. expire now ld s = (Inr (), s') \<and> sg_ok s' \<and> map_of (st_blocks s') ld = Some b"
proof -
  assume ok: "sg_ok s" and "map_of (st_blocks s) ld \<noteq> None"
  then obtain b where b: "map_of (st_blocks s) ld = Some b" by blast
  show ?thesis
    using do_release [OF ok b] ok b by (cases "b_editor b \<noteq> None \<and> b_until b \<le> now") (auto simp: expire_def with_block_def whenS_def)
qed

lemma active_value: "sg_ok s \<Longrightarrow> map_of (st_blocks s) ld = Some b \<Longrightarrow>
    uint_attr (st_model s) ld ''ActSG'' = Inr (attr_val (st_model s) ld ''ActSG'')
    \<and> uint_attr (st_model s) ld ''EditSG'' = Inr (attr_val (st_model s) ld ''EditSG'')"
  using sg_ok_block [of s ld b] uint_attr_val static_kinds(1,2) by blast

lemma keeps_write_active:
  assumes ok: "sg_ok s" and b: "map_of (st_blocks s) ld = Some b"
  shows "\<exists>r s'. write_active h now c ld v s = (Inr r, s') \<and> sg_ok s'"
proof (cases "as_group v")
  case (Some g)
  note act = conjunct1 [OF active_value [OF ok b]]
  show ?thesis
  proof (cases "1 \<le> g \<and> g \<le> sg_count (b_groups b) \<and> g \<noteq> attr_val (st_model s) ld ''ActSG'' \<and> on_active h (Some c) ld g = None")
    case True
    then show ?thesis using do_activate [OF ok b, of g now] Some b act
      by (auto simp: write_active_def with_block_def active_def bindS_try_get thenS_Inr)
  next
    case False
    then show ?thesis using Some b act ok
      by (auto simp: write_active_def with_block_def active_def bindS_try_get split: option.split)
  qed
qed (use ok b in \<open>simp add: write_active_def with_block_def\<close>)

lemma keeps_write_edit:
  assumes ok: "sg_ok s" and b: "map_of (st_blocks s) ld = Some b"
  shows "\<exists>r s'. write_edit h now c ld v s = (Inr r, s') \<and> sg_ok s'"
proof (cases "as_group v")
  case (Some g)
  consider (free) "g \<noteq> 0" "1 \<le> g" "g \<le> sg_count (b_groups b)" "on_edit h (Some c) ld g = None" "b_editor b = None \<or> b_editor b = Some c"
    | (zero) "g = 0" "b_editor b = None \<or> b_editor b = Some c"
    | (refused) "b_editor b \<noteq> None \<and> b_editor b \<noteq> Some c \<or> g \<noteq> 0 \<and> (\<not> (1 \<le> g \<and> g \<le> sg_count (b_groups b)) \<or> on_edit h (Some c) ld g \<noteq> None)"
    by blast
  then show ?thesis
  proof cases
    case free
    obtain s' where e: "thenS (put_block ld (\<lambda>x. x\<lparr>b_editor := Some c, b_until := now + sg_resv_tms (b_groups b) * 1000000\<rparr>))
        (thenS (set_attr ld ''EditSG'' (UIntData g)) (thenS (set_attr ld ''ResvTms'' (UIntData (sg_resv_tms (b_groups b)))) (load ld b_se g))) s
      = (Inr (), s')" "sg_ok s'" using do_edit [OF ok b free(2,3)] by blast
    have "write_edit h now c ld v s = thenS (thenS (put_block ld (\<lambda>x. x\<lparr>b_editor := Some c, b_until := now + sg_resv_tms (b_groups b) * 1000000\<rparr>))
        (thenS (set_attr ld ''EditSG'' (UIntData g)) (thenS (set_attr ld ''ResvTms'' (UIntData (sg_resv_tms (b_groups b)))) (load ld b_se g)))) (ret Handled) s"
      unfolding write_edit_def with_block_def bindS_gets b Some option.case thenS_assoc using free by auto
    also have "\<dots> = ret Handled s'" by (rule thenS_Inr) (rule e(1))
    finally show ?thesis using e(2) by simp
  next
    case zero
    then show ?thesis using do_release [OF ok b] Some b by (auto simp: write_edit_def with_block_def thenS_Inr)
  next
    case refused
    then show ?thesis using ok b Some by (auto simp: write_edit_def with_block_def)
  qed
qed (use ok b in \<open>simp add: write_edit_def with_block_def\<close>)

lemma group_values_ok:
  "map_of (st_blocks s) ld = Some b \<Longrightarrow> map_of (sg_values (b_groups b)) g = Some vs \<Longrightarrow> group_values ld g s = (Inr vs, s)"
  by (simp add: group_values_def with_block_def)

lemma do_confirm:
  assumes ok: "sg_ok s" and b: "map_of (st_blocks s) ld = Some b" and g: "attr_val (st_model s) ld ''EditSG'' = g" "g \<noteq> 0"
    and e: "b_editor b = Some c" and h: "on_confirm h (Some c) ld g = None"
  shows "\<exists>s' vs edited. write_confirm h c ld (BoolData True) s = (Inr Handled, s') \<and> sg_ok s'
    \<and> map_of (sg_values (b_groups b)) g = Some vs \<and> edited_values (st_model s) ld (b_se b) vs = Inr edited
    \<and> map_of (st_blocks s') ld = Some (with_values g edited b\<lparr>b_editor := None\<rparr>)"
proof -
  obtain T where i: "wt_model (st_model s)" "block_static T (st_model s) ld b" "edit_ok (st_model s) ld b"
    using sg_ok_block [OF ok b] by blast
  have g': "1 \<le> g" "g \<le> sg_count (b_groups b)" using i(3) g by (auto simp: edit_ok_def)
  obtain vs where vs: "map_of (sg_values (b_groups b)) g = Some vs" "values_fit T b vs" using static_group [OF i(2) g'] by blast
  have "\<And>k p. (k, p) \<in> set (b_se b) \<Longrightarrow> is_leaf (st_model s) ld p (T k)"
    using static_kinds(8) [OF i(2)] by (auto simp: leaves_of_fc_def)
  then obtain edited where ed: "edited_values (st_model s) ld (b_se b) vs = Inr edited" "values_fit T b edited"
    using edited_ok [OF i(1), of "b_se b" ld T vs "fst ` (set (b_sg b) \<union> set (b_se b))"] vs(2) unfolding values_fit_def by blast
  obtain s1 where s1: "thenS (put_values ld g edited) (bindS (active ld) (\<lambda>a. whenS (g = a) (load ld b_sg g))) s = (Inr (), s1)" "sg_ok s1"
    "map_of (st_blocks s1) ld = Some (with_values g edited b)" using do_values [OF ok b g' i(2) ed(2)] by blast
  obtain s2 where s2: "release ld s1 = (Inr (), s2)" "sg_ok s2" "map_of (st_blocks s2) ld = Some (with_values g edited b\<lparr>b_editor := None\<rparr>)"
    using do_release [OF s1(2,3)] by blast
  have "write_confirm h c ld (BoolData True) s
      = thenS (thenS (put_values ld g edited) (bindS (active ld) (\<lambda>a. whenS (g = a) (load ld b_sg g)))) (thenS (release ld) (ret Handled)) s"
    using active_value [OF ok b] g e h ed(1)
    by (simp add: write_confirm_def with_block_def b bindS_try_get bindS_Inr [where m = "group_values ld g", OF group_values_ok [OF b vs(1)]]
        thenS_assoc thenS_def bindS_assoc)
  also have "\<dots> = thenS (release ld) (ret Handled) s1" by (rule thenS_Inr) (rule s1(1))
  also have "\<dots> = ret Handled s2" by (rule thenS_Inr) (rule s2(1))
  finally show ?thesis using s2(2,3) vs(1) ed(1) by auto
qed

lemma keeps_write_confirm:
  assumes ok: "sg_ok s" and b: "map_of (st_blocks s) ld = Some b"
  shows "\<exists>r s'. write_confirm h c ld v s = (Inr r, s') \<and> sg_ok s'"
proof (cases "v = BoolData True \<and> attr_val (st_model s) ld ''EditSG'' \<noteq> 0 \<and> b_editor b = Some c
    \<and> on_confirm h (Some c) ld (attr_val (st_model s) ld ''EditSG'') = None")
  case True
  then show ?thesis using do_confirm [OF ok b refl] by blast
next
  case False
  then show ?thesis using active_value [OF ok b] ok b
    by (auto simp: write_confirm_def with_block_def bindS_try_get split: iecdata.split bool.split option.split)
qed

lemma keeps_on_write: "keeps (on_write h now c obj v)"
  unfolding keeps_def
proof (rule tripleI)
  fix s
  assume ok: "sg_ok s"
  let ?ld = "domain_of obj"
  show "\<exists>x s'. on_write h now c obj v s = (Inr x, s') \<and> sg_ok s'"
  proof (cases "map_of (st_blocks s) ?ld")
    case None
    then show ?thesis using ok by (simp add: on_write_def Let_def)
  next
    case (Some b0)
    obtain s1 b where s1: "expire now ?ld s = (Inr (), s1)" "sg_ok s1" "map_of (st_blocks s1) ?ld = Some b"
      using keeps_expire [OF ok, of ?ld now] Some by auto
    show ?thesis
      using keeps_write_active [OF s1(2,3), of h now c v] keeps_write_edit [OF s1(2,3), of h now c v] keeps_write_confirm [OF s1(2,3), of h c v] s1(2)
      unfolding on_write_def Let_def bindS_gets Some option.case thenS_Inr [where m = "expire now ?ld", OF s1(1)] with_block_def s1(3)
      by (auto simp: Let_def)
  qed
qed

lemma keeps_on_read: "keeps (on_read now c obj)"
  unfolding keeps_def
proof (rule tripleI)
  fix s
  assume ok: "sg_ok s"
  show "\<exists>x s'. on_read now c obj s = (Inr x, s') \<and> sg_ok s'"
  proof (cases "map_of (st_blocks s) (domain_of obj) \<noteq> None \<and> starts_with (on_item obj) (asc ''LLN0'')")
    case True
    then obtain s1 where "expire now (domain_of obj) s = (Inr (), s1)" "sg_ok s1" using keeps_expire [OF ok] by blast
    then show ?thesis using True by (auto simp: on_read_def whenS_def thenS_def bindS_def)
  next
    case False
    then show ?thesis using ok unfolding on_read_def whenS_def by (auto simp: thenS_def bindS_def)
  qed
qed

lemma do_close:
  assumes "sg_ok s" "fst ` set xs \<subseteq> fst ` set (st_blocks s)"
  shows "\<exists>s'. for_each (\<lambda>(ld, _). with_block ld (\<lambda>b. whenS (b_editor b = Some c) (release ld))) xs s = (Inr (), s') \<and> sg_ok s'
    \<and> st_blocks s' = map (\<lambda>(d, b). (d, if d \<in> fst ` set xs \<and> b_editor b = Some c then b\<lparr>b_editor := None\<rparr> else b)) (st_blocks s)"
  using assms
proof (induction xs arbitrary: s)
  case Nil
  then show ?case by (auto simp: case_prod_unfold)
next
  case (Cons x xs)
  obtain ld y where x: "x = (ld, y)" by (cases x)
  obtain b where b: "map_of (st_blocks s) ld = Some b" using Cons.prems(2) x by (metis image_subset_iff list.set_intros(1) fst_conv map_of_eq_None_iff not_None_eq)
  let ?step = "with_block ld (\<lambda>b. whenS (b_editor b = Some c) (release ld))"
  have uniq: "x = b" if "(ld, x) \<in> set (st_blocks s)" for x using that b Cons.prems(1) by (simp add: sg_ok_def)
  obtain s1 where s1: "?step s = (Inr (), s1)" "sg_ok s1"
    "st_blocks s1 = map (\<lambda>(d, b). (d, if d = ld \<and> b_editor b = Some c then b\<lparr>b_editor := None\<rparr> else b)) (st_blocks s)"
  proof (cases "b_editor b = Some c")
    case True
    have "on_block ld (\<lambda>b. b\<lparr>b_editor := None\<rparr>) (st_blocks s)
        = map (\<lambda>(d, b). (d, if d = ld \<and> b_editor b = Some c then b\<lparr>b_editor := None\<rparr> else b)) (st_blocks s)"
      using True uniq by auto
    then show ?thesis using do_release [OF Cons.prems(1) b] True b that by (auto simp: with_block_def whenS_def)
  next
    case False
    have "map (\<lambda>(d, b). (d, if d = ld \<and> b_editor b = Some c then b\<lparr>b_editor := None\<rparr> else b)) (st_blocks s) = st_blocks s"
      using False uniq by (intro map_idI) auto
    then show ?thesis using that [of s] False b Cons.prems(1) by (simp add: with_block_def whenS_def)
  qed
  have "fst ` set (st_blocks s1) = fst ` set (st_blocks s)" unfolding s1(3) by force
  then obtain s2 where s2: "for_each (\<lambda>(ld, _). with_block ld (\<lambda>b. whenS (b_editor b = Some c) (release ld))) xs s1 = (Inr (), s2)" "sg_ok s2"
    "st_blocks s2 = map (\<lambda>(d, b). (d, if d \<in> fst ` set xs \<and> b_editor b = Some c then b\<lparr>b_editor := None\<rparr> else b)) (st_blocks s1)"
    using Cons.IH [OF s1(2)] Cons.prems(2) by auto
  have "for_each (\<lambda>(ld, _). with_block ld (\<lambda>b. whenS (b_editor b = Some c) (release ld))) (x # xs) s = (Inr (), s2)"
    using s2(1) by (simp add: x) (subst thenS_Inr, rule s1(1), simp)
  moreover have "st_blocks s2 = map (\<lambda>(d, b). (d, if d \<in> fst ` set (x # xs) \<and> b_editor b = Some c then b\<lparr>b_editor := None\<rparr> else b)) (st_blocks s)"
    unfolding s2(3) s1(3) by (auto simp: x)
  ultimately show ?case using s2(2) by blast
qed

lemma keeps_on_close: "keeps (on_close c)"
  unfolding keeps_def on_close_def by (rule tripleI) (use do_close [OF _ subset_refl] in fastforce)

section \<open>Writes the engine leaves to the model\<close>

text \<open>The FC of a node is the second part of its name; logical nodes have none.\<close>

definition fc_named :: "ied_model \<Rightarrow> bool" where
  "fc_named m \<longleftrightarrow> (\<forall>ld p n. node_at m ld p = Some n \<longrightarrow> n_fc n = (if length p = 1 then None else Some (p ! 1)))"

lemma fc_named_skeleton:
  assumes "model_skeleton m' = model_skeleton m" "fc_named m"
  shows "fc_named m'"
  unfolding fc_named_def
proof (intro allI impI)
  fix ld p n'
  assume "node_at m' ld p = Some n'"
  then obtain n where "node_at m ld p = Some n" "skeleton n = skeleton n'" using same_skeleton_Some [OF assms(1) [symmetric]] by metis
  then show "n_fc n' = (if length p = 1 then None else Some (p ! 1))" using assms(2) skeleton_simps(2) unfolding fc_named_def by metis
qed

lemma leaf_above:
  assumes leaf: "is_leaf m ld p ty" and below: "node_at m ld q \<noteq> None" "prefix p q"
  shows "p = q"
proof (rule ccontr)
  assume "p \<noteq> q"
  then obtain x xs where q: "q = p @ x # xs" using below(2) by (metis append_Nil2 neq_Nil_conv prefix_def)
  obtain a ps where p: "p = a # ps" using leaf by (cases p) (auto simp: is_leaf_def plain_path_def)
  obtain n where n: "node_at m ld p = Some n" "n_children n = []" using leaf by (auto simp: is_leaf_def)
  have "node_at m ld q = None" using n node_at_append [of m ld a ps "x # xs"] p q by (simp add: child_def)
  then show False using below(1) by simp
qed

definition below :: "object_name \<Rightarrow> (ustr \<times> ustr list) set" where
  "below obj = {(ld, p). ld = domain_of obj \<and> prefix (path_of obj) p}"

text \<open>A write changes the leaves below its name, of a FC that may be written.\<close>

lemma write_node_changes:
  assumes m: "wt_model m" and w: "write_node m obj d = Inr (r, m', ch)"
  shows "changed_in (below obj) m m'"
    and "r = None \<longrightarrow> (\<exists>n. find_node m obj = Some n \<and> n_fc n \<in> Some ` set WRITABLE_FCS)" "r \<noteq> None \<longrightarrow> m' = m"
proof -
  have sound: "wt_model m'" "ch = [] \<longrightarrow> m' = m" "r \<noteq> None \<longrightarrow> ch = []"
    "r = None \<longleftrightarrow> (\<exists>n. find_node m obj = Some n \<and> n_fc n \<in> Some ` set WRITABLE_FCS \<and> fits (n_type n) d)"
    "\<forall>other. \<not> overlapping obj other \<longrightarrow> find_node m' other = find_node m other"
    using write_node_sound [OF m, of obj d] w by auto
  have "val m' ld p = val m ld p" if leaf: "is_leaf m ld p ty" and out: "(ld, p) \<notin> below obj" for ld p ty
  proof (cases "r = None")
    case True
    then have at: "node_at m (domain_of obj) (path_of obj) \<noteq> None" using sound(4) by (auto simp: find_node_def)
    note path = leaf_name_path(1) [OF is_leaf_plain [OF leaf], of ld] leaf_name_path(2) [of ld p]
    have "\<not> overlapping obj (leaf_name ld p)"
      using leaf_above [OF leaf] at out by (auto simp: overlapping_def path below_def)
    then have "find_node m' (leaf_name ld p) = find_node m (leaf_name ld p)" using sound(5) by blast
    then show ?thesis by (simp add: val_def find_node_def path)
  next
    case False
    then show ?thesis using sound by simp
  qed
  then show "changed_in (below obj) m m'" using sound(1) write_node_skeleton [OF m w] by (simp add: changed_in_def)
  show "r = None \<longrightarrow> (\<exists>n. find_node m obj = Some n \<and> n_fc n \<in> Some ` set WRITABLE_FCS)" "r \<noteq> None \<longrightarrow> m' = m"
    using sound by auto
qed

abbreviation whole_sp :: "ustr list" where "whole_sp \<equiv> [asc ''LLN0'', asc ''SP'']"

lemma above_sgcb: "prefix q (sgcb_path a) \<Longrightarrow> 2 \<le> length q \<Longrightarrow> q = whole_sp \<or> prefix (whole_sp @ [asc ''SGCB'']) q"
proof -
  assume q: "prefix q (sgcb_path a)" "2 \<le> length q"
  have "q = take (length q) (whole_sp @ [asc ''SGCB''] @ [asc a])" using q(1) by (auto simp: prefix_def sgcb_path_def simp del: asc_def)
  moreover have take_two: "take 2 (whole_sp @ xs) = whole_sp" for xs by simp
  moreover have "length q = 2 \<or> 3 \<le> length q" using q(2) by linarith
  moreover have "take k (whole_sp @ [asc ''SGCB''] @ [asc a]) = whole_sp @ [asc ''SGCB''] @ take (k - 3) [asc a]" if "3 \<le> k" for k
    using that by (simp add: take_Cons' del: asc_def)
  ultimately show ?thesis by (elim disjE) (metis take_two, metis append.assoc prefixI)
qed

lemma write_apart_ok:
  assumes ok: "sg_ok s" and fc: "fc_named (st_model s)" and w: "write_node (st_model s) obj d = Inr (r, m', ch)"
    and apart: "path_of obj \<noteq> whole_sp" "map_of (st_blocks s) (domain_of obj) = None \<or> \<not> prefix (whole_sp @ [asc ''SGCB'']) (path_of obj)"
  shows "sg_ok (s\<lparr>st_model := m', st_told := t\<rparr>)"
proof (cases "r = None")
  case False
  then have "m' = st_model s" using write_node_changes(3) w ok unfolding sg_ok_def by blast
  then show ?thesis using ok by (simp add: sg_ok_def)
next
  case True
  have wt: "wt_model (st_model s)" using ok by (simp add: sg_ok_def)
  note ch = write_node_changes(1) [OF wt w]
  obtain n where n: "find_node (st_model s) obj = Some n" "n_fc n \<in> Some ` set WRITABLE_FCS"
    using write_node_changes(2) [OF wt w] True by blast
  have "n_fc n = (if length (path_of obj) = 1 then None else Some (path_of obj ! 1))"
    using fc n(1) unfolding fc_named_def find_node_def by blast
  then have fc: "length (path_of obj) \<noteq> 1" "path_of obj ! 1 \<noteq> asc ''SG''"
    using n(2) by (auto simp: WRITABLE_FCS_def split: if_splits)
  then have path: "2 \<le> length (path_of obj)" "path_of obj ! 1 \<noteq> asc ''SG''"
    using path_of_nonempty [of obj] by (cases "path_of obj"; cases "tl (path_of obj)"; simp)+
  have nth: "p ! 1 = path_of obj ! 1" if "prefix (path_of obj) p" for p
    using that path(1) by (auto simp: prefix_def nth_append)
  have "block_ok m' ld b" if b: "map_of (st_blocks s) ld = Some b" for ld b
  proof -
    obtain T where i: "block_static T (st_model s) ld b" "active_ok (st_model s) ld b" "edit_ok (st_model s) ld b"
      using sg_ok_block [OF ok b] by blast
    have attr: "(ld, sgcb_path a) \<notin> below obj" for a
    proof
      assume "(ld, sgcb_path a) \<in> below obj"
      then have "ld = domain_of obj" "prefix (path_of obj) (sgcb_path a)" by (simp_all only: below_def mem_Collect_eq case_prod_conv)
      then have "prefix (whole_sp @ [asc ''SGCB'']) (path_of obj)" "map_of (st_blocks s) (domain_of obj) \<noteq> None"
        using above_sgcb [OF _ path(1), of a] apart(1) b by (blast, simp del: asc_def)
      then show False using apart(2) by (elim disjE) (erule (1) notE, erule notE, assumption)
    qed
    have "(ld, p) \<notin> below obj" if kp: "(k, p) \<in> set (b_sg b)" for k p
    proof
      assume "(ld, p) \<in> below obj"
      then have "prefix (path_of obj) p" by (simp only: below_def mem_Collect_eq case_prod_conv)
      moreover have "p ! 1 = asc ''SG''" using static_kinds(7) [OF i(1)] kp unfolding leaves_of_fc_def by (auto simp del: asc_def)
      ultimately show False using nth [of p] path(2) by (simp only: simp_thms)
    qed
    then have "active_ok m' ld b" "edit_ok m' ld b"
      using active_frame [OF ch i(1) attr] edit_frame [OF ch i(1) attr] i(2,3) by blast+
    then show ?thesis using i(1) block_static_changed [OF ch] by (auto simp: block_ok_def)
  qed
  then show ?thesis using ok ch by (simp add: sg_ok_def changed_in_def)
qed

text \<open>The items of the SGCB are the engine's: \<open>on_write\<close> answers each of their writes.\<close>

definition answers :: "(sg_state, hook) op \<Rightarrow> bool" where
  "answers m \<longleftrightarrow> (\<forall>s r s'. m s = (Inr r, s') \<longrightarrow> r \<noteq> Not_theirs)"

lemma answers_ret: "answers (ret r) \<longleftrightarrow> r \<noteq> Not_theirs"
  by (simp add: answers_def)

lemma answers_raise: "answers (raise e)"
  by (simp add: answers_def)

lemma answers_bind: "(\<And>x. answers (f x)) \<Longrightarrow> answers (bindS m f)"
  unfolding answers_def bindS_def by (auto split: prod.splits sum.splits)

lemma answers_then: "answers n \<Longrightarrow> answers (thenS m n)"
  unfolding thenS_def by (rule answers_bind)

lemma answers_split:
  "(\<And>x. answers (f x)) \<Longrightarrow> answers m \<Longrightarrow> answers (case y of None \<Rightarrow> m | Some x \<Rightarrow> f x)"
  "(c \<Longrightarrow> answers m) \<Longrightarrow> (\<not> c \<Longrightarrow> answers n) \<Longrightarrow> answers (if c then m else n)"
  by (cases y) simp_all

lemmas answers = answers_raise answers_bind answers_then answers_split answers_ret [THEN iffD2]

lemma handlers_answer:
  "answers (write_active h now c ld v)" "answers (write_edit h now c ld v)" "answers (write_confirm h c ld v)"
  unfolding write_active_def write_edit_def write_confirm_def with_block_def
  by (intro answers; simp)+ (auto intro!: answers simp del: ret_apply split: iecdata.split bool.split)

lemma sgcb_item: "prefix (whole_sp @ [asc ''SGCB'']) (path_of obj) \<Longrightarrow> on_item obj = SGCB \<or> starts_with (on_item obj) (SGCB @ [36])"
proof -
  assume "prefix (whole_sp @ [asc ''SGCB'']) (path_of obj)"
  then obtain ps where "path_of obj = whole_sp @ [asc ''SGCB''] @ ps" by (auto simp: prefix_def simp del: asc_def)
  then have item: "on_item obj = join 36 (whole_sp @ [asc ''SGCB''] @ ps)" using join_split [of 36 "on_item obj"] by (simp add: path_of_def)
  show ?thesis unfolding item by (cases ps) (simp_all add: SGCB_def starts_with_def)
qed

lemma not_theirs:
  assumes ok: "sg_ok s" and w: "on_write h now c obj v s = (Inr Not_theirs, s')"
  shows "map_of (st_blocks s') (domain_of obj) = None \<or> \<not> prefix (whole_sp @ [asc ''SGCB'']) (path_of obj)"
proof (cases "map_of (st_blocks s) (domain_of obj)")
  case None
  then show ?thesis using w by (simp add: on_write_def Let_def)
next
  case (Some b0)
  show ?thesis
  proof (intro disjI2 notI)
    assume sgcb: "prefix (whole_sp @ [asc ''SGCB'']) (path_of obj)"
    then have parts: "path_of obj ! 1 \<noteq> asc ''SE''" by (auto simp: prefix_def)
    obtain s1 b where s1: "expire now (domain_of obj) s = (Inr (), s1)" "map_of (st_blocks s1) (domain_of obj) = Some b"
      using keeps_expire [OF ok, of "domain_of obj" now] Some by auto
    have "answers (if n = None then ret (Refused ACCESS_OBJECT_NON_EXISTENT)
        else let attribute = if length (path_of obj) = 4 then path_of obj ! 3 else [] in
          if attribute = asc ''ActSG'' then write_active h now c (domain_of obj) v
          else if attribute = asc ''EditSG'' then write_edit h now c (domain_of obj) v
          else if attribute = asc ''CnfEdit'' then write_confirm h c (domain_of obj) v
          else ret (Refused ACCESS_OBJECT_ACCESS_DENIED))" for n :: "node option"
      unfolding Let_def by (auto intro!: answers handlers_answer simp del: ret_apply asc_def)
    then show False
      using w sgcb_item [OF sgcb] parts
      unfolding on_write_def Let_def bindS_gets Some option.case thenS_Inr [where m = "expire now (domain_of obj)", OF s1(1)] with_block_def s1(2)
      by (auto simp: answers_def simp del: asc_def)
  qed
qed

text \<open>The shape of the model stays.\<close>

definition shaped :: "(ustr \<times> (ustr \<times> node) list) list \<Rightarrow> sg_state \<Rightarrow> bool" where
  "shaped x s \<longleftrightarrow> wt_model (st_model s) \<and> model_skeleton (st_model s) = x"

lemma shaped_model_set [steady]: "steady shaped (model_set obj d)"
  unfolding steady_def
proof (intro allI holdsI)
  fix x s
  assume "shaped x s"
  then show "case model_set obj d s of (Inl e, s') \<Rightarrow> shaped x s' | (Inr u, s') \<Rightarrow> shaped x s'"
    by (cases "set_node (st_model s) obj d")
       (auto simp: model_set_def shaped_def dest: set_node_sound(1) set_node_skeleton split: prod.split)
qed

lemma shaped_modify [steady]: "(\<And>s. st_model (f s) = st_model s) \<Longrightarrow> steady shaped (modify f)"
  by (rule steady_modify) (simp add: shaped_def)

lemma shaped_with_block [steady]: "(\<And>b. steady shaped (f b)) \<Longrightarrow> steady shaped (with_block ld f)"
  unfolding with_block_def by (intro steady)

lemma shaped_put_block [steady]: "steady shaped (put_block ld f)"
  unfolding put_block_def by (intro steady) simp

lemma shaped_set_attr [steady]: "steady shaped (set_attr ld attr d)"
  unfolding set_attr_def by (intro steady)

lemma shaped_load [steady]: "steady shaped (load ld paths_of g)"
  unfolding load_def load_values_def by (intro steady)

lemma shaped_steps [steady]: "steady shaped (active ld)" "steady shaped (activate now ld g)" "steady shaped (release ld)"
  "steady shaped (group_values ld g)" "steady shaped (put_values ld g vs)"
  unfolding active_def activate_def release_def group_values_def put_values_def by (intro steady)+

lemma shaped_expire [steady]: "steady shaped (expire now ld)"
  unfolding expire_def by (intro steady)

lemma shaped_on_write: "steady shaped (on_write h now c obj v)"
proof -
  have "steady shaped (write_active h now c ld v)" "steady shaped (write_edit h now c ld v)" for ld
    unfolding write_active_def write_edit_def by (intro steady)+
  moreover have "steady shaped (write_confirm h c ld v)" for ld
    unfolding write_confirm_def by (cases v) (auto intro!: steady simp del: ret_apply split: bool.split)
  ultimately show ?thesis unfolding on_write_def Let_def by (intro steady)
qed

lemma shaped_others: "steady shaped (on_read now c obj)" "steady shaped (on_close c)"
  unfolding on_read_def on_close_def by (intro steady)+

section \<open>The invariant of the server\<close>

definition sg_inv :: "sg_state \<Rightarrow> bool" where "sg_inv s \<longleftrightarrow> sg_ok s \<and> fc_named (st_model s)"

definition not_whole_sp :: "object_name \<Rightarrow> bool" where "not_whole_sp obj \<longleftrightarrow> path_of obj \<noteq> whole_sp"

lemma steady_named: "steady shaped m \<Longrightarrow> sg_inv s \<Longrightarrow> fc_named (st_model (snd (m s)))"
  using steadyD [of shaped m "model_skeleton (st_model s)" s] fc_named_skeleton
  unfolding shaped_def sg_inv_def sg_ok_def by blast

lemma keeps_inv: "keeps m \<Longrightarrow> steady shaped m \<Longrightarrow> sg_inv s \<Longrightarrow> \<exists>x s'. m s = (Inr x, s') \<and> sg_inv s'"
  using keepsD [of m s] steady_named [of m s] unfolding sg_inv_def by fastforce

lemma engine_write_ok: "not_whole_sp obj \<Longrightarrow> triple sg_inv (engine_write h now c obj v) (\<lambda>_. sg_inv)"
proof (rule tripleI)
  fix s
  assume obj: "not_whole_sp obj" and inv: "sg_inv s"
  obtain r s1 where s1: "on_write h now c obj v s = (Inr r, s1)" "sg_inv s1"
    using keeps_inv [OF keeps_on_write shaped_on_write inv] by blast
  have unfold: "engine_write h now c obj v s = (case r of Handled \<Rightarrow> ret None | Refused code \<Rightarrow> ret (Some code) | Not_theirs \<Rightarrow> model_write obj v) s1"
    unfolding engine_write_def by (rule bindS_Inr) (rule s1(1))
  show "\<exists>x s'. engine_write h now c obj v s = (Inr x, s') \<and> sg_inv s'"
  proof (cases r)
    case Not_theirs
    have wt: "wt_model (st_model s1)" using s1(2) by (simp add: sg_inv_def sg_ok_def)
    obtain k m' ch where w: "write_node (st_model s1) obj v = Inr (k, m', ch)" using write_node_sound [OF wt] by blast
    let ?t = "st_told s1 @ (if ch = [] then [] else [ch])"
    have "on_write h now c obj v s = (Inr Not_theirs, s1)" using s1(1) Not_theirs by simp
    then have "sg_ok (s1\<lparr>st_model := m', st_told := ?t\<rparr>)"
      using write_apart_ok [OF _ _ w, of ?t] not_theirs [of s] s1(2) obj inv unfolding sg_inv_def not_whole_sp_def by blast
    moreover have "fc_named m'" using fc_named_skeleton [OF write_node_skeleton [OF wt w]] s1(2) by (simp add: sg_inv_def)
    ultimately show ?thesis unfolding unfold Not_theirs by (simp add: model_write_def w sg_inv_def)
  qed (use s1(2) in \<open>simp_all add: unfold\<close>)
qed

lemma engine_read_ok: "triple sg_inv (engine_read now c obj) (\<lambda>_. sg_inv)"
proof (rule tripleI)
  fix s
  assume inv: "sg_inv s"
  obtain r s1 where s1: "on_read now c obj s = (Inr r, s1)" "sg_inv s1"
    using keeps_inv [OF keeps_on_read shaped_others(1) inv] by blast
  obtain d where d: "read_node (st_model s1) obj = Inr d" using read_node_total s1(2) unfolding sg_inv_def sg_ok_def by blast
  have "engine_read now c obj s = (case r of Refused code \<Rightarrow> ret (Access_error code) | _ \<Rightarrow> try_get (\<lambda>s. read_node (st_model s) obj)) s1"
    unfolding engine_read_def by (rule bindS_Inr) (rule s1(1))
  then show "\<exists>x s'. engine_read now c obj s = (Inr x, s') \<and> sg_inv s'" using s1(2) d by (cases r) simp_all
qed

text \<open>The engine and its model are what the server may call, for any write but those of a whole \<^verbatim>\<open>LLN0$SP\<close>.\<close>

interpretation sg: server_engine sg_inv "engine_write h" engine_read on_close not_whole_sp
  by (rule triple_engine)
     (use engine_write_ok engine_read_ok keeps_inv [OF keeps_on_close shaped_others(2)] in \<open>auto intro: tripleI\<close>)

text \<open>The operations of the application: they raise for a device, group, setting or value that is not there or does not fit.\<close>

lemma select_active_ok:
  assumes ok: "sg_ok s" and r: "select_active now ld g s = (r, s')"
  shows "sg_ok s' \<and> (\<forall>e. r = Inl e \<longrightarrow> s' = s \<and> e \<in> {KeyError, ValueError})"
proof (cases "map_of (st_blocks s) ld")
  case None
  then show ?thesis using ok r by (auto simp: select_active_def with_block_def)
next
  case (Some b)
  then show ?thesis using ok r do_activate [OF ok Some, of g now] active_value [OF ok Some]
    by (auto simp: select_active_def with_block_def active_def bindS_try_get whenS_def split: if_splits)
qed

lemma check_value_ok:
  assumes st: "block_static T m ld b" and r: "traverse (check_value m ld b) kvs = Inr kvs'"
  shows "kvs' = kvs \<and> (\<forall>(k, v) \<in> set kvs. fits (T k) v)"
  using r
proof (induction kvs arbitrary: kvs')
  case (Cons kv kvs)
  obtain k v where kv: "kv = (k, v)" by (cases kv)
  from Cons.prems obtain y rest where y: "check_value m ld b (k, v) = Inr y" "traverse (check_value m ld b) kvs = Inr rest" "kvs' = y # rest"
    by (auto simp: kv bindE_Inr_iff mapE_Inr_iff)
  from y(1) obtain p n where n: "map_of (b_sg b) k = Some p" "node_at m ld p = Some n" "fits (n_type n) v" "y = (k, v)"
    by (auto simp: check_value_def split: option.splits if_splits)
  have "is_leaf m ld p (T k)" using static_kinds(7) [OF st] map_of_SomeD [OF n(1)] by (auto simp: leaves_of_fc_def)
  then have "n_type n = T k" using n(2) by (auto simp: is_leaf_def)
  then show ?case using Cons.IH [OF y(2)] y n kv by simp
qed simp

lemma set_values_ok:
  assumes ok: "sg_ok s" and r: "set_values ld g vs s = (r, s')"
  shows "sg_ok s' \<and> (\<forall>e. r = Inl e \<longrightarrow> s' = s)"
proof (cases "map_of (st_blocks s) ld")
  case None
  then show ?thesis using ok r by (simp add: set_values_def with_block_def)
next
  case (Some b)
  obtain T where st: "block_static T (st_model s) ld b" using sg_ok_block [OF ok Some] by blast
  show ?thesis
  proof (cases "map_of (sg_values (b_groups b)) g")
    case None
    then have "group_values ld g s = (Inl KeyError, s)" using Some by (simp add: group_values_def with_block_def)
    then show ?thesis using ok r Some by (auto simp: set_values_def with_block_def bindS_Inl [where m = "group_values ld g"])
  next
    case stored: (Some stored)
    then have range: "1 \<le> g" "g \<le> sg_count (b_groups b)" using st by (auto simp: block_static_def split: if_splits)
    note g = range static_group [OF st range, unfolded stored]
    show ?thesis
    proof (cases "traverse (check_value (st_model s) ld b) vs")
      case (Inl e)
      then show ?thesis using ok r Some
        by (auto simp: set_values_def with_block_def bindS_try_get bindS_Inr [where m = "group_values ld g", OF group_values_ok [OF Some stored]])
    next
      case (Inr vs')
      note c = check_value_ok [OF st Inr]
      let ?new = "fold (\<lambda>(k, v). AList.update k v) vs stored"
      have "fits (T k) v" if "map_of (fold (\<lambda>(k, v). AList.update k v) kvs vs0) k = Some v" "values_fit T b vs0" "\<forall>(k, v) \<in> set kvs. fits (T k) v"
        "k \<in> fst ` (set (b_sg b) \<union> set (b_se b))" for k v kvs vs0
        using that
      proof (induction kvs arbitrary: vs0)
        case (Cons a kvs)
        obtain i w where a: "a = (i, w)" by (cases a)
        have "values_fit T b (AList.update i w vs0)" using Cons.prems(2,3) a by (auto simp: values_fit_def update_conv')
        then show ?case using Cons a by auto
      qed (simp add: values_fit_def)
      then have "values_fit T b ?new" using g(3) c by (auto simp: values_fit_def)
      then obtain s1 where s1: "thenS (put_values ld g ?new) (bindS (active ld) (\<lambda>a. whenS (g = a) (load ld b_sg g))) s = (Inr (), s1)" "sg_ok s1"
        using do_values [OF ok Some g(1,2) st] by blast
      have "set_values ld g vs s = thenS (put_values ld g ?new) (bindS (active ld) (\<lambda>a. whenS (g = a) (load ld b_sg g))) s"
        using Inr c stored Some by (simp add: set_values_def with_block_def bindS_try_get
          bindS_Inr [where m = "group_values ld g", OF group_values_ok [OF Some stored]])
      then show ?thesis using s1 r by simp
    qed
  qed
qed

section \<open>Editing\<close>

lemma writes_of_engine:
  "path_of (sgcb_attr ld ''EditSG'') = sgcb_path ''EditSG''" "path_of (sgcb_attr ld ''CnfEdit'') = sgcb_path ''CnfEdit''"
  "domain_of (sgcb_attr ld attr) = ld"
  by (simp_all add: sgcb_leaf_name leaf_name_path plain_path_def sgcb_path_def)

lemma edit_node: "sg_ok s \<Longrightarrow> map_of (st_blocks s) ld = Some b \<Longrightarrow> find_node (st_model s) (sgcb_attr ld ''EditSG'') \<noteq> None"
  using sg_ok_block [of s ld b] static_kinds(2)
  by (fastforce simp: find_node_def writes_of_engine attr_of_kind_def is_leaf_def)

lemma to_sgcb: "starts_with (on_item (sgcb_attr ld attr)) (SGCB @ [36])" "on_item (sgcb_attr ld attr) \<noteq> SGCB"
  by (simp_all add: starts_with_def sgcb_attr_def)

lemma write_edit_sg:
  assumes "map_of (st_blocks s) ld = Some b" "expire now ld s = (Inr (), s1)" "map_of (st_blocks s1) ld = Some b1"
    "find_node (st_model s1) (sgcb_attr ld ''EditSG'') \<noteq> None"
  shows "on_write h now c (sgcb_attr ld ''EditSG'') v s = write_edit h now c ld v s1"
  unfolding on_write_def Let_def writes_of_engine bindS_gets assms(1) option.case thenS_Inr [where m = "expire now ld", OF assms(2)]
  using assms(3,4) to_sgcb [of ld "''EditSG''"] by (auto simp add: with_block_def sgcb_path_def)

lemma held_not_expired: "map_of (st_blocks s) ld = Some b \<Longrightarrow> now < b_until b \<Longrightarrow> expire now ld s = (Inr (), s)"
  by (simp add: expire_def with_block_def whenS_def)

lemma edit_after_expiry:
  assumes ok: "sg_ok s" and b: "map_of (st_blocks s) ld = Some b" and e: "b_editor b = Some e" "b_until b \<le> now"
    and g: "1 \<le> g" "g \<le> sg_count (b_groups b)" and h: "on_edit h (Some c) ld g = None"
  shows "\<exists>s' b' vs. on_write h now c (sgcb_attr ld ''EditSG'') (UIntData g) s = (Inr Handled, s') \<and> sg_ok s'
    \<and> map_of (st_blocks s') ld = Some b' \<and> b_editor b' = Some c \<and> b_until b' = now + sg_resv_tms (b_groups b) * 1000000
    \<and> attr_val (st_model s') ld ''EditSG'' = g \<and> map_of (sg_values (b_groups b)) g = Some vs \<and> mirror (st_model s') ld (b_se b) vs"
proof -
  obtain T where i: "block_static T (st_model s) ld b" using sg_ok_block [OF ok b] by blast
  obtain vs where vs: "map_of (sg_values (b_groups b)) g = Some vs" using static_group [OF i g] by blast
  let ?b = "b\<lparr>b_editor := None\<rparr>" and ?until = "now + sg_resv_tms (b_groups b) * 1000000"
  obtain s1 where s1: "release ld s = (Inr (), s1)" "sg_ok s1" "map_of (st_blocks s1) ld = Some ?b"
    using do_release [OF ok b] by blast
  have x: "expire now ld s = (Inr (), s1)" using s1(1) b e by (simp add: expire_def with_block_def whenS_def)
  have g': "1 \<le> g" "g \<le> sg_count (b_groups ?b)" using g by simp_all
  let ?op = "thenS (put_block ld (\<lambda>x. x\<lparr>b_editor := Some c, b_until := ?until\<rparr>)) (thenS (set_attr ld ''EditSG'' (UIntData g))
    (thenS (set_attr ld ''ResvTms'' (UIntData (sg_resv_tms (b_groups b)))) (load ld b_se g)))"
  obtain s2 where s2: "?op s1 = (Inr (), s2)" "sg_ok s2" "map_of (st_blocks s2) ld = Some (?b\<lparr>b_editor := Some c, b_until := ?until\<rparr>)"
    "attr_val (st_model s2) ld ''EditSG'' = g" "\<forall>vs. map_of (sg_values (b_groups ?b)) g = Some vs \<longrightarrow> mirror (st_model s2) ld (b_se ?b) vs"
    using do_edit [OF s1(2,3) g'] by blast
  have "on_write h now c (sgcb_attr ld ''EditSG'') (UIntData g) s = write_edit h now c ld (UIntData g) s1"
    by (rule write_edit_sg [OF b x s1(3) edit_node [OF s1(2,3)]])
  also have "\<dots> = thenS ?op (ret Handled) s1"
    unfolding write_edit_def with_block_def bindS_gets s1(3) option.case as_group.simps thenS_assoc using g h by auto
  also have "\<dots> = ret Handled s2" by (rule thenS_Inr) (rule s2(1))
  finally show ?thesis using s2 vs by auto
qed

lemma sgcb_item_parts:
  assumes "length (path_of obj) = 2"
  shows "on_item obj \<noteq> SGCB" "\<not> starts_with (on_item obj) (SGCB @ [36])"
proof -
  have parts: "split_on 36 (SGCB @ xs) = asc ''LLN0'' # asc ''SP'' # split_on 36 (asc ''SGCB'' @ xs)" for xs
  proof -
    have "SGCB @ xs = asc ''LLN0'' @ 36 # asc ''SP'' @ 36 # asc ''SGCB'' @ xs" by (simp add: SGCB_def)
    then show ?thesis by (simp only: split_on_app) (simp add: split_on_app)
  qed
  have "2 < length (split_on 36 (SGCB @ xs))" for xs
  proof -
    have "split_on 36 (asc ''SGCB'' @ xs) \<noteq> []" using path_of_nonempty [of "\<lparr>on_item = asc ''SGCB'' @ xs, on_domain = None\<rparr>"]
      unfolding path_of_def object_name.simps .
    then have "0 < length (split_on 36 (asc ''SGCB'' @ xs))" by (simp only: length_greater_0_conv not_False_eq_True)
    then show ?thesis unfolding parts length_Cons by linarith
  qed
  then have long: "on_item obj \<noteq> SGCB @ xs" for xs using assms by (metis path_of_def less_irrefl)
  show "on_item obj \<noteq> SGCB" using long [of "[]"] by simp
  show "\<not> starts_with (on_item obj) (SGCB @ [36])"
  proof
    assume "starts_with (on_item obj) (SGCB @ [36])"
    then have "on_item obj = (SGCB @ [36]) @ drop (length (SGCB @ [36])) (on_item obj)"
      unfolding starts_with_def by (metis append_take_drop_id)
    then show False using long [of "36 # drop (length (SGCB @ [36])) (on_item obj)"] by simp
  qed
qed

section \<open>An example\<close>

definition sgcb_leaf :: "string \<Rightarrow> int \<Rightarrow> node" where
  "sgcb_leaf name v = Node (asc name) (Some (asc ''SP'')) (PrimitiveType ''unsigned'' (Some 8)) {} [] (Some (UIntData v))"

abbreviation setting_type :: mms_type where "setting_type \<equiv> StructureType [(asc ''x'', PrimitiveType ''integer'' (Some 32))]"

definition setting_fc :: "string \<Rightarrow> int \<Rightarrow> node" where
  "setting_fc fc v = Node (asc fc) (Some (asc fc)) setting_type {}
     [Node (asc ''x'') (Some (asc fc)) (PrimitiveType ''integer'' (Some 32)) {} [] (Some (IntData v))] None"

definition sgcb_type :: mms_type where
  "sgcb_type = StructureType [(asc ''ActSG'', PrimitiveType ''unsigned'' (Some 8)), (asc ''EditSG'', PrimitiveType ''unsigned'' (Some 8))]"

definition edited_model :: "int \<Rightarrow> ied_model" where
  "edited_model e =
     \<lparr>im_devices = [(asc ''LD'', [(asc ''LLN0'', Node (asc ''LLN0'') None
         (StructureType [(asc ''SP'', StructureType [(asc ''SGCB'', sgcb_type)]), (asc ''SG'', setting_type), (asc ''SE'', setting_type)]) {}
         [Node (asc ''SP'') (Some (asc ''SP'')) (StructureType [(asc ''SGCB'', sgcb_type)]) {}
            [Node (asc ''SGCB'') (Some (asc ''SP'')) sgcb_type {} [sgcb_leaf ''ActSG'' 1, sgcb_leaf ''EditSG'' e] None] None,
          setting_fc ''SG'' 5, setting_fc ''SE'' 6] None)])],
      im_data_sets = [],
      im_groups = [(asc ''LD'', \<lparr>sg_count = 2, sg_resv_tms = 10, sg_values = [(1, [(asc ''LLN0.x'', IntData 5)]), (2, [(asc ''LLN0.x'', IntData 9)])]\<rparr>)]\<rparr>"

text \<open>The engine of this model while client 7 edits group 2, until the time 100.\<close>

definition edited_block :: sg_block where
  "edited_block = \<lparr>b_groups = \<lparr>sg_count = 2, sg_resv_tms = 10, sg_values = [(1, [(asc ''LLN0.x'', IntData 5)]), (2, [(asc ''LLN0.x'', IntData 9)])]\<rparr>,
     b_sg = [(asc ''LLN0.x'', [asc ''LLN0'', asc ''SG'', asc ''x''])], b_se = [(asc ''LLN0.x'', [asc ''LLN0'', asc ''SE'', asc ''x''])],
     b_editor = Some 7, b_until = 100\<rparr>"

definition edited_engine :: sg_state where
  "edited_engine = \<lparr>st_model = edited_model 2, st_blocks = [(asc ''LD'', edited_block)], st_told = []\<rparr>"

lemma edited_engine_new: "new_engine (edited_model 0) =
    \<lparr>st_model = edited_model 0, st_blocks = [(asc ''LD'', edited_block\<lparr>b_editor := None, b_until := 0\<rparr>)], st_told = []\<rparr>"
  by (simp add: new_engine_def edited_model_def edited_block_def fc_leaves_def child_def setting_fc_def group_key_def)

lemmas edited_defs = edited_model_def setting_fc_def sgcb_leaf_def sgcb_type_def

lemma edited_node:
  "node_at (edited_model e) (asc ''LD'') [asc ''LLN0'', asc ''SP'', asc ''SGCB'', asc ''ActSG''] = Some (sgcb_leaf ''ActSG'' 1)"
  "node_at (edited_model e) (asc ''LD'') [asc ''LLN0'', asc ''SP'', asc ''SGCB'', asc ''EditSG''] = Some (sgcb_leaf ''EditSG'' e)"
  "node_at (edited_model e) (asc ''LD'') [asc ''LLN0'', asc ''SP'', asc ''SGCB'', asc ''ResvTms''] = None"
  "node_at (edited_model e) (asc ''LD'') [asc ''LLN0'', asc ''SP'', asc ''SGCB'', asc ''LActTm''] = None"
  "node_at (edited_model e) (asc ''LD'') [asc ''LLN0'', asc ''SG'', asc ''x''] = child (asc ''x'') (n_children (setting_fc ''SG'' 5))"
  "node_at (edited_model e) (asc ''LD'') [asc ''LLN0'', asc ''SE'', asc ''x''] = child (asc ''x'') (n_children (setting_fc ''SE'' 6))"
  "node_at (edited_model e) (asc ''LD'') [asc ''LLN0'', asc ''SE''] = Some (setting_fc ''SE'' 6)"
  by (simp_all add: edited_defs node_at_def child_def)

lemma edited_model_wt: "wt_model (edited_model e)"
  by (simp add: wt_model_def wt_lns_def edited_defs)

lemma edited_leaves:
  "is_leaf (edited_model e) (asc ''LD'') (sgcb_path ''ActSG'') (PrimitiveType ''unsigned'' (Some 8))"
  "is_leaf (edited_model e) (asc ''LD'') (sgcb_path ''EditSG'') (PrimitiveType ''unsigned'' (Some 8))"
  "is_leaf (edited_model e) (asc ''LD'') [asc ''LLN0'', asc ''SG'', asc ''x''] (PrimitiveType ''integer'' (Some 32))"
  "is_leaf (edited_model e) (asc ''LD'') [asc ''LLN0'', asc ''SE'', asc ''x''] (PrimitiveType ''integer'' (Some 32))"
  unfolding is_leaf_def sgcb_path_def edited_node by (simp_all add: plain_path_def sgcb_leaf_def setting_fc_def child_def)

lemma edited_vals:
  "val (edited_model e) (asc ''LD'') [asc ''LLN0'', asc ''SG'', asc ''x''] = Some (IntData 5)"
  "attr_val (edited_model e) (asc ''LD'') ''ActSG'' = 1" "attr_val (edited_model e) (asc ''LD'') ''EditSG'' = e"
  unfolding attr_val_def val_def sgcb_path_def edited_node by (simp_all add: sgcb_leaf_def setting_fc_def child_def)

lemma edited_static: "block_static (\<lambda>_. PrimitiveType ''integer'' (Some 32)) (edited_model e) (asc ''LD'') edited_block"
proof -
  have "attr_of_kind {''unsigned''} (edited_model e) (asc ''LD'') ''ActSG''" "attr_of_kind {''unsigned''} (edited_model e) (asc ''LD'') ''EditSG''"
    using edited_leaves(1,2) by (auto simp: attr_of_kind_def simp del: asc_def)
  moreover have "leaves_of_fc ''SG'' (\<lambda>_. PrimitiveType ''integer'' (Some 32)) (edited_model e) (asc ''LD'') (b_sg edited_block)"
    "leaves_of_fc ''SE'' (\<lambda>_. PrimitiveType ''integer'' (Some 32)) (edited_model e) (asc ''LD'') (b_se edited_block)"
    using edited_leaves(3,4) by (simp_all add: leaves_of_fc_def edited_block_def)
  moreover have "\<exists>vs. map_of (sg_values (b_groups edited_block)) g = Some vs
      \<and> values_fit (\<lambda>_. PrimitiveType ''integer'' (Some 32)) edited_block vs" if "1 \<le> g" "g \<le> 2" for g
    using that by (cases "g = 1") (auto simp: edited_block_def values_fit_def)
  ultimately show ?thesis
    using edited_node(3,4) [of e]
    by (simp add: block_static_def optional_attr_def sgcb_path_def) (simp add: edited_block_def)
qed

lemma edited_engine_ok: "sg_ok edited_engine"
proof -
  have "active_ok (edited_model 2) (asc ''LD'') edited_block"
    using edited_vals [of 2] by (simp add: active_ok_def mirror_def edited_block_def)
  moreover have "edit_ok (edited_model 2) (asc ''LD'') edited_block"
    using edited_vals [of 2] by (simp add: edit_ok_def edited_block_def)
  ultimately show ?thesis using edited_static [of 2] edited_model_wt [of 2]
    by (auto simp: sg_ok_def block_ok_def edited_engine_def)
qed

definition no_handlers :: sg_handlers where
  "no_handlers = \<lparr>on_active = \<lambda>_ _ _. None, on_edit = \<lambda>_ _ _. None, on_confirm = \<lambda>_ _ _. None\<rparr>"

lemma edited_engine_block: "map_of (st_blocks edited_engine) (asc ''LD'') = Some edited_block" "st_model edited_engine = edited_model 2"
  "b_editor edited_block = Some 7" "b_until edited_block = 100" "sg_count (b_groups edited_block) = 2"
  by (simp_all add: edited_engine_def edited_block_def)

fun all_of_fc :: "ustr option \<Rightarrow> node \<Rightarrow> bool" where
  "all_of_fc fc (Node name f ty tr cs v) \<longleftrightarrow> f = fc \<and> list_all (all_of_fc fc) cs"

lemma descend_of_fc: "all_of_fc fc n \<Longrightarrow> descend (Some n) ps = Some x \<Longrightarrow> n_fc x = fc"
proof (induction ps arbitrary: n)
  case Nil
  then show ?case by (cases n) auto
next
  case (Cons p ps)
  obtain c where c: "child p (n_children n) = Some c" "descend (Some c) ps = Some x"
    using Cons.prems(2) by (cases "child p (n_children n)") simp_all
  have "all_of_fc fc c" using Cons.prems(1) child_Some [OF c(1)] by (cases n) (simp add: list_all_iff)
  then show ?case using Cons.IH c(2) by blast
qed

lemma fc_namedI:
  assumes "\<And>ld lns k n. map_of (im_devices m) ld = Some lns \<Longrightarrow> map_of lns k = Some n \<Longrightarrow>
    n_fc n = None \<and> (\<forall>c \<in> set (n_children n). all_of_fc (Some (n_name c)) c)"
  shows "fc_named m"
  unfolding fc_named_def
proof (intro allI impI)
  fix ld p x
  assume x: "node_at m ld p = Some x"
  obtain lns n where n: "map_of (im_devices m) ld = Some lns" "p \<noteq> []" "map_of lns (hd p) = Some n" "descend (Some n) (tl p) = Some x"
    using node_at_Some [OF x] by blast
  show "n_fc x = (if length p = 1 then None else Some (p ! 1))"
  proof (cases "tl p")
    case Nil
    then show ?thesis using n assms [OF n(1,3)] by (cases p) simp_all
  next
    case (Cons f ps)
    then obtain c where c: "child f (n_children n) = Some c" "descend (Some c) ps = Some x"
      using n(4) by (cases "child f (n_children n)") simp_all
    have "all_of_fc (Some f) c" using assms [OF n(1,3)] child_Some [OF c(1)] by blast
    then have "n_fc x = Some f" using descend_of_fc c(2) by blast
    then show ?thesis using Cons n(2) by (cases p) auto
  qed
qed

lemma edited_named: "fc_named (st_model edited_engine)"
  by (rule fc_namedI) (auto simp: edited_engine_def edited_defs split: if_splits)

definition whole_se :: object_name where "whole_se = \<lparr>on_item = asc ''LLN0$SE'', on_domain = Some (asc ''LD'')\<rparr>"

lemma whole_se_path: "path_of whole_se = [asc ''LLN0'', asc ''SE'']"
  by (simp add: path_of_def whole_se_def)

section \<open>Properties\<close>

text \<open>C32: between the operations of a server, of its clients and of the application, every setting group control block
  is consistent: ActSG names a group and the SG leaves hold that group's values, EditSG is 0 exactly when no client
  edits, every group has values that fit its leaves. Whatever clients read, and whatever they write except a whole
  \<^verbatim>\<open>LLN0$SP\<close> (which C36 shows to go around the engine), whenever they go and however this interleaves, nothing raises and
  this is kept; the writes and reads are those of the server: what the engine does not answer reaches the model. What
  the application does keeps it too, whether it raises or not.\<close>
theorem settings_invariant:
  assumes "sg_ok s" "fc_named (st_model s)" "list_all (event_ok not_whole_sp) events"
  shows "(\<exists>s'. engine_run (engine_write h) engine_read on_close events s = (Inr (), s') \<and> sg_ok s' \<and> fc_named (st_model s'))
    \<and> sg_ok (snd (select_active now ld g s)) \<and> sg_ok (snd (set_values ld g vs s))"
proof -
  have "sg_ok (snd (select_active now ld g s))" using select_active_ok [OF assms(1) prod.collapse [symmetric]] by blast
  moreover have "sg_ok (snd (set_values ld g vs s))" using set_values_ok [OF assms(1) prod.collapse [symmetric]] by blast
  ultimately show ?thesis using sg.run_keeps [OF assms(3), of s h] assms(1,2) unfolding sg_inv_def by blast
qed

theorem settings_invariant_witness:
  "sg_ok edited_engine \<and> fc_named (st_model edited_engine)
   \<and> (\<exists>s'. engine_run (engine_write no_handlers) engine_read on_close
     [Write_event 50 3 (sgcb_attr (asc ''LD'') ''ActSG'') (UIntData 2), Write_event 60 3 whole_se (StructureData [IntData 4]),
      Read_event 70 7 whole_se, Close_event 7] edited_engine = (Inr (), s') \<and> sg_ok s')"
proof -
  have "list_all (event_ok not_whole_sp) [Write_event 50 3 (sgcb_attr (asc ''LD'') ''ActSG'') (UIntData 2), Write_event 60 3 whole_se (StructureData [IntData 4]),
      Read_event 70 7 whole_se, Close_event 7]"
    unfolding list.pred_inject event_ok.simps not_whole_sp_def whole_se_path by (simp add: sgcb_attr_def SGCB_def path_of_def)
  from settings_invariant [OF edited_engine_ok edited_named this, of no_handlers] show ?thesis
    using edited_engine_ok edited_named by blast
qed

text \<open>C33: while a client's edit lasts, the server refuses another client's write of an SE item of three parts or more
  (\<^verbatim>\<open>LN$SE$DO\<close> and what is below) as temporarily-unavailable whatever the value, its SelectEditSG (as
  temporarily-unavailable when the value is a number) and its ConfirmEditSGValues, and the state stays as it is: model,
  edit and what the listeners are told. A write of the whole \<^verbatim>\<open>LN$SE\<close> or \<^verbatim>\<open>LLN0$SP\<close> is not refused (C36).\<close>
theorem edit_exclusive:
  assumes "sg_ok s" "map_of (st_blocks s) ld = Some b" "b_editor b = Some e" "now < b_until b" "c \<noteq> e"
  shows "(domain_of obj = ld \<and> 3 \<le> length (path_of obj) \<and> path_of obj ! 1 = asc ''SE'' \<longrightarrow>
        engine_write h now c obj v s = (Inr (Some ACCESS_TEMPORARILY_UNAVAILABLE), s))
    \<and> engine_write h now c (sgcb_attr ld ''EditSG'') v s
        = (Inr (Some (if as_group v = None then ACCESS_TYPE_INCONSISTENT else ACCESS_TEMPORARILY_UNAVAILABLE)), s)
    \<and> (\<exists>r. engine_write h now c (sgcb_attr ld ''CnfEdit'') v s = (Inr (Some r), s))"
proof -
  note x = held_not_expired [OF assms(2,4)]
  have se: "on_write h now c obj v s = (Inr (Refused ACCESS_TEMPORARILY_UNAVAILABLE), s)"
    if "domain_of obj = ld" "3 \<le> length (path_of obj)" "path_of obj ! 1 = asc ''SE''"
    unfolding on_write_def Let_def that(1) bindS_gets assms(2) option.case thenS_Inr [where m = "expire now ld", OF x]
    using that(2,3) assms(2,3,5) by (simp add: with_block_def)
  have edit: "on_write h now c (sgcb_attr ld ''EditSG'') v s
      = (Inr (Refused (if as_group v = None then ACCESS_TYPE_INCONSISTENT else ACCESS_TEMPORARILY_UNAVAILABLE)), s)"
    unfolding write_edit_sg [OF assms(2) x assms(2) edit_node [OF assms(1,2)]]
    using assms(2,3,5) by (simp add: write_edit_def with_block_def split: option.split)
  have "\<exists>r. on_write h now c (sgcb_attr ld ''CnfEdit'') v s = (Inr (Refused r), s)"
    unfolding on_write_def Let_def writes_of_engine bindS_gets assms(2) option.case thenS_Inr [where m = "expire now ld", OF x]
    using assms(2,3,5) to_sgcb [of ld "''CnfEdit''"] active_value [OF assms(1,2)]
    by (cases v) (simp_all add: with_block_def sgcb_path_def write_confirm_def bindS_try_get split: bool.split)
  then show ?thesis using se edit by (auto simp: engine_write_def bindS_Inr)
qed

theorem edit_exclusive_witness:
  "engine_write no_handlers 50 3 (sgcb_attr (asc ''LD'') ''EditSG'') (IntData 0) edited_engine
     = (Inr (Some ACCESS_TEMPORARILY_UNAVAILABLE), edited_engine)
   \<and> engine_write no_handlers 50 3 (leaf_name (asc ''LD'') [asc ''LLN0'', asc ''SE'', asc ''x'']) (IntData 4) edited_engine
     = (Inr (Some ACCESS_TEMPORARILY_UNAVAILABLE), edited_engine)"
proof -
  have path: "path_of (leaf_name (asc ''LD'') [asc ''LLN0'', asc ''SE'', asc ''x'']) = [asc ''LLN0'', asc ''SE'', asc ''x'']"
    "domain_of (leaf_name (asc ''LD'') [asc ''LLN0'', asc ''SE'', asc ''x'']) = asc ''LD''"
    by (simp_all add: leaf_name_path plain_path_def del: asc_def)
  note held = edit_exclusive [OF edited_engine_ok edited_engine_block(1,3), of 50 3]
  show ?thesis
    using held [of "leaf_name (asc ''LD'') [asc ''LLN0'', asc ''SE'', asc ''x'']" no_handlers "IntData 4"]
      held [of undefined no_handlers "IntData 0"] edited_engine_block(4) unfolding path by simp
qed

text \<open>C34: an edit ends. Once ResvTms has passed, the next client that selects a group for editing gets it, with the
  group's values in the SE leaves; and a client that goes leaves no edit behind.\<close>
theorem edit_handed_over:
  assumes "sg_ok s" "map_of (st_blocks s) ld = Some b" "b_editor b = Some e" "b_until b \<le> now"
    "1 \<le> g" "g \<le> sg_count (b_groups b)" "on_edit h (Some c) ld g = None"
  shows "(\<exists>s' b' vs. on_write h now c (sgcb_attr ld ''EditSG'') (UIntData g) s = (Inr Handled, s') \<and> sg_ok s'
      \<and> map_of (st_blocks s') ld = Some b' \<and> b_editor b' = Some c \<and> b_until b' = now + sg_resv_tms (b_groups b) * 1000000
      \<and> attr_val (st_model s') ld ''EditSG'' = g \<and> map_of (sg_values (b_groups b)) g = Some vs \<and> mirror (st_model s') ld (b_se b) vs)
    \<and> (\<exists>s'. on_close e s = (Inr (), s') \<and> (\<forall>(d, x) \<in> set (st_blocks s'). b_editor x \<noteq> Some e))"
proof -
  obtain s' where s': "for_each (\<lambda>(ld, _). with_block ld (\<lambda>b. whenS (b_editor b = Some e) (release ld))) (st_blocks s) s = (Inr (), s')"
    "st_blocks s' = map (\<lambda>(d, b). (d, if d \<in> fst ` set (st_blocks s) \<and> b_editor b = Some e then b\<lparr>b_editor := None\<rparr> else b)) (st_blocks s)"
    using do_close [OF assms(1) subset_refl] by blast
  have "on_close e s = (Inr (), s')" using s'(1) by (simp add: on_close_def)
  moreover have "b_editor x \<noteq> Some e" if "(d, x) \<in> set (st_blocks s')" for d x
    using that unfolding s'(2) by (force split: if_splits)
  ultimately show ?thesis using edit_after_expiry [OF assms] by blast
qed

theorem edit_handed_over_witness:
  "\<exists>s' b'. on_write no_handlers 200 3 (sgcb_attr (asc ''LD'') ''EditSG'') (UIntData 1) edited_engine = (Inr Handled, s')
     \<and> map_of (st_blocks s') (asc ''LD'') = Some b' \<and> b_editor b' = Some 3 \<and> attr_val (st_model s') (asc ''LD'') ''EditSG'' = 1"
  using edit_handed_over [OF edited_engine_ok edited_engine_block(1,3), of 200 1 no_handlers 3] edited_engine_block(4,5)
  by (auto simp: no_handlers_def simp del: asc_def)

text \<open>C35: ConfirmEditSGValues by the editor stores the edited group: each setting the group has and an SE leaf shows
  takes that leaf's value, the group's other settings and the other groups keep theirs, and the edit ends.\<close>
theorem confirm_stores:
  assumes "sg_ok s" "map_of (st_blocks s) ld = Some b" "attr_val (st_model s) ld ''EditSG'' = g" "g \<noteq> 0" "b_editor b = Some c"
    "on_confirm h (Some c) ld g = None"
  shows "\<exists>s' b' vs vs'. write_confirm h c ld (BoolData True) s = (Inr Handled, s') \<and> map_of (st_blocks s') ld = Some b'
    \<and> b_editor b' = None \<and> map_of (sg_values (b_groups b)) g = Some vs \<and> map_of (sg_values (b_groups b')) g = Some vs'
    \<and> (\<forall>(k, p) \<in> set (b_se b). map_of vs k \<noteq> None \<longrightarrow> map_of vs' k = val (st_model s) ld p)
    \<and> (\<forall>k. k \<notin> fst ` set (b_se b) \<longrightarrow> map_of vs' k = map_of vs k)
    \<and> (\<forall>i. i \<noteq> g \<longrightarrow> map_of (sg_values (b_groups b')) i = map_of (sg_values (b_groups b)) i)"
proof -
  obtain s' vs edited where c: "write_confirm h c ld (BoolData True) s = (Inr Handled, s')"
    "map_of (sg_values (b_groups b)) g = Some vs" "edited_values (st_model s) ld (b_se b) vs = Inr edited"
    "map_of (st_blocks s') ld = Some (with_values g edited b\<lparr>b_editor := None\<rparr>)" using do_confirm [OF assms] by blast
  obtain T where st: "wt_model (st_model s)" "block_static T (st_model s) ld b" using sg_ok_block [OF assms(1,2)] by blast
  have se: "(k, p) \<in> set (b_se b) \<Longrightarrow> is_leaf (st_model s) ld p (T k)" "distinct (map fst (b_se b))" for k p
    using static_kinds(8) [OF st(2)] by (auto simp: leaves_of_fc_def)
  have "\<forall>k. k \<notin> fst ` set (b_se b) \<longrightarrow> map_of edited k = map_of vs k"
    "\<forall>(k, p) \<in> set (b_se b). map_of vs k \<noteq> None \<longrightarrow> map_of edited k = val (st_model s) ld p"
    using edited_ok [where K = "{}" and vs = vs and T = T and ps = "b_se b" and ld = ld, OF st(1)] se c(3) by auto
  then show ?thesis using c by (intro exI [of _ s'] exI [of _ "with_values g edited b\<lparr>b_editor := None\<rparr>"] exI [of _ vs] exI [of _ edited])
     (simp add: with_values_of)
qed

theorem confirm_stores_witness:
  "\<exists>s' b' vs'. write_confirm no_handlers 7 (asc ''LD'') (BoolData True) edited_engine = (Inr Handled, s')
     \<and> map_of (st_blocks s') (asc ''LD'') = Some b' \<and> b_editor b' = None \<and> map_of (sg_values (b_groups b')) 2 = Some vs'
     \<and> map_of vs' (asc ''LLN0.x'') = Some (IntData 6)"
proof -
  have "val (edited_model 2) (asc ''LD'') [asc ''LLN0'', asc ''SE'', asc ''x''] = Some (IntData 6)"
    unfolding val_def edited_node by (simp add: setting_fc_def child_def)
  moreover have "attr_val (st_model edited_engine) (asc ''LD'') ''EditSG'' = 2" using edited_vals(3) edited_engine_block(2) by simp
  moreover have "b_se edited_block = [(asc ''LLN0.x'', [asc ''LLN0'', asc ''SE'', asc ''x''])]"
    "map_of (sg_values (b_groups edited_block)) 2 = Some [(asc ''LLN0.x'', IntData 9)]" by (simp_all add: edited_block_def)
  ultimately show ?thesis
    using confirm_stores [OF edited_engine_ok edited_engine_block(1), of 2 7 no_handlers] edited_engine_block(2,3)
    by (fastforce simp: no_handlers_def simp del: asc_def)
qed

text \<open>C36: the exclusion has a gap: a client may write a whole FC of a logical node, and the engine answers such a write,
  of \<open>LN$SE\<close> or of the \<open>LLN0$SP\<close> that holds the SGCB, as not its own even while another client edits; \<^verbatim>\<open>write\<close> then
  stores the values.\<close>
theorem whole_fc_write_bypasses:
  assumes "sg_ok s" "map_of (st_blocks s) (domain_of obj) = Some b" "b_editor b = Some e" "now < b_until b" "c \<noteq> e"
    "length (path_of obj) = 2" "find_node (st_model s) obj = Some n" "n_fc n \<in> Some ` set WRITABLE_FCS" "fits (n_type n) v"
  shows "on_write h now c obj v s = (Inr Not_theirs, s)
    \<and> (\<exists>m' ch d. write_node (st_model s) obj v = Inr (None, m', ch) \<and> read_node m' obj = Inr (Access_value d) \<and> same_value d v)"
proof -
  have "on_write h now c obj v s = (Inr Not_theirs, s)"
    unfolding on_write_def Let_def bindS_gets assms(2) option.case
      thenS_Inr [where m = "expire now (domain_of obj)", OF held_not_expired [OF assms(2,4)]]
    using assms(2,6) sgcb_item_parts [OF assms(6)] by (simp add: with_block_def)
  moreover have "wt_model (st_model s)" using assms(1) by (simp add: sg_ok_def)
  ultimately show ?thesis using write_node_sound [of "st_model s" obj v] assms(7-9) by blast
qed

theorem whole_fc_write_bypasses_witness:
  "on_write no_handlers 50 3 \<lparr>on_item = asc ''LLN0$SE'', on_domain = Some (asc ''LD'')\<rparr> (StructureData [IntData 4]) edited_engine
     = (Inr Not_theirs, edited_engine)"
proof -
  let ?obj = "\<lparr>on_item = asc ''LLN0$SE'', on_domain = Some (asc ''LD'')\<rparr>"
  have p: "path_of ?obj = [asc ''LLN0'', asc ''SE'']" "domain_of ?obj = asc ''LD''"
    by (simp_all add: path_of_def domain_of_def)
  have n: "find_node (st_model edited_engine) ?obj = Some (setting_fc ''SE'' 6)"
    unfolding find_node_def p edited_engine_block(2) by (rule edited_node(7))
  show ?thesis
    using whole_fc_write_bypasses [OF edited_engine_ok, of ?obj edited_block 7 50 3 "setting_fc ''SE'' 6"] n p edited_engine_block
    by (simp add: setting_fc_def WRITABLE_FCS_def)
qed

end
