(* ===== verification/Transport.thy ===== *)
theory Transport
  imports Prelude
begin

text \<open>
  \<^verbatim>\<open>src/open61850/mms/transport.py\<close>: TPKT packets and COTP class 0 over TCP.

  The receiving side of a socket is the list of the pieces in which the peer's octets arrive: TCP
  keeps their order but not their boundaries, so a reader must give the same messages for every
  way of cutting the same octets. The end of the list is the peer closing its side. The sending
  side is the octets written so far. Name resolution, timeouts, socket options, the errors of the
  operating system and operations on a socket this end has closed are not modelled.
\<close>

section \<open>Channels\<close>

text \<open>
  The contract of a message channel: a message that was put is got back whole from the front of
  the stream, however it was cut, and the end of the stream is told apart from a message.
\<close>

fun get_many :: "(bytes list \<Rightarrow> 'm option result \<times> bytes list) \<Rightarrow> nat \<Rightarrow> bytes list \<Rightarrow> 'm option list \<times> bytes list" where
  "get_many get 0 s = ([], s)"
| "get_many get (Suc n) s =
     (case get s of
        (Inr (Some m), s') \<Rightarrow> (case get_many get n s' of (ms, s'') \<Rightarrow> (Some m # ms, s''))
      | (_, s') \<Rightarrow> ([None], s'))"

locale message_channel =
  fixes put :: "'m \<Rightarrow> bytes \<Rightarrow> unit result \<times> bytes"
    and get :: "bytes list \<Rightarrow> 'm option result \<times> bytes list"
    and ok :: "'m \<Rightarrow> bool"
  assumes put_ok: "ok m \<Longrightarrow> \<exists>bs. put m out = (Inr (), out @ bs)"
    and get_put: "ok m \<Longrightarrow> put m out = (Inr (), out @ bs) \<Longrightarrow> concat s = bs @ rest \<Longrightarrow>
      \<exists>s'. get s = (Inr (Some m), s') \<and> concat s' = rest"
    and get_end: "concat s = [] \<Longrightarrow> \<exists>s'. get s = (Inr None, s') \<and> concat s' = []"
begin

lemma put_many:
  "list_all ok ms \<Longrightarrow> \<exists>bs. foldl (\<lambda>out m. snd (put m out)) out ms = out @ bs
     \<and> (\<forall>s. concat s = bs \<longrightarrow> fst (get_many get (Suc (length ms)) s) = map Some ms @ [None])"
proof (induction ms arbitrary: out)
  case Nil
  have "fst (get_many get (Suc 0) s) = [None]" if "concat s = []" for s
    using get_end [OF that] by auto
  then show ?case by simp
next
  case (Cons m ms)
  then have m: "ok m" by simp
  obtain bs where bs: "put m out = (Inr (), out @ bs)" using put_ok [OF m] by blast
  obtain cs where cs: "foldl (\<lambda>out m. snd (put m out)) (out @ bs) ms = (out @ bs) @ cs"
    and rest: "\<And>s. concat s = cs \<Longrightarrow> fst (get_many get (Suc (length ms)) s) = map Some ms @ [None]"
    using Cons.IH [of "out @ bs"] Cons.prems by auto
  have "fst (get_many get (Suc (Suc (length ms))) s) = Some m # map Some ms @ [None]" if "concat s = bs @ cs" for s
  proof -
    obtain s' where "get s = (Inr (Some m), s')" "concat s' = cs" using get_put [OF m bs \<open>concat s = bs @ cs\<close>] by blast
    moreover from this(2) obtain s'' where "get_many get (Suc (length ms)) s' = (map Some ms @ [None], s'')"
      using rest [of s'] by (metis prod.collapse)
    ultimately show ?thesis by (simp add: get_many.simps(2) [of get "Suc (length ms)" s] del: get_many.simps)
  qed
  then show ?case using bs cs by (intro exI [of _ "bs @ cs"]) simp
qed

end

section \<open>TPKT\<close>

definition TPKT_VERSION :: byte where "TPKT_VERSION = 3"

text \<open>\<^verbatim>\<open>sock.recv(size)\<close>: part of what has arrived, one octet at least; nothing once the peer closed.\<close>

fun sock_recv :: "nat \<Rightarrow> bytes list \<Rightarrow> bytes \<times> bytes list" where
  "sock_recv n [] = ([], [])"
| "sock_recv n (c # cs) =
     (if c = [] then sock_recv n cs else (take n c, if length c \<le> n then cs else drop n c # cs))"

lemma sock_recv_split: "sock_recv n s = (c, s') \<Longrightarrow> c @ concat s' = concat s \<and> length c \<le> n"
  by (induction n s rule: sock_recv.induct) (auto split: if_splits)

lemma sock_recv_progress: "sock_recv n s = (c, s') \<Longrightarrow> 0 < n \<Longrightarrow> c = [] \<Longrightarrow> concat s = []"
  by (induction n s rule: sock_recv.induct) (auto split: if_splits)

function recv_exact :: "nat \<Rightarrow> bytes list \<Rightarrow> bytes option \<times> bytes list" where
  "recv_exact n s =
     (if n = 0 then (Some [], s)
      else case sock_recv n s of (chunk, s') \<Rightarrow>
        if chunk = [] then (None, s')
        else case recv_exact (n - length chunk) s' of (r, s'') \<Rightarrow> (map_option ((@) chunk) r, s''))"
  by pat_completeness auto
termination
  by (relation "measure fst") auto

declare recv_exact.simps [simp del]

text \<open>What is read is a prefix of what arrives, whatever the pieces.\<close>

lemma recv_exact_spec:
  "(n \<le> length (concat s) \<longrightarrow> (\<exists>s'. recv_exact n s = (Some (take n (concat s)), s') \<and> concat s' = drop n (concat s)))
   \<and> (length (concat s) < n \<longrightarrow> (\<exists>s'. recv_exact n s = (None, s') \<and> concat s' = []))"
proof (induction n s rule: recv_exact.induct)
  case (1 n s)
  obtain c s' where r: "sock_recv n s = (c, s')" by fastforce
  note split = sock_recv_split [OF r] and progress = sock_recv_progress [OF r]
  show ?case
  proof (cases "n = 0 \<or> c = []")
    case True
    show ?thesis
    proof (cases "n = 0")
      case True
      then show ?thesis by (simp add: recv_exact.simps)
    next
      case False
      with True have c: "c = []" by simp
      then have e: "concat s = []" "concat s' = []" using False progress split by simp_all
      moreover have "recv_exact n s = (None, s')" using False r c by (simp add: recv_exact.simps)
      ultimately show ?thesis using False by (metis bot_nat_0.not_eq_extremum leD list.size(3))
    qed
  next
    case False
    then have c: "n \<noteq> 0" "c \<noteq> []" by simp_all
    note IH = 1 [OF c(1) r [symmetric] c(2)]
    have cs: "concat s = c @ concat s'" and le: "length c \<le> n" using split by simp_all
    have step: "recv_exact n s = (case recv_exact (n - length c) s' of (x, s'') \<Rightarrow> (map_option ((@) c) x, s''))"
      using c r by (subst recv_exact.simps) simp
    show ?thesis
    proof (cases "n \<le> length (concat s)")
      case True
      then have "n - length c \<le> length (concat s')" using cs by simp
      then show ?thesis using IH True le unfolding step cs by auto
    next
      case False
      then have "length (concat s') < n - length c" using cs by simp
      then show ?thesis using IH False unfolding step cs by auto
    qed
  qed
qed

lemmas recv_exact_enough = recv_exact_spec [THEN conjunct1, rule_format]
lemmas recv_exact_short = recv_exact_spec [THEN conjunct2, rule_format]

lemma recv_exact_prefix:
  assumes "concat s = bs @ rest" "length bs = n"
  shows "\<exists>s'. recv_exact n s = (Some bs, s') \<and> concat s' = rest"
  using recv_exact_enough [of n s] assms by simp

definition tpkt :: "bytes \<Rightarrow> bytes" where
  "tpkt payload = [TPKT_VERSION, 0] @ nat_be 2 (4 + length payload) @ payload"

definition send_tpkt :: "bytes \<Rightarrow> bytes \<Rightarrow> unit result \<times> bytes" where
  "send_tpkt payload out =
     (if 4 + length payload > 0xFFFF then (Inl TransportError, out) else (Inr (), out @ tpkt payload))"

definition recv_tpkt :: "bytes list \<Rightarrow> bytes option result \<times> bytes list" where
  "recv_tpkt s =
     (case recv_exact 4 s of
        (None, s') \<Rightarrow> (Inr None, s')
      | (Some header, s') \<Rightarrow>
          let n = be_nat (slice header 2 4) in
          if header ! 0 \<noteq> TPKT_VERSION \<or> n < 4 then (Inl TransportError, s')
          else if n = 4 then (Inr (Some []), s')
          else case recv_exact (n - 4) s' of
              (None, s'') \<Rightarrow> (Inr None, s'')
            | (Some payload, s'') \<Rightarrow> (Inr (Some payload), s''))"

lemma recv_exact_0 [simp]: "recv_exact 0 s = (Some [], s)"
  by (simp add: recv_exact.simps)

lemma recv_tpkt_packet:
  assumes len: "4 + length p \<le> 0xFFFF" and s: "concat s = tpkt p @ rest"
  shows "\<exists>s'. recv_tpkt s = (Inr (Some p), s') \<and> concat s' = rest"
proof -
  let ?h = "[TPKT_VERSION, 0] @ nat_be 2 (4 + length p)"
  have "concat s = ?h @ p @ rest" using s by (simp add: tpkt_def)
  then obtain s1 where s1: "recv_exact 4 s = (Some ?h, s1)" "concat s1 = p @ rest"
    using recv_exact_prefix [of s ?h "p @ rest" 4] by auto
  obtain s2 where s2: "recv_exact (length p) s1 = (Some p, s2)" "concat s2 = rest"
    using recv_exact_prefix [OF s1(2) refl] by auto
  have n: "be_nat (slice ?h 2 4) = 4 + length p" using len by (simp add: slice_def be_nat_nat_be del: nat_be.simps)
  show ?thesis
  proof (cases "p = []")
    case True
    have "?h ! 0 = TPKT_VERSION" by simp
    then show ?thesis using True s1 n by (simp add: recv_tpkt_def Let_def del: nat_be.simps)
  next
    case False
    then show ?thesis using s1 s2 n by (simp add: recv_tpkt_def Let_def)
  qed
qed

lemma recv_exact_end: "concat s = [] \<Longrightarrow> 0 < n \<Longrightarrow> \<exists>s'. recv_exact n s = (None, s') \<and> concat s' = []"
  using recv_exact_short [of s n] by (simp only: list.size)

interpretation tpkt_channel: message_channel send_tpkt recv_tpkt "\<lambda>p. 4 + length p \<le> 0xFFFF"
proof
  fix p out :: bytes assume "4 + length p \<le> 0xFFFF"
  then show "\<exists>bs. send_tpkt p out = (Inr (), out @ bs)" by (auto simp: send_tpkt_def)
next
  fix p out bs rest :: bytes and s
  assume "4 + length p \<le> 0xFFFF" "send_tpkt p out = (Inr (), out @ bs)" "concat s = bs @ rest"
  then show "\<exists>s'. recv_tpkt s = (Inr (Some p), s') \<and> concat s' = rest"
    by (intro recv_tpkt_packet) (auto simp: send_tpkt_def split: if_splits)
next
  fix s :: "bytes list" assume "concat s = []"
  then obtain s' where "recv_exact 4 s = (None, s')" "concat s' = []" using recv_exact_end [of s 4] by auto
  then show "\<exists>s'. recv_tpkt s = (Inr None, s') \<and> concat s' = []" by (auto simp: recv_tpkt_def)
qed

section \<open>COTP\<close>

definition CR :: byte where "CR = 0xE0"
definition CC :: byte where "CC = 0xD0"
definition DR :: byte where "DR = 0x80"
definition DT :: byte where "DT = 0xF0"
definition EOT :: byte where "EOT = 0x80"

definition DEFAULT_TPDU_SIZE_CODE :: nat where "DEFAULT_TPDU_SIZE_CODE = 0x0A"

text \<open>\<^verbatim>\<open>bytes([n])\<close>: ValueError above 255.\<close>

definition octet :: "nat \<Rightarrow> bytes result" where
  "octet n = (if n < 256 then Inr [of_nat n] else Inl ValueError)"

definition connection_request :: "int \<Rightarrow> nat \<Rightarrow> bytes \<Rightarrow> bytes \<Rightarrow> bytes result" where
  "connection_request src_ref tpdu_size_code calling_tsap called_tsap =
     bindE (octet tpdu_size_code) (\<lambda>size_code.
     bindE (octet (length called_tsap)) (\<lambda>called.
     bindE (octet (length calling_tsap)) (\<lambda>calling.
     let params = [0xC0, 1] @ size_code @ [0xC2] @ called @ called_tsap @ [0xC1] @ calling @ calling_tsap in
     bindE (to_bytes 2 src_ref) (\<lambda>ref.
     let body = [CR, 0, 0] @ ref @ [0] @ params in
     bindE (octet (length body)) (\<lambda>li. Inr (li @ body))))))"

text \<open>The parameters of a CC TPDU: \<^verbatim>\<open>1 << code\<close> of the last TPDU size parameter, if any.\<close>

function negotiated_from :: "bytes \<Rightarrow> nat \<Rightarrow> nat \<Rightarrow> nat" where
  "negotiated_from cc offset tpdu_size =
     (if offset + 2 \<le> length cc then
        let code = cc ! offset; n = unat (cc ! Suc offset) in
        negotiated_from cc (offset + 2 + n)
          (if code = 0xC0 \<and> n = 1 \<and> offset + 2 < length cc then 2 ^ unat (cc ! (offset + 2)) else tpdu_size)
      else tpdu_size)"
  by pat_completeness auto
termination
  by (relation "measure (\<lambda>(cc, offset, _). length cc - offset)") auto

declare negotiated_from.simps [simp del]

definition negotiated_tpdu_size :: "bytes \<Rightarrow> nat" where
  "negotiated_tpdu_size cc = negotiated_from cc 7 (2 ^ DEFAULT_TPDU_SIZE_CODE)"

section \<open>Connections\<close>

record iso_connection =
  iso_in :: "bytes list" \<comment> \<open>what arrives on the socket, in pieces\<close>
  iso_out :: bytes \<comment> \<open>what was written to the socket\<close>
  iso_tpdu_size :: nat
  iso_closed :: bool

text \<open>\<^verbatim>\<open>IsoConnection.connect\<close> on a new socket whose peer will send \<open>peer\<close>; the socket is closed when the
  exchange fails. \<^verbatim>\<open>connection_request\<close> is called with its defaults and the two selectors.\<close>

definition iso_connect :: "bytes \<Rightarrow> bytes \<Rightarrow> bytes list \<Rightarrow> unit result \<times> iso_connection" where
  "iso_connect calling_tsap called_tsap peer =
     (let sock = \<lparr>iso_in = peer, iso_out = [], iso_tpdu_size = 2 ^ DEFAULT_TPDU_SIZE_CODE, iso_closed = False\<rparr>;
          refuse = (\<lambda>e c. (Inl e, c\<lparr>iso_closed := True\<rparr>)) in
      case connection_request 1 DEFAULT_TPDU_SIZE_CODE calling_tsap called_tsap of
        Inl e \<Rightarrow> refuse e sock
      | Inr cr \<Rightarrow> (case send_tpkt cr [] of
          (Inl e, out) \<Rightarrow> refuse e (sock\<lparr>iso_out := out\<rparr>)
        | (Inr _, out) \<Rightarrow> (case recv_tpkt peer of
            (Inl e, s) \<Rightarrow> refuse e (sock\<lparr>iso_out := out, iso_in := s\<rparr>)
          | (Inr None, s) \<Rightarrow> refuse TransportError (sock\<lparr>iso_out := out, iso_in := s\<rparr>)
          | (Inr (Some cc), s) \<Rightarrow>
              if length cc < 2 \<or> cc ! 1 AND 0xF0 \<noteq> CC then
                refuse TransportError (sock\<lparr>iso_out := out, iso_in := s\<rparr>)
              else (Inr (), sock\<lparr>iso_out := out, iso_in := s, iso_tpdu_size := negotiated_tpdu_size cc\<rparr>))))"

text \<open>The loop of \<^verbatim>\<open>send\<close>: one DT TPDU per \<^verbatim>\<open>room\<close> octets, the last one marked.\<close>

function send_from :: "nat \<Rightarrow> bytes \<Rightarrow> nat \<Rightarrow> bytes \<Rightarrow> unit result \<times> bytes" where
  "send_from room user_data start out =
     (if room = 0 \<or> max 1 (length user_data) \<le> start then (Inr (), out)
      else let chunk = slice user_data start (start + room); lst = (length user_data \<le> start + room) in
        case send_tpkt ([2, DT, if lst then EOT else 0] @ chunk) out of
          (Inl e, out') \<Rightarrow> (Inl e, out')
        | (Inr _, out') \<Rightarrow> send_from room user_data (start + room) out')"
  by pat_completeness auto
termination
  by (relation "measure (\<lambda>(room, user_data, start, _). max 1 (length user_data) - start)") auto

declare send_from.simps [simp del]

definition iso_send :: "bytes \<Rightarrow> iso_connection \<Rightarrow> unit result \<times> iso_connection" where
  "iso_send user_data c =
     (case send_from (max 1 (iso_tpdu_size c - 3)) user_data 0 (iso_out c) of
        (r, out) \<Rightarrow> (r, c\<lparr>iso_out := out\<rparr>))"

text \<open>A TPKT takes four octets at least, so that \<^verbatim>\<open>recv\<close> ends on every finite stream.\<close>

lemma recv_exact_Some: "recv_exact n s = (Some x, s') \<Longrightarrow> concat s = x @ concat s' \<and> length x = n"
  using recv_exact_enough [of n s] recv_exact_short [of s n]
  by (cases "n \<le> length (concat s)") (auto simp del: length_concat)

lemma recv_tpkt_progress: "recv_tpkt s = (Inr (Some p), s') \<Longrightarrow> length (concat s') + 4 \<le> length (concat s)"
proof -
  assume *: "recv_tpkt s = (Inr (Some p), s')"
  then obtain h s1 where h: "recv_exact 4 s = (Some h, s1)"
    by (auto simp: recv_tpkt_def split: prod.splits option.splits)
  let ?n = "be_nat (slice h 2 4)"
  have "s' = s1 \<or> (\<exists>x. recv_exact (?n - 4) s1 = (Some x, s'))"
    using * h by (auto simp: recv_tpkt_def Let_def split: if_splits prod.splits option.splits)
  moreover have "concat s = h @ concat s1" "length h = 4" using recv_exact_Some [OF h] by simp_all
  ultimately show ?thesis using recv_exact_Some [of "?n - 4" s1 _ s'] by (auto simp del: length_concat)
qed

function recv_from :: "bytes \<Rightarrow> bytes list \<Rightarrow> bytes option result \<times> bytes list" where
  "recv_from chunks s =
     (case recv_tpkt s of
        (Inl e, s') \<Rightarrow> (Inl e, s')
      | (Inr None, s') \<Rightarrow> (Inr None, s')
      | (Inr (Some payload), s') \<Rightarrow>
          if length payload < 2 then (Inl TransportError, s')
          else let code = payload ! 1 AND 0xF0 in
            if code = DR then (Inr None, s')
            else if code \<noteq> DT then recv_from chunks s'
            else if length payload < 3 then (Inl TransportError, s')
            else if payload ! 2 AND EOT \<noteq> 0 then (Inr (Some (chunks @ drop 3 payload)), s')
            else recv_from (chunks @ drop 3 payload) s')"
  by pat_completeness auto
termination
proof (relation "measure (\<lambda>(_, s). length (concat s))", goal_cases)
  case (2 chunks s r s' x p)
  then show ?case using recv_tpkt_progress [of s p s'] by simp
next
  case (3 chunks s r s' x p)
  then show ?case using recv_tpkt_progress [of s p s'] by simp
qed simp

declare recv_from.simps [simp del]

definition iso_recv :: "iso_connection \<Rightarrow> bytes option result \<times> iso_connection" where
  "iso_recv c = (case recv_from [] (iso_in c) of (r, s) \<Rightarrow> (r, c\<lparr>iso_in := s\<rparr>))"

definition iso_close :: "iso_connection \<Rightarrow> iso_connection" where
  "iso_close c = c\<lparr>iso_closed := True\<rparr>"

section \<open>Segmentation\<close>

text \<open>What \<^verbatim>\<open>send\<close> promises: the user data cut every \<open>room\<close> octets, with the end marked on the last piece.\<close>

function segments :: "nat \<Rightarrow> bytes \<Rightarrow> bytes list" where
  "segments room d =
     (if room = 0 \<or> length d \<le> room then [[2, DT, EOT] @ d]
      else ([2, DT, 0] @ take room d) # segments room (drop room d))"
  by pat_completeness auto
termination
  by (relation "measure (\<lambda>(_, d). length d)") auto

declare segments.simps [simp del]

lemma segments_short: "length d \<le> room \<Longrightarrow> segments room d = [[2, DT, EOT] @ d]"
  by (simp add: segments.simps)

lemma segments_long:
  "0 < room \<Longrightarrow> room < length d \<Longrightarrow> segments room d = ([2, DT, 0] @ take room d) # segments room (drop room d)"
  by (subst segments.simps) simp

lemma segments_bound: "0 < room \<Longrightarrow> t \<in> set (segments room d) \<Longrightarrow> length t \<le> 3 + room"
proof (induction room d rule: segments.induct)
  case (1 room d)
  then show ?case by (subst (asm) (2) segments.simps) (auto split: if_splits)
qed

lemma segments_data: "concat (map (drop 3) (segments room d)) = d"
proof (induction room d rule: segments.induct)
  case (1 room d)
  show ?case
  proof (cases "room = 0 \<or> length d \<le> room")
    case True
    then show ?thesis by (simp add: segments.simps)
  next
    case False
    then show ?thesis using 1 by (simp add: segments_long)
  qed
qed

lemma segments_end:
  "\<exists>ts t. segments room d = ts @ [[2, DT, EOT] @ t] \<and> (\<forall>x \<in> set ts. \<exists>y. x = [2, DT, 0] @ y)"
proof (induction room d rule: segments.induct)
  case (1 room d)
  show ?case
  proof (cases "room = 0 \<or> length d \<le> room")
    case True
    then show ?thesis by (simp add: segments.simps)
  next
    case False
    then obtain ts t where "segments room (drop room d) = ts @ [[2, DT, EOT] @ t]"
      and "\<forall>x \<in> set ts. \<exists>y. x = [2, DT, 0] @ y" using 1 by blast
    then show ?thesis using False
      by (intro exI [of _ "([2, DT, 0] @ take room d) # ts"] exI [of _ t]) (simp add: segments_long)
  qed
qed

lemma send_from_segments:
  assumes "0 < room" "room + 7 \<le> 0xFFFF" "start < max 1 (length d)"
  shows "send_from room d start out = (Inr (), out @ concat (map tpkt (segments room (drop start d))))"
  using assms
proof (induction room d start out rule: send_from.induct)
  case (1 room d start out)
  let ?lst = "length d \<le> start + room"
  let ?t = "[2, DT, if ?lst then EOT else 0] @ slice d start (start + room)"
  have sent: "send_tpkt ?t out = (Inr (), out @ tpkt ?t)"
    using 1(3) by (simp add: send_tpkt_def)
  have step: "send_from room d start out = send_from room d (start + room) (out @ tpkt ?t)"
  proof -
    have "\<not> (room = 0 \<or> max 1 (length d) \<le> start)" using 1(2,4) by linarith
    then show ?thesis using sent by (subst send_from.simps) (simp only: if_False Let_def sum.case prod.case)
  qed
  show ?case
  proof (cases ?lst)
    case True
    then have "slice d start (start + room) = drop start d" by (simp add: slice_def)
    moreover have "send_from room d (start + room) (out @ tpkt ?t) = (Inr (), out @ tpkt ?t)"
      using True 1(2) by (subst send_from.simps) auto
    ultimately show ?thesis using True step by (simp add: segments_short)
  next
    case False
    have "send_from room d (start + room) (out @ tpkt ?t) =
        (Inr (), (out @ tpkt ?t) @ concat (map tpkt (segments room (drop (start + room) d))))"
      by (rule 1(1)) (use False 1(2-4) sent in auto)
    moreover have "segments room (drop start d) = ?t # segments room (drop (start + room) d)"
      using False 1(2) by (subst segments_long) (auto simp: slice_def add.commute)
    ultimately show ?thesis using step by simp
  qed
qed

lemma recv_from_segments:
  assumes "0 < room" "room + 7 \<le> 0xFFFF" "concat s = concat (map tpkt (segments room d)) @ rest"
  shows "\<exists>s'. recv_from acc s = (Inr (Some (acc @ d)), s') \<and> concat s' = rest"
  using assms
proof (induction room d arbitrary: acc s rule: segments.induct)
  case (1 room d)
  have masks: "DT AND 0xF0 = DT" "DT \<noteq> DR" "EOT AND EOT \<noteq> 0" "(0 :: byte) AND EOT = 0"
    by (simp_all add: DT_def DR_def EOT_def)
  show ?case
  proof (cases "length d \<le> room")
    case True
    then have "concat s = tpkt ([2, DT, EOT] @ d) @ rest" using 1(4) by (simp add: segments_short)
    then obtain s' where "recv_tpkt s = (Inr (Some ([2, DT, EOT] @ d)), s')" "concat s' = rest"
      using recv_tpkt_packet [of "[2, DT, EOT] @ d" s rest] True 1(3) by auto
    then show ?thesis using masks by (subst recv_from.simps) (simp add: Let_def)
  next
    case False
    let ?t = "[2, DT, 0] @ take room d"
    have "concat s = tpkt ?t @ (concat (map tpkt (segments room (drop room d))) @ rest)"
      using False 1(2,4) by (simp add: segments_long)
    then obtain s1 where s1: "recv_tpkt s = (Inr (Some ?t), s1)"
      "concat s1 = concat (map tpkt (segments room (drop room d))) @ rest"
      using recv_tpkt_packet [of ?t s] 1(3) by (auto simp: min.coboundedI2)
    have "recv_from acc s = recv_from (acc @ take room d) s1"
      using s1(1) masks by (subst recv_from.simps) (simp add: Let_def)
    moreover have "\<exists>s'. recv_from (acc @ take room d) s1 = (Inr (Some ((acc @ take room d) @ drop room d)), s') \<and> concat s' = rest"
      using False 1(2,3) s1(2) by (intro 1(1)) auto
    ultimately show ?thesis by simp
  qed
qed

lemma recv_tpkt_end: "concat s = [] \<Longrightarrow> \<exists>s'. recv_tpkt s = (Inr None, s') \<and> concat s' = []"
  by (rule tpkt_channel.get_end)

text \<open>Whole TSDUs over a connection: the same contract, one layer up.\<close>

definition room :: "nat \<Rightarrow> nat" where "room tpdu_size = max 1 (tpdu_size - 3)"

definition put_tsdu :: "nat \<Rightarrow> bytes \<Rightarrow> bytes \<Rightarrow> unit result \<times> bytes" where
  "put_tsdu tpdu_size d out = send_from (room tpdu_size) d 0 out"

interpretation tsdu_channel: message_channel "put_tsdu tpdu_size" "recv_from []" "\<lambda>_. tpdu_size \<le> 65531" for tpdu_size
proof
  fix m out :: bytes assume "tpdu_size \<le> 65531"
  then show "\<exists>bs. put_tsdu tpdu_size m out = (Inr (), out @ bs)"
    by (simp add: put_tsdu_def room_def send_from_segments)
next
  fix m out bs rest :: bytes and s :: "bytes list"
  assume ok: "tpdu_size \<le> 65531" and put: "put_tsdu tpdu_size m out = (Inr (), out @ bs)" and s: "concat s = bs @ rest"
  have r: "0 < room tpdu_size" "room tpdu_size + 7 \<le> 0xFFFF" using ok by (simp_all add: room_def)
  then have "bs = concat (map tpkt (segments (room tpdu_size) m))"
    using put by (simp add: put_tsdu_def send_from_segments)
  then show "\<exists>s'. recv_from [] s = (Inr (Some m), s') \<and> concat s' = rest"
    using recv_from_segments [OF r, of s m rest "[]"] s by simp
next
  fix s :: "bytes list" assume "concat s = []"
  then obtain s' where "recv_tpkt s = (Inr None, s')" "concat s' = []" using recv_tpkt_end [of s] by auto
  then show "\<exists>s'. recv_from [] s = (Inr None, s') \<and> concat s' = []"
    by (subst recv_from.simps) simp
qed

lemma iso_send_put: "iso_send d c = (case put_tsdu (iso_tpdu_size c) d (iso_out c) of (r, out) \<Rightarrow> (r, c\<lparr>iso_out := out\<rparr>))"
  by (simp add: iso_send_def put_tsdu_def room_def)

text \<open>The sends of one end, and the messages the other end receives until the stream ends.\<close>

fun iso_send_all :: "bytes list \<Rightarrow> iso_connection \<Rightarrow> iso_connection" where
  "iso_send_all [] c = c"
| "iso_send_all (d # ds) c = iso_send_all ds (snd (iso_send d c))"

fun iso_recv_many :: "nat \<Rightarrow> iso_connection \<Rightarrow> bytes option list" where
  "iso_recv_many 0 c = []"
| "iso_recv_many (Suc n) c =
     (case iso_recv c of (Inr (Some d), c') \<Rightarrow> Some d # iso_recv_many n c' | (_, c') \<Rightarrow> [None])"

lemma iso_send_out: "iso_out (snd (iso_send d c)) = snd (put_tsdu (iso_tpdu_size c) d (iso_out c))"
  "iso_tpdu_size (snd (iso_send d c)) = iso_tpdu_size c"
  by (simp_all add: iso_send_put split: prod.splits)

lemma iso_send_all_out:
  "iso_out (iso_send_all ds c) = foldl (\<lambda>out d. snd (put_tsdu (iso_tpdu_size c) d out)) (iso_out c) ds"
  by (induction ds arbitrary: c) (simp_all add: iso_send_out)

lemma iso_recv_many_get: "iso_recv_many n c = fst (get_many (recv_from []) n (iso_in c))"
  by (induction n arbitrary: c) (auto simp: iso_recv_def split: prod.splits sum.splits option.splits)

section \<open>Independence of the pieces\<close>

lemma recv_exact_pieces:
  assumes "concat s = concat t" "recv_exact n s = (x, s')"
  shows "\<exists>t'. recv_exact n t = (x, t') \<and> concat t' = concat s'"
proof (cases "n \<le> length (concat s)")
  case True
  then show ?thesis using assms recv_exact_enough [of n s] recv_exact_enough [of n t] by (auto simp del: length_concat)
next
  case False
  then have "length (concat s) < n" "length (concat t) < n" using assms(1) by simp_all
  then show ?thesis using assms recv_exact_short [of s n] recv_exact_short [of t n]
    by (auto simp del: length_concat concat_eq_Nil_conv)
qed

lemma recv_tpkt_pieces:
  assumes "concat s = concat t" "recv_tpkt s = (x, s')"
  shows "\<exists>t'. recv_tpkt t = (x, t') \<and> concat t' = concat s'"
proof -
  obtain h s1 where h: "recv_exact 4 s = (h, s1)" by fastforce
  obtain t1 where t1: "recv_exact 4 t = (h, t1)" "concat s1 = concat t1"
    using recv_exact_pieces [OF assms(1) h] by auto
  let ?n = "be_nat (slice (the h) 2 4) - 4"
  obtain p s2 where p: "recv_exact ?n s1 = (p, s2)" by fastforce
  obtain t2 where "recv_exact ?n t1 = (p, t2)" "concat t2 = concat s2"
    using recv_exact_pieces [OF t1(2) p] by auto
  then show ?thesis using assms(2) h t1 p
    by (cases h; cases p) (auto simp: recv_tpkt_def Let_def split: if_splits)
qed

lemma recv_from_pieces:
  "concat s = concat t \<Longrightarrow> recv_from acc s = (x, s') \<Longrightarrow> \<exists>t'. recv_from acc t = (x, t') \<and> concat t' = concat s'"
proof (induction acc s arbitrary: t x s' rule: recv_from.induct)
  case (1 acc s)
  obtain p s1 where p: "recv_tpkt s = (p, s1)" by fastforce
  obtain t1 where t1: "recv_tpkt t = (p, t1)" "concat s1 = concat t1"
    using recv_tpkt_pieces [OF 1(3) p] by auto
  consider e where "p = Inl e" | "p = Inr None" | d where "p = Inr (Some d)"
    by (cases p; cases "projr p") auto
  then show ?case
  proof cases
    case (3 d)
    show ?thesis
    proof (cases "2 \<le> length d \<and> d ! 1 AND 0xF0 \<noteq> DR \<and> (d ! 1 AND 0xF0 = DT \<longrightarrow> 3 \<le> length d \<and> d ! 2 AND EOT = 0)")
      case True
      show ?thesis
      proof (cases "d ! 1 AND 0xF0 = DT")
        case dt: True
        then have "recv_from acc u = recv_from (acc @ drop 3 d) u'" if "recv_tpkt u = (p, u')" for u u'
          using True that 3 by (subst recv_from.simps) (simp add: Let_def)
        then show ?thesis using 1(2) [OF p [symmetric] 3 refl _ refl] True dt 1(4) t1 p 3 by fastforce
      next
        case dt: False
        then have "recv_from acc u = recv_from acc u'" if "recv_tpkt u = (p, u')" for u u'
          using True that 3 by (subst recv_from.simps) (simp add: Let_def)
        then show ?thesis using 1(1) [OF p [symmetric] 3 refl _ refl] True dt 1(4) t1 p 3 by fastforce
      qed
    next
      case False
      then show ?thesis using 1(4) t1 p 3
        by (subst (asm) recv_from.simps, subst recv_from.simps) (auto simp: Let_def split: if_splits)
    qed
  qed (use 1(4) t1 p in \<open>subst (asm) recv_from.simps, subst recv_from.simps, auto\<close>)+
qed

section \<open>Errors\<close>

lemma recv_tpkt_error: "recv_tpkt s = (Inl e, s') \<Longrightarrow> e = TransportError"
  by (auto simp: recv_tpkt_def Let_def split: prod.splits option.splits if_splits)

lemma recv_from_error: "recv_from acc s = (Inl e, s') \<Longrightarrow> e = TransportError"
proof (induction acc s rule: recv_from.induct)
  case (1 acc s)
  obtain p s1 where p: "recv_tpkt s = (p, s1)" by fastforce
  show ?case
  proof (cases "\<exists>d. p = Inr (Some d)")
    case True
    then obtain d where d: "p = Inr (Some d)" by blast
    show ?thesis
      using 1(3) recv_from.simps [of acc s] 1(1) [OF p [symmetric] d refl _ refl] 1(2) [OF p [symmetric] d refl _ refl] p d
      by (auto simp: Let_def split: if_splits)
  next
    case False
    then show ?thesis using 1(3) p recv_tpkt_error [of s e s1]
      by (subst (asm) recv_from.simps) (auto split: sum.splits option.splits)
  qed
qed

lemma octet_error: "octet n = Inl e \<Longrightarrow> e = ValueError"
  by (simp add: octet_def split: if_splits)

lemma connection_request_error: "raises_only {ValueError, OverflowError} (connection_request src code calling called)"
  unfolding connection_request_def Let_def
  by (intro raises) (auto intro: raises_onlyI dest: octet_error simp: to_bytes_def split: if_splits)

lemma connection_request_error_1: "raises_only {ValueError} (connection_request 1 code calling called)"
  using connection_request_error [of 1 code calling called]
  by (auto simp: raises_only_def connection_request_def Let_def bindE_Inl_iff to_bytes_def dest: octet_error)

lemma iso_connect_outcome:
  assumes "iso_connect calling called peer = (r, c)"
  shows "raises_only {TransportError, ValueError} r" "iso_closed c \<longleftrightarrow> r \<noteq> Inr ()"
proof -
  show "raises_only {TransportError, ValueError} r"
    using assms connection_request_error_1 [of DEFAULT_TPDU_SIZE_CODE calling called]
    by (auto simp: iso_connect_def Let_def raises_only_def send_tpkt_def dest: recv_tpkt_error
        split: sum.splits prod.splits option.splits if_splits)
  show "iso_closed c \<longleftrightarrow> r \<noteq> Inr ()"
    using assms by (auto simp: iso_connect_def Let_def split: sum.splits prod.splits option.splits if_splits)
qed

section \<open>The connection confirm\<close>

text \<open>The parameters of a CC TPDU, and what the negotiation makes of them.\<close>

definition cc_parameter :: "byte \<times> bytes \<Rightarrow> bytes" where
  "cc_parameter p = [fst p, of_nat (length (snd p))] @ snd p"

definition size_parameters :: "(byte \<times> bytes) list \<Rightarrow> nat list" where
  "size_parameters ps = map (\<lambda>p. 2 ^ unat (hd (snd p))) (filter (\<lambda>p. fst p = 0xC0 \<and> length (snd p) = 1) ps)"

lemma negotiated_from_parameters:
  assumes "list_all (\<lambda>p. length (snd p) < 256) ps"
  shows "negotiated_from (pre @ concat (map cc_parameter ps)) (length pre) tpdu_size
    = last (tpdu_size # size_parameters ps)"
  using assms
proof (induction ps arbitrary: pre tpdu_size)
  case Nil
  then show ?case by (simp add: negotiated_from.simps size_parameters_def)
next
  case (Cons p ps)
  obtain code v where p: "p = (code, v)" by (cases p)
  have v: "length v < 256" using Cons.prems p by simp
  let ?cc = "pre @ concat (map cc_parameter (p # ps))"
  let ?size = "if code = 0xC0 \<and> length v = 1 then 2 ^ unat (hd v) else tpdu_size"
  have cc: "?cc = (pre @ cc_parameter p) @ concat (map cc_parameter ps)" by simp
  have nths: "?cc ! length pre = code" "?cc ! Suc (length pre) = of_nat (length v)"
    by (simp_all add: p cc_parameter_def nth_append)
  have third: "v = [b] \<Longrightarrow> ?cc ! (length pre + 2) = b" for b
    by (simp add: p cc_parameter_def nth_append)
  have "negotiated_from ?cc (length pre) tpdu_size = negotiated_from ?cc (length (pre @ cc_parameter p)) ?size"
  proof (cases "code = 0xC0 \<and> length v = 1")
    case True
    then obtain b where b: "v = [b]" by (cases v) auto
    show ?thesis using True nths third [OF b] v
      by (subst negotiated_from.simps) (simp add: p b cc_parameter_def Let_def)
  next
    case False
    then show ?thesis using nths v unat_of_nat_small [OF v]
      by (subst negotiated_from.simps) (auto simp: p cc_parameter_def Let_def add.commute)
  qed
  also have "\<dots> = last (?size # size_parameters ps)"
    unfolding cc by (rule Cons.IH) (use Cons.prems in simp)
  finally show ?case by (simp add: size_parameters_def p)
qed

section \<open>Properties\<close>

text \<open>C30: the TSDUs one end sends are received whole and in order by the other end, and nothing else is, in
  whatever pieces TCP delivers the octets.\<close>
theorem tsdus_delivered:
  assumes "iso_tpdu_size a \<le> 65531" "iso_out a = []" "concat (iso_in b) = iso_out (iso_send_all ds a)"
  shows "iso_recv_many (Suc (length ds)) b = map Some ds @ [None]"
proof -
  obtain bs where "foldl (\<lambda>out d. snd (put_tsdu (iso_tpdu_size a) d out)) [] ds = bs"
    and "\<And>s. concat s = bs \<Longrightarrow> fst (get_many (recv_from []) (Suc (length ds)) s) = map Some ds @ [None]"
    using tsdu_channel.put_many [of "iso_tpdu_size a" ds "[]"] assms(1) by (auto simp: list_all_iff)
  then show ?thesis using assms(2,3) by (simp only: iso_recv_many_get iso_send_all_out)
qed

theorem tsdus_delivered_witness:
  "iso_recv_many 2 \<lparr>iso_in = [[3, 0], [0, 8, 2, 0xF0, 0x80], [], [7]], iso_out = [], iso_tpdu_size = 1024, iso_closed = False\<rparr>
    = [Some [7], None]"
proof -
  let ?a = "\<lparr>iso_in = [], iso_out = [], iso_tpdu_size = 1024, iso_closed = False\<rparr>"
  have "iso_out (iso_send_all [[7]] ?a) = [3, 0, 0, 8, 2, 0xF0, 0x80, 7]"
    by (simp add: iso_send_def send_from_segments segments_short tpkt_def TPKT_VERSION_def DT_def EOT_def numeral_2_eq_2)
  then show ?thesis using tsdus_delivered [of ?a _ "[[7]]"] by (simp add: numeral_2_eq_2)
qed

text \<open>Every TPDU \<^verbatim>\<open>send\<close> writes has the negotiated size at most, their data is the TSDU, and the last one only
  carries the end mark.\<close>
lemma send_segments:
  assumes "4 \<le> iso_tpdu_size c" "iso_tpdu_size c \<le> 65531"
  shows "\<exists>ts t c'. iso_send d c = (Inr (), c')
    \<and> iso_out c' = iso_out c @ concat (map tpkt (ts @ [[2, DT, EOT] @ t]))
    \<and> concat (map (drop 3) ts) @ t = d
    \<and> (\<forall>x \<in> set (ts @ [[2, DT, EOT] @ t]). length x \<le> iso_tpdu_size c)
    \<and> (\<forall>x \<in> set ts. \<exists>y. x = [2, DT, 0] @ y)"
proof -
  let ?r = "room (iso_tpdu_size c)"
  have r: "0 < ?r" "?r + 7 \<le> 0xFFFF" "3 + ?r \<le> iso_tpdu_size c" using assms by (simp_all add: room_def)
  obtain ts t where ts: "segments ?r d = ts @ [[2, DT, EOT] @ t]" "\<forall>x \<in> set ts. \<exists>y. x = [2, DT, 0] @ y"
    using segments_end by blast
  have out: "iso_send d c = (Inr (), c\<lparr>iso_out := iso_out c @ concat (map tpkt (segments ?r d))\<rparr>)"
    using r by (simp add: iso_send_put put_tsdu_def send_from_segments)
  have size: "\<forall>x \<in> set (segments ?r d). length x \<le> iso_tpdu_size c" using segments_bound [OF r(1)] r(3) by fastforce
  have data: "concat (map (drop 3) ts) @ t = d" using segments_data [of ?r d] ts(1) by simp
  show ?thesis using out size data ts(2) unfolding ts(1)
    by (intro exI [of _ ts] exI [of _ t]
        exI [of _ "c\<lparr>iso_out := iso_out c @ concat (map tpkt (ts @ [[2, DT, EOT] @ t]))\<rparr>"] conjI) simp_all
qed

text \<open>What \<^verbatim>\<open>recv\<close> returns or raises depends on the octets of the stream only, not on how they arrive, and
  what it leaves is the same octets.\<close>
lemma recv_pieces_irrelevant:
  assumes "concat (iso_in a) = concat (iso_in b)"
  shows "fst (iso_recv a) = fst (iso_recv b)
    \<and> concat (iso_in (snd (iso_recv a))) = concat (iso_in (snd (iso_recv b)))
    \<and> raises_only {TransportError} (fst (iso_recv a))"
proof -
  obtain x s where s: "recv_from [] (iso_in a) = (x, s)" by fastforce
  obtain t where "recv_from [] (iso_in b) = (x, t)" "concat t = concat s"
    using recv_from_pieces [OF assms s] by blast
  moreover have "raises_only {TransportError} x" using s by (cases x) (auto simp: raises_only_def dest: recv_from_error)
  ultimately show ?thesis using s by (simp add: iso_recv_def)
qed

end
