(* ===== verification/Association.thy ===== *)
theory Association
  imports TlvSeq
begin

text \<open>
  \<^verbatim>\<open>src/open61850/mms/association.py\<close>: the association request a client sends (Session CONNECT, Presentation
  CP-type, ACSE AARQ, MMS initiate-Request) and the response it decodes. Parameters of a session
  SPDU are a map from codes to values, as the dictionary of the code.
\<close>

section \<open>Constants and parameters\<close>

definition OID_ACSE :: "int list" where "OID_ACSE = [2, 2, 1, 0, 1]"
definition OID_MMS_ABSTRACT_SYNTAX :: "int list" where "OID_MMS_ABSTRACT_SYNTAX = [1, 0, 9506, 2, 1]"
definition OID_BER :: "int list" where "OID_BER = [2, 1, 1]"
definition OID_MMS_APPLICATION_CONTEXT :: "int list" where "OID_MMS_APPLICATION_CONTEXT = [1, 0, 9506, 2, 3]"
definition ACSE_CONTEXT :: int where "ACSE_CONTEXT = 1"
definition MMS_CONTEXT :: int where "MMS_CONTEXT = 3"

definition SPDU_CONNECT :: byte where "SPDU_CONNECT = 0x0D"
definition SPDU_ACCEPT :: byte where "SPDU_ACCEPT = 0x0E"
definition SPDU_REFUSE :: byte where "SPDU_REFUSE = 0x0C"
definition SPDU_ABORT :: byte where "SPDU_ABORT = 0x19"
definition PGI_CONNECT_ACCEPT_ITEM :: byte where "PGI_CONNECT_ACCEPT_ITEM = 5"
definition PI_PROTOCOL_OPTIONS :: byte where "PI_PROTOCOL_OPTIONS = 19"
definition PI_VERSION_NUMBER :: byte where "PI_VERSION_NUMBER = 22"
definition PI_SESSION_REQUIREMENTS :: byte where "PI_SESSION_REQUIREMENTS = 20"
definition PI_CALLING_SSEL :: byte where "PI_CALLING_SSEL = 51"
definition PI_CALLED_SSEL :: byte where "PI_CALLED_SSEL = 52"
definition PGI_USER_DATA :: byte where "PGI_USER_DATA = 193"

lemmas session_codes = SPDU_CONNECT_def SPDU_ACCEPT_def SPDU_REFUSE_def SPDU_ABORT_def PGI_CONNECT_ACCEPT_ITEM_def
  PI_PROTOCOL_OPTIONS_def PI_VERSION_NUMBER_def PI_SESSION_REQUIREMENTS_def PI_CALLING_SSEL_def PI_CALLED_SSEL_def
  PGI_USER_DATA_def

definition DEFAULT_PARAMETER_CBB :: "int \<times> bytes" where "DEFAULT_PARAMETER_CBB = (5, [0xF1, 0x00])"
definition DEFAULT_SERVICES_SUPPORTED :: "int \<times> bytes" where
  "DEFAULT_SERVICES_SUPPORTED = (3, [0xEE, 0x1C, 0, 0, 0x04, 0x08, 0, 0, 0x79, 0xEF, 0x18])"

record association_parameters =
  ap_max_pdu_size :: "int option"
  ap_max_outstanding :: int
  ap_nesting_level :: "int option"
  ap_version :: int
  ap_parameter_cbb :: "int \<times> bytes"
  ap_services_supported :: "int \<times> bytes"
  ap_calling_ap_title :: "int list option"
  ap_calling_ae_qualifier :: "int option"
  ap_called_ap_title :: "int list option"
  ap_called_ae_qualifier :: "int option"
  ap_calling_session_selector :: bytes
  ap_called_session_selector :: bytes
  ap_calling_presentation_selector :: bytes
  ap_called_presentation_selector :: bytes

definition default_parameters :: association_parameters where
  "default_parameters =
     \<lparr>ap_max_pdu_size = Some 65000, ap_max_outstanding = 5, ap_nesting_level = Some 10, ap_version = 1,
      ap_parameter_cbb = DEFAULT_PARAMETER_CBB, ap_services_supported = DEFAULT_SERVICES_SUPPORTED,
      ap_calling_ap_title = Some [1, 1, 1, 999], ap_calling_ae_qualifier = Some 12,
      ap_called_ap_title = Some [1, 1, 1, 999, 1], ap_called_ae_qualifier = Some 12,
      ap_calling_session_selector = [0, 1], ap_called_session_selector = [0, 1],
      ap_calling_presentation_selector = [0, 0, 0, 1], ap_called_presentation_selector = [0, 0, 0, 1]\<rparr>"

record association =
  as_max_pdu_size :: "int option"
  as_max_outstanding_calling :: int
  as_max_outstanding_called :: int
  as_nesting_level :: "int option"
  as_version :: int
  as_parameter_cbb :: bytes
  as_services_supported :: bytes

text \<open>\<^verbatim>\<open>Association.supports\<close>; \<^verbatim>\<open>divmod\<close> of a negative service indexes from the end, IndexError past the start.\<close>

definition supports :: "association \<Rightarrow> int \<Rightarrow> bool result" where
  "supports a service =
     (let b = service div 8; i = nat (service mod 8); s = as_services_supported a; n = int (length s) in
      if n \<le> b then Inr False
      else if b < - n then Inl IndexError
      else Inr (bit (s ! nat (if b < 0 then n + b else b)) (7 - i)))"

section \<open>Encoding\<close>

definition session_length :: "nat \<Rightarrow> bytes result" where
  "session_length n = (if n < 255 then Inr [of_nat n] else mapE ((#) 0xFF) (to_bytes 2 (int n)))"

definition session_parameter :: "byte \<Rightarrow> bytes \<Rightarrow> bytes result" where
  "session_parameter code content = mapE (\<lambda>l. code # l @ content) (session_length (length content))"

definition spdu :: "byte \<Rightarrow> bytes \<Rightarrow> bytes result" where
  "spdu si parameters = mapE (\<lambda>l. si # l @ parameters) (session_length (length parameters))"

text \<open>\<^verbatim>\<open>bytes([unused]) + data\<close>.\<close>

definition bit_string :: "int \<times> bytes \<Rightarrow> bytes result" where
  "bit_string p = (if 0 \<le> fst p \<and> fst p < 256 then Inr (word_of_int (fst p) # snd p) else Inl ValueError)"

definition int_tlv :: "int \<Rightarrow> int \<Rightarrow> bytes result" where
  "int_tlv tag v = bindE (encode_integer v) (encode_tlv tag)"

definition oid_tlv :: "int list \<Rightarrow> bytes result" where
  "oid_tlv oid = bindE (encode_oid oid) (encode_tlv 0x06)"

definition presentation_context :: "int \<Rightarrow> int list \<Rightarrow> bytes result" where
  "presentation_context identifier abstract_syntax =
     bindE (bindE (oid_tlv OID_BER) (encode_tlv 0x30)) (\<lambda>transfer.
     bindE (cat [int_tlv 0x02 identifier, oid_tlv abstract_syntax, Inr transfer]) (encode_tlv 0x30))"

definition optional :: "('a \<Rightarrow> bytes result) \<Rightarrow> 'a option \<Rightarrow> bytes result list" where
  "optional f x = (case x of None \<Rightarrow> [] | Some v \<Rightarrow> [f v])"

definition initiate_request :: "association_parameters \<Rightarrow> bytes result" where
  "initiate_request p =
     bindE (cat (optional (int_tlv 0x80) (ap_max_pdu_size p)
                 @ [int_tlv 0x81 (ap_max_outstanding p), int_tlv 0x82 (ap_max_outstanding p)]
                 @ optional (int_tlv 0x83) (ap_nesting_level p))) (\<lambda>body.
     bindE (cat [int_tlv 0x80 (ap_version p),
                 bindE (bit_string (ap_parameter_cbb p)) (encode_tlv 0x81),
                 bindE (bit_string (ap_services_supported p)) (encode_tlv 0x82)]) (\<lambda>detail.
     bindE (cat [Inr body, encode_tlv 0xA4 detail]) (encode_tlv 0xA8)))"

definition aarq :: "association_parameters \<Rightarrow> bytes result" where
  "aarq p =
     bindE (cat ([bindE (oid_tlv OID_MMS_APPLICATION_CONTEXT) (encode_tlv 0xA1)]
                 @ optional (\<lambda>oid. bindE (oid_tlv oid) (encode_tlv 0xA2)) (ap_called_ap_title p)
                 @ optional (\<lambda>q. bindE (int_tlv 0x02 q) (encode_tlv 0xA3)) (ap_called_ae_qualifier p)
                 @ optional (\<lambda>oid. bindE (oid_tlv oid) (encode_tlv 0xA6)) (ap_calling_ap_title p)
                 @ optional (\<lambda>q. bindE (int_tlv 0x02 q) (encode_tlv 0xA7)) (ap_calling_ae_qualifier p))) (\<lambda>body.
     bindE (bindE (cat [int_tlv 0x02 MMS_CONTEXT, bindE (initiate_request p) (encode_tlv 0xA0)]) (encode_tlv 0x28)) (\<lambda>external.
     bindE (cat [Inr body, encode_tlv 0xBE external]) (encode_tlv 0x60)))"

definition cp_type :: "association_parameters \<Rightarrow> bytes result" where
  "cp_type p =
     bindE (cat [presentation_context ACSE_CONTEXT OID_ACSE, presentation_context MMS_CONTEXT OID_MMS_ABSTRACT_SYNTAX]) (\<lambda>contexts.
     bindE (cat [int_tlv 0x02 ACSE_CONTEXT, bindE (aarq p) (encode_tlv 0xA0)]) (\<lambda>pdv.
     bindE (cat [encode_tlv 0x81 (ap_calling_presentation_selector p), encode_tlv 0x82 (ap_called_presentation_selector p),
                 encode_tlv 0xA4 contexts, bindE (encode_tlv 0x30 pdv) (encode_tlv 0x61)]) (\<lambda>normal.
     bindE (bindE (encode_tlv 0x80 [1]) (encode_tlv 0xA0)) (\<lambda>mode.
     bindE (cat [Inr mode, encode_tlv 0xA2 normal]) (encode_tlv 0x31)))))"

definition association_request :: "association_parameters \<Rightarrow> bytes result" where
  "association_request p =
     bindE (cat [session_parameter PI_PROTOCOL_OPTIONS [0], session_parameter PI_VERSION_NUMBER [2]]) (\<lambda>item.
     bindE (cat [session_parameter PGI_CONNECT_ACCEPT_ITEM item,
                 session_parameter PI_SESSION_REQUIREMENTS [0, 2],
                 session_parameter PI_CALLING_SSEL (ap_calling_session_selector p),
                 session_parameter PI_CALLED_SSEL (ap_called_session_selector p),
                 bindE (cp_type p) (session_parameter PGI_USER_DATA)]) (spdu SPDU_CONNECT))"

section \<open>Decoding\<close>

text \<open>The parameters between \<open>offset\<close> and \<open>end\<close>, with the dictionary gathered so far.\<close>

function session_items :: "bytes \<Rightarrow> nat \<Rightarrow> nat \<Rightarrow> (byte \<rightharpoonup> bytes) \<Rightarrow> (byte \<rightharpoonup> bytes) result" where
  "session_items data offset limit items_so_far =
     (if limit \<le> offset then Inr items_so_far
      else if limit < offset + 2 then Inl MmsProtocolError
      else let code = data ! offset; l = unat (data ! Suc offset); off = offset + 2;
               (len, off') = (if l = 0xFF then (be_nat (slice data off (off + 2)), off + 2) else (l, off)) in
           if limit < off' + len then Inl MmsProtocolError
           else session_items data (off' + len) limit (items_so_far(code \<mapsto> slice data off' (off' + len))))"
  by pat_completeness auto
termination
  by (relation "measure (\<lambda>(_, offset, limit, _). limit - offset)") (auto split: if_splits)

declare session_items.simps [simp del]

definition parse_spdu :: "bytes \<Rightarrow> (byte \<times> (byte \<rightharpoonup> bytes)) result" where
  "parse_spdu data =
     (if length data < 2 then Inl MmsProtocolError
      else let l = unat (data ! 1);
               (len, offset) = (if l = 0xFF then (be_nat (slice data 2 4), 4) else (l, 2)) in
           if length data < offset + len then Inl MmsProtocolError
           else mapE (Pair (data ! 0)) (session_items data offset (offset + len) Map.empty))"

definition get_or :: "(int \<rightharpoonup> bytes) \<Rightarrow> int \<Rightarrow> bytes \<Rightarrow> bytes" where
  "get_or m k d = (case m k of Some v \<Rightarrow> v | None \<Rightarrow> d)"

definition optional_integer :: "(int \<rightharpoonup> bytes) \<Rightarrow> int \<Rightarrow> int option result" where
  "optional_integer f k = (case f k of None \<Rightarrow> Inr None | Some v \<Rightarrow> mapE Some (decode_integer v))"

definition integer_field :: "(int \<rightharpoonup> bytes) \<Rightarrow> int \<Rightarrow> int result" where
  "integer_field f k = bindE (field f k) decode_integer"

text \<open>The initiate-ErrorPDU: what the message says is decoded before the error is raised.\<close>

definition initiate_error :: "bytes \<Rightarrow> association result" where
  "initiate_error content =
     bindE (all_tlvs content) (\<lambda>ts.
     bindE (traverse (\<lambda>t. decode_tlv (tlv_value t) 0) (filter (\<lambda>t. tlv_tag t = 0xA0) ts)) (\<lambda>errors.
     bindE (case errors of
              [] \<Rightarrow> Inr ()
            | e # _ \<Rightarrow> bindE (tag_number (tlv_tag e)) (\<lambda>_. bindE (decode_integer (tlv_value e)) (\<lambda>_. Inr ())))
       (\<lambda>_. Inl AssociationError)))"

definition decode_initiate_response :: "bytes \<Rightarrow> association result" where
  "decode_initiate_response mms_pdu =
     bindE (decode_tlv mms_pdu 0) (\<lambda>t.
       if tlv_tag t = 0xAA then initiate_error (tlv_value t)
       else if tlv_tag t \<noteq> 0xA9 then Inl MmsProtocolError
       else bindE (tlv_fields (tlv_value t)) (\<lambda>f.
            bindE (tlv_fields (get_or f 0xA4 [])) (\<lambda>detail.
            rethrow (\<lambda>e. e = KeyError) MmsProtocolError
              (bindE (optional_integer f 0x80) (\<lambda>pdu_size.
               bindE (integer_field f 0x81) (\<lambda>calling.
               bindE (integer_field f 0x82) (\<lambda>called.
               bindE (optional_integer f 0x83) (\<lambda>nesting.
               bindE (integer_field detail 0x80) (\<lambda>version.
                 Inr \<lparr>as_max_pdu_size = pdu_size, as_max_outstanding_calling = calling, as_max_outstanding_called = called,
                      as_nesting_level = nesting, as_version = version,
                      as_parameter_cbb = drop 1 (get_or detail 0x81 [0]),
                      as_services_supported = drop 1 (get_or detail 0x82 [0])\<rparr>)))))))))"

text \<open>The filtered list whose first element is used, or the error when there is none.\<close>

definition single_asn1 :: "bytes \<Rightarrow> bytes result" where
  "single_asn1 content =
     bindE (all_tlvs content) (\<lambda>ts. case filter (\<lambda>t. tlv_tag t = 0xA0) ts of
        [] \<Rightarrow> Inl MmsProtocolError
      | t # _ \<Rightarrow> Inr (tlv_value t))"

definition check_aare_result :: "(int \<rightharpoonup> bytes) \<Rightarrow> unit result" where
  "check_aare_result f =
     (case f 0xA2 of
        None \<Rightarrow> Inr ()
      | Some r \<Rightarrow> bindE (decode_tlv r 0) (\<lambda>t. bindE (decode_integer (tlv_value t)) (\<lambda>result.
          if result = 0 then Inr ()
          else bindE (case f 0xA3 of
                        None \<Rightarrow> Inr ()
                      | Some d \<Rightarrow> bindE (decode_tlv d 0) (\<lambda>source. bindE (decode_tlv (tlv_value source) 0) (\<lambda>t.
                          bindE (decode_integer (tlv_value t)) (\<lambda>_. Inr ()))))
                 (\<lambda>_. Inl AssociationError))))"

definition decode_aare :: "bytes \<Rightarrow> bytes result" where
  "decode_aare apdu =
     bindE (expect_tlv apdu 0 0x61) (\<lambda>t.
     bindE (tlv_fields (tlv_value t)) (\<lambda>f.
     bindE (check_aare_result f) (\<lambda>_.
       case f 0xBE of
         None \<Rightarrow> Inl MmsProtocolError
       | Some u \<Rightarrow> bindE (expect_tlv u 0 0x28) (\<lambda>external. single_asn1 (tlv_value external)))))"

text \<open>The normal-mode parameters of a CP-type or a CPA-PPDU.\<close>

definition normal_mode :: "bytes \<Rightarrow> (int \<rightharpoonup> bytes) result" where
  "normal_mode cp = bindE (tlv_fields cp) (\<lambda>f. bindE (field f 0xA2) tlv_fields)"

definition decode_cpa :: "bytes \<Rightarrow> association result" where
  "decode_cpa user_data =
     bindE (decode_tlv user_data 0) (\<lambda>cp.
       if tlv_tag cp = 0x30 then Inl AssociationError
       else if tlv_tag cp \<noteq> 0x31 then Inl MmsProtocolError
       else bindE (normal_mode (tlv_value cp)) (\<lambda>normal.
            bindE (field normal 0x61) (\<lambda>u. bindE (expect_tlv u 0 0x30) (\<lambda>pdv.
            bindE (single_asn1 (tlv_value pdv)) (\<lambda>acse.
            bindE (decode_aare acse) decode_initiate_response)))))"

definition decode_association_response :: "bytes \<Rightarrow> association result" where
  "decode_association_response user_data =
     bindE (parse_spdu user_data) (\<lambda>(si, items).
       if si = SPDU_REFUSE then Inl AssociationError
       else if si = SPDU_ABORT then Inl AssociationError
       else if si \<noteq> SPDU_ACCEPT then Inl MmsProtocolError
       else rethrow (\<lambda>e. e = KeyError \<or> is_ber_error e) MmsProtocolError
              (bindE (case items PGI_USER_DATA of None \<Rightarrow> Inl KeyError | Some u \<Rightarrow> Inr u) decode_cpa))"

section \<open>Session parameters read back\<close>

fun session_list :: "(byte \<times> bytes) list \<Rightarrow> bytes \<Rightarrow> bool" where
  "session_list [] bs \<longleftrightarrow> bs = []"
| "session_list (p # ps) bs \<longleftrightarrow> (\<exists>a r. bs = a @ r \<and> session_parameter (fst p) (snd p) = Inr a \<and> session_list ps r)"

lemma session_list_Cons: "session_parameter c v = Inr a \<Longrightarrow> session_list ps r \<Longrightarrow> session_list ((c, v) # ps) (a @ r)"
  by auto

lemma session_length_cases:
  assumes "session_length n = Inr l"
  obtains "n < 255" "l = [of_nat n]" | a b where "l = [0xFF, a, b]" "be_nat [a, b] = n" "255 \<le> n"
proof (cases "n < 255")
  case True
  then show ?thesis using assms that(1) by (simp add: session_length_def)
next
  case False
  then obtain x where x: "to_bytes 2 (int n) = Inr x" "l = 0xFF # x"
    using assms by (auto simp: session_length_def mapE_Inr_iff)
  then have "length x = 2" "from_bytes x = int n" using from_bytes_to_bytes [OF x(1)] by simp_all
  then obtain a b where "x = [a, b]" by (auto simp: numeral_2_eq_2 length_Suc_conv)
  then show ?thesis using that(2) [of a b] x(2) \<open>from_bytes x = int n\<close> False by (simp add: from_bytes_def)
qed

lemma session_items_short:
  assumes "offset + 2 + l \<le> limit" "l < 255" "data ! offset = code" "unat (data ! Suc offset) = l"
  shows "session_items data offset limit m =
    session_items data (offset + 2 + l) limit (m(code \<mapsto> slice data (offset + 2) (offset + 2 + l)))"
  using assms by (subst session_items.simps) (simp add: Let_def)

lemma session_items_long:
  assumes "offset + 4 + l \<le> limit" "data ! offset = code" "data ! Suc offset = 0xFF"
    "be_nat (slice data (offset + 2) (offset + 4)) = l"
  shows "session_items data offset limit m =
    session_items data (offset + 4 + l) limit (m(code \<mapsto> slice data (offset + 4) (offset + 4 + l)))"
proof -
  have "offset + 2 + 2 = offset + 4" "unat (0xFF :: byte) = 255" by simp_all
  then show ?thesis using assms
    by (subst session_items.simps) (simp only: Let_def case_prod_conv if_True refl, simp)
qed

lemma session_items_parameter:
  assumes "session_parameter code v = Inr a" "length pre + length a \<le> limit"
  shows "session_items (pre @ a @ rest) (length pre) limit m =
    session_items (pre @ a @ rest) (length pre + length a) limit (m(code \<mapsto> v))"
proof -
  obtain l where l: "session_length (length v) = Inr l" and a: "a = code # l @ v"
    using assms(1) by (auto simp: session_parameter_def mapE_Inr_iff)
  let ?d = "pre @ a @ rest"
  have sl: "slice ?d (length pre + i) (length pre + j) = slice a i j" if "j \<le> length a" for i j
    using that by (rule slice_shift)
  from l show ?thesis
  proof (cases rule: session_length_cases)
    case 1
    have "slice a 2 (2 + length v) = v" by (simp add: a 1 slice_def)
    moreover have "length a = 2 + length v" by (simp add: a 1)
    ultimately show ?thesis
      using session_items_short [of "length pre" "length v" limit ?d code m] assms(2) 1 sl [of "2 + length v" 2]
      by (simp add: a nth_append unat_of_nat_small add.assoc)
  next
    case (2 x y)
    have "slice a 4 (4 + length v) = v" "slice a 2 4 = [x, y]" by (simp_all add: a 2(1) slice_def)
    moreover have "length a = 4 + length v" by (simp add: a 2(1))
    ultimately show ?thesis
      using session_items_long [of "length pre" "length v" limit ?d code m] assms(2) 2 sl [of "4 + length v" 4] sl [of 4 2]
      by (simp add: a nth_append add.assoc numeral_eq_Suc)
  qed
qed

lemma session_items_list:
  "session_list ps bs \<Longrightarrow> session_items (pre @ bs @ rest) (length pre) (length pre + length bs) m
     = Inr (m ++ map_of (rev ps))"
proof (induction ps arbitrary: pre bs m)
  case Nil
  then show ?case by (simp add: session_items.simps)
next
  case (Cons p ps)
  obtain c v where p: "p = (c, v)" by (cases p)
  obtain a r where bs: "bs = a @ r" and a: "session_parameter c v = Inr a" and r: "session_list ps r"
    using Cons.prems by (auto simp: p)
  have "session_items (pre @ bs @ rest) (length pre) (length pre + length bs) m =
      session_items ((pre @ a) @ r @ rest) (length (pre @ a)) (length (pre @ a) + length r) (m(c \<mapsto> v))"
    using session_items_parameter [OF a, of pre "length pre + length bs" "r @ rest" m]
    by (simp only: bs append_assoc length_append add.assoc)
  also have "\<dots> = Inr (m(c \<mapsto> v) ++ map_of (rev ps))" by (rule Cons.IH [OF r])
  finally show ?case by (simp add: p map_add_assoc [symmetric])
qed

lemma parse_spdu_list:
  assumes "session_list ps bs" "spdu si bs = Inr data"
  shows "parse_spdu data = Inr (si, map_of (rev ps))"
proof -
  obtain l where l: "session_length (length bs) = Inr l" and data: "data = si # l @ bs"
    using assms(2) by (auto simp: spdu_def mapE_Inr_iff)
  from l show ?thesis
  proof (cases rule: session_length_cases)
    case 1
    have u: "unat (of_nat (length bs) :: byte) = length bs" using 1 by (simp add: unat_of_nat_small)
    have "session_items ([si, of_nat (length bs)] @ bs @ []) 2 (2 + length bs) Map.empty = Inr (map_of (rev ps))"
      using session_items_list [OF assms(1), of "[si, of_nat (length bs)]" "[]" Map.empty] by (simp add: numeral_2_eq_2)
    moreover have "length data = 2 + length bs" "data ! 1 = of_nat (length bs)" "data ! 0 = si" by (simp_all add: data 1)
    moreover have "data = [si, of_nat (length bs)] @ bs @ []" by (simp add: data 1)
    ultimately show ?thesis using 1 u by (simp only: parse_spdu_def Let_def) simp
  next
    case (2 x y)
    have "session_items ([si, 0xFF, x, y] @ bs @ []) 4 (4 + length bs) Map.empty = Inr (map_of (rev ps))"
      using session_items_list [OF assms(1), of "[si, 0xFF, x, y]" "[]" Map.empty] by (simp add: numeral_eq_Suc)
    moreover have "length data = 4 + length bs" "data ! 1 = 0xFF" "data ! 0 = si" "slice data 2 4 = [x, y]"
      by (simp_all add: data 2(1) slice_def)
    moreover have "data = [si, 0xFF, x, y] @ bs @ []" by (simp add: data 2(1))
    ultimately show ?thesis using 2 by (simp only: parse_spdu_def Let_def) simp
  qed
qed

section \<open>Errors\<close>

lemma session_items_error: "raises_only {MmsProtocolError} (session_items data offset limit m)"
proof (induction data offset limit m rule: session_items.induct)
  case (1 data offset limit m)
  show ?case
    by (subst session_items.simps, unfold Let_def, intro raises 1) (assumption | (rule sym, assumption) | rule refl | simp)+
qed

lemma parse_spdu_error: "raises_only {MmsProtocolError} (parse_spdu data)"
  unfolding parse_spdu_def Let_def by (intro raises session_items_error) simp_all

abbreviation association_errors :: "exn set" where
  "association_errors \<equiv> {AssociationError, BerError, KeyError, MmsProtocolError}"

lemma raises_optional_integer [raises]: "BerError \<in> E \<Longrightarrow> raises_only E (optional_integer f k)"
  unfolding optional_integer_def by (intro raises)

lemma raises_integer_field [raises]: "BerError \<in> E \<Longrightarrow> KeyError \<in> E \<Longrightarrow> raises_only E (integer_field f k)"
  unfolding integer_field_def by (intro raises)

lemma raises_single_asn1 [raises]: "BerError \<in> E \<Longrightarrow> MmsProtocolError \<in> E \<Longrightarrow> raises_only E (single_asn1 c)"
  unfolding single_asn1_def by (intro raises)

lemma raises_check_aare_result: "raises_only association_errors (check_aare_result f)"
  unfolding check_aare_result_def by (intro raises) simp_all

lemma raises_decode_aare: "raises_only association_errors (decode_aare apdu)"
  unfolding decode_aare_def by (intro raises raises_check_aare_result) simp_all

lemma traverse_member: "traverse f xs = Inr ys \<Longrightarrow> y \<in> set ys \<Longrightarrow> \<exists>x \<in> set xs. f x = Inr y"
  by (induction xs arbitrary: ys) (auto simp: bindE_Inr_iff)

lemma raises_initiate_error: "raises_only association_errors (initiate_error c)"
  unfolding initiate_error_def
  by (intro raises raises_tag_number_wf) (auto dest!: traverse_member dest: decode_tlv_wf_tag)

lemma raises_decode_initiate_response: "raises_only association_errors (decode_initiate_response c)"
  unfolding decode_initiate_response_def
  by (intro raises raises_initiate_error raises_only_rethrow [where F = association_errors]) auto

lemma raises_normal_mode [raises]: "BerError \<in> E \<Longrightarrow> KeyError \<in> E \<Longrightarrow> raises_only E (normal_mode c)"
  unfolding normal_mode_def by (intro raises)

lemma raises_decode_cpa: "raises_only association_errors (decode_cpa u)"
  unfolding decode_cpa_def by (intro raises raises_decode_aare raises_decode_initiate_response) auto

lemma decode_association_response_error:
  "raises_only {AssociationError, MmsProtocolError} (decode_association_response u)"
  unfolding decode_association_response_def
proof (intro raises raises_only_rethrow [where F = association_errors], goal_cases)
  case 1
  then show ?case using parse_spdu_error [of u] by (rule raises_only_mono) simp
qed (use raises_decode_cpa in auto)

section \<open>Properties\<close>

text \<open>Whatever the server answers to an association request, \<^verbatim>\<open>decode_association_response\<close> raises
  \<^verbatim>\<open>AssociationError\<close> or \<^verbatim>\<open>MmsProtocolError\<close> only.\<close>
lemma association_response_total:
  "raises_only {AssociationError, MmsProtocolError} (decode_association_response user_data)"
  by (rule decode_association_response_error)

end
