(* ===== verification/ServerProtocol.thy ===== *)
theory ServerProtocol
  imports Transport MmsPdu MmsTypes Association
begin

text \<open>
  \<^verbatim>\<open>src/open61850/server/protocol.py\<close>: the server side of the MMS stack. Functions that have the
  name of a client function of \<open>MmsPdu\<close> or \<open>MmsTypes\<close> are called \<open>decode_..._request\<close> for the requests
  the server reads and \<open>..._content\<close> for the response contents it writes. A result that is an \<^verbatim>\<open>int\<close> (a
  DataAccessError code) is \<open>Access_error\<close>, as on the client's side.
\<close>

section \<open>COTP\<close>

text \<open>The parameters of the CR: the TPDU size code, and the TSAPs to echo. A size parameter cut off at the end
  of the TPDU raises IndexError (\<^verbatim>\<open>value[0]\<close> of an empty slice).\<close>

function cr_parameters :: "bytes \<Rightarrow> nat \<Rightarrow> nat \<Rightarrow> nat \<Rightarrow> bytes \<Rightarrow> (nat \<times> bytes) result" where
  "cr_parameters cr max_code offset size_code tsaps =
     (if offset + 2 \<le> length cr then
        let code = cr ! offset; n = unat (cr ! Suc offset); content = slice cr (offset + 2) (offset + 2 + n) in
        if code = 0xC0 \<and> n = 1 then
          (case content of
             [] \<Rightarrow> Inl IndexError
           | c # _ \<Rightarrow> cr_parameters cr max_code (offset + 2 + n) (min (unat c) max_code) tsaps)
        else cr_parameters cr max_code (offset + 2 + n) size_code
               (if code = 0xC1 \<or> code = 0xC2 then tsaps @ [code, of_nat n] @ content else tsaps)
      else Inr (size_code, tsaps))"
  by pat_completeness auto
termination
  by (relation "measure (\<lambda>(cr, _, offset, _). length cr - offset)") auto

declare cr_parameters.simps [simp del]

definition accept_cotp :: "bytes list \<Rightarrow> nat \<Rightarrow> unit result \<times> iso_connection" where
  "accept_cotp peer max_code =
     (let sock = \<lparr>iso_in = peer, iso_out = [], iso_tpdu_size = 2 ^ DEFAULT_TPDU_SIZE_CODE, iso_closed = False\<rparr> in
      case recv_tpkt peer of
        (Inl e, s) \<Rightarrow> (Inl e, sock\<lparr>iso_in := s\<rparr>)
      | (Inr None, s) \<Rightarrow> (Inl TransportError, sock\<lparr>iso_in := s\<rparr>)
      | (Inr (Some cr), s) \<Rightarrow>
          if length cr < 7 \<or> cr ! 1 AND 0xF0 \<noteq> CR then (Inl TransportError, sock\<lparr>iso_in := s\<rparr>)
          else (case cr_parameters cr max_code 7 DEFAULT_TPDU_SIZE_CODE [] of
              Inl e \<Rightarrow> (Inl e, sock\<lparr>iso_in := s\<rparr>)
            | Inr (size_code, tsaps) \<Rightarrow>
                let body = [CC] @ slice cr 4 6 @ [0, 1] @ [0] @ [0xC0, 1, of_nat size_code] @ tsaps in
                (case octet (length body) of
                   Inl e \<Rightarrow> (Inl e, sock\<lparr>iso_in := s\<rparr>)
                 | Inr li \<Rightarrow> (case send_tpkt (li @ body) [] of
                     (Inl e, out) \<Rightarrow> (Inl e, sock\<lparr>iso_in := s, iso_out := out\<rparr>)
                   | (Inr _, out) \<Rightarrow> (Inr (), sock\<lparr>iso_in := s, iso_out := out, iso_tpdu_size := 2 ^ size_code\<rparr>)))))"

section \<open>Association\<close>

text \<open>\<^verbatim>\<open>_bits\<close>: the unused bits of the last octet, and the octets with the bits of \<open>ns\<close> set.\<close>

definition option_bits :: "nat list \<Rightarrow> nat \<Rightarrow> int \<times> bytes" where
  "option_bits ns size_bits =
     (let raw = replicate ((size_bits + 7) div 8) (0 :: byte) in
      (int (length raw * 8 - size_bits),
       foldl (\<lambda>raw n. raw[n div 8 := raw ! (n div 8) OR drop_bit (n mod 8) 0x80]) raw ns))"

definition SERVICES_SUPPORTED :: "int \<times> bytes" where
  "SERVICES_SUPPORTED = option_bits [1, 2, 4, 5, 6, 12, 79, 83] 85"

definition PARAMETER_CBB :: "int \<times> bytes" where "PARAMETER_CBB = (5, [0xF1, 0x00])"

record association_asked =
  ar_max_pdu_size :: "int option"
  ar_max_outstanding_calling :: int
  ar_max_outstanding_called :: int
  ar_nesting_level :: "int option"
  ar_acse_context :: int
  ar_mms_context :: int
  ar_called_presentation_selector :: bytes
  ar_called_ap_title :: "bytes option"
  ar_called_ae_qualifier :: "bytes option"
  ar_contexts :: "int list"

text \<open>The presentation contexts: all identifiers in order, and those of ACSE and MMS.\<close>

definition context_definition :: "tlv \<Rightarrow> int list \<times> int \<times> int \<Rightarrow> (int list \<times> int \<times> int) result" where
  "context_definition t st =
     (case st of (contexts, acse, mms) \<Rightarrow>
      bindE (tlv_fields (tlv_value t)) (\<lambda>f.
      bindE (integer_field f 0x02) (\<lambda>identifier.
      bindE (field f 0x06) (\<lambda>o_bytes. bindE (decode_oid o_bytes) (\<lambda>syntax.
        if syntax = OID_ACSE then Inr (contexts @ [identifier], identifier, mms)
        else if syntax = OID_MMS_ABSTRACT_SYNTAX then Inr (contexts @ [identifier], acse, identifier)
        else Inr (contexts @ [identifier], acse, mms))))))"

definition next_asn1 :: "bytes \<Rightarrow> bytes result" where
  "next_asn1 content =
     bindE (first_tlv 0xA0 content) (\<lambda>r. case r of None \<Rightarrow> Inl StopIteration | Some t \<Rightarrow> Inr (tlv_value t))"

definition decode_association_request :: "bytes \<Rightarrow> association_asked result" where
  "decode_association_request user_data =
     bindE (parse_spdu user_data) (\<lambda>(si, params).
       if si \<noteq> SPDU_CONNECT then Inl MmsProtocolError
       else rethrow (\<lambda>e. e = KeyError \<or> e = StopIteration \<or> is_ber_error e) MmsProtocolError
         (bindE (case params PGI_USER_DATA of None \<Rightarrow> Inl KeyError | Some u \<Rightarrow> Inr u) (\<lambda>u.
          bindE (expect_tlv u 0 0x31) (\<lambda>cp.
          bindE (normal_mode (tlv_value cp)) (\<lambda>normal.
          bindE (for_tlvs context_definition (get_or normal 0xA4 []) ([], 1, MMS_CONTEXT)) (\<lambda>(contexts, acse_context, mms_context).
          bindE (field normal 0x61) (\<lambda>p. bindE (expect_tlv p 0 0x30) (\<lambda>pdv.
          bindE (next_asn1 (tlv_value pdv)) (\<lambda>apdu.
          bindE (expect_tlv apdu 0 0x60) (\<lambda>a. bindE (tlv_fields (tlv_value a)) (\<lambda>acse.
          bindE (field acse 0xBE) (\<lambda>ui. bindE (expect_tlv ui 0 0x28) (\<lambda>external.
          bindE (next_asn1 (tlv_value external)) (\<lambda>single.
          bindE (expect_tlv single 0 0xA8) (\<lambda>initiate. bindE (tlv_fields (tlv_value initiate)) (\<lambda>f.
          bindE (optional_integer f 0x80) (\<lambda>pdu_size.
          bindE (integer_field f 0x81) (\<lambda>calling.
          bindE (integer_field f 0x82) (\<lambda>called.
          bindE (optional_integer f 0x83) (\<lambda>nesting.
            Inr \<lparr>ar_max_pdu_size = pdu_size, ar_max_outstanding_calling = calling, ar_max_outstanding_called = called,
                 ar_nesting_level = nesting, ar_acse_context = acse_context, ar_mms_context = mms_context,
                 ar_called_presentation_selector = get_or normal 0x82 [0, 0, 0, 1],
                 ar_called_ap_title = acse 0xA2, ar_called_ae_qualifier = acse 0xA3,
                 ar_contexts = contexts\<rparr>))))))))))))))))))))"

text \<open>\<^verbatim>\<open>asked or limit\<close>.\<close>

definition or_limit :: "int option \<Rightarrow> int \<Rightarrow> int" where
  "or_limit asked limit = (case asked of None \<Rightarrow> limit | Some v \<Rightarrow> if v = 0 then limit else v)"

definition accepted_initiate :: "association_asked \<Rightarrow> int \<Rightarrow> int \<Rightarrow> int \<Rightarrow> bytes result" where
  "accepted_initiate request pdu_size max_outstanding nesting_level =
     bindE (cat [int_tlv 0x80 1,
                 bindE (bit_string PARAMETER_CBB) (encode_tlv 0x81),
                 bindE (bit_string SERVICES_SUPPORTED) (encode_tlv 0x82)]) (\<lambda>detail.
     bindE (cat [int_tlv 0x80 pdu_size,
                 int_tlv 0x81 (min max_outstanding (ar_max_outstanding_calling request)),
                 int_tlv 0x82 (min max_outstanding (ar_max_outstanding_called request)),
                 int_tlv 0x83 (min nesting_level (or_limit (ar_nesting_level request) nesting_level)),
                 encode_tlv 0xA4 detail]) (encode_tlv 0xA9))"

definition aare :: "association_asked \<Rightarrow> bytes \<Rightarrow> bytes result" where
  "aare request initiate =
     bindE (bindE (cat [int_tlv 0x02 (ar_mms_context request), encode_tlv 0xA0 initiate]) (encode_tlv 0x28)) (\<lambda>external.
     bindE (cat ([encode_tlv 0x80 [0x07, 0x80],
                  bindE (oid_tlv OID_MMS_APPLICATION_CONTEXT) (encode_tlv 0xA1),
                  bindE (encode_tlv 0x02 [0]) (encode_tlv 0xA2),
                  bindE (bindE (encode_tlv 0x02 [0]) (encode_tlv 0xA1)) (encode_tlv 0xA3)]
                 @ optional (encode_tlv 0xA4) (ar_called_ap_title request)
                 @ optional (encode_tlv 0xA5) (ar_called_ae_qualifier request))) (\<lambda>body.
     bindE (cat [Inr body, encode_tlv 0xBE external]) (encode_tlv 0x61)))"

definition association_accept :: "association_asked \<Rightarrow> int \<Rightarrow> int \<Rightarrow> int \<Rightarrow> (bytes \<times> int) result" where
  "association_accept request max_pdu_size max_outstanding nesting_level =
     (let pdu_size = min max_pdu_size (or_limit (ar_max_pdu_size request) max_pdu_size) in
      bindE (bindE (accepted_initiate request pdu_size max_outstanding nesting_level) (aare request)) (\<lambda>aare_apdu.
      bindE (bindE (encode_oid OID_BER) (encode_tlv 0x81)) (\<lambda>transfer.
      bindE (cat (map (\<lambda>_. bindE (cat [encode_tlv 0x80 [0], Inr transfer]) (encode_tlv 0x30))
                   (if ar_contexts request = [] then [1, 3] else ar_contexts request))) (\<lambda>results.
      bindE (cat [int_tlv 0x02 (ar_acse_context request), encode_tlv 0xA0 aare_apdu]) (\<lambda>pdv.
      bindE (cat [encode_tlv 0x83 (ar_called_presentation_selector request), encode_tlv 0xA5 results,
                  bindE (encode_tlv 0x30 pdv) (encode_tlv 0x61)]) (\<lambda>normal.
      bindE (bindE (cat [bindE (encode_tlv 0x80 [1]) (encode_tlv 0xA0), encode_tlv 0xA2 normal]) (encode_tlv 0x31)) (\<lambda>cpa.
      bindE (cat [session_parameter PI_PROTOCOL_OPTIONS [0], session_parameter PI_VERSION_NUMBER [2]]) (\<lambda>item.
      bindE (cat [session_parameter PGI_CONNECT_ACCEPT_ITEM item, session_parameter PI_SESSION_REQUIREMENTS [0, 2],
                  session_parameter PGI_USER_DATA cpa]) (\<lambda>parameters.
      mapE (\<lambda>s. (s, pdu_size)) (spdu SPDU_ACCEPT parameters))))))))))"

section \<open>Requests\<close>

datatype incoming_request = ConfirmedRequest int int bytes | Conclude

definition decode_request :: "bytes \<Rightarrow> incoming_request result" where
  "decode_request mms_pdu =
     rethrow is_value_error MmsProtocolError
       (bindE (decode_tlv mms_pdu 0) (\<lambda>outer.
          if tlv_tag outer = TAG_CONCLUDE_REQUEST then Inr Conclude
          else if tlv_tag outer \<noteq> TAG_CONFIRMED_REQUEST then Inl MmsProtocolError
          else bindE (first_two (iter_tlvs (tlv_value outer))) (\<lambda>(invoke, service).
               bindE (decode_unsigned (tlv_value invoke)) (\<lambda>i. bindE (tag_number (tlv_tag service)) (\<lambda>n.
                 Inr (ConfirmedRequest i n (tlv_value service)))))))"

datatype variable_access = Variables "object_name list" | Named_list object_name

definition decode_variable_access :: "bytes \<Rightarrow> variable_access result" where
  "decode_variable_access content =
     bindE (decode_tlv content 0) (\<lambda>t.
       if tlv_tag t = 0xA0 then mapE Variables (decode_variable_list (tlv_value t))
       else if tlv_tag t = 0xA1 then
         mapE Named_list (bindE (decode_tlv (tlv_value t) 0) decode_object_name)
       else Inl MmsProtocolError)"

definition decode_read_request :: "bytes \<Rightarrow> (variable_access \<times> bool) result" where
  "decode_read_request content =
     bindE (for_tlvs (\<lambda>t (with_result, spec).
              if tlv_tag t = 0x80 then bindE (decode_boolean (tlv_value t)) (\<lambda>b. Inr (b, spec))
              else if tlv_tag t = 0xA1 then Inr (with_result, Some (tlv_value t))
              else Inr (with_result, spec)) content (False, None))
       (\<lambda>(with_result, spec). case spec of
           None \<Rightarrow> Inl MmsProtocolError
         | Some s \<Rightarrow> mapE (\<lambda>v. (v, with_result)) (decode_variable_access s))"

text \<open>The decoder of the values is an argument: \<^verbatim>\<open>decode_data_sequence\<close> on a stack deep enough, or with room for \<open>n\<close> levels.\<close>

definition decode_write_request_by :: "(bytes \<Rightarrow> iecdata list result) \<Rightarrow> bytes \<Rightarrow> (variable_access \<times> iecdata list) result" where
  "decode_write_request_by decode_values content =
     bindE (first_two (iter_tlvs content)) (\<lambda>(spec, data).
     bindE (if tlv_tag spec = 0xA0 then mapE Variables (decode_variable_list (tlv_value spec))
            else mapE Named_list (bindE (decode_tlv (tlv_value spec) 0) decode_object_name)) (\<lambda>variables.
     mapE (Pair variables) (decode_values (tlv_value data))))"

definition decode_write_request :: "bytes \<Rightarrow> (variable_access \<times> iecdata list) result" where
  "decode_write_request = decode_write_request_by decode_data_sequence"

lemmas decode_write_request_eq = decode_write_request_by_def [of decode_data_sequence, folded decode_write_request_def]


definition decode_get_name_list_request :: "bytes \<Rightarrow> (int \<times> ustr option \<times> ustr option) result" where
  "decode_get_name_list_request content =
     bindE (tlv_fields content) (\<lambda>f.
     bindE (field f 0xA0) (\<lambda>c. bindE (decode_tlv c 0) (\<lambda>t. bindE (decode_unsigned (tlv_value t)) (\<lambda>object_class.
     bindE (field f 0xA1) (\<lambda>s. bindE (decode_tlv s 0) (\<lambda>scope.
     bindE (if tlv_tag scope = 0x81 then mapE Some (decode_ascii (tlv_value scope)) else Inr None) (\<lambda>domain.
     bindE (case f 0x82 of None \<Rightarrow> Inr None | Some a \<Rightarrow> mapE Some (decode_ascii a)) (\<lambda>continue_after.
       Inr (object_class, domain, continue_after)))))))))"

definition object_name_request :: "bytes \<Rightarrow> object_name result" where
  "object_name_request content =
     bindE (decode_tlv content 0) (\<lambda>t.
       if tlv_tag t = 0xA0 then bindE (decode_tlv (tlv_value t) 0) decode_object_name
       else decode_object_name t)"

section \<open>Responses\<close>

definition confirmed_response :: "int \<Rightarrow> int \<Rightarrow> bytes \<Rightarrow> bytes result" where
  "confirmed_response invoke_id service content =
     bindE (cat [bindE (encode_unsigned invoke_id) (encode_tlv 0x02), service_tlv service content])
       (encode_tlv TAG_CONFIRMED_RESPONSE)"

definition confirmed_error :: "int \<Rightarrow> int \<Rightarrow> int \<Rightarrow> bytes result" where
  "confirmed_error invoke_id error_class code =
     bindE (bindE (make_tag error_class CLASS_CONTEXT False) (\<lambda>tag. bindE (int_tlv tag code) (encode_tlv 0xA0))) (\<lambda>error.
     bindE (cat [bindE (encode_unsigned invoke_id) (encode_tlv 0x80), encode_tlv 0xA2 error])
       (encode_tlv TAG_CONFIRMED_ERROR))"

definition reject_pdu :: "int option \<Rightarrow> int \<Rightarrow> int \<Rightarrow> bytes result" where
  "reject_pdu invoke_id reason code =
     bindE (cat (optional (\<lambda>i. bindE (encode_unsigned i) (encode_tlv 0x80)) invoke_id
                 @ [bindE (make_tag reason CLASS_CONTEXT False) (\<lambda>tag. int_tlv tag code)]))
       (encode_tlv TAG_REJECT)"

definition conclude_response :: "bytes result" where
  "conclude_response = encode_tlv TAG_CONCLUDE_RESPONSE []"

definition read_response_content :: "access_result list \<Rightarrow> bytes option \<Rightarrow> bytes result" where
  "read_response_content results spec =
     cat (optional (encode_tlv 0xA0) spec @ [bindE (encode_access_results results) (encode_tlv 0xA1)])"

definition write_response_content :: "int option list \<Rightarrow> bytes result" where
  "write_response_content errors =
     cat (map (\<lambda>e. case e of None \<Rightarrow> encode_tlv 0x81 [] | Some c \<Rightarrow> int_tlv 0x80 c) errors)"

definition get_name_list_response_content :: "ustr list \<Rightarrow> bool \<Rightarrow> bytes result" where
  "get_name_list_response_content names more_follows =
     bindE (cat (map (\<lambda>n. bindE (encode_ascii n) (encode_tlv 0x1A)) names)) (\<lambda>listed.
     cat [encode_tlv 0xA0 listed, encode_tlv 0x81 (encode_boolean more_follows)])"

definition identify_response_content :: "ustr \<Rightarrow> ustr \<Rightarrow> ustr \<Rightarrow> bytes result" where
  "identify_response_content vendor model revision =
     cat [bindE (encode_ascii vendor) (encode_tlv 0x80), bindE (encode_ascii model) (encode_tlv 0x81),
          bindE (encode_ascii revision) (encode_tlv 0x82)]"

definition get_variable_access_attributes_response_content :: "mms_type \<Rightarrow> bytes result" where
  "get_variable_access_attributes_response_content ty =
     cat [encode_tlv 0x80 (encode_boolean False), bindE (encode_type_description ty) (encode_tlv 0xA2)]"

definition get_named_variable_list_attributes_response_content :: "object_name list \<Rightarrow> bytes result" where
  "get_named_variable_list_attributes_response_content members =
     bindE (variable_items members) (\<lambda>items_bytes.
     cat [encode_tlv 0x80 (encode_boolean False), encode_tlv 0xA1 items_bytes])"

definition information_report :: "access_result list \<Rightarrow> ustr option \<Rightarrow> object_name list \<Rightarrow> bytes \<Rightarrow> bytes result" where
  "information_report results list_name variables encoded =
     bindE (case list_name of
              Some n \<Rightarrow> bindE (bindE (encode_ascii n) (encode_tlv 0x80)) (encode_tlv 0xA1)
            | None \<Rightarrow> bindE (variable_items variables) (encode_tlv 0xA0)) (\<lambda>spec.
     bindE (cat [Inr spec, bindE (cat [encode_access_results results, Inr encoded]) (encode_tlv 0xA0)]) (\<lambda>report.
     bindE (encode_tlv 0xA0 report) (encode_tlv TAG_UNCONFIRMED)))"

section \<open>Requests read back\<close>

lemma first_two_items:
  assumes "items [p, q] bs"
  shows "\<exists>t u. first_two (iter_tlvs bs) = Inr (t, u) \<and> pair_of t = p \<and> pair_of u = q"
  using items_two [OF assms] by (auto simp: first_two_def gen_list_def)

lemma unsigned_read_back: "encode_unsigned i = Inr c \<Longrightarrow> decode_unsigned c = Inr i"
  using unsigned_codec.dec_enc [of i c] by (auto simp: encode_unsigned_def split: if_splits)

lemma integer_read_back: "encode_integer i = Inr c \<Longrightarrow> decode_integer c = Inr i"
  using integer_codec.dec_enc [of i c] by simp

lemma service_tlv_tag:
  assumes "0 \<le> n" "n < 31" "service_tlv n c = Inr s"
  shows "encode_tlv (0xA0 + n) c = Inr s" "wf_tag (0xA0 + n)" "tag_number (0xA0 + n) = Inr n"
  using assms context_tag [of n True] by (auto simp: service_tlv_def)

lemma confirmed_TLVs:
  assumes "0 \<le> n" "n < 31" "cat [bindE (encode_unsigned i) (encode_tlv 0x02), service_tlv n c] = Inr body"
  shows "\<exists>ic t u. first_two (iter_tlvs body) = Inr (t, u) \<and> tlv_value t = ic \<and> decode_unsigned ic = Inr i
    \<and> tag_number (tlv_tag u) = Inr n \<and> tlv_value u = c"
proof -
  obtain ic ib s where i: "encode_unsigned i = Inr ic" "encode_tlv 0x02 ic = Inr ib" and s: "service_tlv n c = Inr s"
    and body: "body = ib @ s" using assms(3) by (auto simp: bindE_Inr_iff)
  have it: "items [(0x02, ic), (0xA0 + n, c)] body"
    unfolding body by (intro items_Cons items_single i service_tlv_tag [OF assms(1,2) s]) simp
  show ?thesis using first_two_items [OF it] unsigned_read_back [OF i(1)] service_tlv_tag(3) [OF assms(1,2) s]
    by (auto simp: pair_of_eq)
qed

lemma decode_confirmed_request:
  assumes "0 \<le> n" "n < 31" "service_tlv n c = Inr s" "confirmed_request i s = Inr p"
  shows "decode_request p = Inr (ConfirmedRequest i n c)"
proof -
  obtain body where body: "cat [bindE (encode_unsigned i) (encode_tlv 0x02), service_tlv n c] = Inr body"
    and p: "encode_tlv TAG_CONFIRMED_REQUEST body = Inr p"
    using assms(3,4) by (auto simp: confirmed_request_def bindE_Inr_iff)
  have "decode_tlv p 0 = Inr \<lparr>tlv_tag = 0xA0, tlv_value = body, tlv_end = length p\<rparr>"
    using p by (intro decode_tlv_whole) (simp_all add: pdu_tags)
  then show ?thesis using confirmed_TLVs [OF assms(1,2) body]
    by (auto simp: decode_request_def pdu_tags)
qed

lemma decode_conclude: "conclude_request = Inr p \<Longrightarrow> decode_request p = Inr Conclude"
  using decode_tlv_whole [of "0x8B" "[]" p] by (simp add: conclude_request_def decode_request_def pdu_tags)

lemma variable_list_specification:
  assumes "variable_list ns = Inr bs"
  shows "\<exists>t. decode_tlv bs 0 = Inr t \<and> tlv_tag t = 0xA0 \<and> decode_variable_list (tlv_value t) = Inr ns"
proof -
  obtain c where c: "variable_items ns = Inr c" "encode_tlv 0xA0 c = Inr bs"
    using assms by (auto simp: variable_list_def)
  show ?thesis using decode_tlv_whole [OF _ c(2)] decode_variable_items [OF c(1)] by simp
qed

lemma decode_read_request_back:
  assumes "read_request ns = Inr s"
  shows "\<exists>c. service_tlv SERVICE_READ c = Inr s \<and> decode_read_request c = Inr (Variables ns, False)"
proof -
  obtain vl c where vl: "variable_list ns = Inr vl" and c: "encode_tlv 0xA1 vl = Inr c" and s: "service_tlv SERVICE_READ c = Inr s"
    using assms by (auto simp: read_request_def bindE_Inr_iff)
  obtain t where t: "decode_tlv vl 0 = Inr t" "tlv_tag t = 0xA0" "decode_variable_list (tlv_value t) = Inr ns"
    using variable_list_specification [OF vl] by blast
  have it: "items [(0xA1, vl)] c" using c by (intro items_single) simp_all
  obtain u where "iter_tlvs c = ([u], None)" "tlv_tag u = 0xA1" "tlv_value u = vl"
    using items_iter [OF it] by (auto simp: pair_of_eq)
  then have "decode_read_request c = Inr (Variables ns, False)"
    using t by (simp add: decode_read_request_def for_tlvs_def decode_variable_access_def)
  then show ?thesis using s by blast
qed

lemma cat_traverse: "cat (map f xs) = mapE concat (traverse f xs)"
  by (induction xs) (simp_all add: mapE_def bindE_assoc cong: bindE_cong)

lemma decode_write_request_back:
  assumes "write_request ns vs = Inr s" "list_all ok_data vs"
  shows "\<exists>c. service_tlv SERVICE_WRITE c = Inr s \<and> decode_write_request c = Inr (Variables ns, vs)"
proof -
  obtain bs data vl where bs: "cat (map encode_data vs) = Inr bs" and data: "encode_tlv 0xA0 bs = Inr data"
    and vl: "variable_list ns = Inr vl" and s: "service_tlv SERVICE_WRITE (vl @ data) = Inr s"
    using assms(1) by (auto simp: write_request_def bindE_Inr_iff split: if_splits)
  obtain c where c: "variable_items ns = Inr c" "encode_tlv 0xA0 c = Inr vl"
    using vl by (auto simp: variable_list_def)
  have it: "items [(0xA0, c), (0xA0, bs)] (vl @ data)" by (intro items_Cons items_single c data) simp_all
  obtain bss where "traverse encode_data vs = Inr bss" "bs = concat bss"
    using bs by (auto simp: cat_traverse mapE_Inr_iff)
  then have "decode_data_sequence bs = Inr vs" using decode_encode_sequence [OF assms(2)] by simp
  then have "decode_write_request (vl @ data) = Inr (Variables ns, vs)"
    using first_two_items [OF it] decode_variable_items [OF c(1)] by (auto simp: decode_write_request_eq pair_of_eq)
  then show ?thesis using s by blast
qed

lemma decode_get_name_list_request_back:
  assumes "get_name_list_request cls domain after = Inr s"
  shows "\<exists>c. service_tlv SERVICE_GET_NAME_LIST c = Inr s \<and> decode_get_name_list_request c = Inr (cls, domain, after)"
proof -
  obtain oc ocb a sc b r where oc: "encode_unsigned cls = Inr oc" "encode_tlv 0x80 oc = Inr ocb" "encode_tlv 0xA0 ocb = Inr a"
    and sc: "(case domain of None \<Rightarrow> encode_tlv 0x80 [] | Some d \<Rightarrow> bindE (encode_ascii d) (encode_tlv 0x81)) = Inr sc"
      "encode_tlv 0xA1 sc = Inr b"
    and r: "cat (case after of None \<Rightarrow> [] | Some c \<Rightarrow> [bindE (encode_ascii c) (encode_tlv 0x82)]) = Inr r"
    and s: "service_tlv SERVICE_GET_NAME_LIST (a @ b @ r) = Inr s"
    using assms by (auto simp: get_name_list_request_def bindE_Inr_iff)
  have cls: "decode_tlv ocb 0 = Inr \<lparr>tlv_tag = 0x80, tlv_value = oc, tlv_end = length ocb\<rparr>"
    using oc(2) by (intro decode_tlv_whole) simp_all
  have scope: "\<exists>t. decode_tlv sc 0 = Inr t
      \<and> (if tlv_tag t = 0x81 then mapE Some (decode_ascii (tlv_value t)) else Inr None) = Inr domain"
  proof (cases domain)
    case None
    then show ?thesis using sc(1) decode_tlv_whole [of "0x80" "[]" sc] by simp
  next
    case (Some d)
    then obtain x where "encode_ascii d = Inr x" "encode_tlv 0x81 x = Inr sc" using sc(1) by auto
    then show ?thesis using decode_tlv_whole [of "0x81" x sc] Some by (simp add: decode_ascii_encode_ascii)
  qed
  have "\<exists>f. tlv_fields (a @ b @ r) = Inr f \<and> f 0xA0 = Some ocb \<and> f 0xA1 = Some sc
      \<and> (case f 0x82 of None \<Rightarrow> Inr None | Some x \<Rightarrow> mapE Some (decode_ascii x)) = Inr after"
  proof (cases after)
    case None
    then have "items [(0xA0, ocb), (0xA1, sc)] (a @ b @ r)" using r oc(3) sc(2)
      by (simp add: items_Cons items_single)
    from items_fields [OF this] show ?thesis using None by simp
  next
    case (Some x)
    then obtain y z where x: "encode_ascii x = Inr y" "encode_tlv 0x82 y = Inr z" "r = z" using r by (auto simp: bindE_Inr_iff)
    have "items [(0xA0, ocb), (0xA1, sc), (0x82, y)] (a @ b @ z)"
      by (intro items_Cons items_single oc sc x) simp_all
    from items_fields [OF this] show ?thesis using Some x by (simp add: decode_ascii_encode_ascii)
  qed
  then have "decode_get_name_list_request (a @ b @ r) = Inr (cls, domain, after)"
    using scope cls unsigned_read_back [OF oc(1)] by (auto simp: decode_get_name_list_request_def field_def)
  then show ?thesis using s by blast
qed

lemma object_name_TLV:
  assumes "encode_object_name n = Inr bs"
  shows "\<exists>t. decode_tlv bs 0 = Inr t \<and> decode_object_name t = Inr n \<and> tlv_tag t \<noteq> 0xA0"
proof -
  obtain t where t: "decode_tlv bs 0 = Inr t" "decode_object_name t = Inr n"
    using decode_encode_object_name [OF assms] by blast
  then show ?thesis by (auto simp: decode_object_name_def split: if_splits)
qed

lemma object_name_request_back:
  "get_variable_access_attributes_request n = Inr s \<Longrightarrow>
   \<exists>c. service_tlv SERVICE_GET_VARIABLE_ACCESS_ATTRIBUTES c = Inr s \<and> object_name_request c = Inr n"
  "get_named_variable_list_attributes_request n = Inr s \<Longrightarrow>
   \<exists>c. service_tlv SERVICE_GET_NAMED_VARIABLE_LIST_ATTRIBUTES c = Inr s \<and> object_name_request c = Inr n"
proof -
  assume "get_variable_access_attributes_request n = Inr s"
  then obtain bs c where bs: "encode_object_name n = Inr bs" "encode_tlv 0xA0 bs = Inr c"
    and s: "service_tlv SERVICE_GET_VARIABLE_ACCESS_ATTRIBUTES c = Inr s"
    by (auto simp: get_variable_access_attributes_request_def bindE_Inr_iff)
  have "decode_tlv c 0 = Inr \<lparr>tlv_tag = 0xA0, tlv_value = bs, tlv_end = length c\<rparr>"
    using bs(2) by (intro decode_tlv_whole) simp_all
  then show "\<exists>c. service_tlv SERVICE_GET_VARIABLE_ACCESS_ATTRIBUTES c = Inr s \<and> object_name_request c = Inr n"
    using object_name_TLV [OF bs(1)] s by (auto simp: object_name_request_def intro!: exI [of _ c])
next
  assume "get_named_variable_list_attributes_request n = Inr s"
  then obtain bs where bs: "encode_object_name n = Inr bs" and s: "service_tlv SERVICE_GET_NAMED_VARIABLE_LIST_ATTRIBUTES bs = Inr s"
    by (auto simp: get_named_variable_list_attributes_request_def bindE_Inr_iff)
  then show "\<exists>c. service_tlv SERVICE_GET_NAMED_VARIABLE_LIST_ATTRIBUTES c = Inr s \<and> object_name_request c = Inr n"
    using object_name_TLV [OF bs] by (auto simp: object_name_request_def)
qed

section \<open>Responses read back\<close>

lemma decode_confirmed_response:
  assumes "0 \<le> n" "n < 31" "confirmed_response i n c = Inr p"
  shows "decode_pdu p = Inr (ConfirmedResponse i n c)"
proof -
  obtain body where body: "cat [bindE (encode_unsigned i) (encode_tlv 0x02), service_tlv n c] = Inr body"
    and p: "encode_tlv 0xA1 body = Inr p"
    using assms(3) by (auto simp: confirmed_response_def bindE_Inr_iff pdu_tags)
  have "decode_tlv p 0 = Inr \<lparr>tlv_tag = 0xA1, tlv_value = body, tlv_end = length p\<rparr>"
    using p by (intro decode_tlv_whole) simp_all
  then show ?thesis using confirmed_TLVs [OF assms(1,2) body]
    by (auto simp: decode_pdu_def decode_pdu_body_def pdu_tags)
qed

lemma primitive_tag_TLV:
  assumes "0 \<le> n" "n < 31" "bindE (make_tag n CLASS_CONTEXT False) (\<lambda>tag. int_tlv tag code) = Inr b"
  shows "\<exists>c. wf_tag (0x80 + n) \<and> tag_number (0x80 + n) = Inr n \<and> encode_tlv (0x80 + n) c = Inr b
    \<and> decode_integer c = Inr code"
  using assms context_tag [of n False] by (auto simp: int_tlv_def bindE_Inr_iff dest: integer_read_back)

lemma decode_confirmed_error_back:
  assumes "0 \<le> cls" "cls < 31" "confirmed_error i cls code = Inr p"
  shows "decode_pdu p = Inr (ConfirmedError i cls code)"
proof -
  obtain k e ic ib eb where k: "bindE (make_tag cls CLASS_CONTEXT False) (\<lambda>tag. int_tlv tag code) = Inr k"
    and e: "encode_tlv 0xA0 k = Inr e" and i: "encode_unsigned i = Inr ic" "encode_tlv 0x80 ic = Inr ib"
    and eb: "encode_tlv 0xA2 e = Inr eb" and p: "encode_tlv 0xA2 (ib @ eb) = Inr p"
    using assms(3) by (auto simp: confirmed_error_def bindE_Inr_iff pdu_tags)
  obtain c where c: "wf_tag (0x80 + cls)" "tag_number (0x80 + cls) = Inr cls" "encode_tlv (0x80 + cls) c = Inr k"
    "decode_integer c = Inr code" using primitive_tag_TLV [OF assms(1,2) k] by blast
  have it: "items [(0x80, ic), (0xA2, e)] (ib @ eb)" by (intro items_Cons items_single i eb) simp_all
  have "decode_confirmed_error (ib @ eb) = Inr (ConfirmedError i cls code)"
    using items_fields [OF it] decode_tlv_whole [OF _ e] decode_tlv_whole [OF c(1,3)] c unsigned_read_back [OF i(1)]
    by (simp add: decode_confirmed_error_def)
  then show ?thesis using decode_tlv_whole [OF _ p]
    by (simp add: decode_pdu_def decode_pdu_body_def pdu_tags)
qed

lemma decode_reject_back:
  assumes "0 < reason" "reason < 31" "reject_pdu i reason code = Inr p"
  shows "decode_pdu p = Inr (Reject i reason code)"
proof -
  obtain a b where a: "cat (optional (\<lambda>i. bindE (encode_unsigned i) (encode_tlv 0x80)) i) = Inr a"
    and b: "bindE (make_tag reason CLASS_CONTEXT False) (\<lambda>tag. int_tlv tag code) = Inr b"
    and p: "encode_tlv 0xA4 (a @ b) = Inr p"
    using assms(3) by (cases i) (auto simp: reject_pdu_def bindE_Inr_iff pdu_tags optional_def)
  obtain c where c: "wf_tag (0x80 + reason)" "tag_number (0x80 + reason) = Inr reason"
    "encode_tlv (0x80 + reason) c = Inr b" "decode_integer c = Inr code"
    using primitive_tag_TLV [of reason code b] assms(1,2) b by auto
  have "decode_reject (a @ b) = Inr (Reject i reason code)"
  proof (cases i)
    case None
    have it: "items [(0x80 + reason, c)] (a @ b)" using a None c by (simp add: optional_def)
    obtain u where "iter_tlvs (a @ b) = ([u], None)" "tlv_tag u = 0x80 + reason" "tlv_value u = c"
      using items_iter [OF it] by (auto simp: pair_of_eq)
    then show ?thesis using None c assms(1) by (simp add: decode_reject_def for_tlvs_def)
  next
    case (Some n)
    then obtain ic where ic: "encode_unsigned n = Inr ic" "encode_tlv 0x80 ic = Inr a"
      using a by (auto simp: optional_def bindE_Inr_iff)
    have it: "items [(0x80, ic), (0x80 + reason, c)] (a @ b)" by (intro items_Cons items_single ic c) simp
    obtain t u where "iter_tlvs (a @ b) = ([t, u], None)" "tlv_tag t = 0x80" "tlv_value t = ic"
      "tlv_tag u = 0x80 + reason" "tlv_value u = c"
      using items_two [OF it] by (auto simp: pair_of_eq)
    then show ?thesis using Some c assms(1) unsigned_read_back [OF ic(1)] by (simp add: decode_reject_def for_tlvs_def)
  qed
  then show ?thesis using decode_tlv_whole [OF _ p]
    by (simp add: decode_pdu_def decode_pdu_body_def pdu_tags)
qed

lemma decode_conclude_response: "conclude_response = Inr p \<Longrightarrow> decode_pdu p = Inr ConcludeResponse"
  using decode_tlv_whole [of "0x8C" "[]" p]
  by (simp add: conclude_response_def decode_pdu_def decode_pdu_body_def pdu_tags)

lemma read_response_back:
  assumes "list_all ok_access rs" "read_response_content rs spec = Inr c"
  shows "read_response c = Inr rs"
proof -
  obtain a rb b where a: "cat (optional (encode_tlv 0xA0) spec) = Inr a" and rb: "encode_access_results rs = Inr rb"
    and b: "encode_tlv 0xA1 rb = Inr b" and c: "c = a @ b"
    using assms(2) by (cases spec) (auto simp: read_response_content_def bindE_Inr_iff optional_def)
  have "\<exists>u. first_tlv 0xA1 c = Inr (Some u) \<and> tlv_value u = rb"
  proof (cases spec)
    case None
    have it: "items [(0xA1, rb)] c" using a None b by (simp add: optional_def c)
    show ?thesis using items_iter [OF it] by (auto simp: first_tlv_def pair_of_eq)
  next
    case (Some s)
    have it: "items [(0xA0, s), (0xA1, rb)] c" using a Some b by (auto simp: optional_def c)
    show ?thesis using items_two [OF it] by (auto simp: first_tlv_def pair_of_eq)
  qed
  then show ?thesis using decode_encode_access_results [OF assms(1) rb] by (auto simp: read_response_def)
qed

text \<open>Lists of values written one TLV each, and read back one by one.\<close>

lemma collect_back:
  assumes "\<And>x b. x \<in> set xs \<Longrightarrow> f x = Inr b \<Longrightarrow> \<exists>tag c. wf_tag tag \<and> encode_tlv tag c = Inr b
      \<and> (\<forall>t. tlv_tag t = tag \<longrightarrow> tlv_value t = c \<longrightarrow> g t = Inr x)"
    and "cat (map f xs) = Inr bs"
  shows "\<exists>ps. items ps bs \<and> list_all2 (\<lambda>p x. \<forall>t. tlv_tag t = fst p \<longrightarrow> tlv_value t = snd p \<longrightarrow> g t = Inr x) ps xs"
  using assms
proof (induction xs arbitrary: bs)
  case (Cons x xs)
  obtain b r where b: "f x = Inr b" and r: "cat (map f xs) = Inr r" and bs: "bs = b @ r"
    using Cons.prems(2) by (auto simp: bindE_Inr_iff)
  obtain tag c where tc: "wf_tag tag" "encode_tlv tag c = Inr b"
    "\<forall>t. tlv_tag t = tag \<longrightarrow> tlv_value t = c \<longrightarrow> g t = Inr x"
    using Cons.prems(1) [OF _ b] by auto
  obtain ps where ps: "items ps r"
    "list_all2 (\<lambda>p x. \<forall>t. tlv_tag t = fst p \<longrightarrow> tlv_value t = snd p \<longrightarrow> g t = Inr x) ps xs"
    using Cons.IH [OF _ r] Cons.prems(1) by auto
  have "items ((tag, c) # ps) bs" unfolding bs by (intro items_Cons tc ps)
  then show ?case using tc(3) ps(2) by (intro exI [of _ "(tag, c) # ps"]) simp
qed simp

lemma collect_items:
  assumes "items ps bs" "\<And>t u. tlv_tag t = tlv_tag u \<Longrightarrow> tlv_value t = tlv_value u \<Longrightarrow> g t = g u"
    and "list_all2 (\<lambda>p x. \<forall>t. tlv_tag t = fst p \<longrightarrow> tlv_value t = snd p \<longrightarrow> g t = Inr x) ps xs"
  shows "for_tlvs (\<lambda>t acc. bindE (g t) (\<lambda>x. Inr (acc @ [x]))) bs [] = Inr xs"
proof -
  let ?h = "\<lambda>p. g \<lparr>tlv_tag = fst p, tlv_value = snd p, tlv_end = 0\<rparr>"
  have "for_tlvs (\<lambda>t acc. bindE (g t) (\<lambda>x. Inr (acc @ [x]))) bs [] = traverse ?h ps"
    by (rule items_collect [OF assms(1)]) (rule assms(2), simp_all)
  also have "\<dots> = Inr xs" using assms(3) by (auto simp: traverse_Inr_list_all2 list_all2_conv_all_nth)
  finally show ?thesis .
qed

lemma write_response_back:
  assumes "write_response_content es = Inr c"
  shows "write_response c = Inr es"
proof -
  have "\<exists>tag x. wf_tag tag \<and> encode_tlv tag x = Inr b \<and> (\<forall>t. tlv_tag t = tag \<longrightarrow> tlv_value t = x \<longrightarrow> write_result t = Inr e)"
    if hyp: "(case e of None \<Rightarrow> encode_tlv 0x81 [] | Some c \<Rightarrow> int_tlv 0x80 c) = Inr b" for e b
  proof (cases e)
    case None
    then show ?thesis using hyp by (intro exI [of _ "0x81"] exI [of _ "[]"]) (simp add: write_result_def)
  next
    case (Some k)
    then obtain x where "encode_integer k = Inr x" "encode_tlv 0x80 x = Inr b"
      using hyp by (auto simp: int_tlv_def)
    then show ?thesis using Some integer_read_back [of k x]
      by (intro exI [of _ "0x80"] exI [of _ x]) (simp add: write_result_def)
  qed
  from collect_back [of es _ write_result, OF this assms [unfolded write_response_content_def]]
  obtain ps where "items ps c"
    "list_all2 (\<lambda>p x. \<forall>t. tlv_tag t = fst p \<longrightarrow> tlv_value t = snd p \<longrightarrow> write_result t = Inr x) ps es" by blast
  then show ?thesis unfolding write_response_def by (intro collect_items) (auto simp: write_result_def)
qed

lemma get_name_list_response_back:
  assumes "get_name_list_response_content names follows = Inr c"
  shows "get_name_list_response c = Inr (names, follows)"
proof -
  obtain l a b where l: "cat (map (\<lambda>n. bindE (encode_ascii n) (encode_tlv 0x1A)) names) = Inr l"
    and a: "encode_tlv 0xA0 l = Inr a" and b: "encode_tlv 0x81 (encode_boolean follows) = Inr b" and c: "c = a @ b"
    using assms by (auto simp: get_name_list_response_content_def bindE_Inr_iff)
  let ?g = "\<lambda>t :: tlv. Inr (decode_ascii_replace (tlv_value t)) :: ustr result"
  have "\<exists>tag x. wf_tag tag \<and> encode_tlv tag x = Inr y \<and> (\<forall>t. tlv_tag t = tag \<longrightarrow> tlv_value t = x \<longrightarrow> ?g t = Inr n)"
    if hyp: "bindE (encode_ascii n) (encode_tlv 0x1A) = Inr y" for n y
  proof -
    obtain x where "encode_ascii n = Inr x" "encode_tlv 0x1A x = Inr y" using hyp by auto
    then show ?thesis by (intro exI [of _ "0x1A"] exI [of _ x]) (simp add: decode_encode_ascii)
  qed
  from collect_back [of names _ ?g, OF this l] obtain ps where ps: "items ps l"
    "list_all2 (\<lambda>p x. \<forall>t. tlv_tag t = fst p \<longrightarrow> tlv_value t = snd p \<longrightarrow> ?g t = Inr x) ps names" by blast
  obtain ts where ts: "all_tlvs l = Inr ts" "map pair_of ts = ps" using items_list [OF ps(1)] by blast
  have "list_all2 (\<lambda>t n. decode_ascii_replace (tlv_value t) = n) ts names"
    using ps(2) unfolding ts(2) [symmetric] list_all2_map1 pair_of_simps 
    by (rule list_all2_mono) (drule spec, drule mp [OF _ refl], drule mp [OF _ refl], simp)
  then have names: "map (\<lambda>n. decode_ascii_replace (tlv_value n)) ts = names"
    by (simp add: list_all2_conv_all_nth list_eq_iff_nth_eq)
  have it: "items [(0xA0, l), (0x81, encode_boolean follows)] c" unfolding c by (intro items_Cons items_single a b) simp_all
  obtain t u where "iter_tlvs c = ([t, u], None)" "tlv_tag t = 0xA0" "tlv_value t = l"
    "tlv_tag u = 0x81" "tlv_value u = encode_boolean follows"
    using items_two [OF it] by (auto simp: pair_of_eq)
  then show ?thesis using ts(1) names boolean_codec.dec_enc [of follows "encode_boolean follows"]
    by (simp add: get_name_list_response_def for_tlvs_def)
qed

lemma get_named_variable_list_back:
  assumes "get_named_variable_list_attributes_response_content ms = Inr c"
  shows "get_named_variable_list_attributes_response c = Inr ms"
proof -
  obtain l a b where l: "variable_items ms = Inr l" and a: "encode_tlv 0x80 (encode_boolean False) = Inr a"
    and b: "encode_tlv 0xA1 l = Inr b" and c: "c = a @ b"
    using assms by (auto simp: get_named_variable_list_attributes_response_content_def bindE_Inr_iff)
  have it: "items [(0x80, encode_boolean False), (0xA1, l)] c" unfolding c by (intro items_Cons items_single a b) simp_all
  show ?thesis using items_two [OF it] decode_variable_items [OF l]
    by (auto simp: get_named_variable_list_attributes_response_def first_tlv_def pair_of_eq)
qed

lemma get_variable_access_attributes_back:
  assumes "ok_type ty" "get_variable_access_attributes_response_content ty = Inr c"
  shows "get_variable_access_attributes_response c = Inr ty"
proof -
  obtain l a b where l: "encode_type_description ty = Inr l" and a: "encode_tlv 0x80 (encode_boolean False) = Inr a"
    and b: "encode_tlv 0xA2 l = Inr b" and c: "c = a @ b"
    using assms(2) by (auto simp: get_variable_access_attributes_response_content_def bindE_Inr_iff)
  have it: "items [(0x80, encode_boolean False), (0xA2, l)] c" unfolding c by (intro items_Cons items_single a b) simp_all
  obtain s where "decode_tlv l 0 = Inr s" "decode_type_description s = Inr ty"
    using described_description [OF encode_described [OF assms(1) l]] by blast
  then show ?thesis using items_two [OF it]
    by (auto simp: get_variable_access_attributes_response_def first_tlv_def pair_of_eq)
qed

text \<open>Reports: access results given as values, and others already encoded after them.\<close>

lemma information_report_read:
  assumes "information_report rs list_name vars encoded = Inr p"
    and read: "\<And>rb. encode_access_results rs = Inr rb \<Longrightarrow> decode_access_results (rb @ encoded) = Inr out"
  shows "decode_pdu p = Inr (case list_name of
      Some n \<Rightarrow> InformationReport (Some \<lparr>on_item = n, on_domain = None\<rparr>) [] out
    | None \<Rightarrow> InformationReport None vars out)"
proof -
  obtain spec rb r rep l where spec: "(case list_name of
              Some n \<Rightarrow> bindE (bindE (encode_ascii n) (encode_tlv 0x80)) (encode_tlv 0xA1)
            | None \<Rightarrow> bindE (variable_items vars) (encode_tlv 0xA0)) = Inr spec"
    and rb: "encode_access_results rs = Inr rb" and r: "encode_tlv 0xA0 (rb @ encoded) = Inr r"
    and l: "encode_tlv 0xA0 (spec @ r) = Inr l" and p: "encode_tlv 0xA3 l = Inr p"
    using assms(1) by (auto simp: information_report_def bindE_Inr_iff pdu_tags)
  note res = read [OF rb]
  have "decode_information_report l = Inr (case list_name of
      Some n \<Rightarrow> InformationReport (Some \<lparr>on_item = n, on_domain = None\<rparr>) [] out
    | None \<Rightarrow> InformationReport None vars out)"
  proof (cases list_name)
    case None
    then obtain v where v: "variable_items vars = Inr v" "encode_tlv 0xA0 v = Inr spec" using spec by auto
    have it: "items [(0xA0, v), (0xA0, rb @ encoded)] (spec @ r)" by (intro items_Cons items_single v r) simp_all
    show ?thesis using first_two_items [OF it] decode_tlv_whole [OF _ l] res decode_variable_items [OF v(1)] None
      by (auto simp: decode_information_report_def pair_of_eq)
  next
    case (Some n)
    then obtain x y where x: "encode_ascii n = Inr x" "encode_tlv 0x80 x = Inr y" "encode_tlv 0xA1 y = Inr spec"
      using spec by (auto simp: bindE_Inr_iff)
    have it: "items [(0xA1, y), (0xA0, rb @ encoded)] (spec @ r)" by (intro items_Cons items_single x r) simp_all
    show ?thesis using first_two_items [OF it] decode_tlv_whole [OF _ l] decode_tlv_whole [OF _ x(2)] res
        decode_encode_ascii [OF x(1)] Some
      by (auto simp: decode_information_report_def pair_of_eq decode_object_name_def)
  qed
  then show ?thesis using decode_tlv_whole [OF _ p]
    by (simp add: decode_pdu_def decode_pdu_body_def pdu_tags)
qed

lemma information_report_back:
  assumes "information_report rs list_name vars encoded = Inr p" "list_all ok_access rs" "list_all ok_access qs"
    and "encode_access_results qs = Inr encoded"
  shows "decode_pdu p = Inr (case list_name of
      Some n \<Rightarrow> InformationReport (Some \<lparr>on_item = n, on_domain = None\<rparr>) [] (rs @ qs)
    | None \<Rightarrow> InformationReport None vars (rs @ qs))"
  by (rule information_report_read [OF assms(1) decode_access_append [OF assms(2) _ assms(3,4)]])

section \<open>The COTP handshake\<close>

lemma cr_parameters_other:
  assumes "offset + 2 + n \<le> length cr" "unat (cr ! Suc offset) = n" "cr ! offset = code" "code \<noteq> 0xC0 \<or> n \<noteq> 1"
  shows "cr_parameters cr m offset sc ts = cr_parameters cr m (offset + 2 + n) sc
    (if code = 0xC1 \<or> code = 0xC2 then ts @ [code, of_nat n] @ slice cr (offset + 2) (offset + 2 + n) else ts)"
  using assms by (subst cr_parameters.simps) (auto simp: Let_def)

lemma cr_parameters_size:
  assumes "offset + 3 \<le> length cr" "cr ! Suc offset = 1" "cr ! offset = 0xC0"
  shows "cr_parameters cr m offset sc ts = cr_parameters cr m (offset + 3) (min (unat (cr ! (offset + 2))) m) ts"
proof -
  have "slice cr (offset + 2) (offset + 2 + 1) = [cr ! (offset + 2)]"
    using assms(1) slice_Cons [of "offset + 2" "offset + 3" cr] by (simp add: numeral_eq_Suc)
  then show ?thesis using assms
    by (subst cr_parameters.simps) (simp add: Let_def numeral_eq_Suc)
qed

lemma cr_parameters_end: "length cr < offset + 2 \<Longrightarrow> cr_parameters cr m offset sc ts = Inr (sc, ts)"
  by (subst cr_parameters.simps) simp

text \<open>The size code a server confirms is never above its own limit, whatever the client asks.\<close>

lemma cr_parameters_bound: "cr_parameters cr m offset sc ts = Inr (sc', ts') \<Longrightarrow> sc' \<le> max sc m"
proof (induction cr m offset sc ts rule: cr_parameters.induct)
  case (1 cr m offset sc ts)
  show ?case
    using 1(3) cr_parameters.simps [of cr m offset sc ts] 1(1) [OF _ refl refl refl _] 1(2) [OF _ refl refl refl]
    by (fastforce simp: Let_def split: if_splits list.splits)
qed

lemma accept_cotp_size:
  assumes "accept_cotp peer m = (Inr (), c)"
  shows "iso_tpdu_size c \<le> 2 ^ max DEFAULT_TPDU_SIZE_CODE m"
  using assms
  by (auto simp: accept_cotp_def Let_def power_increasing dest!: cr_parameters_bound split: sum.splits option.splits prod.splits if_splits)

text \<open>Server side: what \<^verbatim>\<open>accept_cotp\<close> reads in the client's CR.\<close>

definition tsap_parameters :: "bytes \<Rightarrow> bytes \<Rightarrow> bytes" where
  "tsap_parameters called calling =
     [0xC2, of_nat (length called)] @ called @ [0xC1, of_nat (length calling)] @ calling"

lemma cr_parameters_tsaps:
  assumes "length pre = offset" "length called < 256" "length calling < 256"
  shows "cr_parameters (pre @ tsap_parameters called calling) m offset sc ts
    = Inr (sc, ts @ tsap_parameters called calling)"
proof -
  let ?cr = "pre @ tsap_parameters called calling"
  let ?mid = "offset + 2 + length called"
  have u: "unat (of_nat (length called) :: byte) = length called" "unat (of_nat (length calling) :: byte) = length calling"
    using assms by (simp_all add: unat_of_nat_small)
  have called: "slice ?cr (offset + 2) ?mid = called"
    using slice_append_mid [of "pre @ [0xC2, of_nat (length called)]" called] assms(1)
    by (simp add: tsap_parameters_def)
  have calling: "slice ?cr (?mid + 2) (?mid + 2 + length calling) = calling"
    using slice_append_mid [of "pre @ [0xC2, of_nat (length called)] @ called @ [0xC1, of_nat (length calling)]" calling "[]"] assms(1)
    by (simp add: tsap_parameters_def add.commute add.left_commute)
  have n1: "?cr ! offset = 0xC2" "?cr ! Suc offset = of_nat (length called)"
    using assms(1) by (simp_all add: tsap_parameters_def nth_append)
  have "?cr = (pre @ [0xC2, of_nat (length called)] @ called) @ [0xC1, of_nat (length calling)] @ calling"
    by (simp add: tsap_parameters_def)
  then have n2: "?cr ! ?mid = 0xC1" "?cr ! Suc ?mid = of_nat (length calling)"
    using assms(1) by (simp_all add: nth_append)
  have len: "length ?cr = ?mid + 2 + length calling" using assms(1) by (simp add: tsap_parameters_def)
  have s1: "cr_parameters ?cr m offset sc ts =
      cr_parameters ?cr m ?mid sc (ts @ [0xC2, of_nat (length called)] @ called)"
    using cr_parameters_other [of offset "length called" ?cr "0xC2" m sc ts] n1 u len called by simp
  have s2: "cr_parameters ?cr m ?mid sc ts' =
      cr_parameters ?cr m (?mid + 2 + length calling) sc (ts' @ [0xC1, of_nat (length calling)] @ calling)" for ts'
    using cr_parameters_other [of ?mid "length calling" ?cr "0xC1" m sc ts'] n2 u len calling by simp
  show ?thesis unfolding s1 s2 using len by (subst cr_parameters_end) (simp_all add: tsap_parameters_def)
qed

lemma connection_request_octets:
  assumes "connection_request 1 DEFAULT_TPDU_SIZE_CODE calling called = Inr cr"
  shows "cr = [of_nat (13 + length called + length calling), CR, 0, 0, 0, 1, 0, 0xC0, 1, 10] @ tsap_parameters called calling"
    "13 + length called + length calling < 256"
  using assms
  by (auto simp: connection_request_def Let_def octet_def bindE_Inr_iff to_bytes_def numeral_2_eq_2
      DEFAULT_TPDU_SIZE_CODE_def tsap_parameters_def split: if_splits)

lemma cr_parameters_request:
  assumes "connection_request 1 DEFAULT_TPDU_SIZE_CODE calling called = Inr cr"
  shows "cr_parameters cr m 7 sc [] = Inr (min 10 m, tsap_parameters called calling)"
proof -
  let ?h = "[of_nat (13 + length called + length calling), CR, 0, 0, 0, 1, 0, 0xC0, 1, 10] :: bytes"
  note cr = connection_request_octets [OF assms]
  have "cr_parameters cr m 7 sc [] = cr_parameters cr m 10 (min 10 m) []"
    using cr_parameters_size [of 7 cr m sc "[]"] by (simp add: cr(1))
  also have "\<dots> = Inr (min 10 m, tsap_parameters called calling)"
    using cr_parameters_tsaps [of ?h 10 called calling m "min 10 m" "[]"] cr(2) by (simp add: cr(1))
  finally show ?thesis .
qed

text \<open>Client side: the size it takes from the server's CC.\<close>

lemma negotiated_confirm:
  assumes "length called < 256" "length calling < 256" "length h = 7"
  shows "negotiated_tpdu_size (h @ [0xC0, 1, c] @ tsap_parameters called calling) = 2 ^ unat c"
  using negotiated_from_parameters [of "[(0xC0, [c]), (0xC2, called), (0xC1, calling)]" h "2 ^ DEFAULT_TPDU_SIZE_CODE"] assms
  by (simp add: negotiated_tpdu_size_def cc_parameter_def tsap_parameters_def size_parameters_def)

lemma cotp_agrees:
  assumes cr: "connection_request 1 DEFAULT_TPDU_SIZE_CODE calling called = Inr cr" and m: "m < 256"
    and peer: "concat peer = tpkt cr @ rest"
  shows "\<exists>s. accept_cotp peer m = (Inr (), s) \<and> iso_tpdu_size s = 2 ^ min 10 m \<and> concat (iso_in s) = rest
    \<and> (\<forall>reply rest'. concat reply = iso_out s @ rest' \<longrightarrow>
        (\<exists>k. iso_connect calling called reply = (Inr (), k) \<and> iso_tpdu_size k = iso_tpdu_size s
           \<and> iso_out k = tpkt cr \<and> concat (iso_in k) = rest'))"
proof -
  note o = connection_request_octets [OF cr]
  have lc: "length called < 256" "length calling < 256" using o(2) by simp_all
  have lcr: "length cr = 14 + length called + length calling" by (simp add: o(1) tsap_parameters_def)
  have small: "4 + length cr \<le> 0xFFFF" using lcr o(2) by simp
  obtain s1 where s1: "recv_tpkt peer = (Inr (Some cr), s1)" "concat s1 = rest"
    using recv_tpkt_packet [OF small peer] by blast
  let ?li = "of_nat (13 + length called + length calling) :: byte"
  let ?cc = "[?li, CC, 0, 1, 0, 1, 0] @ [0xC0, 1, of_nat (min 10 m)] @ tsap_parameters called calling"
  have mask: "CR AND 0xF0 = CR" "CC AND 0xF0 = CC" by (simp_all add: CR_def CC_def)
  have "slice cr 4 6 = [0, 1]" "cr ! 1 = CR" "7 \<le> length cr" by (simp_all add: o(1) slice_def lcr)
  then have acc: "accept_cotp peer m = (Inr (),
      \<lparr>iso_in = s1, iso_out = tpkt ?cc, iso_tpdu_size = 2 ^ min 10 m, iso_closed = False\<rparr>)"
    using s1(1) cr_parameters_request [OF cr, of m DEFAULT_TPDU_SIZE_CODE] o(2) mask
    by (simp add: accept_cotp_def Let_def octet_def send_tpkt_def tsap_parameters_def add.assoc)
  have size: "negotiated_tpdu_size ?cc = 2 ^ min 10 m"
    using negotiated_confirm [OF lc, of "[?li, CC, 0, 1, 0, 1, 0]" "of_nat (min 10 m)"]
    by (simp add: unat_of_nat_small min_def)
  have conn: "\<exists>k. iso_connect calling called reply = (Inr (), k) \<and> iso_tpdu_size k = 2 ^ min 10 m
      \<and> iso_out k = tpkt cr \<and> concat (iso_in k) = rest'" if reply: "concat reply = tpkt ?cc @ rest'" for reply rest'
  proof -
    have "4 + length ?cc \<le> 0xFFFF" using o(2) by (simp add: tsap_parameters_def)
    then obtain s2 where s2: "recv_tpkt reply = (Inr (Some ?cc), s2)" "concat s2 = rest'"
      using recv_tpkt_packet [of ?cc reply rest'] reply by blast
    have "send_tpkt cr [] = (Inr (), tpkt cr)" using small by (simp add: send_tpkt_def)
    moreover have "2 \<le> length ?cc" "?cc ! 1 = CC" by simp_all
    ultimately show ?thesis
      using s2 cr size mask by (auto simp only: iso_connect_def Let_def sum.case prod.case option.case) simp
  qed
  show ?thesis using acc s1(2) conn by auto
qed

section \<open>The association handshake\<close>

lemma cat_append_iff: "cat (xs @ ys) = Inr bs \<longleftrightarrow> (\<exists>a r. cat xs = Inr a \<and> cat ys = Inr r \<and> bs = a @ r)"
proof (induction xs arbitrary: bs)
  case (Cons x xs)
  show ?case unfolding append_Cons cat_Cons_iff Cons by (metis append_assoc)
qed simp

text \<open>An optional field: nothing, or one TLV with the content the encoder \<open>g\<close> gives.\<close>

definition opt_content :: "('a \<Rightarrow> bytes result) \<Rightarrow> 'a option \<Rightarrow> bytes option \<Rightarrow> bool" where
  "opt_content g x y \<longleftrightarrow> rel_option (\<lambda>v c. g v = Inr c) x y"

definition opt_pair :: "int \<Rightarrow> bytes option \<Rightarrow> (int \<times> bytes) list" where
  "opt_pair tag y = (case y of None \<Rightarrow> [] | Some c \<Rightarrow> [(tag, c)])"

lemma opt_pair_simps [simp]: "opt_pair tag None = []" "opt_pair tag (Some c) = [(tag, c)]"
  by (simp_all add: opt_pair_def)

lemma cat_optional:
  assumes "wf_tag tag" "cat (optional (\<lambda>v. bindE (g v) (encode_tlv tag)) x) = Inr a"
  shows "\<exists>y. opt_content g x y \<and> items (opt_pair tag y) a"
proof (cases x)
  case None
  then show ?thesis using assms(2) by (intro exI [of _ None]) (simp add: optional_def opt_content_def)
next
  case (Some v)
  then obtain c where "g v = Inr c" "encode_tlv tag c = Inr a" using assms(2) by (auto simp: optional_def bindE_Inr_iff)
  then show ?thesis using Some assms(1) by (intro exI [of _ "Some c"]) (simp add: opt_content_def)
qed

lemma opt_integer:
  assumes "opt_content encode_integer x y" "f k = y"
  shows "optional_integer f k = Inr x"
  using assms integer_read_back by (cases x; cases y) (auto simp: opt_content_def optional_integer_def)

lemma int_tlv_content: "int_tlv tag v = Inr b \<Longrightarrow> \<exists>c. encode_tlv tag c = Inr b \<and> decode_integer c = Inr v"
  by (auto simp: int_tlv_def dest: integer_read_back)

lemma initiate_request_back:
  assumes "initiate_request p = Inr bs"
  shows "\<exists>v f. expect_tlv bs 0 0xA8 = Inr v \<and> tlv_fields (tlv_value v) = Inr f
    \<and> optional_integer f 0x80 = Inr (ap_max_pdu_size p) \<and> integer_field f 0x81 = Inr (ap_max_outstanding p)
    \<and> integer_field f 0x82 = Inr (ap_max_outstanding p) \<and> optional_integer f 0x83 = Inr (ap_nesting_level p)"
proof -
  obtain a b c d detail da where a: "cat (optional (int_tlv 0x80) (ap_max_pdu_size p)) = Inr a"
    and b: "int_tlv 0x81 (ap_max_outstanding p) = Inr b" and c: "int_tlv 0x82 (ap_max_outstanding p) = Inr c"
    and d: "cat (optional (int_tlv 0x83) (ap_nesting_level p)) = Inr d"
    and da: "encode_tlv 0xA4 detail = Inr da" and bs: "encode_tlv 0xA8 ((a @ b @ c @ d) @ da) = Inr bs"
    using assms by (auto simp: initiate_request_def bindE_Inr_iff cat_append_iff)
  obtain x where x: "opt_content encode_integer (ap_max_pdu_size p) x" "items (opt_pair 0x80 x) a"
    using cat_optional [OF _ a [unfolded int_tlv_def [abs_def]]] by auto
  obtain y where y: "opt_content encode_integer (ap_nesting_level p) y" "items (opt_pair 0x83 y) d"
    using cat_optional [OF _ d [unfolded int_tlv_def [abs_def]]] by auto
  obtain bc cc where bc: "encode_tlv 0x81 bc = Inr b" "decode_integer bc = Inr (ap_max_outstanding p)"
    and cc: "encode_tlv 0x82 cc = Inr c" "decode_integer cc = Inr (ap_max_outstanding p)"
    using int_tlv_content [OF b] int_tlv_content [OF c] by blast
  have it: "items (opt_pair 0x80 x @ [(0x81, bc), (0x82, cc)] @ opt_pair 0x83 y @ [(0xA4, detail)]) (a @ (b @ c) @ d @ da)"
    by (intro items_append x(2) y(2) items_Cons items_single bc(1) cc(1) da) simp_all
  let ?f = "map_of (rev (opt_pair 0x80 x @ [(0x81, bc), (0x82, cc)] @ opt_pair 0x83 y @ [(0xA4, detail)]))"
  have "?f 0x80 = x" "?f 0x81 = Some bc" "?f 0x82 = Some cc" "?f 0x83 = y"
    by (cases x; cases y; simp)+
  then have "optional_integer ?f 0x80 = Inr (ap_max_pdu_size p)" "integer_field ?f 0x81 = Inr (ap_max_outstanding p)"
    "integer_field ?f 0x82 = Inr (ap_max_outstanding p)" "optional_integer ?f 0x83 = Inr (ap_nesting_level p)"
    using opt_integer x(1) y(1) bc(2) cc(2) by (simp_all only: integer_field_def field_def option.case bindE.simps)
  moreover have "expect_tlv bs 0 0xA8 = Inr \<lparr>tlv_tag = 0xA8, tlv_value = a @ b @ c @ d @ da, tlv_end = length bs\<rparr>"
    using expect_tlv_at [of "0xA8" "a @ b @ c @ d @ da" bs "[]" "[]"] bs by simp
  ultimately show ?thesis using items_fields [OF it]
    by (intro exI [of _ "\<lparr>tlv_tag = 0xA8, tlv_value = a @ b @ c @ d @ da, tlv_end = length bs\<rparr>"] exI [of _ ?f] conjI)
       simp_all
qed

lemma external_asn1:
  assumes "wf_tag t" "cat [int_tlv 0x02 ctx, encode_tlv 0xA0 apdu] = Inr x" "encode_tlv t x = Inr ext"
  shows "\<exists>v. expect_tlv ext 0 t = Inr v \<and> next_asn1 (tlv_value v) = Inr apdu \<and> single_asn1 (tlv_value v) = Inr apdu"
proof -
  obtain c a b where c: "encode_tlv 0x02 c = Inr a" and b: "encode_tlv 0xA0 apdu = Inr b" and x: "x = a @ b"
    using assms(2) by (auto simp: bindE_Inr_iff dest!: int_tlv_content)
  have it: "items [(0x02, c), (0xA0, apdu)] x" unfolding x by (intro items_Cons items_single c b) simp_all
  have "expect_tlv ext 0 t = Inr \<lparr>tlv_tag = t, tlv_value = x, tlv_end = length ext\<rparr>"
    using expect_tlv_at [OF assms(1,3), of "[]" "[]"] by simp
  moreover have "next_asn1 x = Inr apdu \<and> single_asn1 x = Inr apdu"
    using items_two [OF it] by (auto simp: next_asn1_def single_asn1_def first_tlv_def all_tlvs_def gen_list_def pair_of_eq)
  ultimately show ?thesis by simp
qed

lemma aarq_back:
  assumes "aarq p = Inr bs"
  shows "\<exists>v f ui ext init. expect_tlv bs 0 0x60 = Inr v \<and> tlv_fields (tlv_value v) = Inr f \<and> f 0xBE = Some ui
    \<and> expect_tlv ui 0 0x28 = Inr ext \<and> next_asn1 (tlv_value ext) = Inr init \<and> initiate_request p = Inr init
    \<and> opt_content oid_tlv (ap_called_ap_title p) (f 0xA2) \<and> opt_content (int_tlv 0x02) (ap_called_ae_qualifier p) (f 0xA3)"
proof -
  obtain oc a b c d e x ext be init where oc: "encode_tlv 0xA1 oc = Inr a"
    and b: "cat (optional (\<lambda>oid. bindE (oid_tlv oid) (encode_tlv 0xA2)) (ap_called_ap_title p)) = Inr b"
    and c: "cat (optional (\<lambda>q. bindE (int_tlv 0x02 q) (encode_tlv 0xA3)) (ap_called_ae_qualifier p)) = Inr c"
    and d: "cat (optional (\<lambda>oid. bindE (oid_tlv oid) (encode_tlv 0xA6)) (ap_calling_ap_title p)) = Inr d"
    and e: "cat (optional (\<lambda>q. bindE (int_tlv 0x02 q) (encode_tlv 0xA7)) (ap_calling_ae_qualifier p)) = Inr e"
    and init: "initiate_request p = Inr init" and x: "cat [int_tlv 0x02 MMS_CONTEXT, encode_tlv 0xA0 init] = Inr x"
    and ext: "encode_tlv 0x28 x = Inr ext" and be: "encode_tlv 0xBE ext = Inr be"
    and bs: "encode_tlv 0x60 ((a @ b @ c @ d @ e) @ be) = Inr bs"
    using assms by (auto simp: aarq_def bindE_Inr_iff cat_append_iff)
  obtain v where v: "expect_tlv ext 0 0x28 = Inr v" "next_asn1 (tlv_value v) = Inr init"
    using external_asn1 [OF _ x ext] by auto
  obtain bo where bo: "opt_content oid_tlv (ap_called_ap_title p) bo" "items (opt_pair 0xA2 bo) b" using cat_optional [OF _ b] by auto
  obtain co where co: "opt_content (int_tlv 0x02) (ap_called_ae_qualifier p) co" "items (opt_pair 0xA3 co) c" using cat_optional [OF _ c] by auto
  obtain d0 where d0: "items (opt_pair 0xA6 d0) d" using cat_optional [OF _ d] by auto
  obtain eo where eo: "items (opt_pair 0xA7 eo) e" using cat_optional [OF _ e] by auto
  let ?ps = "[(0xA1, oc)] @ opt_pair 0xA2 bo @ opt_pair 0xA3 co @ opt_pair 0xA6 d0 @ opt_pair 0xA7 eo @ [(0xBE, ext)]"
  have it: "items ?ps (a @ b @ c @ d @ e @ be)"
    by (intro items_append bo(2) co(2) d0 eo items_single oc be) simp_all
  let ?f = "map_of (rev ?ps)"
  have "?f 0xA2 = bo" "?f 0xA3 = co" "?f 0xBE = Some ext"
    by (cases bo; cases co; cases d0; cases eo; simp)+
  moreover have "expect_tlv bs 0 0x60 = Inr \<lparr>tlv_tag = 0x60, tlv_value = a @ b @ c @ d @ e @ be, tlv_end = length bs\<rparr>"
    using expect_tlv_at [of "0x60" "a @ b @ c @ d @ e @ be" bs "[]" "[]"] bs by simp
  ultimately show ?thesis using items_fields [OF it] v init bo(1) co(1)
    by (intro exI [of _ "\<lparr>tlv_tag = 0x60, tlv_value = a @ b @ c @ d @ e @ be, tlv_end = length bs\<rparr>"]
        exI [of _ ?f] exI [of _ ext] exI [of _ v] exI [of _ init] conjI) (simp_all del: rev.simps rev_append)
qed

text \<open>The presentation contexts a client proposes, as the server reads them.\<close>

lemma oid_tlv_content: "oid_tlv oid = Inr b \<Longrightarrow> ok_oid oid \<Longrightarrow> \<exists>c. encode_tlv 0x06 c = Inr b \<and> decode_oid c = Inr oid"
  by (auto simp: oid_tlv_def dest: oid_codec.dec_enc)

lemma ok_oids: "ok_oid OID_ACSE" "ok_oid OID_MMS_ABSTRACT_SYNTAX" "ok_oid OID_BER"
  by (simp_all add: ok_oid_def OID_ACSE_def OID_MMS_ABSTRACT_SYNTAX_def OID_BER_def)

lemma presentation_context_back:
  assumes "presentation_context identifier oid = Inr bs" "ok_oid oid"
  shows "\<exists>c. encode_tlv 0x30 c = Inr bs \<and> (\<forall>t st. tlv_value t = c \<longrightarrow> context_definition t st =
    (case st of (contexts, acse, mms) \<Rightarrow>
       if oid = OID_ACSE then Inr (contexts @ [identifier], identifier, mms)
       else if oid = OID_MMS_ABSTRACT_SYNTAX then Inr (contexts @ [identifier], acse, identifier)
       else Inr (contexts @ [identifier], acse, mms)))"
proof -
  obtain ob tr i o' where tr: "encode_tlv 0x30 ob = Inr tr" and i: "int_tlv 0x02 identifier = Inr i" and o': "oid_tlv oid = Inr o'"
    and bs: "encode_tlv 0x30 (i @ o' @ tr) = Inr bs"
    using assms(1) by (auto simp: presentation_context_def bindE_Inr_iff)
  obtain ic oc where ic: "encode_tlv 0x02 ic = Inr i" "decode_integer ic = Inr identifier"
    and oc: "encode_tlv 0x06 oc = Inr o'" "decode_oid oc = Inr oid"
    using int_tlv_content [OF i] oid_tlv_content [OF o' assms(2)] by blast
  have it: "items [(0x02, ic), (0x06, oc), (0x30, ob)] (i @ o' @ tr)"
    by (intro items_Cons items_single ic oc tr) simp_all
  show ?thesis
    using items_fields [OF it] ic(2) oc(2) bs
    by (intro exI [of _ "i @ o' @ tr"]) (auto simp: context_definition_def integer_field_def split: prod.splits)
qed

lemma contexts_back:
  assumes "cat [presentation_context ACSE_CONTEXT OID_ACSE, presentation_context MMS_CONTEXT OID_MMS_ABSTRACT_SYNTAX] = Inr bs"
  shows "for_tlvs context_definition bs ([], 1, MMS_CONTEXT) = Inr ([1, 3], 1, 3)"
proof -
  obtain a b where a: "presentation_context ACSE_CONTEXT OID_ACSE = Inr a"
    and b: "presentation_context MMS_CONTEXT OID_MMS_ABSTRACT_SYNTAX = Inr b" and bs: "bs = a @ b"
    using assms by (auto simp: bindE_Inr_iff)
  obtain ac bc where ac: "encode_tlv 0x30 ac = Inr a" and bc: "encode_tlv 0x30 bc = Inr b"
    and sa: "\<And>t st. tlv_value t = ac \<Longrightarrow> context_definition t st =
      (case st of (contexts, acse, mms) \<Rightarrow> Inr (contexts @ [ACSE_CONTEXT], ACSE_CONTEXT, mms))"
    and sb: "\<And>t st. tlv_value t = bc \<Longrightarrow> context_definition t st =
      (case st of (contexts, acse, mms) \<Rightarrow> Inr (contexts @ [MMS_CONTEXT], acse, MMS_CONTEXT))"
    using presentation_context_back [OF a ok_oids(1)] presentation_context_back [OF b ok_oids(2)]
    by (auto simp: OID_ACSE_def OID_MMS_ABSTRACT_SYNTAX_def)
  have it: "items [(0x30, ac), (0x30, bc)] bs" unfolding bs by (intro items_Cons items_single ac bc) simp_all
  obtain t u where "iter_tlvs bs = ([t, u], None)" "tlv_value t = ac" "tlv_value u = bc"
    using items_two [OF it] by (auto simp: pair_of_eq)
  then show ?thesis using sa sb by (simp add: for_tlvs_def ACSE_CONTEXT_def MMS_CONTEXT_def)
qed

lemma cp_type_back:
  assumes "cp_type p = Inr bs"
  shows "\<exists>v f pl pv apdu. expect_tlv bs 0 0x31 = Inr v \<and> normal_mode (tlv_value v) = Inr f
    \<and> for_tlvs context_definition (get_or f 0xA4 []) ([], 1, MMS_CONTEXT) = Inr ([1, 3], 1, 3)
    \<and> f 0x82 = Some (ap_called_presentation_selector p) \<and> f 0x61 = Some pl \<and> expect_tlv pl 0 0x30 = Inr pv
    \<and> next_asn1 (tlv_value pv) = Inr apdu \<and> aarq p = Inr apdu"
proof -
  obtain ctx apdu pdv s1 s2 c pl pe m0 m n normal where
    ctx: "cat [presentation_context ACSE_CONTEXT OID_ACSE, presentation_context MMS_CONTEXT OID_MMS_ABSTRACT_SYNTAX] = Inr ctx"
    and apdu: "aarq p = Inr apdu" and pdv: "cat [int_tlv 0x02 ACSE_CONTEXT, encode_tlv 0xA0 apdu] = Inr pdv"
    and s1: "encode_tlv 0x81 (ap_calling_presentation_selector p) = Inr s1"
    and s2: "encode_tlv 0x82 (ap_called_presentation_selector p) = Inr s2"
    and c: "encode_tlv 0xA4 ctx = Inr c" and pl: "encode_tlv 0x30 pdv = Inr pl" and pe: "encode_tlv 0x61 pl = Inr pe"
    and m: "encode_tlv 0xA0 m0 = Inr m" and n: "encode_tlv 0xA2 normal = Inr n"
    and normal: "normal = s1 @ s2 @ c @ pe" and bs: "encode_tlv 0x31 (m @ n) = Inr bs"
    using assms by (auto simp: cp_type_def bindE_Inr_iff)
  have it: "items [(0x81, ap_calling_presentation_selector p), (0x82, ap_called_presentation_selector p), (0xA4, ctx), (0x61, pl)] normal"
    unfolding normal by (intro items_Cons items_single s1 s2 c pe) simp_all
  have it2: "items [(0xA0, m0), (0xA2, normal)] (m @ n)" by (intro items_Cons items_single m n) simp_all
  obtain v where v: "expect_tlv pl 0 0x30 = Inr v" "next_asn1 (tlv_value v) = Inr apdu"
    using external_asn1 [OF _ pdv pl] by auto
  let ?f = "map_of (rev [(0x81, ap_calling_presentation_selector p), (0x82, ap_called_presentation_selector p), (0xA4, ctx), (0x61, pl)])"
  have nm: "normal_mode (m @ n) = Inr ?f" using items_fields [OF it] items_fields [OF it2] by (simp add: normal_mode_def)
  have ex: "expect_tlv bs 0 0x31 = Inr \<lparr>tlv_tag = 0x31, tlv_value = m @ n, tlv_end = length bs\<rparr>"
    using expect_tlv_at [of "0x31" "m @ n" bs "[]" "[]"] bs by simp
  show ?thesis using nm ex contexts_back [OF ctx] v apdu
    by (intro exI [of _ "\<lparr>tlv_tag = 0x31, tlv_value = m @ n, tlv_end = length bs\<rparr>"] exI [of _ ?f] exI [of _ pl]
        exI [of _ v] exI [of _ apdu]) (simp add: get_or_def)
qed

lemma association_request_back:
  assumes "association_request p = Inr data"
  shows "\<exists>title qualifier. decode_association_request data = Inr
    \<lparr>ar_max_pdu_size = ap_max_pdu_size p, ar_max_outstanding_calling = ap_max_outstanding p,
     ar_max_outstanding_called = ap_max_outstanding p, ar_nesting_level = ap_nesting_level p,
     ar_acse_context = 1, ar_mms_context = 3, ar_called_presentation_selector = ap_called_presentation_selector p,
     ar_called_ap_title = title, ar_called_ae_qualifier = qualifier, ar_contexts = [1, 3]\<rparr>
    \<and> opt_content oid_tlv (ap_called_ap_title p) title \<and> opt_content (int_tlv 0x02) (ap_called_ae_qualifier p) qualifier"
proof -
  obtain item a b c d cp e where a: "session_parameter PGI_CONNECT_ACCEPT_ITEM item = Inr a"
    and b: "session_parameter PI_SESSION_REQUIREMENTS [0, 2] = Inr b"
    and c: "session_parameter PI_CALLING_SSEL (ap_calling_session_selector p) = Inr c"
    and d: "session_parameter PI_CALLED_SSEL (ap_called_session_selector p) = Inr d"
    and cp: "cp_type p = Inr cp" and e: "session_parameter PGI_USER_DATA cp = Inr e"
    and data: "spdu SPDU_CONNECT (a @ b @ c @ d @ e) = Inr data"
    using assms by (auto simp: association_request_def bindE_Inr_iff)
  have "session_list [(PGI_CONNECT_ACCEPT_ITEM, item), (PI_SESSION_REQUIREMENTS, [0, 2]),
      (PI_CALLING_SSEL, ap_calling_session_selector p), (PI_CALLED_SSEL, ap_called_session_selector p),
      (PGI_USER_DATA, cp)] (a @ b @ c @ d @ e)"
    using session_list_Cons [OF e, of "[]" "[]"] by (intro session_list_Cons a b c d) simp
  from parse_spdu_list [OF this data] obtain m where m: "parse_spdu data = Inr (SPDU_CONNECT, m)" "m PGI_USER_DATA = Some cp"
    by (auto simp: session_codes)
  obtain v f pl pv apdu where v: "expect_tlv cp 0 0x31 = Inr v" "normal_mode (tlv_value v) = Inr f"
    "for_tlvs context_definition (get_or f 0xA4 []) ([], 1, MMS_CONTEXT) = Inr ([1, 3], 1, 3)"
    "f 0x82 = Some (ap_called_presentation_selector p)" "f 0x61 = Some pl" "expect_tlv pl 0 0x30 = Inr pv"
    "next_asn1 (tlv_value pv) = Inr apdu" "aarq p = Inr apdu" using cp_type_back [OF cp] by metis
  obtain w g ui ext init where w: "expect_tlv apdu 0 0x60 = Inr w" "tlv_fields (tlv_value w) = Inr g" "g 0xBE = Some ui"
    "expect_tlv ui 0 0x28 = Inr ext" "next_asn1 (tlv_value ext) = Inr init" "initiate_request p = Inr init"
    and opt: "opt_content oid_tlv (ap_called_ap_title p) (g 0xA2)" "opt_content (int_tlv 0x02) (ap_called_ae_qualifier p) (g 0xA3)"
    using aarq_back [OF v(8)] by metis
  obtain x h where x: "expect_tlv init 0 0xA8 = Inr x" "tlv_fields (tlv_value x) = Inr h"
    "optional_integer h 0x80 = Inr (ap_max_pdu_size p)" "integer_field h 0x81 = Inr (ap_max_outstanding p)"
    "integer_field h 0x82 = Inr (ap_max_outstanding p)" "optional_integer h 0x83 = Inr (ap_nesting_level p)"
    using initiate_request_back [OF w(6)] by metis
  have sel: "get_or f 0x82 [0, 0, 0, 1] = ap_called_presentation_selector p" by (simp add: get_or_def v(4))
  show ?thesis
    by (rule exI [of _ "g 0xA2"], rule exI [of _ "g 0xA3"])
       (simp add: decode_association_request_def m v w x sel field_def opt)
qed

text \<open>The accept, as the client reads it.\<close>

lemma bit_string_content: "bit_string q = Inr c \<Longrightarrow> drop 1 c = snd q"
  by (auto simp: bit_string_def split: if_splits)

lemma accepted_initiate_back:
  assumes "accepted_initiate r size_agreed max_out nesting = Inr bs"
  shows "decode_initiate_response bs = Inr
    \<lparr>as_max_pdu_size = Some size_agreed, as_max_outstanding_calling = min max_out (ar_max_outstanding_calling r),
     as_max_outstanding_called = min max_out (ar_max_outstanding_called r),
     as_nesting_level = Some (min nesting (or_limit (ar_nesting_level r) nesting)), as_version = 1,
     as_parameter_cbb = snd PARAMETER_CBB, as_services_supported = snd SERVICES_SUPPORTED\<rparr>"
proof -
  let ?nl = "min nesting (or_limit (ar_nesting_level r) nesting)"
  obtain v pc pcb sv svb detail a b c d da where v: "int_tlv 0x80 1 = Inr v"
    and pc: "bit_string PARAMETER_CBB = Inr pc" "encode_tlv 0x81 pc = Inr pcb"
    and sv: "bit_string SERVICES_SUPPORTED = Inr sv" "encode_tlv 0x82 sv = Inr svb" and detail: "detail = v @ pcb @ svb"
    and a: "int_tlv 0x80 size_agreed = Inr a" and b: "int_tlv 0x81 (min max_out (ar_max_outstanding_calling r)) = Inr b"
    and c: "int_tlv 0x82 (min max_out (ar_max_outstanding_called r)) = Inr c" and d: "int_tlv 0x83 ?nl = Inr d"
    and da: "encode_tlv 0xA4 detail = Inr da" and bs: "encode_tlv 0xA9 (a @ b @ c @ d @ da) = Inr bs"
    using assms by (auto simp: accepted_initiate_def bindE_Inr_iff)
  obtain vc ac bc cc dc where vc: "encode_tlv 0x80 vc = Inr v" "decode_integer vc = Inr 1"
    and ac: "encode_tlv 0x80 ac = Inr a" "decode_integer ac = Inr size_agreed"
    and bc: "encode_tlv 0x81 bc = Inr b" "decode_integer bc = Inr (min max_out (ar_max_outstanding_calling r))"
    and cc: "encode_tlv 0x82 cc = Inr c" "decode_integer cc = Inr (min max_out (ar_max_outstanding_called r))"
    and dc: "encode_tlv 0x83 dc = Inr d" "decode_integer dc = Inr ?nl"
    using int_tlv_content [OF v] int_tlv_content [OF a] int_tlv_content [OF b] int_tlv_content [OF c] int_tlv_content [OF d]
    by blast
  have it: "items [(0x80, ac), (0x81, bc), (0x82, cc), (0x83, dc), (0xA4, detail)] (a @ b @ c @ d @ da)"
    by (intro items_Cons items_single ac bc cc dc da) simp_all
  have it2: "items [(0x80, vc), (0x81, pc), (0x82, sv)] detail"
    unfolding detail by (intro items_Cons items_single vc pc sv) simp_all
  show ?thesis
    using items_fields [OF it] items_fields [OF it2] decode_tlv_whole [OF _ bs] ac(2) bc(2) cc(2) dc(2) vc(2)
      bit_string_content [OF pc(1)] bit_string_content [OF sv(1)]
    by (simp add: decode_initiate_response_def get_or_def optional_integer_def integer_field_def)
qed

lemma aare_back:
  assumes "aare r initiate = Inr bs"
  shows "decode_aare bs = Inr initiate"
proof -
  obtain x ext a oc b rb c c' d0 c1 d e f be where x: "cat [int_tlv 0x02 (ar_mms_context r), encode_tlv 0xA0 initiate] = Inr x"
    and ext: "encode_tlv 0x28 x = Inr ext" and a: "encode_tlv 0x80 [0x07, 0x80] = Inr a" and b: "encode_tlv 0xA1 oc = Inr b"
    and rb: "encode_tlv 0x02 [0] = Inr rb" "encode_tlv 0xA2 rb = Inr c" and c1: "encode_tlv 0xA3 c' = Inr d0"
    and e: "cat (optional (\<lambda>v. bindE (Inr v) (encode_tlv 0xA4)) (ar_called_ap_title r)) = Inr e"
    and f: "cat (optional (\<lambda>v. bindE (Inr v) (encode_tlv 0xA5)) (ar_called_ae_qualifier r)) = Inr f"
    and be: "encode_tlv 0xBE ext = Inr be" and bs: "encode_tlv 0x61 ((a @ b @ c @ d0 @ e @ f) @ be) = Inr bs"
    using assms by (auto simp: aare_def bindE_Inr_iff cat_append_iff)
  obtain eo where eo: "items (opt_pair 0xA4 eo) e" using cat_optional [OF _ e] by auto
  obtain fo where fo: "items (opt_pair 0xA5 fo) f" using cat_optional [OF _ f] by auto
  obtain v where v: "expect_tlv ext 0 0x28 = Inr v" "single_asn1 (tlv_value v) = Inr initiate"
    using external_asn1 [OF _ x ext] by auto
  let ?ps = "[(0x80, [0x07, 0x80]), (0xA1, oc), (0xA2, rb), (0xA3, c')] @ opt_pair 0xA4 eo @ opt_pair 0xA5 fo @ [(0xBE, ext)]"
  have it: "items ?ps ((a @ b @ c @ d0) @ e @ f @ be)"
    by (intro items_append items_Cons eo fo items_single a b rb(2) c1 be) simp_all
  let ?f = "map_of (rev ?ps)"
  have f: "?f 0xA2 = Some rb" "?f 0xBE = Some ext" by (cases eo; cases fo; simp)+
  have "decode_integer [0] = Inr 0" by (simp add: decode_integer_def from_bytes_signed_def be_nat_Cons)
  then have "check_aare_result ?f = Inr ()"
    using decode_tlv_whole [OF _ rb(1)] by (simp only: check_aare_result_def f option.case) simp
  moreover have "expect_tlv bs 0 0x61 = Inr \<lparr>tlv_tag = 0x61, tlv_value = (a @ b @ c @ d0) @ e @ f' @ be, tlv_end = length bs\<rparr>"
    if "f' = f" for f' using expect_tlv_at [of "0x61" "(a @ b @ c @ d0) @ e @ f @ be" bs "[]" "[]"] bs that by simp
  ultimately show ?thesis using items_fields [OF it] f(2) v
    by (simp only: decode_aare_def bindE.simps tlv.select_convs option.case refl)
qed

lemma association_accept_back:
  assumes "association_accept r max_pdu max_out nesting = Inr (data, size_agreed)"
  shows "decode_association_response data = Inr
    \<lparr>as_max_pdu_size = Some size_agreed, as_max_outstanding_calling = min max_out (ar_max_outstanding_calling r),
     as_max_outstanding_called = min max_out (ar_max_outstanding_called r),
     as_nesting_level = Some (min nesting (or_limit (ar_nesting_level r) nesting)), as_version = 1,
     as_parameter_cbb = snd PARAMETER_CBB, as_services_supported = snd SERVICES_SUPPORTED\<rparr>
    \<and> size_agreed = min max_pdu (or_limit (ar_max_pdu_size r) max_pdu)"
proof -
  obtain initiate apdu res pdv s5 ra pl pe normal m0 m n cpa item i1 i2 i3 where
    init: "accepted_initiate r size_agreed max_out nesting = Inr initiate"
    and apdu: "aare r initiate = Inr apdu" and pdv: "cat [int_tlv 0x02 (ar_acse_context r), encode_tlv 0xA0 apdu] = Inr pdv"
    and s5: "encode_tlv 0x83 (ar_called_presentation_selector r) = Inr s5" and ra: "encode_tlv 0xA5 res = Inr ra"
    and pl: "encode_tlv 0x30 pdv = Inr pl" and pe: "encode_tlv 0x61 pl = Inr pe" and normal: "normal = s5 @ ra @ pe"
    and m: "encode_tlv 0xA0 m0 = Inr m" and n: "encode_tlv 0xA2 normal = Inr n" and cpa: "encode_tlv 0x31 (m @ n) = Inr cpa"
    and i: "session_parameter PGI_CONNECT_ACCEPT_ITEM item = Inr i1" "session_parameter PI_SESSION_REQUIREMENTS [0, 2] = Inr i2"
      "session_parameter PGI_USER_DATA cpa = Inr i3" and data: "spdu SPDU_ACCEPT (i1 @ i2 @ i3) = Inr data"
    and agreed: "size_agreed = min max_pdu (or_limit (ar_max_pdu_size r) max_pdu)"
    using assms unfolding association_accept_def by (auto simp: bindE_Inr_iff Let_def mapE_Inr_iff simp del: cat.simps(2) simp: cat_Cons_iff)
  have "session_list [(PGI_CONNECT_ACCEPT_ITEM, item), (PI_SESSION_REQUIREMENTS, [0, 2]), (PGI_USER_DATA, cpa)] (i1 @ i2 @ i3)"
    using session_list_Cons [OF i(3), of "[]" "[]"] by (intro session_list_Cons i) simp
  from parse_spdu_list [OF this data] obtain mp where mp: "parse_spdu data = Inr (SPDU_ACCEPT, mp)" "mp PGI_USER_DATA = Some cpa"
    by (auto simp: session_codes)
  have it: "items [(0x83, ar_called_presentation_selector r), (0xA5, res), (0x61, pl)] normal"
    unfolding normal by (intro items_Cons items_single s5 ra pe) simp_all
  have it2: "items [(0xA0, m0), (0xA2, normal)] (m @ n)" by (intro items_Cons items_single m n) simp_all
  obtain v where v: "expect_tlv pl 0 0x30 = Inr v" "single_asn1 (tlv_value v) = Inr apdu"
    using external_asn1 [OF _ pdv pl] by auto
  have "decode_cpa cpa = decode_initiate_response initiate"
    using items_fields [OF it] items_fields [OF it2] decode_tlv_whole [OF _ cpa] v aare_back [OF apdu]
    by (simp add: decode_cpa_def normal_mode_def)
  then show ?thesis using mp accepted_initiate_back [OF init] agreed
    by (simp add: decode_association_response_def session_codes)
qed

section \<open>Evaluation\<close>

lemma oid_chunk_rest_eval:
  "oid_chunk_rest 0 = []" "0 < a \<Longrightarrow> oid_chunk_rest a = (0x80 OR of_nat (a mod 128)) # oid_chunk_rest (a div 128)"
  by (simp_all add: oid_chunk_rest.simps [of 0] oid_chunk_rest.simps [of a])

lemma oids_encoded:
  "encode_oid OID_ACSE = Inr [0x52, 1, 0, 1]" "encode_oid OID_MMS_ABSTRACT_SYNTAX = Inr [0x28, 0xCA, 0x22, 2, 1]"
  "encode_oid OID_BER = Inr [0x51, 1]" "encode_oid OID_MMS_APPLICATION_CONTEXT = Inr [0x28, 0xCA, 0x22, 2, 3]"
  "encode_oid [1, 1, 1, 999] = Inr [0x29, 1, 0x87, 0x67]"
  by (simp_all add: encode_oid_def OID_ACSE_def OID_BER_def OID_MMS_ABSTRACT_SYNTAX_def OID_MMS_APPLICATION_CONTEXT_def
      oid_chunk_def oid_chunk_rest_eval)

lemmas association_eval = session_parameter_def spdu_def session_length_def session_codes ACSE_CONTEXT_def MMS_CONTEXT_def
  bit_string_def oid_tlv_def presentation_context_def encode_eval int_tlv_def optional_def oids_encoded

lemma weak_congs: "x = x' \<Longrightarrow> bindE x f = bindE x' f" "x = x' \<Longrightarrow> mapE h x = mapE h x'" by simp_all

text \<open>A client that names no called application, and what the server reads in its request. Each layer is built from
  the one inside by its length alone, each step when the one before it has a value (\<open>weak_congs\<close>).\<close>

definition anonymous_parameters :: association_parameters where
  "anonymous_parameters = default_parameters\<lparr>ap_called_ap_title := None, ap_called_ae_qualifier := None\<rparr>"

lemmas anonymous_eval = anonymous_parameters_def default_parameters_def DEFAULT_PARAMETER_CBB_def DEFAULT_SERVICES_SUPPORTED_def

lemma anonymous_initiate: "\<exists>bs. initiate_request anonymous_parameters = Inr bs \<and> length bs = 40"
  by (simp add: initiate_request_def anonymous_eval association_eval cong: weak_congs)

lemma anonymous_aarq: "\<exists>bs. aarq anonymous_parameters = Inr bs \<and> length bs = 73"
proof -
  obtain bs where "initiate_request anonymous_parameters = Inr bs" "length bs = 40" using anonymous_initiate by blast
  then show ?thesis unfolding aarq_def optional_def anonymous_eval association_parameters.simps option.case
    by (simp add: association_eval cong: weak_congs)
qed

lemma anonymous_cp: "\<exists>bs. cp_type anonymous_parameters = Inr bs \<and> length bs = 142"
proof -
  obtain bs where "aarq anonymous_parameters = Inr bs" "length bs = 73" using anonymous_aarq by blast
  then show ?thesis by (simp add: cp_type_def anonymous_eval association_eval octets_needed_def cong: weak_congs)
qed

lemma anonymous_request: "\<exists>data. association_request anonymous_parameters = Inr data"
proof -
  obtain bs where "cp_type anonymous_parameters = Inr bs" "length bs = 142" using anonymous_cp by blast
  then show ?thesis by (simp add: association_request_def anonymous_eval association_eval cong: weak_congs)
qed

definition anonymous_asked :: association_asked where
  "anonymous_asked = \<lparr>ar_max_pdu_size = Some 65000, ar_max_outstanding_calling = 5, ar_max_outstanding_called = 5,
     ar_nesting_level = Some 10, ar_acse_context = 1, ar_mms_context = 3, ar_called_presentation_selector = [0, 0, 0, 1],
     ar_called_ap_title = None, ar_called_ae_qualifier = None, ar_contexts = [1, 3]\<rparr>"

lemma length_foldl_update: "length (foldl (\<lambda>raw n. raw[f n := g raw n]) raw ns) = length raw"
  by (induction ns arbitrary: raw) simp_all

lemma services_supported_octets: "fst SERVICES_SUPPORTED = 3" "length (snd SERVICES_SUPPORTED) = 11"
  by (simp_all only: SERVICES_SUPPORTED_def option_bits_def Let_def fst_conv snd_conv length_foldl_update) simp_all

lemma anonymous_accepted: "\<exists>bs. accepted_initiate anonymous_asked 32000 3 10 = Inr bs \<and> length bs = 39"
  by (simp add: accepted_initiate_def anonymous_asked_def or_limit_def PARAMETER_CBB_def services_supported_octets association_eval cong: weak_congs)

lemma anonymous_aare: "length initiate = 39 \<Longrightarrow> \<exists>bs. aare anonymous_asked initiate = Inr bs \<and> length bs = 75"
  by (simp add: aare_def anonymous_asked_def association_eval cong: weak_congs)

lemma anonymous_accept: "\<exists>acc agreed. association_accept anonymous_asked 32000 3 10 = Inr (acc, agreed)"
proof -
  obtain i where i: "accepted_initiate anonymous_asked 32000 3 10 = Inr i" "length i = 39" using anonymous_accepted by blast
  obtain a where a: "aare anonymous_asked i = Inr a" "length a = 75" using anonymous_aare [OF i(2)] by blast
  have "min 32000 (or_limit (ar_max_pdu_size anonymous_asked) 32000) = 32000"
    "ar_acse_context anonymous_asked = 1" "ar_contexts anonymous_asked = [1, 3]"
    "ar_called_presentation_selector anonymous_asked = [0, 0, 0, 1]" by (simp_all add: anonymous_asked_def or_limit_def)
  then show ?thesis using i a by (simp add: association_accept_def association_eval cong: weak_congs)
qed

section \<open>A bounded stack\<close>



section \<open>Properties\<close>

text \<open>C25: the association handshake. What a client writes in its request (Session CONNECT, Presentation CP-type, ACSE
  AARQ, MMS initiate-Request) is what the server reads, and what the server then accepts is what the client reads: the
  PDU size is the smaller of the two limits (a client that names none or 0 leaves it to the server), and so are the
  numbers of outstanding calls and the nesting level.\<close>
theorem association_handshake:
  assumes "association_request p = Inr data"
  shows "\<exists>r. decode_association_request data = Inr r
    \<and> ar_max_pdu_size r = ap_max_pdu_size p \<and> ar_nesting_level r = ap_nesting_level p
    \<and> ar_max_outstanding_calling r = ap_max_outstanding p \<and> ar_max_outstanding_called r = ap_max_outstanding p
    \<and> ar_mms_context r = MMS_CONTEXT \<and> ar_acse_context r = ACSE_CONTEXT
    \<and> ar_called_presentation_selector r = ap_called_presentation_selector p
    \<and> (ar_called_ap_title r = None \<longleftrightarrow> ap_called_ap_title p = None)
    \<and> (\<forall>max_pdu max_out nesting acc agreed. association_accept r max_pdu max_out nesting = Inr (acc, agreed) \<longrightarrow>
        agreed = min max_pdu (or_limit (ap_max_pdu_size p) max_pdu)
        \<and> decode_association_response acc = Inr
          \<lparr>as_max_pdu_size = Some agreed, as_max_outstanding_calling = min max_out (ap_max_outstanding p),
           as_max_outstanding_called = min max_out (ap_max_outstanding p),
           as_nesting_level = Some (min nesting (or_limit (ap_nesting_level p) nesting)), as_version = 1,
           as_parameter_cbb = snd PARAMETER_CBB, as_services_supported = snd SERVICES_SUPPORTED\<rparr>)"
proof -
  obtain t q where r: "decode_association_request data = Inr
    \<lparr>ar_max_pdu_size = ap_max_pdu_size p, ar_max_outstanding_calling = ap_max_outstanding p,
     ar_max_outstanding_called = ap_max_outstanding p, ar_nesting_level = ap_nesting_level p,
     ar_acse_context = 1, ar_mms_context = 3, ar_called_presentation_selector = ap_called_presentation_selector p,
     ar_called_ap_title = t, ar_called_ae_qualifier = q, ar_contexts = [1, 3]\<rparr>" (is "_ = Inr ?r")
    and t: "opt_content oid_tlv (ap_called_ap_title p) t"
    using association_request_back [OF assms] by metis
  have t': "t = None \<longleftrightarrow> ap_called_ap_title p = None"
    using t by (cases "ap_called_ap_title p"; cases t) (simp_all add: opt_content_def)
  have acc: "agreed = min max_pdu (or_limit (ap_max_pdu_size p) max_pdu)
        \<and> decode_association_response acc = Inr
          \<lparr>as_max_pdu_size = Some agreed, as_max_outstanding_calling = min max_out (ap_max_outstanding p),
           as_max_outstanding_called = min max_out (ap_max_outstanding p),
           as_nesting_level = Some (min nesting (or_limit (ap_nesting_level p) nesting)), as_version = 1,
           as_parameter_cbb = snd PARAMETER_CBB, as_services_supported = snd SERVICES_SUPPORTED\<rparr>"
    if "association_accept ?r max_pdu max_out nesting = Inr (acc, agreed)" for max_pdu max_out nesting acc agreed
    using association_accept_back [OF that] by simp
  show ?thesis by (rule exI [of _ ?r]) (use r t' acc in \<open>simp add: MMS_CONTEXT_def ACSE_CONTEXT_def\<close>)
qed

theorem association_handshake_witness:
  "\<exists>data acc a. association_request anonymous_parameters = Inr data
    \<and> decode_association_request data = Inr anonymous_asked
    \<and> association_accept anonymous_asked 32000 3 10 = Inr (acc, 32000)
    \<and> decode_association_response acc = Inr a \<and> as_max_outstanding_calling a = 3 \<and> as_nesting_level a = Some 10"
proof -
  obtain data where d: "association_request anonymous_parameters = Inr data" using anonymous_request by blast
  obtain acc agreed where acc: "association_accept anonymous_asked 32000 3 10 = Inr (acc, agreed)"
    using anonymous_accept by blast
  have asked: "decode_association_request data = Inr anonymous_asked"
    using association_request_back [OF d]
    by (simp add: anonymous_parameters_def anonymous_asked_def default_parameters_def opt_content_def split: option.splits)
  obtain r where r: "decode_association_request data = Inr r"
    and accepts: "\<And>max_pdu max_out nesting acc agreed. association_accept r max_pdu max_out nesting = Inr (acc, agreed) \<Longrightarrow>
        agreed = min max_pdu (or_limit (ap_max_pdu_size anonymous_parameters) max_pdu)
        \<and> decode_association_response acc = Inr
          \<lparr>as_max_pdu_size = Some agreed, as_max_outstanding_calling = min max_out (ap_max_outstanding anonymous_parameters),
           as_max_outstanding_called = min max_out (ap_max_outstanding anonymous_parameters),
           as_nesting_level = Some (min nesting (or_limit (ap_nesting_level anonymous_parameters) nesting)), as_version = 1,
           as_parameter_cbb = snd PARAMETER_CBB, as_services_supported = snd SERVICES_SUPPORTED\<rparr>"
    using association_handshake [OF d] by metis
  have "r = anonymous_asked" using r asked by simp
  from accepts [of 32000 3 10 acc agreed, unfolded this, OF acc] show ?thesis using d asked acc
    by (simp add: anonymous_parameters_def default_parameters_def or_limit_def)
qed

text \<open>C26: every request a client encodes is read by the server as it was written: the invoke identifier, the service,
  and the arguments of Read, Write, GetNameList, GetVariableAccessAttributes and GetNamedVariableListAttributes.\<close>
theorem requests_read_by_server:
  assumes "confirmed_request i s = Inr p"
  shows "(\<forall>ns. read_request ns = Inr s \<longrightarrow>
      (\<exists>c. decode_request p = Inr (ConfirmedRequest i SERVICE_READ c) \<and> decode_read_request c = Inr (Variables ns, False)))
    \<and> (\<forall>ns vs. write_request ns vs = Inr s \<and> list_all ok_data vs \<longrightarrow>
      (\<exists>c. decode_request p = Inr (ConfirmedRequest i SERVICE_WRITE c) \<and> decode_write_request c = Inr (Variables ns, vs)))
    \<and> (\<forall>cls domain after. get_name_list_request cls domain after = Inr s \<longrightarrow>
      (\<exists>c. decode_request p = Inr (ConfirmedRequest i SERVICE_GET_NAME_LIST c)
        \<and> decode_get_name_list_request c = Inr (cls, domain, after)))
    \<and> (\<forall>n. get_variable_access_attributes_request n = Inr s \<longrightarrow>
      (\<exists>c. decode_request p = Inr (ConfirmedRequest i SERVICE_GET_VARIABLE_ACCESS_ATTRIBUTES c) \<and> object_name_request c = Inr n))
    \<and> (\<forall>n. get_named_variable_list_attributes_request n = Inr s \<longrightarrow>
      (\<exists>c. decode_request p = Inr (ConfirmedRequest i SERVICE_GET_NAMED_VARIABLE_LIST_ATTRIBUTES c)
        \<and> object_name_request c = Inr n))"
proof -
  have sent: "\<exists>c. decode_request p = Inr (ConfirmedRequest i n c) \<and> P c"
    if "\<exists>c. service_tlv n c = Inr s \<and> P c" "0 \<le> n" "n < 31" for n P
    using that assms decode_confirmed_request by blast
  note read = decode_read_request_back decode_write_request_back decode_get_name_list_request_back object_name_request_back
  show ?thesis using read [THEN sent] by (simp add: pdu_services)
qed

theorem requests_read_by_server_witness:
  "\<exists>s p c. read_request [\<lparr>on_item = [0x41], on_domain = None\<rparr>] = Inr s \<and> confirmed_request 7 s = Inr p
    \<and> decode_request p = Inr (ConfirmedRequest 7 SERVICE_READ c)
    \<and> decode_read_request c = Inr (Variables [\<lparr>on_item = [0x41], on_domain = None\<rparr>], False)"
proof -
  obtain s where s: "read_request [\<lparr>on_item = [0x41], on_domain = None\<rparr>] = Inr s \<and> length s = 13"
    by (simp add: read_request_def variable_list_def variable_items_def encode_object_name_def service_tlv_def pdu_services
        encode_eval context_tag(1) [of 4 True, simplified] cong: weak_congs)
  moreover obtain p where p: "confirmed_request 7 s = Inr p"
    using s by (auto simp: confirmed_request_def pdu_tags encode_eval cong: weak_congs)
  ultimately show ?thesis using requests_read_by_server [OF p] by blast
qed



text \<open>C27: every confirmed response a server encodes is read by the client with its invoke identifier, its service and its
  content: the results of a Read, errors among them, the outcome of each Write, the page of a GetNameList and its
  moreFollows, the members of a data set, the type of a variable. Errors and the conclude response are read back too.\<close>
theorem responses_read_by_client:
  assumes "confirmed_response i n c = Inr p" "0 \<le> n" "n < 31"
  shows "decode_pdu p = Inr (ConfirmedResponse i n c)
    \<and> (\<forall>rs spec. list_all ok_access rs \<and> read_response_content rs spec = Inr c \<longrightarrow> read_response c = Inr rs)
    \<and> (\<forall>es. write_response_content es = Inr c \<longrightarrow> write_response c = Inr es)
    \<and> (\<forall>names more. get_name_list_response_content names more = Inr c \<longrightarrow> get_name_list_response c = Inr (names, more))
    \<and> (\<forall>ms. get_named_variable_list_attributes_response_content ms = Inr c \<longrightarrow>
         get_named_variable_list_attributes_response c = Inr ms)
    \<and> (\<forall>ty. ok_type ty \<and> get_variable_access_attributes_response_content ty = Inr c \<longrightarrow>
         get_variable_access_attributes_response c = Inr ty)
    \<and> (\<forall>cls code q. 0 \<le> cls \<and> cls < 31 \<and> confirmed_error i cls code = Inr q \<longrightarrow>
         decode_pdu q = Inr (ConfirmedError i cls code))"
  using decode_confirmed_response [OF assms(2,3,1)] read_response_back write_response_back get_name_list_response_back
    get_named_variable_list_back get_variable_access_attributes_back decode_confirmed_error_back by blast

theorem responses_read_by_client_witness:
  "\<exists>c p. read_response_content [Access_value (IntData 5), Access_error 10] None = Inr c
    \<and> confirmed_response 7 SERVICE_READ c = Inr p \<and> decode_pdu p = Inr (ConfirmedResponse 7 SERVICE_READ c)
    \<and> read_response c = Inr [Access_value (IntData 5), Access_error 10]"
proof -
  have c: "read_response_content [Access_value (IntData 5), Access_error 10] None = Inr [0xA1, 6, 0x85, 1, 5, 0x80, 1, 10]"
    by (simp add: read_response_content_def encode_access_results_def optional_def encode_eval cong: weak_congs)
  obtain p where p: "confirmed_response 7 SERVICE_READ [0xA1, 6, 0x85, 1, 5, 0x80, 1, 10] = Inr p"
    by (simp add: confirmed_response_def service_tlv_def pdu_services pdu_tags encode_eval
        context_tag(1) [of 4 True, simplified] cong: weak_congs)
  have "list_all ok_access [Access_value (IntData 5), Access_error 10]" by simp
  moreover have "decode_pdu p = Inr (ConfirmedResponse 7 SERVICE_READ [0xA1, 6, 0x85, 1, 5, 0x80, 1, 10])"
    and "\<And>rs spec. list_all ok_access rs \<Longrightarrow> read_response_content rs spec = Inr [0xA1, 6, 0x85, 1, 5, 0x80, 1, 10] \<Longrightarrow>
      read_response [0xA1, 6, 0x85, 1, 5, 0x80, 1, 10] = Inr rs"
    using responses_read_by_client [OF p, THEN conjunct1] responses_read_by_client [OF p, THEN conjunct2, THEN conjunct1]
    by (auto simp: pdu_services)
  ultimately show ?thesis using c p by blast
qed

text \<open>C28: a report goes from the server to the client unchanged: access results given as values, then those already
  encoded, whether it names a list or its variables.\<close>
theorem report_read_by_client:
  assumes "information_report rs list_name vars encoded = Inr p" "list_all ok_access rs" "list_all ok_access qs"
    and "encode_access_results qs = Inr encoded"
  shows "decode_pdu p = Inr (case list_name of
      Some n \<Rightarrow> InformationReport (Some \<lparr>on_item = n, on_domain = None\<rparr>) [] (rs @ qs)
    | None \<Rightarrow> InformationReport None vars (rs @ qs))"
  using assms by (rule information_report_back)

theorem report_read_by_client_witness:
  "\<exists>p. information_report [Access_value (BoolData True)] (Some [0x52, 0x50, 0x54]) [] [0x85, 1, 5] = Inr p
    \<and> decode_pdu p = Inr (InformationReport (Some \<lparr>on_item = [0x52, 0x50, 0x54], on_domain = None\<rparr>) []
        [Access_value (BoolData True), Access_value (IntData 5)])"
proof -
  obtain p where p: "information_report [Access_value (BoolData True)] (Some [0x52, 0x50, 0x54]) [] [0x85, 1, 5] = Inr p"
    by (simp add: information_report_def encode_access_results_def pdu_tags encode_eval cong: weak_congs)
  have "encode_access_results [Access_value (IntData 5)] = Inr [0x85, 1, 5]"
    by (simp add: encode_access_results_def encode_eval cong: weak_congs)
  then show ?thesis using report_read_by_client [OF p, of "[Access_value (IntData 5)]"] p by simp
qed

text \<open>C31: the COTP handshake: from the CR of any client, however it arrives, the server answers a CC after which both
  ends work with the same TPDU size, never above the limit of the server, and neither has read past the TPDU of the other.\<close>
theorem cotp_handshake:
  assumes "connection_request 1 DEFAULT_TPDU_SIZE_CODE calling called = Inr cr" "m < 256" "concat peer = tpkt cr @ rest"
  shows "\<exists>s. accept_cotp peer m = (Inr (), s) \<and> iso_tpdu_size s = 2 ^ min 10 m \<and> concat (iso_in s) = rest
    \<and> (\<forall>reply rest'. concat reply = iso_out s @ rest' \<longrightarrow>
        (\<exists>k. iso_connect calling called reply = (Inr (), k) \<and> iso_tpdu_size k = iso_tpdu_size s
           \<and> iso_out k = tpkt cr \<and> concat (iso_in k) = rest'))"
  using assms by (rule cotp_agrees)

theorem cotp_handshake_witness:
  "\<exists>cr s k. connection_request 1 DEFAULT_TPDU_SIZE_CODE [0, 1] [0, 1] = Inr cr
    \<and> accept_cotp (map (\<lambda>b. [b]) (tpkt cr)) 8 = (Inr (), s)
    \<and> iso_connect [0, 1] [0, 1] [iso_out s] = (Inr (), k) \<and> iso_tpdu_size s = 256 \<and> iso_tpdu_size k = 256"
proof -
  obtain cr where cr: "connection_request 1 DEFAULT_TPDU_SIZE_CODE [0, 1] [0, 1] = Inr cr"
    by (simp add: connection_request_def DEFAULT_TPDU_SIZE_CODE_def octet_def to_bytes_def Let_def)
  have all: "concat (map (\<lambda>b. [b]) (tpkt cr)) = tpkt cr @ []" by (induction "tpkt cr") simp_all
  obtain s where s: "accept_cotp (map (\<lambda>b. [b]) (tpkt cr)) 8 = (Inr (), s)" "iso_tpdu_size s = 2 ^ min 10 8"
    and k: "\<forall>reply rest'. concat reply = iso_out s @ rest' \<longrightarrow>
        (\<exists>k. iso_connect [0, 1] [0, 1] reply = (Inr (), k) \<and> iso_tpdu_size k = iso_tpdu_size s
           \<and> iso_out k = tpkt cr \<and> concat (iso_in k) = rest')"
    using cotp_handshake [OF cr _ all, of 8] by fastforce
  obtain k' where "iso_connect [0, 1] [0, 1] [iso_out s] = (Inr (), k')" "iso_tpdu_size k' = 256"
    using k [rule_format, of "[iso_out s]" "[]"] s(2) by auto
  then show ?thesis using cr s by (intro exI [of _ cr] exI [of _ s] exI [of _ k']) simp
qed

text \<open>A CR whose last parameter announces the TPDU size but is cut off before its value makes the server's
  \<^verbatim>\<open>accept_cotp\<close> raise IndexError, which is none of the TransportError and OSError its caller closes the socket for.\<close>
lemma accept_cotp_index_error:
  "fst (accept_cotp [tpkt [8, CR, 0, 0, 0, 1, 0, 0xC0, 1]] m) = Inl IndexError"
proof -
  obtain s' where "recv_tpkt [tpkt [8, CR, 0, 0, 0, 1, 0, 0xC0, 1]] = (Inr (Some [8, CR, 0, 0, 0, 1, 0, 0xC0, 1]), s')"
    using recv_tpkt_packet [of "[8, CR, 0, 0, 0, 1, 0, 0xC0, 1]" "[tpkt [8, CR, 0, 0, 0, 1, 0, 0xC0, 1]]" "[]"] by auto
  then show ?thesis by (simp add: accept_cotp_def Let_def CR_def cr_parameters.simps slice_def)
qed

end
