(* ===== verification/Server.thy ===== *)
theory Server
  imports ServerProtocol ServerModel StateError
begin

text \<open>
  \<^verbatim>\<open>src/open61850/server/server.py\<close>: the names a server lists and their pages, the services, the hooks, the answer to a
  PDU, and the queue of what a connection sends. A connection is a number. The engines that plug in are hooks, functions
  on the state of the server, as in the code; the threads, the socket and its options are left out: the operations of
  a connection run one at a time, and a time is a number of microseconds.
\<close>

section \<open>Names and their pages\<close>

definition ERROR_DEFINITION :: int where "ERROR_DEFINITION = 2"
definition OBJECT_UNDEFINED :: int where "OBJECT_UNDEFINED = 1"

definition server_names :: "ied_model \<Rightarrow> int \<Rightarrow> ustr option \<Rightarrow> ustr list" where
  "server_names m object_class domain =
     (if object_class = OBJECT_CLASS_DOMAIN then (if domain = None then sort (map fst (im_devices m)) else [])
      else case domain of
          None \<Rightarrow> []
        | Some d \<Rightarrow>
            if object_class = OBJECT_CLASS_NAMED_VARIABLE then names m d
            else if object_class = OBJECT_CLASS_NAMED_VARIABLE_LIST then
              sort (map (\<lambda>(n, _). on_item n) (filter (\<lambda>(n, _). on_domain n = Some d) (im_data_sets m)))
            else [])"

text \<open>\<^verbatim>\<open>bisect.bisect_right\<close>: its loop.\<close>

function bisect_right :: "ustr list \<Rightarrow> ustr \<Rightarrow> nat \<Rightarrow> nat \<Rightarrow> nat" where
  "bisect_right a x lo hi =
     (if lo < hi then
        let mid = (lo + hi) div 2 in
        if x < a ! mid then bisect_right a x lo mid else bisect_right a x (mid + 1) hi
      else lo)"
  by pat_completeness auto
termination
  by (relation "measure (\<lambda>(a, x, lo, hi). hi - lo)") auto

declare bisect_right.simps [simp del]

fun fill_page :: "int \<Rightarrow> ustr list \<Rightarrow> ustr list" where
  "fill_page free [] = []"
| "fill_page free (n # ns) =
     (let free' = free - (int (length n) + 2) in if free' < 0 then [] else n # fill_page free' ns)"

definition name_page :: "int \<Rightarrow> ustr list \<Rightarrow> ustr option \<Rightarrow> ustr list \<times> bool" where
  "name_page pdu_size ns after =
     (let start = (case after of None \<Rightarrow> 0 | Some a \<Rightarrow> bisect_right ns a 0 (length ns));
          page = fill_page (pdu_size - 64) (drop start ns)
      in (page, start + length page < length ns))"

section \<open>Services\<close>

record 's server =
  sv_vendor :: ustr
  sv_model_name :: ustr
  sv_revision :: ustr
  sv_model :: "'s \<Rightarrow> ied_model"
  sv_write_model :: "object_name \<Rightarrow> iecdata \<Rightarrow> ('s, int option) op"
  sv_read_hooks :: "(nat \<Rightarrow> object_name \<Rightarrow> ('s, access_result option) op) list"
  sv_write_hooks :: "(nat \<Rightarrow> object_name \<Rightarrow> iecdata \<Rightarrow> ('s, hook) op) list"
  sv_send :: "nat \<Rightarrow> bytes \<Rightarrow> ('s, unit) op"
  sv_after_response :: "nat \<Rightarrow> ('s, unit) op"
  sv_clear_after :: "nat \<Rightarrow> ('s, unit) op"

fun try_read_hooks :: "nat \<Rightarrow> object_name \<Rightarrow> (nat \<Rightarrow> object_name \<Rightarrow> ('s, access_result option) op) list \<Rightarrow> ('s, access_result option) op"
where
  "try_read_hooks c obj [] = ret None"
| "try_read_hooks c obj (h # hs) = bindS (h c obj) (\<lambda>r. case r of Some v \<Rightarrow> ret (Some v) | None \<Rightarrow> try_read_hooks c obj hs)"

definition server_read :: "'s server \<Rightarrow> nat \<Rightarrow> object_name \<Rightarrow> ('s, access_result) op" where
  "server_read srv c obj =
     bindS (try_read_hooks c obj (sv_read_hooks srv)) (\<lambda>r. case r of
       Some v \<Rightarrow> ret v
     | None \<Rightarrow> try_get (\<lambda>s. read_node (sv_model srv s) obj))"

fun try_write_hooks :: "nat \<Rightarrow> object_name \<Rightarrow> iecdata \<Rightarrow> (nat \<Rightarrow> object_name \<Rightarrow> iecdata \<Rightarrow> ('s, hook) op) list \<Rightarrow> ('s, hook) op"
where
  "try_write_hooks c obj v [] = ret Not_theirs"
| "try_write_hooks c obj v (h # hs) =
     bindS (h c obj v) (\<lambda>r. case r of Not_theirs \<Rightarrow> try_write_hooks c obj v hs | _ \<Rightarrow> ret r)"

definition server_write :: "'s server \<Rightarrow> nat \<Rightarrow> object_name \<Rightarrow> iecdata \<Rightarrow> ('s, int option) op" where
  "server_write srv c obj v =
     bindS (try_write_hooks c obj v (sv_write_hooks srv)) (\<lambda>r. case r of
       Handled \<Rightarrow> ret None
     | Refused code \<Rightarrow> ret (Some code)
     | Not_theirs \<Rightarrow> sv_write_model srv obj v)"

fun mapS :: "('a \<Rightarrow> ('s, 'b) op) \<Rightarrow> 'a list \<Rightarrow> ('s, 'b list) op" where
  "mapS f [] = ret []"
| "mapS f (x # xs) = bindS (f x) (\<lambda>y. bindS (mapS f xs) (\<lambda>ys. ret (y # ys)))"

definition respond :: "int \<Rightarrow> int \<Rightarrow> bytes result \<Rightarrow> ('s, bytes) op" where
  "respond invoke service content = try_get (\<lambda>_. bindE content (confirmed_response invoke service))"

definition get_name_list_service :: "'s server \<Rightarrow> int \<Rightarrow> int \<Rightarrow> bytes \<Rightarrow> ('s, bytes) op" where
  "get_name_list_service srv pdu_size invoke content =
     bindS (try_get (\<lambda>_. decode_get_name_list_request content)) (\<lambda>(object_class, domain, after).
     bindS (gets (sv_model srv)) (\<lambda>m.
       if domain \<noteq> None \<and> the domain \<notin> fst ` set (im_devices m) then
         try_get (\<lambda>_. confirmed_error invoke ERROR_DEFINITION OBJECT_UNDEFINED)
       else case name_page pdu_size (server_names m object_class domain) after of
         (page, more_follows) \<Rightarrow> respond invoke SERVICE_GET_NAME_LIST (get_name_list_response_content page more_follows)))"

definition read_service :: "'s server \<Rightarrow> nat \<Rightarrow> int \<Rightarrow> bytes \<Rightarrow> ('s, bytes) op" where
  "read_service srv c invoke content =
     bindS (try_get (\<lambda>_. decode_read_request content)) (\<lambda>(variables, with_result). case variables of
       Named_list n \<Rightarrow>
         bindS (gets (sv_model srv)) (\<lambda>m. case map_of (im_data_sets m) n of
           None \<Rightarrow> try_get (\<lambda>_. confirmed_error invoke ERROR_DEFINITION OBJECT_UNDEFINED)
         | Some members \<Rightarrow>
             bindS (try_get (\<lambda>s. traverse (read_node (sv_model srv s)) members)) (\<lambda>results.
             bindS (if with_result then try_get (\<lambda>_. mapE Some (bindE (encode_object_name n) (encode_tlv 0xA1))) else ret None) (\<lambda>spec.
               respond invoke SERVICE_READ (read_response_content results spec))))
     | Variables vs \<Rightarrow>
         bindS (mapS (server_read srv c) vs) (\<lambda>results. respond invoke SERVICE_READ (read_response_content results None)))"

definition write_service :: "'s server \<Rightarrow> nat \<Rightarrow> int \<Rightarrow> bytes \<Rightarrow> ('s, bytes) op" where
  "write_service srv c invoke content =
     bindS (try_get (\<lambda>_. decode_write_request content)) (\<lambda>(variables, new_values).
     bindS (gets (sv_model srv)) (\<lambda>m.
     bindS (mapS (\<lambda>(n, v). server_write srv c n v)
         (zip (case variables of
             Variables vs \<Rightarrow> vs
           | Named_list n \<Rightarrow> (case map_of (im_data_sets m) n of None \<Rightarrow> [] | Some members \<Rightarrow> members)) new_values)) (\<lambda>errors.
       respond invoke SERVICE_WRITE (write_response_content errors))))"

definition attributes_service :: "'s server \<Rightarrow> int \<Rightarrow> bytes \<Rightarrow> ('s, bytes) op" where
  "attributes_service srv invoke content =
     bindS (try_get (\<lambda>_. object_name_request content)) (\<lambda>n.
     bindS (gets (\<lambda>s. find_node (sv_model srv s) n)) (\<lambda>node. case node of
       None \<Rightarrow> try_get (\<lambda>_. confirmed_error invoke ERROR_DEFINITION OBJECT_UNDEFINED)
     | Some node \<Rightarrow> respond invoke SERVICE_GET_VARIABLE_ACCESS_ATTRIBUTES
         (get_variable_access_attributes_response_content (n_type node))))"

definition list_attributes_service :: "'s server \<Rightarrow> int \<Rightarrow> bytes \<Rightarrow> ('s, bytes) op" where
  "list_attributes_service srv invoke content =
     bindS (try_get (\<lambda>_. object_name_request content)) (\<lambda>n.
     bindS (gets (\<lambda>s. map_of (im_data_sets (sv_model srv s)) n)) (\<lambda>members. case members of
       None \<Rightarrow> try_get (\<lambda>_. confirmed_error invoke ERROR_DEFINITION OBJECT_UNDEFINED)
     | Some members \<Rightarrow> respond invoke SERVICE_GET_NAMED_VARIABLE_LIST_ATTRIBUTES
         (get_named_variable_list_attributes_response_content members)))"

definition confirmed_service :: "'s server \<Rightarrow> nat \<Rightarrow> int \<Rightarrow> int \<Rightarrow> int \<Rightarrow> bytes \<Rightarrow> ('s, bytes) op" where
  "confirmed_service srv c pdu_size invoke n content =
     (if n = SERVICE_GET_NAME_LIST then get_name_list_service srv pdu_size invoke content
      else if n = 2 then respond invoke n (identify_response_content (sv_vendor srv) (sv_model_name srv) (sv_revision srv))
      else if n = SERVICE_READ then read_service srv c invoke content
      else if n = SERVICE_WRITE then write_service srv c invoke content
      else if n = SERVICE_GET_VARIABLE_ACCESS_ATTRIBUTES then attributes_service srv invoke content
      else if n = SERVICE_GET_NAMED_VARIABLE_LIST_ATTRIBUTES then list_attributes_service srv invoke content
      else try_get (\<lambda>_. reject_pdu (Some invoke) 1 1))"

text \<open>\<^verbatim>\<open>_handle\<close>: the PDU it sends, and whether the association goes on.\<close>

definition service_caught :: "exn \<Rightarrow> bool" where
  "service_caught e \<longleftrightarrow> is_mms_protocol_error e \<or> is_ber_error e \<or> e = KeyError \<or> is_value_error e \<or> e = IndexError"

definition try_service :: "'s server \<Rightarrow> nat \<Rightarrow> int \<Rightarrow> int \<Rightarrow> int \<Rightarrow> bytes \<Rightarrow> ('s, bytes) op" where
  "try_service srv c pdu_size invoke n content =
     (\<lambda>s. case confirmed_service srv c pdu_size invoke n content s of
        (Inr response, s') \<Rightarrow> (Inr response, s')
      | (Inl e, s') \<Rightarrow>
          if service_caught e then
            bindS (try_get (\<lambda>_. reject_pdu (Some invoke) 1 5)) (\<lambda>r. thenS (sv_clear_after srv c) (ret r)) s'
          else (Inl e, s'))"

definition handle :: "'s server \<Rightarrow> nat \<Rightarrow> int \<Rightarrow> bytes \<Rightarrow> ('s, bytes \<times> bool) op" where
  "handle srv c pdu_size mms_pdu =
     (case decode_request mms_pdu of
        Inl e \<Rightarrow>
          if is_mms_protocol_error e then
            bindS (try_get (\<lambda>_. reject_pdu None 0 1)) (\<lambda>r. thenS (sv_send srv c r) (ret (r, True)))
          else raise e
      | Inr Conclude \<Rightarrow> bindS (try_get (\<lambda>_. conclude_response)) (\<lambda>r. thenS (sv_send srv c r) (ret (r, False)))
      | Inr (ConfirmedRequest invoke n content) \<Rightarrow>
          bindS (try_service srv c pdu_size invoke n content) (\<lambda>response.
            thenS (sv_send srv c response) (thenS (sv_after_response srv c) (ret (response, True)))))"

section \<open>The names are distinct\<close>

lemma walk_items: "plain n \<Longrightarrow> x \<in> set (walk n pre) \<Longrightarrow> \<exists>ps. (\<forall>p \<in> set ps. 36 \<notin> set p) \<and> x = item_from pre ps"
  using set_walk [of n x pre] named_path_plain by blast

lemma walk_child_items:
  assumes "plain c" "x \<in> set (walk c (pre @ 36 # n_name c))"
  shows "\<exists>ps. (\<forall>p \<in> set ps. 36 \<notin> set p) \<and> x = pre @ 36 # item_from (n_name c) ps"
  using walk_items [OF assms] by (auto simp: item_from_def)

lemma plain_name: "plain c \<Longrightarrow> 36 \<notin> set (n_name c)"
  by (cases c) simp

lemma children_apart:
  assumes "plain c" "plain d" "x \<in> set (walk c (pre @ 36 # n_name c))" "x \<in> set (walk d (pre @ 36 # n_name d))"
  shows "n_name c = n_name d"
proof -
  obtain ps where p: "\<forall>p \<in> set ps. 36 \<notin> set p" "x = pre @ 36 # item_from (n_name c) ps"
    using walk_child_items [OF assms(1,3)] by blast
  obtain qs where q: "\<forall>p \<in> set qs. 36 \<notin> set p" "x = pre @ 36 # item_from (n_name d) qs"
    using walk_child_items [OF assms(2,4)] by blast
  have "item_from (n_name c) ps = item_from (n_name d) qs" using p(2) unfolding q(2) by simp
  then have "n_name d # qs = n_name c # ps"
    using split_item [OF plain_name [OF assms(1)] p(1)] split_item [OF plain_name [OF assms(2)] q(1)] by metis
  then show ?thesis by (rule list.inject [THEN iffD1, THEN conjunct1, symmetric])
qed

lemma distinct_walk: "plain n \<Longrightarrow> distinct (walk n pre)"
proof (induction n arbitrary: pre)
  case (Node name fc ty tr cs v)
  have "distinct (concat (map (\<lambda>c. walk c (pre @ 36 # n_name c)) ds))" if "distinct (map n_name ds)" "set ds \<subseteq> set cs" for ds
    using that
  proof (induction ds)
    case (Cons d ds)
    have plain: "plain c" if "c \<in> set cs" for c using Node.prems that by (auto simp: list_all_iff)
    have "set (walk d (pre @ 36 # n_name d)) \<inter> set (walk e (pre @ 36 # n_name e)) = {}" if "e \<in> set ds" for e
      using children_apart [OF plain plain] Cons.prems that by fastforce
    then show ?case using Cons Node.IH [OF _ plain] by (auto simp: disjoint_iff)
  qed simp
  moreover have "pre \<notin> set (concat (map (\<lambda>c. walk c (pre @ 36 # n_name c)) cs))"
  proof
    assume "pre \<in> set (concat (map (\<lambda>c. walk c (pre @ 36 # n_name c)) cs))"
    then obtain c where "c \<in> set cs" "pre \<in> set (walk c (pre @ 36 # n_name c))" by auto
    then show False using walk_child_items [of c pre pre] Node.prems by (auto simp: list_all_iff)
  qed
  ultimately show ?case using Node.prems by (cases ty) auto
qed

lemma distinct_names:
  assumes "plain_model m"
  shows "distinct (names m ld)"
proof (cases "map_of (im_devices m) ld")
  case (Some lns)
  then have l: "distinct (map fst lns)" "\<forall>(k, n) \<in> set lns. n_name n = k \<and> plain n"
    using assms by (auto simp: plain_model_def dest!: map_of_SomeD)
  have "distinct (concat (map (\<lambda>(ln, n). walk n ln) ls))" if "distinct (map fst ls)" "set ls \<subseteq> set lns" for ls
    using that
  proof (induction ls)
    case (Cons a ls)
    obtain k n where a: "a = (k, n)" by (cases a)
    have "x \<notin> set (walk n k)" if x: "(j, e) \<in> set ls" "x \<in> set (walk e j)" for j e x
    proof
      assume "x \<in> set (walk n k)"
      have n: "plain n" "n_name n = k" and e: "plain e" "n_name e = j" using l(2) Cons.prems(2) x(1) a by auto
      obtain ps where p: "\<forall>p \<in> set ps. 36 \<notin> set p" "x = item_from k ps" using walk_items [OF n(1) \<open>x \<in> set (walk n k)\<close>] by blast
      obtain qs where q: "\<forall>p \<in> set qs. 36 \<notin> set p" "x = item_from j qs" using walk_items [OF e(1) x(2)] by blast
      have "split_on 36 x = k # ps" unfolding p(2) using plain_name [OF n(1)] n(2) p(1) by (intro split_item) simp_all
      moreover have "split_on 36 x = j # qs" unfolding q(2) using plain_name [OF e(1)] e(2) q(1) by (intro split_item) simp_all
      ultimately have "k = j" by simp
      then show False using x(1) Cons.prems(1) a by force
    qed
    then show ?case using Cons distinct_walk [of n k] l(2) a by (auto simp: disjoint_iff)
  qed simp
  then show ?thesis using l(1) Some by (simp add: names_def)
qed (simp add: names_def)

definition wf_names :: "ied_model \<Rightarrow> bool" where
  "wf_names m \<longleftrightarrow> plain_model m \<and> distinct (map fst (im_devices m)) \<and> distinct (map fst (im_data_sets m))"

lemma server_names_sorted:
  assumes "wf_names m"
  shows "sorted (server_names m cls d)" "distinct (server_names m cls d)"
proof -
  show "sorted (server_names m cls d)" by (auto simp: server_names_def names_def split: option.split)
  have "distinct (map (\<lambda>(n, _). on_item n) (filter (\<lambda>(n, _). on_domain n = Some x) (im_data_sets m)))" for x
  proof -
    have "inj_on (\<lambda>(n :: object_name, _ :: object_name list). on_item n) (set (filter (\<lambda>(n, _). on_domain n = Some x) (im_data_sets m)))"
    proof (rule inj_onI)
      fix e f
      assume e: "e \<in> set (filter (\<lambda>(n, _). on_domain n = Some x) (im_data_sets m))"
        and f: "f \<in> set (filter (\<lambda>(n, _). on_domain n = Some x) (im_data_sets m))"
        and eq: "(case e of (n, _) \<Rightarrow> on_item n) = (case f of (n, _) \<Rightarrow> on_item n)"
      then have "fst e = fst f" by (auto intro: object_name.equality)
      then show "e = f" using e f assms by (auto simp: wf_names_def distinct_map dest: inj_onD)
    qed
    moreover have "distinct (im_data_sets m)" using assms by (simp add: wf_names_def distinct_map)
    ultimately show ?thesis by (simp add: distinct_map)
  qed
  then show "distinct (server_names m cls d)" using assms distinct_names
    by (auto simp: server_names_def wf_names_def split: option.split)
qed

section \<open>Pages\<close>

text \<open>The search finds how many names come up to one, in a sorted list.\<close>

lemma bisect_right_bounds:
  assumes "sorted a" "lo \<le> hi" "hi \<le> length a" "\<forall>i < lo. a ! i \<le> x" "\<forall>i. hi \<le> i \<longrightarrow> i < length a \<longrightarrow> x < a ! i"
  shows "\<exists>k. bisect_right a x lo hi = k \<and> k \<le> length a \<and> (\<forall>i < k. a ! i \<le> x) \<and> (\<forall>i. k \<le> i \<longrightarrow> i < length a \<longrightarrow> x < a ! i)"
  using assms
proof (induction a x lo hi rule: bisect_right.induct)
  case (1 a x lo hi)
  show ?case
  proof (cases "lo < hi")
    case True
    let ?mid = "(lo + hi) div 2"
    have mid: "lo \<le> ?mid" "?mid < hi" using True by auto
    show ?thesis
    proof (cases "x < a ! ?mid")
      case less: True
      have "\<forall>i. ?mid \<le> i \<longrightarrow> i < length a \<longrightarrow> x < a ! i" using less sorted_nth_mono [OF "1.prems"(1)] by (meson order_less_le_trans)
      then show ?thesis using "1.IH"(1) [OF True refl less] "1.prems" mid less True by (subst bisect_right.simps) (simp add: Let_def)
    next
      case False
      have "\<forall>i < ?mid + 1. a ! i \<le> x"
      proof (intro allI impI)
        fix i assume "i < ?mid + 1"
        then have "a ! i \<le> a ! ?mid" using sorted_nth_mono [OF "1.prems"(1)] mid "1.prems"(3) by simp
        then show "a ! i \<le> x" using False by simp
      qed
      then show ?thesis using "1.IH"(2) [OF True refl False] "1.prems" mid False True by (subst bisect_right.simps) (simp add: Let_def)
    qed
  next
    case False
    then show ?thesis using "1.prems" by (subst bisect_right.simps) auto
  qed
qed

lemma drop_bisect_right:
  assumes "sorted (xs @ x # ys)" "distinct (xs @ x # ys)"
  shows "drop (bisect_right (xs @ x # ys) x 0 (length (xs @ x # ys))) (xs @ x # ys) = ys"
proof -
  let ?a = "xs @ x # ys"
  obtain k where k: "bisect_right ?a x 0 (length ?a) = k" "k \<le> length ?a" "\<forall>i < k. ?a ! i \<le> x" "\<forall>i. k \<le> i \<longrightarrow> i < length ?a \<longrightarrow> x < ?a ! i"
    using bisect_right_bounds [OF assms(1), of 0 "length ?a" x] by auto
  have "\<not> k \<le> length xs" using k(4) by (metis nth_append_length length_append length_Cons add_Suc_right less_add_Suc1 less_irrefl)
  moreover have "\<not> Suc (length xs) < k"
  proof
    assume less: "Suc (length xs) < k"
    then obtain y zs where y: "ys = y # zs" using k(2) by (cases ys) auto
    have "?a ! Suc (length xs) = y" using y by (simp add: nth_append)
    then have "y \<le> x" using k(3) less by metis
    moreover have "x \<le> y" using assms(1) y by (simp add: sorted_append)
    ultimately show False using assms(2) y by auto
  qed
  ultimately have "k = Suc (length xs)" by simp
  then show ?thesis using k(1) by simp
qed

section \<open>Sizes\<close>

lemma low_tag_size:
  assumes "0 \<le> tag" "tag < 256" "tag mod 32 \<noteq> 31" "length c < 2 ^ 32"
  shows "\<exists>bs. encode_tlv tag c = Inr bs \<and> length bs \<le> length c + 6 \<and> (length c < 128 \<longrightarrow> length bs = length c + 2)"
proof (cases "length c < 128")
  case True
  then show ?thesis using wf_low_tag(1) [OF assms(1-3)] by (simp add: encode_tlv_def encode_length_def)
next
  case False
  have "octets_needed (length c) \<le> 4" unfolding octets_needed_le_iff using assms(4) by simp
  then show ?thesis using False wf_low_tag(1) [OF assms(1-3)] by (simp add: encode_tlv_def encode_length_def Let_def)
qed

lemma unsigned_size:
  assumes "0 \<le> i" "i < 2 ^ 32"
  shows "\<exists>c. encode_unsigned i = Inr c \<and> length c \<le> 5"
proof -
  have "integer_octets i \<le> Suc 4" unfolding integer_octets_iff using assms by simp
  then show ?thesis using assms(1) by (simp add: encode_unsigned_def encode_integer_eq)
qed

lemma service_size:
  assumes "0 \<le> n" "n < 31" "length c < 2 ^ 32"
  shows "\<exists>bs. service_tlv n c = Inr bs \<and> length bs \<le> length c + 6"
proof -
  have "0 \<le> 0xA0 + n" "0xA0 + n < 256" using assms by simp_all
  moreover have "(0xA0 + n) mod 32 \<noteq> 31"
  proof -
    have "0xA0 + n = n + 32 * 5" by simp
    then have "(0xA0 + n) mod 32 = n mod 32" by (simp only: mod_mult_self2)
    then show ?thesis using mod_pos_pos_trivial [OF assms(1), of 32] assms(2) by linarith
  qed
  ultimately obtain bs where "encode_tlv (0xA0 + n) c = Inr bs" "length bs \<le> length c + 6" using low_tag_size [OF _ _ _ assms(3)] by blast
  then show ?thesis using context_tag(1) [OF assms(1,2), of True] by (simp add: service_tlv_def)
qed

lemma confirmed_size:
  assumes "0 \<le> i" "i < 2 ^ 32" "length s < 2 ^ 31" "0 \<le> tag" "tag < 256" "tag mod 32 \<noteq> 31"
  shows "\<exists>p. bindE (cat [bindE (encode_unsigned i) (encode_tlv 0x02), Inr s]) (encode_tlv tag) = Inr p \<and> length p \<le> length s + 13"
proof -
  obtain c where c: "encode_unsigned i = Inr c" "length c \<le> 5" using unsigned_size [OF assms(1,2)] by blast
  obtain b where b: "encode_tlv 0x02 c = Inr b" "length b = length c + 2" using low_tag_size [of "0x02" c] c(2) by auto
  have "length (b @ s) < 2 ^ 32" using b(2) c(2) assms(3) by simp
  then obtain p where "encode_tlv tag (b @ s) = Inr p" "length p \<le> length (b @ s) + 6" using low_tag_size [OF assms(4-6)] by blast
  then show ?thesis using b c by simp
qed

lemma names_size:
  assumes "\<forall>n \<in> set ns. is_ascii n \<and> length n < 128"
  shows "\<exists>l. cat (map (\<lambda>n. bindE (encode_ascii n) (encode_tlv 0x1A)) ns) = Inr l \<and> length l = (\<Sum>n\<leftarrow>ns. length n + 2)"
  using assms
proof (induction ns)
  case (Cons n ns)
  then obtain l where l: "cat (map (\<lambda>n. bindE (encode_ascii n) (encode_tlv 0x1A)) ns) = Inr l" "length l = (\<Sum>n\<leftarrow>ns. length n + 2)" by auto
  have "encode_ascii n = Inr (map of_nat n)" using Cons.prems by (intro encode_ascii_ok) simp
  moreover obtain b where "encode_tlv 0x1A (map of_nat n) = Inr b" "length b = length n + 2"
    using low_tag_size [of "0x1A" "map of_nat n"] Cons.prems by auto
  ultimately show ?case using l by simp
qed simp

lemma name_list_content_size:
  assumes "\<forall>n \<in> set ns. is_ascii n \<and> length n < 128" "(\<Sum>n\<leftarrow>ns. length n + 2) < 2 ^ 31"
  shows "\<exists>c. get_name_list_response_content ns follows = Inr c \<and> length c \<le> (\<Sum>n\<leftarrow>ns. length n + 2) + 9"
proof -
  obtain l where l: "cat (map (\<lambda>n. bindE (encode_ascii n) (encode_tlv 0x1A)) ns) = Inr l" "length l = (\<Sum>n\<leftarrow>ns. length n + 2)"
    using names_size [OF assms(1)] by blast
  obtain a where a: "encode_tlv 0xA0 l = Inr a" "length a \<le> length l + 6" using low_tag_size [of "0xA0" l] assms(2) l(2) by auto
  obtain b where b: "encode_tlv 0x81 (encode_boolean follows) = Inr b" "length b = 3"
    using low_tag_size [of "0x81" "encode_boolean follows"] by (cases follows) (auto simp: encode_boolean_def)
  show ?thesis using l a b by (simp add: get_name_list_response_content_def)
qed

lemma name_list_size:
  assumes "\<forall>n \<in> set ns. is_ascii n \<and> length n < 128" "(\<Sum>n\<leftarrow>ns. length n + 2) < 2 ^ 30" "0 \<le> i" "i < 2 ^ 32"
  shows "\<exists>p. bindE (get_name_list_response_content ns follows) (confirmed_response i SERVICE_GET_NAME_LIST) = Inr p
    \<and> length p \<le> (\<Sum>n\<leftarrow>ns. length n + 2) + 28"
proof -
  obtain c where c: "get_name_list_response_content ns follows = Inr c" "length c \<le> (\<Sum>n\<leftarrow>ns. length n + 2) + 9"
    using name_list_content_size [OF assms(1)] assms(2) by fastforce
  have "length c < 2 ^ 32" using c(2) assms(2) by simp
  then obtain s where s: "service_tlv SERVICE_GET_NAME_LIST c = Inr s" "length s \<le> length c + 6"
    using service_size [of 1 c] by (auto simp: pdu_services)
  have "length s < 2 ^ 31" using s(2) c(2) assms(2) by simp
  then obtain p where "bindE (cat [bindE (encode_unsigned i) (encode_tlv 0x02), Inr s]) (encode_tlv 0xA1) = Inr p" "length p \<le> length s + 13"
    using confirmed_size [OF assms(3,4), of s "0xA1"] by auto
  then show ?thesis using c s by (auto simp: confirmed_response_def pdu_tags)
qed

lemma fill_page_room: "0 \<le> free \<Longrightarrow> int (\<Sum>n\<leftarrow>fill_page free ns. length n + 2) \<le> free"
proof (induction free ns rule: fill_page.induct)
  case (2 free n ns)
  show ?case
  proof (cases "free - (int (length n) + 2) < 0")
    case True
    then show ?thesis using 2 by (simp add: Let_def)
  next
    case False
    then show ?thesis using 2(1) [OF refl] by (simp add: Let_def)
  qed
qed simp

lemma fill_page_set: "set (fill_page free ns) \<subseteq> set ns"
  by (induction free ns rule: fill_page.induct) (auto simp: Let_def)

lemma name_page_fits:
  assumes "64 \<le> pdu_size" "pdu_size < 2 ^ 30" "\<forall>n \<in> set ns. is_ascii n \<and> length n < 128" "0 \<le> i" "i < 2 ^ 32"
    and page: "name_page pdu_size ns after = (page, follows)"
  shows "\<exists>p. bindE (get_name_list_response_content page follows) (confirmed_response i SERVICE_GET_NAME_LIST) = Inr p \<and> int (length p) \<le> pdu_size"
proof -
  obtain k where k: "page = fill_page (pdu_size - 64) (drop k ns)" using page by (auto simp: name_page_def Let_def)
  have sum: "int (\<Sum>n\<leftarrow>page. length n + 2) \<le> pdu_size - 64" using fill_page_room [of "pdu_size - 64"] assms(1) k by simp
  have "\<forall>n \<in> set page. is_ascii n \<and> length n < 128"
    using assms(3) fill_page_set [of "pdu_size - 64" "drop k ns"] set_drop_subset [of k ns] unfolding k by blast
  moreover have "(\<Sum>n\<leftarrow>page. length n + 2) < 2 ^ 30" using sum assms(2) by simp
  ultimately obtain p where "bindE (get_name_list_response_content page follows) (confirmed_response i SERVICE_GET_NAME_LIST) = Inr p"
    "length p \<le> (\<Sum>n\<leftarrow>page. length n + 2) + 28" using name_list_size [OF _ _ assms(4,5)] by blast
  then show ?thesis using sum by auto
qed

lemma get_name_list_answer:
  assumes "64 \<le> pdu_size" "pdu_size < 2 ^ 30" "0 \<le> i" "i < 2 ^ 32"
    "decode_get_name_list_request content = Inr (cls, domain, after)" "domain = None \<or> the domain \<in> fst ` set (im_devices (sv_model srv s))"
    "\<forall>n \<in> set (server_names (sv_model srv s) cls domain). is_ascii n \<and> length n < 128"
  shows "\<exists>r page follows. get_name_list_service srv pdu_size i content s = (Inr r, s) \<and> int (length r) \<le> pdu_size
    \<and> name_page pdu_size (server_names (sv_model srv s) cls domain) after = (page, follows)
    \<and> bindE (get_name_list_response_content page follows) (confirmed_response i SERVICE_GET_NAME_LIST) = Inr r"
proof -
  obtain page follows where page: "name_page pdu_size (server_names (sv_model srv s) cls domain) after = (page, follows)"
    by (cases "name_page pdu_size (server_names (sv_model srv s) cls domain) after")
  obtain r where r: "bindE (get_name_list_response_content page follows) (confirmed_response i SERVICE_GET_NAME_LIST) = Inr r"
    "int (length r) \<le> pdu_size" using name_page_fits [OF assms(1,2,7,3,4) page] by blast
  have "get_name_list_service srv pdu_size i content s = (Inr r, s)"
    using assms(5,6) page r(1) by (auto simp: get_name_list_service_def respond_def bindS_try_get)
  then show ?thesis using r page by blast
qed

section \<open>The queue of a connection\<close>

text \<open>\<open>cn_data\<close> is the writer thread's local variable: what \<^verbatim>\<open>iso.send\<close> has been given and has not finished. \<open>cn_out\<close> is
  what it has sent.\<close>

record connection =
  cn_queue :: "(int \<times> bytes) list"
  cn_queued :: int
  cn_sending :: "int option"
  cn_data :: "bytes option"
  cn_closed :: bool
  cn_out :: "bytes list"

definition new_connection :: connection where
  "new_connection = \<lparr>cn_queue = [], cn_queued = 0, cn_sending = None, cn_data = None, cn_closed = False, cn_out = []\<rparr>"

definition close_connection :: "connection \<Rightarrow> connection" where
  "close_connection cn = cn\<lparr>cn_closed := True, cn_queue := [], cn_queued := 0\<rparr>"

text \<open>\<^verbatim>\<open>send\<close>, of the octets that \<^verbatim>\<open>wrap\<close> makes: queued, or the connection closed when it is behind.\<close>

definition behind :: "int \<Rightarrow> int \<Rightarrow> int \<Rightarrow> bytes \<Rightarrow> connection \<Rightarrow> bool" where
  "behind timeout limit now data cn =
     (let oldest = (case cn_sending cn of Some t \<Rightarrow> t | None \<Rightarrow> (case cn_queue cn of [] \<Rightarrow> now | (t, _) # _ \<Rightarrow> t))
      in now - oldest > timeout \<or> cn_queued cn + int (length data) > limit)"

definition queue_data :: "int \<Rightarrow> int \<Rightarrow> int \<Rightarrow> bytes \<Rightarrow> connection \<Rightarrow> connection" where
  "queue_data timeout limit now data cn =
     (if cn_closed cn then cn
      else if behind timeout limit now data cn then close_connection cn
      else cn\<lparr>cn_queue := cn_queue cn @ [(now, data)], cn_queued := cn_queued cn + int (length data)\<rparr>)"

definition connection_send :: "int \<Rightarrow> int \<Rightarrow> int \<Rightarrow> int \<Rightarrow> bytes \<Rightarrow> connection \<Rightarrow> connection result" where
  "connection_send timeout limit context now mms_pdu cn =
     mapE (\<lambda>data. queue_data timeout limit now data cn) (wrap mms_pdu context)"

text \<open>\<^verbatim>\<open>_write_loop\<close>: a PDU is taken from the queue, then sent, or the send fails and the connection closes.\<close>

definition take_data :: "connection \<Rightarrow> connection" where
  "take_data cn =
     (case cn_queue cn of
        (t, data) # rest \<Rightarrow>
          if cn_closed cn \<or> cn_data cn \<noteq> None then cn
          else cn\<lparr>cn_queue := rest, cn_queued := cn_queued cn - int (length data), cn_sending := Some t, cn_data := Some data\<rparr>
      | [] \<Rightarrow> cn)"

definition data_sent :: "bool \<Rightarrow> connection \<Rightarrow> connection" where
  "data_sent ok cn =
     (case cn_data cn of
        None \<Rightarrow> cn
      | Some data \<Rightarrow>
          if ok then cn\<lparr>cn_out := cn_out cn @ [data], cn_sending := None, cn_data := None\<rparr>
          else close_connection (cn\<lparr>cn_data := None\<rparr>))"

text \<open>What a connection goes through, with what \<^verbatim>\<open>send\<close> has accepted on the way.\<close>

inductive connection_run :: "int \<Rightarrow> int \<Rightarrow> connection \<Rightarrow> bytes list \<Rightarrow> bool" for timeout limit where
  opened: "connection_run timeout limit new_connection []"
| accepted: "connection_run timeout limit cn ds \<Longrightarrow> \<not> cn_closed cn \<Longrightarrow> \<not> behind timeout limit now data cn \<Longrightarrow>
    connection_run timeout limit (queue_data timeout limit now data cn) (ds @ [data])"
| refused: "connection_run timeout limit cn ds \<Longrightarrow> cn_closed cn \<or> behind timeout limit now data cn \<Longrightarrow>
    connection_run timeout limit (queue_data timeout limit now data cn) ds"
| taken: "connection_run timeout limit cn ds \<Longrightarrow> connection_run timeout limit (take_data cn) ds"
| sent: "connection_run timeout limit cn ds \<Longrightarrow> connection_run timeout limit (data_sent ok cn) ds"
| closed: "connection_run timeout limit cn ds \<Longrightarrow> connection_run timeout limit (close_connection cn) ds"

definition in_flight :: "connection \<Rightarrow> bytes list" where
  "in_flight cn = (case cn_data cn of None \<Rightarrow> [] | Some d \<Rightarrow> [d]) @ map snd (cn_queue cn)"

definition connection_inv :: "int \<Rightarrow> connection \<Rightarrow> bytes list \<Rightarrow> bool" where
  "connection_inv limit cn ds \<longleftrightarrow>
     cn_queued cn = int (\<Sum>(t, d)\<leftarrow>cn_queue cn. length d) \<and> cn_queued cn \<le> limit
     \<and> (if cn_closed cn then cn_queue cn = [] \<and> (\<exists>lost. ds = cn_out cn @ in_flight cn @ lost) else ds = cn_out cn @ in_flight cn)
     \<and> (cn_data cn = None \<longrightarrow> \<not> cn_closed cn \<longrightarrow> cn_sending cn = None)"

lemma connection_run_inv: "connection_run timeout limit cn ds \<Longrightarrow> 0 \<le> limit \<Longrightarrow> connection_inv limit cn ds"
proof (induction rule: connection_run.induct)
  case opened
  then show ?case by (simp add: connection_inv_def new_connection_def in_flight_def)
next
  case (accepted cn ds now data)
  then show ?case by (auto simp: connection_inv_def queue_data_def behind_def Let_def in_flight_def)
next
  case (refused cn ds now data)
  then show ?case by (auto simp: connection_inv_def queue_data_def close_connection_def in_flight_def)
next
  case (taken cn ds)
  show ?case
  proof (cases "cn_queue cn = [] \<or> cn_closed cn \<or> cn_data cn \<noteq> None")
    case True
    then have "take_data cn = cn" by (auto simp: take_data_def split: list.split)
    then show ?thesis using taken by simp
  next
    case False
    then obtain t d rest where q: "cn_queue cn = (t, d) # rest" by (metis neq_Nil_conv prod.exhaust)
    then have "take_data cn = cn\<lparr>cn_queue := rest, cn_queued := cn_queued cn - int (length d), cn_sending := Some t, cn_data := Some d\<rparr>"
      using False by (simp add: take_data_def)
    then show ?thesis using taken q False by (simp add: connection_inv_def in_flight_def)
  qed
next
  case (sent cn ds ok)
  show ?case
  proof (cases "cn_data cn = None \<or> \<not> ok")
    case True
    have "\<exists>lost. ds = cn_out cn @ lost" using sent by (auto simp: connection_inv_def split: if_splits)
    then show ?thesis using True sent
      by (cases "cn_data cn") (simp_all add: connection_inv_def data_sent_def close_connection_def in_flight_def)
  next
    case False
    then show ?thesis using sent by (auto simp: connection_inv_def data_sent_def in_flight_def split: if_splits)
  qed
next
  case (closed cn ds)
  then show ?case by (auto simp: connection_inv_def close_connection_def in_flight_def split: if_splits)
qed

section \<open>Properties\<close>

text \<open>C11: what a connection sends goes out in order: as long as it is open, what \<^verbatim>\<open>send\<close> accepted is what went out, what
  is going out and what waits, and once it has closed what went out is the beginning of what was accepted. The octets
  that wait are counted exactly and never exceed the limit, however the requests, the reports and the writer thread
  interleave.\<close>
theorem sent_in_order:
  assumes "connection_run timeout limit cn ds" "0 \<le> limit"
  shows "cn_queued cn = int (\<Sum>(t, d)\<leftarrow>cn_queue cn. length d) \<and> cn_queued cn \<le> limit
    \<and> (\<exists>lost. ds = cn_out cn @ in_flight cn @ lost \<and> (\<not> cn_closed cn \<longrightarrow> lost = []))"
  using connection_run_inv [OF assms] by (auto simp: connection_inv_def split: if_splits)

theorem sent_in_order_witness:
  "\<exists>cn. connection_run 5 10 cn [[1, 2], [3]] \<and> cn_out cn = [[1, 2]] \<and> in_flight cn = [[3]] \<and> cn_queued cn = 1"
proof -
  let ?a = "queue_data 5 10 0 [1, 2] new_connection"
  let ?b = "queue_data 5 10 1 [3] ?a"
  let ?c = "data_sent True (take_data ?b)"
  have "connection_run 5 10 ?a ([] @ [[1, 2]])" by (rule accepted [OF opened]) (simp_all add: new_connection_def behind_def)
  then have "connection_run 5 10 ?b (([] @ [[1, 2]]) @ [[3]])"
    by (rule accepted) (simp_all add: queue_data_def new_connection_def behind_def)
  then have run: "connection_run 5 10 ?c (([] @ [[1, 2]]) @ [[3]])" by (intro connection_run.sent connection_run.taken)
  have "cn_queued ?c = int (\<Sum>(t, d)\<leftarrow>cn_queue ?c. length d)" using sent_in_order [OF run] by simp
  moreover have "cn_out ?c = [[1, 2]]" "in_flight ?c = [[3]]" "cn_queue ?c = [(1, [3])]"
    by (simp_all add: queue_data_def new_connection_def behind_def take_data_def data_sent_def in_flight_def)
  ultimately show ?thesis using run by (intro exI [of _ ?c]) simp
qed

text \<open>C13: a GetNameList response fits the PDU size the association agreed on, and never raises, when the names are ASCII
  and shorter than 128 characters (beyond, a name takes one octet more than the server counts).\<close>
theorem name_list_fits:
  assumes "64 \<le> pdu_size" "pdu_size < 2 ^ 30" "0 \<le> invoke" "invoke < 2 ^ 32"
    "decode_get_name_list_request content = Inr (cls, domain, after)" "domain = None \<or> the domain \<in> fst ` set (im_devices (sv_model srv s))"
    "\<forall>n \<in> set (server_names (sv_model srv s) cls domain). is_ascii n \<and> length n < 128"
  shows "\<exists>r. get_name_list_service srv pdu_size invoke content s = (Inr r, s) \<and> int (length r) \<le> pdu_size"
  using get_name_list_answer [OF assms] by blast

definition example_server :: "ied_model server" where
  "example_server = \<lparr>sv_vendor = asc ''v'', sv_model_name = asc ''m'', sv_revision = asc ''1'', sv_model = (\<lambda>m. m),
     sv_write_model = (\<lambda>obj d m. case write_node m obj d of Inl e \<Rightarrow> (Inl e, m) | Inr (r, m', ch) \<Rightarrow> (Inr r, m')),
     sv_read_hooks = [], sv_write_hooks = [], sv_send = (\<lambda>_ _. ret ()), sv_after_response = (\<lambda>_. ret ()), sv_clear_after = (\<lambda>_. ret ())\<rparr>"

lemma example_domains: "server_names example_model OBJECT_CLASS_DOMAIN None = [asc ''LD'']"
  by (simp add: server_names_def example_model_def)

lemma example_request: "\<exists>bs c. get_name_list_request OBJECT_CLASS_DOMAIN None None = Inr bs \<and> service_tlv SERVICE_GET_NAME_LIST c = Inr bs
    \<and> decode_get_name_list_request c = Inr (OBJECT_CLASS_DOMAIN, None, None)"
proof -
  have "\<exists>bs. get_name_list_request OBJECT_CLASS_DOMAIN None None = Inr bs"
    by (simp add: get_name_list_request_def OBJECT_CLASS_DOMAIN_def service_tlv_def pdu_services encode_eval
        context_tag(1) [of 1 True, simplified] cong: weak_congs)
  then show ?thesis using decode_get_name_list_request_back by blast
qed

theorem name_list_fits_witness:
  "\<exists>c r. decode_get_name_list_request c = Inr (OBJECT_CLASS_DOMAIN, None, None)
    \<and> get_name_list_service example_server 128 7 c example_model = (Inr r, example_model) \<and> int (length r) \<le> 128"
proof -
  obtain c where c: "decode_get_name_list_request c = Inr (OBJECT_CLASS_DOMAIN, None, None)" using example_request by blast
  have "sv_model example_server example_model = example_model" by (simp add: example_server_def)
  then show ?thesis
    using name_list_fits [of 128 7 c OBJECT_CLASS_DOMAIN None None example_server example_model] c example_domains
    by (auto simp: is_ascii_def)
qed

end
