(* ===== verification/Client.thy ===== *)
theory Client
  imports Server "HOL-Library.AList"
begin

text \<open>
  \<^verbatim>\<open>src/open61850/mms/client.py\<close>: what a client makes of responses, the pages of GetNameList, and the requests waiting
  for their response. The receive thread, the callers' threads and their clocks are the steps of the last section: each
  takes the lock once.
\<close>

section \<open>Services\<close>

fun confirmed_result :: "incoming_pdu \<Rightarrow> (int \<times> bytes) result" where
  "confirmed_result (ConfirmedResponse invoke service content) = Inr (service, content)"
| "confirmed_result (ConfirmedError invoke cls code) = Inl ServiceError"
| "confirmed_result (Reject invoke reason code) = Inl MmsReject"
| "confirmed_result (InformationReport n vs rs) = Inl AssertionError"
| "confirmed_result ConcludeResponse = Inl AssertionError"

text \<open>\<^verbatim>\<open>_service\<close>, over what a request gets for the octets of a service.\<close>

definition client_service :: "(bytes \<Rightarrow> incoming_pdu result) \<Rightarrow> bytes result \<Rightarrow> int \<Rightarrow> bytes result" where
  "client_service transact service expected =
     bindE service (\<lambda>s. bindE (transact s) (\<lambda>response. bindE (confirmed_result response) (\<lambda>(n, content).
       if n \<noteq> expected then Inl MmsProtocolError else Inr content)))"

text \<open>\<^verbatim>\<open>get_name_list\<close>: the loop over the pages; the requests are numbered, as their invoke identifiers are.\<close>

fun name_pages :: "(nat \<Rightarrow> ustr option \<Rightarrow> (ustr list \<times> bool) result) \<Rightarrow> nat \<Rightarrow> nat \<Rightarrow> ustr option \<Rightarrow> ustr list \<Rightarrow> ustr list result" where
  "name_pages ask i 0 after listed = Inr listed"
| "name_pages ask i (Suc n) after listed =
     bindE (ask i after) (\<lambda>(page, more_follows).
       if \<not> more_follows \<or> page = [] then Inr (listed @ page)
       else name_pages ask (Suc i) n (Some (last page)) (listed @ page))"

definition get_name_list :: "(nat \<Rightarrow> bytes \<Rightarrow> incoming_pdu result) \<Rightarrow> int \<Rightarrow> ustr option \<Rightarrow> nat \<Rightarrow> ustr list result" where
  "get_name_list transact object_class domain max_pages =
     name_pages (\<lambda>i after. bindE (client_service (transact i) (get_name_list_request object_class domain after) SERVICE_GET_NAME_LIST)
       get_name_list_response) 0 max_pages None []"

definition read_many :: "(bytes \<Rightarrow> incoming_pdu result) \<Rightarrow> object_name list \<Rightarrow> access_result list result" where
  "read_many transact objects =
     bindE (bindE (client_service transact (read_request objects) SERVICE_READ) read_response) (\<lambda>results.
       if length results \<noteq> length objects then Inl MmsProtocolError else Inr results)"

definition client_read :: "(bytes \<Rightarrow> incoming_pdu result) \<Rightarrow> object_name \<Rightarrow> iecdata result" where
  "client_read transact obj =
     bindE (read_many transact [obj]) (\<lambda>results. case results of
       [Access_value d] \<Rightarrow> Inr d
     | [Access_error code] \<Rightarrow> Inl DataAccessError
     | _ \<Rightarrow> Inl ValueError)"

definition write_many :: "(bytes \<Rightarrow> incoming_pdu result) \<Rightarrow> object_name list \<Rightarrow> iecdata list \<Rightarrow> int option list result" where
  "write_many transact objects new_values =
     bindE (bindE (client_service transact (write_request objects new_values) SERVICE_WRITE) write_response) (\<lambda>results.
       if length results \<noteq> length objects then Inl MmsProtocolError else Inr results)"

definition client_write :: "(bytes \<Rightarrow> incoming_pdu result) \<Rightarrow> object_name \<Rightarrow> iecdata \<Rightarrow> unit result" where
  "client_write transact obj d =
     bindE (write_many transact [obj] [d]) (\<lambda>errors. case errors of
       [None] \<Rightarrow> Inr ()
     | [Some code] \<Rightarrow> Inl DataAccessError
     | _ \<Rightarrow> Inl ValueError)"

definition get_type :: "(bytes \<Rightarrow> incoming_pdu result) \<Rightarrow> object_name \<Rightarrow> mms_type result" where
  "get_type transact obj =
     bindE (client_service transact (get_variable_access_attributes_request obj) SERVICE_GET_VARIABLE_ACCESS_ATTRIBUTES)
       get_variable_access_attributes_response"

definition get_data_set_members :: "(bytes \<Rightarrow> incoming_pdu result) \<Rightarrow> object_name \<Rightarrow> object_name list result" where
  "get_data_set_members transact obj =
     bindE (client_service transact (get_named_variable_list_attributes_request obj) SERVICE_GET_NAMED_VARIABLE_LIST_ATTRIBUTES)
       get_named_variable_list_attributes_response"

text \<open>A request answered by a server: the PDUs of both ends, and the state the server keeps.\<close>

definition exchange :: "'s server \<Rightarrow> nat \<Rightarrow> int \<Rightarrow> 's \<Rightarrow> int \<Rightarrow> bytes \<Rightarrow> incoming_pdu result" where
  "exchange srv c pdu_size s invoke service =
     bindE (confirmed_request invoke service) (\<lambda>p. bindE (fst (handle srv c pdu_size p s)) (\<lambda>(r, _). decode_pdu r))"

section \<open>All the names\<close>

lemma fill_page_split: "\<exists>rest. ns = fill_page free ns @ rest"
  by (induction free ns rule: fill_page.induct) (auto simp: Let_def)

lemma fill_page_first: "int (length n) + 2 \<le> free \<Longrightarrow> fill_page free (n # ns) \<noteq> []"
  by (simp add: Let_def)

lemma name_page_after:
  assumes "sorted (xs @ ys)" "distinct (xs @ ys)"
  shows "name_page pdu_size (xs @ ys) (if xs = [] then None else Some (last xs))
    = (fill_page (pdu_size - 64) ys, length xs + length (fill_page (pdu_size - 64) ys) < length xs + length ys)"
proof (cases xs rule: rev_cases)
  case (snoc zs z)
  have start: "drop (bisect_right (xs @ ys) z 0 (length (xs @ ys))) (xs @ ys) = ys"
    using drop_bisect_right [of zs z ys] assms unfolding snoc by simp
  have "bisect_right (xs @ ys) z 0 (length (xs @ ys)) \<le> length (xs @ ys)"
    using bisect_right_bounds [OF assms(1), of 0 "length (xs @ ys)" z] by auto
  then have "bisect_right (xs @ ys) z 0 (length (xs @ ys)) + length ys = length (xs @ ys)"
    using arg_cong [OF start, of length] by simp
  then have "bisect_right (xs @ ys) z 0 (length (xs @ ys)) = length xs" by simp
  then show ?thesis using start snoc by (simp add: name_page_def Let_def)
qed (simp add: name_page_def Let_def)

lemma name_pages_all:
  assumes "sorted (xs @ ys)" "distinct (xs @ ys)" "\<forall>n \<in> set ys. int (length n) + 66 \<le> pdu_size" "length ys \<le> k"
    "\<And>i after. after = None \<or> after \<in> Some ` set (xs @ ys) \<Longrightarrow> ask i after = Inr (name_page pdu_size (xs @ ys) after)"
  shows "name_pages ask i k (if xs = [] then None else Some (last xs)) xs = Inr (xs @ ys)"
  using assms
proof (induction k arbitrary: xs ys i)
  case (Suc k)
  let ?page = "fill_page (pdu_size - 64) ys"
  obtain rest where rest: "ys = ?page @ rest" using fill_page_split by blast
  let ?after = "if xs = [] then None else Some (last xs)"
  have "ask i ?after = Inr (name_page pdu_size (xs @ ys) ?after)" by (rule Suc.prems(5)) simp
  then have page: "ask i ?after = Inr (?page, length xs + length ?page < length xs + length ys)"
    unfolding name_page_after [OF Suc.prems(1,2)] .
  show ?case
  proof (cases "rest = []")
    case True
    then have "?page = ys" using rest by simp
    then show ?thesis using page by simp
  next
    case False
    have "?page \<noteq> []"
    proof (cases ys)
      case (Cons n ns)
      then show ?thesis using fill_page_first [of n "pdu_size - 64" ns] Suc.prems(3) by simp
    qed (use rest False in auto)
    moreover have "length ?page < length ys" using rest False by (metis length_append length_greater_0_conv less_add_same_cancel1)
    ultimately have "name_pages ask i (Suc k) (if xs = [] then None else Some (last xs)) xs
        = name_pages ask (Suc i) k (if xs @ ?page = [] then None else Some (last (xs @ ?page))) (xs @ ?page)"
      using page by simp
    also have "\<dots> = Inr ((xs @ ?page) @ rest)"
    proof (rule Suc.IH)
      show "sorted ((xs @ ?page) @ rest)" "distinct ((xs @ ?page) @ rest)" using Suc.prems(1,2) rest by simp_all
      show "\<forall>n \<in> set rest. int (length n) + 66 \<le> pdu_size" using Suc.prems(3) rest by (metis UnCI set_append)
      show "length rest \<le> k" using Suc.prems(4) \<open>?page \<noteq> []\<close> arg_cong [OF rest, of length] by (cases ?page) auto
      show "\<And>i after. after = None \<or> after \<in> Some ` set ((xs @ ?page) @ rest) \<Longrightarrow>
          ask i after = Inr (name_page pdu_size ((xs @ ?page) @ rest) after)" using Suc.prems(5) rest by simp
    qed
    finally show ?thesis using rest by simp
  qed
qed simp

text \<open>A name that no page can hold cuts the list short: the page is empty though more follows, and the client stops.\<close>

lemma names_cut_short:
  assumes "pdu_size < int (length n) + 66" "ask i None = Inr (name_page pdu_size (n # ns) None)"
  shows "name_pages ask i (Suc k) None [] = Inr []"
  using assms by (simp add: name_page_def Let_def)

lemma request_encodes:
  assumes "0 \<le> cls" "cls < 2 ^ 32" "\<forall>d. domain = Some d \<longrightarrow> is_ascii d \<and> length d < 2 ^ 20" "\<forall>a. after = Some a \<longrightarrow> is_ascii a \<and> length a < 2 ^ 20"
  shows "\<exists>bs. get_name_list_request cls domain after = Inr bs \<and> length bs < 2 ^ 31"
proof -
  obtain oc where oc: "encode_unsigned cls = Inr oc" "length oc \<le> 5" using unsigned_size [OF assms(1,2)] by blast
  obtain ocb where ocb: "encode_tlv 0x80 oc = Inr ocb" "length ocb \<le> 7" using low_tag_size [of "0x80" oc] oc(2) by auto
  obtain a where a: "encode_tlv 0xA0 ocb = Inr a" "length a \<le> 9" using low_tag_size [of "0xA0" ocb] ocb(2) by auto
  have "\<exists>sc. (case domain of None \<Rightarrow> encode_tlv 0x80 [] | Some d \<Rightarrow> bindE (encode_ascii d) (encode_tlv 0x81)) = Inr sc \<and> length sc < 2 ^ 20 + 6"
  proof (cases domain)
    case None
    then show ?thesis using low_tag_size [of "0x80" "[]"] by auto
  next
    case (Some d)
    then have d: "is_ascii d" "length d < 2 ^ 20" using assms(3) by auto
    then obtain sc where "encode_tlv 0x81 (map of_nat d) = Inr sc" "length sc \<le> length d + 6" using low_tag_size [of "0x81" "map of_nat d"] by auto
    then show ?thesis using d Some encode_ascii_ok [OF d(1)] by auto
  qed
  then obtain sc where sc: "(case domain of None \<Rightarrow> encode_tlv 0x80 [] | Some d \<Rightarrow> bindE (encode_ascii d) (encode_tlv 0x81)) = Inr sc"
    "length sc < 2 ^ 20 + 6" by blast
  obtain b where b: "encode_tlv 0xA1 sc = Inr b" "length b \<le> length sc + 6" using low_tag_size [of "0xA1" sc] sc(2) by auto
  have "\<exists>r. cat (case after of None \<Rightarrow> [] | Some c \<Rightarrow> [bindE (encode_ascii c) (encode_tlv 0x82)]) = Inr r \<and> length r < 2 ^ 20 + 6"
  proof (cases after)
    case (Some x)
    then have x: "is_ascii x" "length x < 2 ^ 20" using assms(4) by auto
    then obtain r where "encode_tlv 0x82 (map of_nat x) = Inr r" "length r \<le> length x + 6" using low_tag_size [of "0x82" "map of_nat x"] by auto
    then show ?thesis using x Some encode_ascii_ok [OF x(1)] by auto
  qed simp
  then obtain r where r: "cat (case after of None \<Rightarrow> [] | Some c \<Rightarrow> [bindE (encode_ascii c) (encode_tlv 0x82)]) = Inr r" "length r < 2 ^ 20 + 6" by blast
  have "length (a @ b @ r) < 2 ^ 32" using a(2) b(2) sc(2) r(2) by simp
  then obtain bs where bs: "service_tlv SERVICE_GET_NAME_LIST (a @ b @ r) = Inr bs" "length bs \<le> length (a @ b @ r) + 6"
    using service_size [of 1 "a @ b @ r"] by (auto simp: pdu_services)
  have "get_name_list_request cls domain after = service_tlv SERVICE_GET_NAME_LIST (a @ b @ r)"
    unfolding get_name_list_request_def using oc ocb a sc b r by (cases after) auto
  then show ?thesis using bs a(2) b(2) sc(2) r(2) by simp
qed

text \<open>What a client reads when a server answers its request with the value of its service.\<close>

lemma exchange_answer:
  assumes i: "0 \<le> i" "i < 2 ^ 32" and n: "0 \<le> n" "n < 31" and req: "service_tlv n c = Inr bs" "length bs < 2 ^ 31"
    and after: "\<And>s r. \<exists>s'. thenS (sv_send srv k r) (sv_after_response srv k) s = (Inr (), s')"
    and answer: "confirmed_service srv k pdu_size i n c s = (Inr r, s1)" and r: "confirmed_response i n content = Inr r"
  shows "client_service (exchange srv k pdu_size s i) (Inr bs) n = Inr content"
proof -
  obtain p where p: "confirmed_request i bs = Inr p"
    using confirmed_size [OF i req(2), of "0xA0"] by (auto simp: confirmed_request_def pdu_tags)
  have "decode_request p = Inr (ConfirmedRequest i n c)" by (rule decode_confirmed_request [OF n req(1) p])
  moreover have "try_service srv k pdu_size i n c s = (Inr r, s1)" using answer by (simp add: try_service_def)
  moreover obtain s2 where "thenS (sv_send srv k r) (sv_after_response srv k) s1 = (Inr (), s2)" using after by blast
  ultimately have "handle srv k pdu_size p s = (Inr (r, True), s2)"
    by (auto simp: handle_def bindS_def thenS_def split: prod.splits sum.splits)
  then show ?thesis using p decode_confirmed_response [OF n r] by (simp add: client_service_def exchange_def)
qed

lemma names_asked:
  assumes pdu: "64 \<le> pdu_size" "pdu_size < 2 ^ 30" and i: "0 \<le> i" "i < 2 ^ 32" and cls: "0 \<le> cls" "cls < 2 ^ 32"
    and domain: "domain = None \<or> the domain \<in> fst ` set (im_devices (sv_model srv s))" "\<forall>d. domain = Some d \<longrightarrow> is_ascii d \<and> length d < 2 ^ 20"
    and names: "\<forall>n \<in> set (server_names (sv_model srv s) cls domain). is_ascii n \<and> length n < 128"
    and after: "\<And>s r. \<exists>s'. thenS (sv_send srv k r) (sv_after_response srv k) s = (Inr (), s')" "\<forall>a. asked = Some a \<longrightarrow> is_ascii a \<and> length a < 2 ^ 20"
  shows "bindE (client_service (exchange srv k pdu_size s i) (get_name_list_request cls domain asked) SERVICE_GET_NAME_LIST) get_name_list_response
    = Inr (name_page pdu_size (server_names (sv_model srv s) cls domain) asked)"
proof -
  obtain bs where bs: "get_name_list_request cls domain asked = Inr bs" "length bs < 2 ^ 31"
    using request_encodes [OF cls domain(2) after(2)] by blast
  obtain c where c: "service_tlv SERVICE_GET_NAME_LIST c = Inr bs" "decode_get_name_list_request c = Inr (cls, domain, asked)"
    using decode_get_name_list_request_back [OF bs(1)] by blast
  obtain r page follows where r: "get_name_list_service srv pdu_size i c s = (Inr r, s)"
    "name_page pdu_size (server_names (sv_model srv s) cls domain) asked = (page, follows)"
    "bindE (get_name_list_response_content page follows) (confirmed_response i SERVICE_GET_NAME_LIST) = Inr r"
    using get_name_list_answer [OF pdu i c(2) domain(1) names] by blast
  obtain content where content: "get_name_list_response_content page follows = Inr content"
    "confirmed_response i SERVICE_GET_NAME_LIST content = Inr r" using r(3) by (auto simp: bindE_Inr_iff)
  have "client_service (exchange srv k pdu_size s i) (Inr bs) SERVICE_GET_NAME_LIST = Inr content"
  proof (rule exchange_answer [OF i _ _ c(1) bs(2) after(1) _ content(2)])
    show "confirmed_service srv k pdu_size i SERVICE_GET_NAME_LIST c s = (Inr r, s)" using r(1) by (simp add: confirmed_service_def)
  qed (simp_all add: pdu_services)
  then show ?thesis unfolding bs(1) using get_name_list_response_back [OF content(1)] r(2) by simp
qed

section \<open>The requests that wait\<close>

text \<open>
  A request has its invoke identifier, what it has been given (\<^verbatim>\<open>_Pending\<close>), and whether its caller has left. The
  requests are numbered in the order of their identifiers; \<open>cl_pending\<close> is the dictionary.
\<close>

datatype answer = Response incoming_pdu | Failure exn

record call =
  ca_invoke :: int
  ca_given :: "answer option"
  ca_left :: bool

record client =
  cl_free :: "nat option"
  cl_next :: int
  cl_pending :: "(int \<times> nat) list"
  cl_closed :: "exn option"
  cl_calls :: "call list"

definition new_client :: "int \<Rightarrow> client" where
  "new_client outstanding =
     \<lparr>cl_free = (if outstanding > 0 then Some (nat outstanding) else None), cl_next = 1, cl_pending = [], cl_closed = None, cl_calls = []\<rparr>"

text \<open>\<^verbatim>\<open>request\<close>: a slot is taken, or the time runs out before one is free; and it is given back.\<close>

definition acquire_slot :: "client \<Rightarrow> client result" where
  "acquire_slot cl = (case cl_free cl of
     None \<Rightarrow> Inr cl
   | Some 0 \<Rightarrow> Inl MmsTimeout
   | Some (Suc n) \<Rightarrow> Inr (cl\<lparr>cl_free := Some n\<rparr>))"

definition release_slot :: "client \<Rightarrow> client" where
  "release_slot cl = cl\<lparr>cl_free := map_option Suc (cl_free cl)\<rparr>"

text \<open>\<^verbatim>\<open>_request\<close>: what it does before it sends, when it cannot send or has waited too long, and what it makes of what it
  has been given.\<close>

definition register :: "client \<Rightarrow> int result \<times> client" where
  "register cl =
     (if cl_closed cl \<noteq> None then (Inl MmsConnectionError, cl)
      else let invoke_id = cl_next cl mod 2 ^ 32 in
        (Inr invoke_id, cl\<lparr>cl_next := cl_next cl + 1, cl_pending := AList.update invoke_id (length (cl_calls cl)) (cl_pending cl),
           cl_calls := cl_calls cl @ [\<lparr>ca_invoke = invoke_id, ca_given = None, ca_left = False\<rparr>]\<rparr>))"

definition forget :: "int \<Rightarrow> client \<Rightarrow> client" where
  "forget invoke_id cl = cl\<lparr>cl_pending := AList.delete invoke_id (cl_pending cl)\<rparr>"

definition leave_call :: "nat \<Rightarrow> client \<Rightarrow> client" where
  "leave_call k cl = cl\<lparr>cl_calls := (cl_calls cl)[k := (cl_calls cl ! k)\<lparr>ca_left := True\<rparr>]\<rparr>"

definition request_result :: "answer option \<Rightarrow> (int \<times> bytes) result" where
  "request_result given = (case given of
     None \<Rightarrow> Inl MmsTimeout
   | Some (Failure e) \<Rightarrow> Inl e
   | Some (Response r) \<Rightarrow> confirmed_result r)"

text \<open>\<^verbatim>\<open>_dispatch\<close> but for the listeners, and \<^verbatim>\<open>_fail_all\<close>.\<close>

fun pdu_invoke :: "incoming_pdu \<Rightarrow> int option" where
  "pdu_invoke (ConfirmedResponse invoke service content) = Some invoke"
| "pdu_invoke (ConfirmedError invoke cls code) = Some invoke"
| "pdu_invoke (Reject invoke reason code) = invoke"
| "pdu_invoke (InformationReport n vs rs) = None"
| "pdu_invoke ConcludeResponse = None"

definition give :: "answer \<Rightarrow> nat list \<Rightarrow> client \<Rightarrow> client" where
  "give a ks cl = cl\<lparr>cl_calls := map (\<lambda>(k, ca). if k \<in> set ks then ca\<lparr>ca_given := Some a\<rparr> else ca) (enumerate 0 (cl_calls cl))\<rparr>"

definition dispatch :: "incoming_pdu \<Rightarrow> client \<Rightarrow> client" where
  "dispatch incoming cl = (case pdu_invoke incoming of
     None \<Rightarrow> cl
   | Some invoke_id \<Rightarrow> (case map_of (cl_pending cl) invoke_id of
       None \<Rightarrow> cl
     | Some k \<Rightarrow> give (Response incoming) [k] (forget invoke_id cl)))"

definition fail_all :: "exn \<Rightarrow> client \<Rightarrow> client" where
  "fail_all reason cl =
     (if cl_closed cl \<noteq> None then cl
      else give (Failure reason) (map snd (cl_pending cl)) (cl\<lparr>cl_closed := Some reason, cl_pending := []\<rparr>))"

text \<open>
  What a client goes through, with the number of callers that are past the semaphore. \<open>live\<close> are the requests whose
  caller still waits. A caller leaves when it has been given something, or when it forgets its request.
\<close>

definition live :: "client \<Rightarrow> nat" where
  "live cl = length (filter (\<lambda>ca. \<not> ca_left ca) (cl_calls cl))"

inductive client_run :: "int \<Rightarrow> client \<Rightarrow> nat \<Rightarrow> bool" for outstanding where
  connected: "client_run outstanding (new_client outstanding) 0"
| acquired: "client_run outstanding cl n \<Longrightarrow> acquire_slot cl = Inr cl' \<Longrightarrow> client_run outstanding cl' (n + 1)"
| registered: "client_run outstanding cl n \<Longrightarrow> live cl < n \<Longrightarrow> register cl = (Inr i, cl') \<Longrightarrow> client_run outstanding cl' n"
| turned_away: "client_run outstanding cl n \<Longrightarrow> live cl < n \<Longrightarrow> register cl = (Inl e, cl') \<Longrightarrow>
    client_run outstanding (release_slot cl') (n - 1)"
| left: "client_run outstanding cl n \<Longrightarrow> k < length (cl_calls cl) \<Longrightarrow> \<not> ca_left (cl_calls cl ! k) \<Longrightarrow>
    ca_given (cl_calls cl ! k) \<noteq> None \<Longrightarrow> client_run outstanding (release_slot (leave_call k cl)) (n - 1)"
| gave_up: "client_run outstanding cl n \<Longrightarrow> k < length (cl_calls cl) \<Longrightarrow> \<not> ca_left (cl_calls cl ! k) \<Longrightarrow>
    client_run outstanding (release_slot (leave_call k (forget (ca_invoke (cl_calls cl ! k)) cl))) (n - 1)"
| received: "client_run outstanding cl n \<Longrightarrow> client_run outstanding (dispatch incoming cl) n"
| failed: "client_run outstanding cl n \<Longrightarrow> client_run outstanding (fail_all reason cl) n"

definition wire_id :: "nat \<Rightarrow> int" where
  "wire_id k = (int k + 1) mod 2 ^ 32"

definition call_ok :: "client \<Rightarrow> nat \<Rightarrow> call \<Rightarrow> bool" where
  "call_ok cl k ca \<longleftrightarrow>
     ca_invoke ca = wire_id k \<and> (ca_given ca = None \<longrightarrow> \<not> ca_left ca \<longrightarrow> (wire_id k, k) \<in> set (cl_pending cl))
     \<and> (\<forall>r. ca_given ca = Some (Response r) \<longrightarrow> pdu_invoke r = Some (wire_id k))"

definition pending_ok :: "client \<Rightarrow> bool" where
  "pending_ok cl \<longleftrightarrow> distinct (map fst (cl_pending cl)) \<and> (cl_closed cl \<noteq> None \<longrightarrow> cl_pending cl = [])
     \<and> (\<forall>(i, k) \<in> set (cl_pending cl). k < length (cl_calls cl) \<and> i = wire_id k)"

definition slots_ok :: "int \<Rightarrow> client \<Rightarrow> nat \<Rightarrow> bool" where
  "slots_ok outstanding cl n \<longleftrightarrow>
     live cl \<le> n \<and> cl_free cl = (if outstanding > 0 then Some (nat outstanding - n) else None)
     \<and> (outstanding > 0 \<longrightarrow> int n \<le> outstanding)"

definition client_inv :: "int \<Rightarrow> client \<Rightarrow> nat \<Rightarrow> bool" where
  "client_inv outstanding cl n \<longleftrightarrow>
     cl_next cl = int (length (cl_calls cl)) + 1 \<and> (\<forall>k < length (cl_calls cl). call_ok cl k (cl_calls cl ! k))
     \<and> pending_ok cl \<and> slots_ok outstanding cl n"

lemma wire_id_eval: "k < 2 ^ 32 \<Longrightarrow> wire_id k = (if k = 2 ^ 32 - 1 then 0 else int k + 1)"
  by (auto simp: wire_id_def intro!: mod_pos_pos_trivial)

lemma wire_id_inj: "j < 2 ^ 32 \<Longrightarrow> k < 2 ^ 32 \<Longrightarrow> wire_id j = wire_id k \<Longrightarrow> j = k"
  by (auto simp: wire_id_eval split: if_splits)

lemma give_simps [simp]:
  "length (cl_calls (give a ks cl)) = length (cl_calls cl)" "cl_pending (give a ks cl) = cl_pending cl" "cl_next (give a ks cl) = cl_next cl"
  "cl_closed (give a ks cl) = cl_closed cl" "cl_free (give a ks cl) = cl_free cl"
  by (simp_all add: give_def)

lemma give_nth: "k < length (cl_calls cl) \<Longrightarrow>
    cl_calls (give a ks cl) ! k = (if k \<in> set ks then (cl_calls cl ! k)\<lparr>ca_given := Some a\<rparr> else cl_calls cl ! k)"
  by (simp add: give_def nth_enumerate_eq)

lemma live_give [simp]: "live (give a ks cl) = live cl"
proof -
  have "map ca_left (cl_calls (give a ks cl)) = map ca_left (cl_calls cl)" by (rule nth_equalityI) (simp_all add: give_nth)
  then have "length (filter (\<lambda>x. \<not> x) (map ca_left (cl_calls (give a ks cl)))) = length (filter (\<lambda>x. \<not> x) (map ca_left (cl_calls cl)))" by simp
  then show ?thesis by (simp add: live_def filter_map o_def)
qed

lemma live_leave:
  assumes "k < length (cl_calls cl)" "\<not> ca_left (cl_calls cl ! k)"
  shows "live (leave_call k cl) + 1 = live cl"
proof -
  have c: "cl_calls cl = take k (cl_calls cl) @ (cl_calls cl ! k) # drop (Suc k) (cl_calls cl)" using id_take_nth_drop [OF assms(1)] .
  have "(cl_calls cl)[k := (cl_calls cl ! k)\<lparr>ca_left := True\<rparr>]
      = take k (cl_calls cl) @ (cl_calls cl ! k)\<lparr>ca_left := True\<rparr> # drop (Suc k) (cl_calls cl)" using upd_conv_take_nth_drop [OF assms(1)] .
  then have "live (leave_call k cl) = length (filter (\<lambda>ca. \<not> ca_left ca) (take k (cl_calls cl))) + length (filter (\<lambda>ca. \<not> ca_left ca) (drop (Suc k) (cl_calls cl)))"
    by (simp add: live_def leave_call_def)
  moreover have "live cl = length (filter (\<lambda>ca. \<not> ca_left ca) (take k (cl_calls cl))) + (1 + length (filter (\<lambda>ca. \<not> ca_left ca) (drop (Suc k) (cl_calls cl))))"
    unfolding live_def by (subst c) (simp add: assms(2) del: append_take_drop_id)
  ultimately show ?thesis by simp
qed

lemma acquire_slot_ok:
  assumes "client_inv outstanding cl n" "acquire_slot cl = Inr cl'"
  shows "client_inv outstanding cl' (n + 1)"
proof (cases "cl_free cl")
  case None
  then have "cl' = cl" using assms(2) by (simp add: acquire_slot_def)
  then show ?thesis using assms(1) None by (auto simp: client_inv_def slots_ok_def split: if_splits)
next
  case (Some f)
  then obtain m where m: "f = Suc m" "cl' = cl\<lparr>cl_free := Some m\<rparr>" using assms(2) by (cases f) (auto simp: acquire_slot_def)
  then have "slots_ok outstanding cl' (n + 1)" using assms(1) Some by (auto simp: client_inv_def slots_ok_def live_def split: if_splits)
  then show ?thesis using assms(1) m by (simp add: client_inv_def call_ok_def pending_ok_def)
qed

lemma release_slot_ok: "slots_ok outstanding cl n \<Longrightarrow> live cl < n \<Longrightarrow> slots_ok outstanding (release_slot cl) (n - 1)"
  by (auto simp: slots_ok_def release_slot_def live_def)

lemma release_slot_inv:
  assumes "client_inv outstanding cl n" "live cl < n"
  shows "client_inv outstanding (release_slot cl) (n - 1)"
  using assms(1) release_slot_ok [OF _ assms(2)] by (simp add: client_inv_def call_ok_def pending_ok_def release_slot_def)

lemma update_fresh: "k \<notin> fst ` set al \<Longrightarrow> AList.update k v al = al @ [(k, v)]"
  by (induction al) auto

lemma register_ok:
  assumes inv: "client_inv outstanding cl n" and "live cl < n" and reg: "register cl = (Inr i, cl')" and len: "length (cl_calls cl) < 2 ^ 32 - 1"
  shows "client_inv outstanding cl' n"
proof -
  let ?l = "length (cl_calls cl)"
  have pending: "k < ?l \<and> j = wire_id k" if "(j, k) \<in> set (cl_pending cl)" for j k
    using inv that by (auto simp: client_inv_def pending_ok_def)
  have fresh: "wire_id ?l \<notin> fst ` set (cl_pending cl)"
  proof
    assume "wire_id ?l \<in> fst ` set (cl_pending cl)"
    then obtain k where "(wire_id ?l, k) \<in> set (cl_pending cl)" by auto
    then show False using pending wire_id_inj [of ?l k] len by fastforce
  qed
  have i: "cl_next cl mod 4294967296 = wire_id ?l" using inv by (simp add: client_inv_def wire_id_def)
  have "cl_closed cl = None" using reg by (auto simp: register_def split: if_splits)
  then have cl': "cl' = cl\<lparr>cl_next := cl_next cl + 1, cl_pending := cl_pending cl @ [(wire_id ?l, ?l)],
      cl_calls := cl_calls cl @ [\<lparr>ca_invoke = wire_id ?l, ca_given = None, ca_left = False\<rparr>]\<rparr>"
    using reg update_fresh [OF fresh, of ?l] by (auto simp: register_def i Let_def)
  have "call_ok cl' k (cl_calls cl' ! k)" if "k < length (cl_calls cl')" for k
  proof (cases "k < ?l")
    case True
    then have "call_ok cl k (cl_calls cl ! k)" using inv by (simp add: client_inv_def)
    then show ?thesis using True cl' by (simp add: call_ok_def nth_append)
  next
    case False
    then have "k = ?l" using that cl' by simp
    then show ?thesis using cl' by (simp add: call_ok_def)
  qed
  moreover have "pending_ok cl'"
    using inv fresh \<open>cl_closed cl = None\<close> cl' pending by (fastforce simp: client_inv_def pending_ok_def intro: less_SucI)
  moreover have "slots_ok outstanding cl' n" using inv assms(2) cl' by (auto simp: client_inv_def slots_ok_def live_def)
  ultimately show ?thesis using inv cl' by (simp add: client_inv_def)
qed

lemma forget_pending: "set (cl_pending (forget i cl)) = {(j, k) \<in> set (cl_pending cl). j \<noteq> i}"
  by (auto simp: forget_def AList.delete_eq)

lemma forget_ok: "pending_ok cl \<Longrightarrow> pending_ok (forget i cl)"
  by (auto simp: pending_ok_def forget_def AList.delete_eq distinct_map_filter)

lemma give_ok:
  assumes "call_ok cl k (cl_calls cl ! k)" "k < length (cl_calls cl)"
    "\<And>r. a = Response r \<Longrightarrow> k \<in> set ks \<Longrightarrow> pdu_invoke r = Some (wire_id k)" "k \<notin> set ks \<Longrightarrow> (wire_id k, k) \<in> set (cl_pending cl) \<Longrightarrow> (wire_id k, k) \<in> P"
    "cl_calls cl' = cl_calls cl" "set (cl_pending cl') = P"
  shows "call_ok (give a ks cl') k (cl_calls (give a ks cl') ! k)"
  using assms by (auto simp: call_ok_def give_nth)

lemma dispatch_ok:
  assumes inv: "client_inv outstanding cl n" and len: "length (cl_calls cl) < 2 ^ 32"
  shows "client_inv outstanding (dispatch incoming cl) n"
proof (cases "\<exists>i k. pdu_invoke incoming = Some i \<and> map_of (cl_pending cl) i = Some k")
  case True
  then obtain i k where ik: "pdu_invoke incoming = Some i" "map_of (cl_pending cl) i = Some k" by blast
  then have k: "k < length (cl_calls cl)" "i = wire_id k" using inv map_of_SomeD [OF ik(2)] by (auto simp: client_inv_def pending_ok_def)
  have d: "dispatch incoming cl = give (Response incoming) [k] (forget i cl)" using ik by (simp add: dispatch_def)
  have calls: "cl_calls (forget i cl) = cl_calls cl" by (simp add: forget_def)
  have "call_ok (give (Response incoming) [k] (forget i cl)) j (cl_calls (give (Response incoming) [k] (forget i cl)) ! j)"
    if "j < length (cl_calls cl)" for j
  proof (rule give_ok [OF _ that _ _ calls refl])
    show "call_ok cl j (cl_calls cl ! j)" using inv that by (simp add: client_inv_def)
    show "pdu_invoke r = Some (wire_id j)" if "Response incoming = Response r" "j \<in> set [k]" for r using that ik(1) k(2) by simp
    show "(wire_id j, j) \<in> set (cl_pending (forget i cl))" if "j \<notin> set [k]" "(wire_id j, j) \<in> set (cl_pending cl)"
      using that k wire_id_inj [of j k] len \<open>j < length (cl_calls cl)\<close> by (auto simp: forget_pending)
  qed
  moreover have "pending_ok (give (Response incoming) [k] (forget i cl))"
    using forget_ok [of cl i] inv by (simp add: client_inv_def pending_ok_def)
  moreover have "slots_ok outstanding (give (Response incoming) [k] (forget i cl)) n"
    using inv by (simp add: client_inv_def slots_ok_def) (simp add: forget_def live_def)
  ultimately show ?thesis unfolding d using inv calls by (simp add: client_inv_def) (simp add: forget_def)
next
  case False
  then have "dispatch incoming cl = cl" by (auto simp: dispatch_def split: option.split)
  then show ?thesis using inv by simp
qed

lemma fail_all_ok:
  assumes inv: "client_inv outstanding cl n"
  shows "client_inv outstanding (fail_all reason cl) n"
proof (cases "cl_closed cl")
  case None
  let ?cl = "cl\<lparr>cl_closed := Some reason, cl_pending := []\<rparr>"
  let ?ks = "map snd (cl_pending cl)"
  have d: "fail_all reason cl = give (Failure reason) ?ks ?cl" using None by (simp add: fail_all_def)
  have "call_ok (give (Failure reason) ?ks ?cl) j (cl_calls (give (Failure reason) ?ks ?cl) ! j)" if "j < length (cl_calls cl)" for j
  proof (rule give_ok [OF _ that])
    show "call_ok cl j (cl_calls cl ! j)" using inv that by (simp add: client_inv_def)
    show "(wire_id j, j) \<in> set (cl_pending ?cl)" if "j \<notin> set ?ks" "(wire_id j, j) \<in> set (cl_pending cl)" using that by force
  qed simp_all
  then show ?thesis unfolding d using inv by (simp add: client_inv_def pending_ok_def slots_ok_def) (simp add: live_def)
qed (use inv in \<open>simp add: fail_all_def\<close>)

lemma leave_ok:
  assumes inv: "client_inv outstanding cl n" and k: "k < length (cl_calls cl)" "\<not> ca_left (cl_calls cl ! k)"
    and P: "cl' = cl\<lparr>cl_pending := P\<rparr>" "pending_ok cl'" "\<And>j. j \<noteq> k \<Longrightarrow> j < length (cl_calls cl) \<Longrightarrow> (wire_id j, j) \<in> set (cl_pending cl) \<Longrightarrow> (wire_id j, j) \<in> set P"
  shows "client_inv outstanding (release_slot (leave_call k cl')) (n - 1)"
proof (rule release_slot_inv)
  have live: "live (leave_call k cl') + 1 = live cl" using live_leave [of k cl'] k P(1) by (simp add: live_def)
  then show "live (leave_call k cl') < n" using inv by (simp add: client_inv_def slots_ok_def)
  have "call_ok (leave_call k cl') j (cl_calls (leave_call k cl') ! j)" if "j < length (cl_calls cl)" for j
    using inv that k P(1,3) by (cases "j = k") (auto simp: client_inv_def call_ok_def leave_call_def)
  moreover have "pending_ok (leave_call k cl')" using P(2) by (simp add: pending_ok_def leave_call_def)
  moreover have "slots_ok outstanding (leave_call k cl') n"
    using inv live P(1) by (auto simp: client_inv_def slots_ok_def leave_call_def)
  ultimately show "client_inv outstanding (leave_call k cl') n" using inv P(1) by (simp add: client_inv_def leave_call_def)
qed

lemma client_run_inv: "client_run outstanding cl n \<Longrightarrow> length (cl_calls cl) < 2 ^ 32 \<Longrightarrow> client_inv outstanding cl n"
proof (induction rule: client_run.induct)
  case connected
  then show ?case by (simp add: client_inv_def new_client_def pending_ok_def slots_ok_def live_def)
next
  case (acquired cl n cl')
  then have "length (cl_calls cl) = length (cl_calls cl')" by (auto simp: acquire_slot_def split: option.splits nat.splits)
  then show ?case using acquired acquire_slot_ok by simp
next
  case (registered cl n i cl')
  then have "length (cl_calls cl') = length (cl_calls cl) + 1" by (auto simp: register_def Let_def split: if_splits)
  then show ?case using registered register_ok [OF _ registered(2,3)] by simp
next
  case (turned_away cl n e cl')
  then have "cl' = cl" by (auto simp: register_def Let_def split: if_splits)
  then show ?case using turned_away release_slot_inv by (simp add: release_slot_def)
next
  case (left cl n k)
  then have inv: "client_inv outstanding cl n" by (simp add: release_slot_def leave_call_def)
  show ?case by (rule leave_ok [OF inv left(2,3), of cl "cl_pending cl"]) (use inv in \<open>simp_all add: client_inv_def\<close>)
next
  case (gave_up cl n k)
  let ?i = "ca_invoke (cl_calls cl ! k)"
  have len: "length (cl_calls cl) < 2 ^ 32" using gave_up by (simp add: release_slot_def leave_call_def forget_def)
  then have inv: "client_inv outstanding cl n" using gave_up by simp
  then have "?i = wire_id k" using gave_up(2) by (simp add: client_inv_def call_ok_def)
  then have others: "(wire_id j, j) \<in> set (cl_pending (forget ?i cl))" if "j \<noteq> k" "j < length (cl_calls cl)" "(wire_id j, j) \<in> set (cl_pending cl)" for j
    using that wire_id_inj [of j k] len gave_up(2) by (auto simp: forget_pending)
  show ?case
    by (rule leave_ok [OF inv gave_up(2,3), of _ "cl_pending (forget ?i cl)"])
      (use inv others forget_ok in \<open>auto simp: client_inv_def forget_def\<close>)
next
  case (received cl n incoming)
  have "length (cl_calls (dispatch incoming cl)) = length (cl_calls cl)" by (simp add: dispatch_def forget_def split: option.split)
  then show ?case using received dispatch_ok by simp
next
  case (failed cl n reason)
  have "length (cl_calls (fail_all reason cl)) = length (cl_calls cl)" by (simp add: fail_all_def)
  then show ?case using failed fail_all_ok by simp
qed

section \<open>Properties\<close>

text \<open>C10: a request gets its own response, whatever the threads interleave: up to 2 ^ 32 requests of a connection, what a
  caller is given is the response with the invoke identifier of its request, which no other request has, or why the
  connection ended. Once it has ended nobody waits for ever: every caller has been given something or has left. And no
  more requests are outstanding than the server accepted.\<close>
theorem requests_matched:
  assumes "client_run outstanding cl n" "length (cl_calls cl) < 2 ^ 32"
  shows "distinct (map ca_invoke (cl_calls cl))
    \<and> (\<forall>ca \<in> set (cl_calls cl). \<forall>r. ca_given ca = Some (Response r) \<longrightarrow> pdu_invoke r = Some (ca_invoke ca))
    \<and> (cl_closed cl \<noteq> None \<longrightarrow> (\<forall>ca \<in> set (cl_calls cl). ca_given ca \<noteq> None \<or> ca_left ca))
    \<and> (outstanding > 0 \<longrightarrow> int (live cl) \<le> outstanding)"
proof -
  have inv: "client_inv outstanding cl n" by (rule client_run_inv [OF assms])
  then have ok: "call_ok cl k (cl_calls cl ! k)" if "k < length (cl_calls cl)" for k using that by (simp add: client_inv_def)
  have "distinct (map ca_invoke (cl_calls cl))"
    using ok wire_id_inj assms(2) by (auto simp: distinct_conv_nth call_ok_def)
  moreover have "\<forall>ca \<in> set (cl_calls cl). \<forall>r. ca_given ca = Some (Response r) \<longrightarrow> pdu_invoke r = Some (ca_invoke ca)"
    using ok by (auto simp: in_set_conv_nth call_ok_def)
  moreover have "ca_given ca \<noteq> None \<or> ca_left ca" if closed: "cl_closed cl \<noteq> None" and ca: "ca \<in> set (cl_calls cl)" for ca
  proof -
    obtain k where k: "k < length (cl_calls cl)" "ca = cl_calls cl ! k" using ca by (auto simp: in_set_conv_nth)
    have "cl_pending cl = []" using inv closed by (simp add: client_inv_def pending_ok_def)
    then show ?thesis using ok [OF k(1)] k(2) by (auto simp: call_ok_def)
  qed
  moreover have "outstanding > 0 \<longrightarrow> int (live cl) \<le> outstanding" using inv by (auto simp: client_inv_def slots_ok_def)
  ultimately show ?thesis by blast
qed

theorem requests_matched_witness:
  "\<exists>cl. client_run 1 cl 1 \<and> map ca_given (cl_calls cl) = [Some (Response (ConfirmedResponse 1 4 []))] \<and> live cl \<le> 1"
proof -
  obtain a where a: "acquire_slot (new_client 1) = Inr a" "a = \<lparr>cl_free = Some 0, cl_next = 1, cl_pending = [], cl_closed = None, cl_calls = []\<rparr>"
    by (simp add: acquire_slot_def new_client_def)
  have "client_run 1 a (0 + 1)" by (rule acquired [OF connected a(1)])
  then have start: "client_run 1 a 1" by simp
  have "client_run 1 (snd (register a)) 1"
    by (rule registered [OF start, where i = 1]) (simp_all add: a(2) register_def live_def)
  then have run: "client_run 1 (dispatch (ConfirmedResponse 1 4 []) (snd (register a))) 1" by (rule received)
  have d: "cl_calls (dispatch (ConfirmedResponse 1 4 []) (snd (register a)))
      = [\<lparr>ca_invoke = 1, ca_given = Some (Response (ConfirmedResponse 1 4 [])), ca_left = False\<rparr>]"
    by (simp add: a(2) register_def dispatch_def forget_def give_def)
  have "live (dispatch (ConfirmedResponse 1 4 []) (snd (register a))) \<le> 1" using requests_matched [OF run] unfolding d by simp
  then show ?thesis using run d by (intro exI [of _ "dispatch (ConfirmedResponse 1 4 []) (snd (register a))"]) simp
qed

text \<open>C12: the loop over the pages ends with every name. However the server cuts the list of a class into pages, a client
  that asks for the names after the last one it got, page after page, gets them all, each once and in order, with at
  most one request for each name; requests and responses go through their octets on both sides.\<close>
theorem names_listed_completely:
  assumes "wf_names (sv_model srv s)" "pdu_size < 2 ^ 30" "cls \<in> {OBJECT_CLASS_NAMED_VARIABLE, OBJECT_CLASS_NAMED_VARIABLE_LIST, OBJECT_CLASS_DOMAIN}"
    "\<forall>d. domain = Some d \<longrightarrow> d \<in> fst ` set (im_devices (sv_model srv s)) \<and> is_ascii d \<and> length d < 2 ^ 20"
    "\<forall>n \<in> set (server_names (sv_model srv s) cls domain). is_ascii n \<and> length n < 128 \<and> int (length n) + 66 \<le> pdu_size"
    "64 \<le> pdu_size" "\<And>s r. \<exists>s'. thenS (sv_send srv k r) (sv_after_response srv k) s = (Inr (), s')" "\<And>i. 0 \<le> invoke i \<and> invoke i < 2 ^ 32"
    "length (server_names (sv_model srv s) cls domain) \<le> max_pages"
  shows "get_name_list (\<lambda>i. exchange srv k pdu_size s (invoke i)) cls domain max_pages = Inr (server_names (sv_model srv s) cls domain)"
proof -
  let ?ns = "server_names (sv_model srv s) cls domain"
  have "name_pages (\<lambda>i after. bindE (client_service (exchange srv k pdu_size s (invoke i)) (get_name_list_request cls domain after)
      SERVICE_GET_NAME_LIST) get_name_list_response) 0 max_pages (if ([] :: ustr list) = [] then None else Some (last [])) [] = Inr ([] @ ?ns)"
  proof (rule name_pages_all)
    show "sorted ([] @ ?ns)" "distinct ([] @ ?ns)" using server_names_sorted [OF assms(1)] by simp_all
    show "\<forall>n \<in> set ?ns. int (length n) + 66 \<le> pdu_size" "length ?ns \<le> max_pages" using assms(5,9) by blast+
    fix i after
    assume "after = None \<or> after \<in> Some ` set ([] @ ?ns)"
    then have after: "\<forall>a. after = Some a \<longrightarrow> is_ascii a \<and> length a < 2 ^ 20" using assms(5) by fastforce
    have cls: "0 \<le> cls" "cls < 2 ^ 32"
      using assms(3) by (auto simp: OBJECT_CLASS_NAMED_VARIABLE_def OBJECT_CLASS_NAMED_VARIABLE_LIST_def OBJECT_CLASS_DOMAIN_def)
    show "bindE (client_service (exchange srv k pdu_size s (invoke i)) (get_name_list_request cls domain after) SERVICE_GET_NAME_LIST)
        get_name_list_response = Inr (name_page pdu_size ([] @ ?ns) after)"
      using names_asked [OF assms(6,2) _ _ cls _ _ _ assms(7) after, of "invoke i" domain s] assms(4,5,8)
      by (cases domain) auto
  qed
  then show ?thesis by (simp add: get_name_list_def)
qed

theorem names_listed_completely_witness:
  "get_name_list (\<lambda>i. exchange example_server 0 128 example_model (int i mod 2 ^ 32)) OBJECT_CLASS_DOMAIN None 10000 = Inr [asc ''LD'']"
proof -
  have m: "sv_model example_server example_model = example_model" by (simp add: example_server_def)
  have after: "\<exists>s'. thenS (sv_send example_server 0 r) (sv_after_response example_server 0) s = (Inr (), s')" for s r
    by (simp add: example_server_def thenS_def bindS_def)
  have wf: "wf_names example_model" by (simp add: wf_names_def plain_model_def example_model_def)
  have ok: "\<forall>n \<in> set (server_names example_model OBJECT_CLASS_DOMAIN None). is_ascii n \<and> length n < 128 \<and> int (length n) + 66 \<le> 128"
    unfolding example_domains by (simp add: is_ascii_def)
  have "get_name_list (\<lambda>i. exchange example_server 0 128 example_model (int i mod 2 ^ 32)) OBJECT_CLASS_DOMAIN None 10000
      = Inr (server_names (sv_model example_server example_model) OBJECT_CLASS_DOMAIN None)"
    by (rule names_listed_completely [where invoke = "\<lambda>i. int i mod 2 ^ 32"])
      (use m after wf ok example_domains in simp_all)
  then show ?thesis using m example_domains by simp
qed

end
