(* ===== verification/IpAddress.thy ===== *)
theory IpAddress
  imports Ethernet
begin

text \<open>
  \<^verbatim>\<open>ipaddress.ip_address(text).packed\<close> of the standard library, as far as \<^verbatim>\<open>src/open61850/server/reporting.py\<close> uses it: the
  octets of an IPv4 or IPv6 address, a scope left out, or \<^verbatim>\<open>ValueError\<close>.
\<close>

definition ipv4_octet :: "ustr \<Rightarrow> byte result" where
  "ipv4_octet p =
     (if p = [] \<or> \<not> list_all (\<lambda>c. 48 \<le> c \<and> c \<le> 57) p \<or> length p > 3 \<or> (length p > 1 \<and> hd p = 48) then Inl ValueError
      else octet_of (int (foldl (\<lambda>a c. a * 10 + (c - 48)) 0 p)))"

definition ipv4_packed :: "ustr \<Rightarrow> bytes result" where
  "ipv4_packed s = (let parts = split_on 46 s in if length parts \<noteq> 4 then Inl ValueError else traverse ipv4_octet parts)"

definition hextet :: "ustr \<Rightarrow> bytes result" where
  "hextet p =
     (case those (map hex_digit p) of
        None \<Rightarrow> Inl ValueError
      | Some ds \<Rightarrow> if ds = [] \<or> length ds > 4 then Inl ValueError
          else let n = foldl (\<lambda>a d. a * 16 + d) 0 ds in Inr [of_nat (n div 256), of_nat (n mod 256)])"

text \<open>A part that is an IPv4 address stands for two hextets. Parts are kept with whether they are empty.\<close>

definition ipv6_parts :: "ustr \<Rightarrow> (bool \<times> bytes result) list result" where
  "ipv6_parts s =
     (let parts = split_on 58 s; plain = map (\<lambda>p. (p = [], hextet p)) in
      if length parts < 3 then Inl ValueError
      else if 46 \<in> set (last parts) then
        mapE (\<lambda>o4. plain (butlast parts) @ [(False, Inr (take 2 o4)), (False, Inr (drop 2 o4))]) (ipv4_packed (last parts))
      else Inr (plain parts))"

definition ipv6_packed :: "ustr \<Rightarrow> bytes result" where
  "ipv6_packed s =
     bindE (ipv6_parts s) (\<lambda>parts.
       let n = length parts; gaps = filter (\<lambda>i. fst (parts ! i)) [1..<n - 1];
           all_of = (\<lambda>ps. mapE concat (traverse snd ps)) in
       if n > 9 \<or> length gaps > 1 then Inl ValueError
       else case gaps of
         [] \<Rightarrow> if n \<noteq> 8 \<or> fst (hd parts) \<or> fst (last parts) then Inl ValueError else all_of parts
       | k # _ \<Rightarrow>
           let hi = (if fst (hd parts) then k - 1 else k); lo = (if fst (last parts) then n - k - 2 else n - k - 1) in
           if (fst (hd parts) \<and> hi > 0) \<or> (fst (last parts) \<and> lo > 0) \<or> hi + lo \<ge> 8 then Inl ValueError
           else bindE (all_of (take hi parts)) (\<lambda>a.
             mapE (\<lambda>b. a @ replicate (2 * (8 - (hi + lo))) 0 @ b) (all_of (drop (n - lo) parts))))"

text \<open>\<^verbatim>\<open>IPv6Address._split_scope_id\<close>.\<close>

definition without_scope :: "ustr \<Rightarrow> ustr result" where
  "without_scope s =
     (let addr = takeWhile (\<lambda>c. c \<noteq> 37) s; scope = drop (length addr + 1) s in
      if 37 \<notin> set s then Inr s
      else if scope = [] \<or> 37 \<in> set scope then Inl ValueError else Inr addr)"

definition ip_packed :: "ustr \<Rightarrow> bytes result" where
  "ip_packed s =
     (if 47 \<in> set s then Inl ValueError
      else case ipv4_packed s of
        Inr bs \<Rightarrow> Inr bs
      | Inl _ \<Rightarrow> bindE (without_scope s) ipv6_packed)"

section \<open>Sizes\<close>

lemma length_hextet: "hextet p = Inr bs \<Longrightarrow> length bs = 2"
  by (auto simp: hextet_def Let_def split: option.splits if_splits)

lemma length_ipv4: "ipv4_packed s = Inr bs \<Longrightarrow> length bs = 4"
  by (auto simp: ipv4_packed_def Let_def dest: traverse_length split: if_splits)

lemma length_all_of:
  assumes "traverse snd ps = Inr bss" "\<forall>(e, h) \<in> set ps. \<forall>bs. h = Inr bs \<longrightarrow> length bs = 2"
  shows "length (concat bss) = 2 * length ps"
  using assms by (induction ps arbitrary: bss) (auto simp: bindE_Inr_iff mapE_Inr_iff)

lemma ipv6_parts_hextets:
  assumes "ipv6_parts s = Inr ps"
  shows "\<forall>(e, h) \<in> set ps. \<forall>bs. h = Inr bs \<longrightarrow> length bs = 2"
  using assms
  by (auto simp: ipv6_parts_def Let_def mapE_Inr_iff eq_commute [of "Inr _" "hextet _"] dest!: length_hextet length_ipv4 split: if_splits)

lemma length_ipv6:
  assumes "ipv6_packed s = Inr bs"
  shows "length bs = 16"
proof -
  obtain ps where ps: "ipv6_parts s = Inr ps" using assms by (auto simp: ipv6_packed_def bindE_Inr_iff)
  note two = ipv6_parts_hextets [OF ps]
  have all: "length (concat bss) = 2 * length qs" if "traverse snd qs = Inr bss" "set qs \<subseteq> set ps" for qs bss
    by (rule length_all_of [OF that(1)]) (use two that(2) in blast)
  let ?n = "length ps" and ?g = "filter (\<lambda>i. fst (ps ! i)) [1..<length ps - 1]"
  show ?thesis
  proof (cases ?g)
    case Nil
    then show ?thesis using assms ps all [of ps] by (auto simp: ipv6_packed_def Let_def mapE_Inr_iff split: if_splits)
  next
    case (Cons k g)
    then have "k \<in> set ?g" by simp
    then have k: "1 \<le> k" "k < ?n - 1" by auto
    define hi where "hi = (if fst (hd ps) then k - 1 else k)"
    define lo where "lo = (if fst (last ps) then ?n - k - 2 else ?n - k - 1)"
    obtain as as' where as: "traverse snd (take hi ps) = Inr as" "traverse snd (drop (?n - lo) ps) = Inr as'" "hi + lo < 8"
      "bs = concat as @ replicate (2 * (8 - (hi + lo))) 0 @ concat as'"
      using assms ps Cons by (auto simp: ipv6_packed_def Let_def mapE_Inr_iff bindE_Inr_iff hi_def lo_def split: if_splits)
    have "length (concat as) = 2 * hi" "length (concat as') = 2 * lo"
      using all [OF as(1) set_take_subset] all [OF as(2) set_drop_subset] k by (auto simp: hi_def lo_def)
    then show ?thesis using as(3,4) by simp
  qed
qed

text \<open>An address has 4 or 16 octets.\<close>

lemma length_ip_packed: "ip_packed s = Inr bs \<Longrightarrow> length bs = 4 \<or> length bs = 16"
  by (auto simp: ip_packed_def bindE_Inr_iff dest: length_ipv4 length_ipv6 split: if_splits sum.splits)

end
