(* ===== verification/Reporting.thy ===== *)
theory Reporting
  imports Client Report IpAddress
begin

text \<open>
  \<^verbatim>\<open>src/open61850/server/reporting.py\<close>: the report control blocks of a server. A connection is a number, a time a number of
  microseconds on the monotonic clock; \<open>en_utc\<close> is the wall clock at such a time. A block is named by its key, the
  domain and the item, and keeps the path of its node where the code keeps the node. The timers are a list in the order
  \<^verbatim>\<open>heapq\<close> gives them; an action is the data its closure captures. Locks are left out: each write, close, change or
  timer runs alone.
\<close>

section \<open>State\<close>

definition BUFFER_ENTRIES :: int where "BUFFER_ENTRIES = 1000"
definition BUFFER_BYTES :: int where "BUFFER_BYTES = 256 * 1024"

definition CONFIG :: "ustr list" where
  "CONFIG = map asc [''RptID'', ''DatSet'', ''ConfRev'', ''OptFlds'', ''BufTm'', ''TrgOps'', ''IntgPd'']"

text \<open>\<^verbatim>\<open>_Gathered\<close>, with the number of the timer that flushes it, and \<^verbatim>\<open>_Entry\<close>.\<close>

record gathered =
  ga_timer :: nat
  ga_reasons :: "(nat \<times> reason_code) list"
  ga_values :: "(nat \<times> access_result) list"

record entry =
  be_id :: int
  be_time :: int
  be_indexes :: "nat list"
  be_values :: bytes
  be_reasons :: bytes

definition entry_size :: "entry \<Rightarrow> int" where
  "entry_size e = int (length (be_values e) + length (be_reasons e))"

record rcb =
  rb_domain :: ustr
  rb_path :: "ustr list"
  rb_buffered :: bool
  rb_owner :: "nat option"
  rb_owner_address :: "ustr option"
  rb_reserved_until :: "int option"
  rb_pending :: "gathered option"
  rb_buffer :: "entry list"
  rb_bytes :: int
  rb_max_entries :: int
  rb_max_bytes :: int
  rb_overflowed :: bool
  rb_sent :: int
  rb_next_entry :: int
  rb_integrity_due :: "int option"
  rb_ever_enabled :: bool

definition new_rcb :: "int \<Rightarrow> ustr \<Rightarrow> ustr list \<Rightarrow> bool \<Rightarrow> rcb" where
  "new_rcb buffer_bytes ld path buffered =
     \<lparr>rb_domain = ld, rb_path = path, rb_buffered = buffered, rb_owner = None, rb_owner_address = None,
      rb_reserved_until = None, rb_pending = None, rb_buffer = [], rb_bytes = 0, rb_max_entries = BUFFER_ENTRIES,
      rb_max_bytes = buffer_bytes, rb_overflowed = False, rb_sent = 0, rb_next_entry = 1, rb_integrity_due = None,
      rb_ever_enabled = False\<rparr>"

type_synonym block_key = "ustr \<times> ustr"

datatype timer_action = Lapse block_key int | Integrity block_key int | Flush_gathered block_key

type_synonym member_index = "((ustr \<times> ustr) \<times> block_key \<times> nat) list"

record rp_engine =
  en_model :: ied_model
  en_blocks :: "(block_key \<times> rcb) list"
  en_index :: "member_index option"
  en_timers :: "(int \<times> nat \<times> timer_action) list"
  en_counter :: nat
  en_sent :: "(nat \<times> bytes) list"
  en_address :: "nat \<Rightarrow> ustr"
  en_utc :: "int \<Rightarrow> int"

section \<open>Attributes\<close>

definition attr_path :: "ied_model \<Rightarrow> rcb \<Rightarrow> string \<Rightarrow> ustr list option" where
  "attr_path m b name =
     (if node_at m (rb_domain b) (rb_path b @ [asc name]) \<noteq> None then Some (rb_path b @ [asc name])
      else if name = ''TimeOfEntry'' \<and> node_at m (rb_domain b) (rb_path b @ [asc ''TimeofEntry'']) \<noteq> None then
        Some (rb_path b @ [asc ''TimeofEntry''])
      else None)"

definition attr :: "ied_model \<Rightarrow> rcb \<Rightarrow> string \<Rightarrow> iecdata option result" where
  "attr m b name =
     (case attr_path m b name of
        None \<Rightarrow> Inr None
      | Some p \<Rightarrow> (case node_at m (rb_domain b) p of None \<Rightarrow> Inr None | Some n \<Rightarrow> mapE Some (node_data n)))"

definition rcb_enabled :: "ied_model \<Rightarrow> rcb \<Rightarrow> bool result" where
  "rcb_enabled m b = mapE (\<lambda>v. v = Some (BoolData True)) (attr m b ''RptEna'')"

definition rcb_members :: "ied_model \<Rightarrow> rcb \<Rightarrow> object_name list result" where
  "rcb_members m b =
     mapE (\<lambda>v. case v of
         Some (VisibleStringData s) \<Rightarrow>
           if 47 \<in> set s then
             (case map_of (im_data_sets m) \<lparr>on_item = tl (dropWhile (\<lambda>c. c \<noteq> 47) s), on_domain = Some (takeWhile (\<lambda>c. c \<noteq> 47) s)\<rparr> of
                None \<Rightarrow> [] | Some ms \<Rightarrow> ms)
           else []
       | _ \<Rightarrow> []) (attr m b ''DatSet'')"

definition rcb_trg_ops :: "ied_model \<Rightarrow> rcb \<Rightarrow> trg_ops result" where
  "rcb_trg_ops m b =
     mapE (\<lambda>v. case v of Some (BitStringData bs u) \<Rightarrow> trg_ops_from bs u | _ \<Rightarrow> \<lparr>to_data_change = False, to_quality_change = False,
       to_data_update = False, to_integrity = False, to_general_interrogation = False\<rparr>) (attr m b ''TrgOps'')"

definition rcb_opt_flds :: "ied_model \<Rightarrow> rcb \<Rightarrow> opt_flds result" where
  "rcb_opt_flds m b =
     mapE (\<lambda>v. case v of Some (BitStringData bs u) \<Rightarrow> opt_flds_from bs u | _ \<Rightarrow> \<lparr>of_sequence_number = False,
       of_report_time_stamp = False, of_reason_for_inclusion = False, of_data_set_name = False, of_data_reference = False,
       of_buffer_overflow = False, of_entry_id = False, of_conf_revision = False, of_segmentation = False\<rparr>) (attr m b ''OptFlds'')"

definition rcb_uint :: "ied_model \<Rightarrow> rcb \<Rightarrow> string \<Rightarrow> int result" where
  "rcb_uint m b name =
     mapE (\<lambda>v. case v of Some (UIntData n) \<Rightarrow> n | Some (IntData n) \<Rightarrow> n | _ \<Rightarrow> 0) (attr m b name)"

section \<open>The buffer\<close>

fun drop_oldest :: "int \<Rightarrow> int \<Rightarrow> int \<Rightarrow> entry list \<Rightarrow> int \<Rightarrow> bool \<Rightarrow> entry list \<times> int \<times> bool" where
  "drop_oldest max_entries max_bytes sent (e # f # es) octets overflowed =
     (if int (length (e # f # es)) > max_entries \<or> octets > max_bytes then
        drop_oldest max_entries max_bytes sent (f # es) (octets - entry_size e) (overflowed \<or> be_id e > sent)
      else (e # f # es, octets, overflowed))"
| "drop_oldest max_entries max_bytes sent es octets overflowed = (es, octets, overflowed)"

definition keep_entry :: "entry \<Rightarrow> rcb \<Rightarrow> rcb" where
  "keep_entry e b =
     (case drop_oldest (rb_max_entries b) (rb_max_bytes b) (rb_sent b) (rb_buffer b @ [e]) (rb_bytes b + entry_size e) (rb_overflowed b) of
        (es, octets, overflowed) \<Rightarrow> b\<lparr>rb_buffer := es, rb_bytes := octets, rb_overflowed := overflowed\<rparr>)"

definition purge :: "rcb \<Rightarrow> rcb" where
  "purge b = b\<lparr>rb_buffer := [], rb_bytes := 0, rb_overflowed := False\<rparr>"

section \<open>Operations on a block\<close>

type_synonym 'a rp_op = "(rp_engine, 'a) op"

definition of_rcb :: "block_key \<Rightarrow> (ied_model \<Rightarrow> rcb \<Rightarrow> 'a result) \<Rightarrow> 'a rp_op" where
  "of_rcb key f = try_get (\<lambda>s. case map_of (en_blocks s) key of None \<Rightarrow> Inl KeyError | Some b \<Rightarrow> f (en_model s) b)"

definition put_rcb :: "block_key \<Rightarrow> (rcb \<Rightarrow> rcb) \<Rightarrow> unit rp_op" where
  "put_rcb key f = modify (\<lambda>s. s\<lparr>en_blocks := map (\<lambda>(k, b). (k, if k = key then f b else b)) (en_blocks s)\<rparr>)"

text \<open>\<^verbatim>\<open>node.assign\<close> on an attribute of a block: nobody is told.\<close>

definition assign_attr :: "ustr \<Rightarrow> ustr list \<Rightarrow> iecdata \<Rightarrow> unit rp_op" where
  "assign_attr ld path d = (\<lambda>s. case node_at (en_model s) ld path of
       None \<Rightarrow> (Inr (), s)
     | Some n \<Rightarrow> (case assign n d of
           Inl e \<Rightarrow> (Inl e, s)
         | Inr (n', ch) \<Rightarrow> (Inr (), s\<lparr>en_model := put_node (en_model s) ld path n'\<rparr>)))"

definition set_rcb_attr :: "block_key \<Rightarrow> string \<Rightarrow> iecdata \<Rightarrow> unit rp_op" where
  "set_rcb_attr key name d =
     bindS (of_rcb key (\<lambda>m b. Inr (rb_domain b, attr_path m b name))) (\<lambda>(ld, path). case path of
       None \<Rightarrow> ret ()
     | Some p \<Rightarrow> thenS (assign_attr ld p d) (whenS (name = ''DatSet'') (modify (\<lambda>s. s\<lparr>en_index := None\<rparr>))))"

definition has_child :: "block_key \<Rightarrow> string \<Rightarrow> bool rp_op" where
  "has_child key name = of_rcb key (\<lambda>m b. Inr (node_at m (rb_domain b) (rb_path b @ [asc name]) \<noteq> None))"

text \<open>\<^verbatim>\<open>_address_bytes\<close>, and the reservation.\<close>

definition address_bytes :: "ustr option \<Rightarrow> bytes" where
  "address_bytes address = (case ip_packed (case address of None \<Rightarrow> [] | Some a \<Rightarrow> a) of Inl _ \<Rightarrow> [] | Inr bs \<Rightarrow> bs)"

definition held_by_other :: "(nat \<Rightarrow> ustr) \<Rightarrow> int \<Rightarrow> nat \<Rightarrow> rcb \<Rightarrow> bool" where
  "held_by_other address now c b =
     (case rb_owner b of
        Some o' \<Rightarrow> o' \<noteq> c
      | None \<Rightarrow> (case rb_reserved_until b of
            Some t \<Rightarrow> now < t \<and> Some (address c) \<noteq> rb_owner_address b
          | None \<Rightarrow> False))"

definition take_rcb :: "block_key \<Rightarrow> nat \<Rightarrow> unit rp_op" where
  "take_rcb key c =
     bindS (gets (\<lambda>s. en_address s c)) (\<lambda>address.
     thenS (put_rcb key (\<lambda>b. b\<lparr>rb_owner := Some c, rb_reserved_until := None, rb_owner_address := Some address\<rparr>))
     (bindS (has_child key ''Owner'') (\<lambda>owner.
     thenS (whenS owner (set_rcb_attr key ''Owner'' (OctetStringData (address_bytes (Some address)))))
     (bindS (of_rcb key (\<lambda>m b. Inr (rb_buffered b))) (\<lambda>buffered.
       whenS (\<not> buffered) (set_rcb_attr key ''Resv'' (BoolData True)))))))"

definition release_rcb :: "int \<Rightarrow> block_key \<Rightarrow> int \<Rightarrow> unit rp_op" where
  "release_rcb now key keep_for =
     thenS (put_rcb key (\<lambda>b. b\<lparr>rb_owner := None\<rparr>))
     (if keep_for > 0 then put_rcb key (\<lambda>b. b\<lparr>rb_reserved_until := Some (now + keep_for)\<rparr>)
      else thenS (put_rcb key (\<lambda>b. b\<lparr>rb_reserved_until := None, rb_owner_address := None\<rparr>))
     (bindS (has_child key ''Owner'') (\<lambda>owner.
     thenS (whenS owner (set_rcb_attr key ''Owner'' (OctetStringData [])))
     (bindS (of_rcb key (\<lambda>m b. Inr (rb_buffered b))) (\<lambda>buffered.
       whenS (\<not> buffered) (set_rcb_attr key ''Resv'' (BoolData False)))))))"

text \<open>\<^verbatim>\<open>_at\<close>: a timer goes after the timers due no later.\<close>

fun push_timer :: "int \<times> nat \<times> timer_action \<Rightarrow> (int \<times> nat \<times> timer_action) list \<Rightarrow> (int \<times> nat \<times> timer_action) list" where
  "push_timer t [] = [t]"
| "push_timer t (u # us) = (if fst t < fst u then t # u # us else u # push_timer t us)"

definition at_time :: "int \<Rightarrow> timer_action \<Rightarrow> unit rp_op" where
  "at_time due action =
     modify (\<lambda>s. s\<lparr>en_timers := push_timer (due, en_counter s, action) (en_timers s), en_counter := en_counter s + 1\<rparr>)"

section \<open>Entries and reports\<close>

text \<open>\<^verbatim>\<open>_new_entry\<close>: the values are those at the change, or read now.\<close>

definition entry_value :: "ied_model \<Rightarrow> object_name list \<Rightarrow> (nat \<times> access_result) list \<Rightarrow> nat \<Rightarrow> access_result result" where
  "entry_value m members values i =
     (case map_of values i of
        Some v \<Rightarrow> Inr v
      | None \<Rightarrow> if i < length members then read_node m (members ! i) else Inl IndexError)"

definition make_new_entry :: "int \<Rightarrow> ied_model \<Rightarrow> (nat \<times> reason_code) list \<Rightarrow> (nat \<times> access_result) list \<Rightarrow> rcb \<Rightarrow> entry result" where
  "make_new_entry utc m reasons values b =
     bindE (rcb_members m b) (\<lambda>members.
       let indexes = sort (remdups (map fst reasons)) in
       bindE (bindE (traverse (entry_value m members values) indexes) encode_access_results) (\<lambda>vs.
       bindE (cat (map (\<lambda>i. case map_of reasons i of None \<Rightarrow> Inl KeyError | Some r \<Rightarrow> encode_data (reason_code_bitstring r)) indexes)) (\<lambda>rs.
         Inr \<lparr>be_id = rb_next_entry b, be_time = utc, be_indexes = indexes, be_values = vs, be_reasons = rs\<rparr>)))"

definition new_entry :: "int \<Rightarrow> block_key \<Rightarrow> (nat \<times> reason_code) list \<Rightarrow> (nat \<times> access_result) list \<Rightarrow> entry rp_op" where
  "new_entry now key reasons values =
     bindS (gets (\<lambda>s. en_utc s now)) (\<lambda>utc.
     bindS (of_rcb key (\<lambda>m b. make_new_entry utc m reasons values b)) (\<lambda>e.
       thenS (put_rcb key (\<lambda>b. b\<lparr>rb_next_entry := rb_next_entry b + 1\<rparr>)) (ret e)))"

text \<open>\<^verbatim>\<open>_send\<close>: the values before those of the entry, then the report.\<close>

definition sent_opt_flds :: "ied_model \<Rightarrow> rcb \<Rightarrow> opt_flds result" where
  "sent_opt_flds m b =
     mapE (\<lambda>opt. if rb_buffered b then opt else opt\<lparr>of_buffer_overflow := False, of_entry_id := False\<rparr>) (rcb_opt_flds m b)"

definition or_empty :: "iecdata option \<Rightarrow> iecdata" where
  "or_empty v = (case v of Some d \<Rightarrow> d | None \<Rightarrow> VisibleStringData [])"

definition member_reference :: "object_name list \<Rightarrow> nat \<Rightarrow> access_result result" where
  "member_reference members i =
     (if i < length members then
        Inr (Access_value (VisibleStringData
          ((case on_domain (members ! i) of Some d \<Rightarrow> d | None \<Rightarrow> asc ''None'') @ 47 # on_item (members ! i))))
      else Inl IndexError)"

definition report_head :: "ied_model \<Rightarrow> rcb \<Rightarrow> entry \<Rightarrow> access_result list result" where
  "report_head m b e =
     bindE (sent_opt_flds m b) (\<lambda>opt.
     bindE (rcb_members m b) (\<lambda>members.
     bindE (rcb_uint m b ''SqNum'') (\<lambda>sq_num.
     bindE (attr m b ''RptID'') (\<lambda>rpt_id.
     bindE (if of_report_time_stamp opt then mapE (\<lambda>t. [Access_value (RawData 0x8C t)]) (encode_binary_time (be_time e)) else Inr []) (\<lambda>stamp.
     bindE (if of_data_set_name opt then mapE (\<lambda>d. [Access_value (or_empty d)]) (attr m b ''DatSet'') else Inr []) (\<lambda>dat_set.
     bindE (if rb_buffered b \<and> of_entry_id opt then mapE (\<lambda>i. [Access_value (OctetStringData i)]) (to_bytes 8 (be_id e)) else Inr []) (\<lambda>entry_id.
     bindE (if of_conf_revision opt then mapE (\<lambda>n. [Access_value (UIntData n)]) (rcb_uint m b ''ConfRev'') else Inr []) (\<lambda>conf_rev.
     bindE (if of_data_reference opt then traverse (member_reference members) (be_indexes e) else Inr []) (\<lambda>references.
       Inr ([Access_value (or_empty rpt_id), Access_value (opt_flds_bitstring opt)]
         @ (if of_sequence_number opt then [Access_value (UIntData sq_num)] else [])
         @ stamp @ dat_set
         @ (if rb_buffered b \<and> of_buffer_overflow opt then [Access_value (BoolData (rb_overflowed b))] else [])
         @ entry_id @ conf_rev
         @ [Access_value (bitstring_of (map (\<lambda>i. i \<in> set (be_indexes e)) [0..<length members]))]
         @ references))))))))))"

definition report_tail :: "ied_model \<Rightarrow> rcb \<Rightarrow> entry \<Rightarrow> bytes result" where
  "report_tail m b e =
     mapE (\<lambda>opt. if of_reason_for_inclusion opt then be_values e @ be_reasons e else be_values e) (sent_opt_flds m b)"

definition sq_modulo :: "ied_model \<Rightarrow> rcb \<Rightarrow> int" where
  "sq_modulo m b =
     (case node_at m (rb_domain b) (rb_path b @ [asc ''SqNum'']) of
        None \<Rightarrow> 65536
      | Some n \<Rightarrow> (case n_type n of PrimitiveType k (Some w) \<Rightarrow> if w = 8 then 256 else 65536
          | PrimitiveType k None \<Rightarrow> 65536 | _ \<Rightarrow> 256))"

definition send_entry :: "block_key \<Rightarrow> entry \<Rightarrow> unit rp_op" where
  "send_entry key e =
     bindS (of_rcb key (\<lambda>m b. report_head m b e)) (\<lambda>values.
     bindS (of_rcb key (\<lambda>m b. report_tail m b e)) (\<lambda>encoded.
     bindS (of_rcb key (\<lambda>m b. mapE (\<lambda>sq. UIntData ((sq + 1) mod sq_modulo m b)) (rcb_uint m b ''SqNum''))) (\<lambda>sq.
     thenS (set_rcb_attr key ''SqNum'' sq)
     (thenS (put_rcb key (\<lambda>b. b\<lparr>rb_overflowed := False, rb_sent := max (rb_sent b) (be_id e)\<rparr>))
     (bindS (of_rcb key (\<lambda>m b. Inr (rb_owner b))) (\<lambda>owner. case owner of
        None \<Rightarrow> ret ()
      | Some c \<Rightarrow>
          bindS (try_get (\<lambda>_. information_report values (Some (asc ''RPT'')) [] encoded)) (\<lambda>p.
            modify (\<lambda>s. s\<lparr>en_sent := en_sent s @ [(c, p)]\<rparr>))))))))"

definition deliver :: "block_key \<Rightarrow> entry \<Rightarrow> unit rp_op" where
  "deliver key e =
     bindS (of_rcb key (\<lambda>m b. Inr (rb_buffered b))) (\<lambda>buffered.
     thenS (whenS buffered
        (thenS (put_rcb key (keep_entry e))
        (thenS (bindS (try_get (\<lambda>_. to_bytes 8 (be_id e))) (\<lambda>i. set_rcb_attr key ''EntryID'' (OctetStringData i)))
          (bindS (try_get (\<lambda>_. encode_binary_time (be_time e))) (\<lambda>t. set_rcb_attr key ''TimeOfEntry'' (RawData 0x8C t))))))
     (bindS (of_rcb key rcb_enabled) (\<lambda>enabled. whenS enabled (send_entry key e))))"

definition flush :: "int \<Rightarrow> block_key \<Rightarrow> unit rp_op" where
  "flush now key =
     bindS (of_rcb key (\<lambda>m b. Inr (rb_pending b))) (\<lambda>pending.
     thenS (put_rcb key (\<lambda>b. b\<lparr>rb_pending := None\<rparr>))
     (case pending of
        None \<Rightarrow> ret ()
      | Some g \<Rightarrow> whenS (ga_reasons g \<noteq> []) (bindS (new_entry now key (ga_reasons g) (ga_values g)) (deliver key))))"

definition report_all :: "int \<Rightarrow> block_key \<Rightarrow> reason_code \<Rightarrow> unit rp_op" where
  "report_all now key reason =
     bindS (of_rcb key rcb_members) (\<lambda>members.
     bindS (new_entry now key (map (\<lambda>i. (i, reason)) [0..<length members]) []) (deliver key))"

definition no_reason :: reason_code where
  "no_reason = \<lparr>rc_data_change = False, rc_quality_change = False, rc_data_update = False, rc_integrity = False,
     rc_general_interrogation = False, rc_application_trigger = False\<rparr>"

definition general_interrogation :: "int \<Rightarrow> block_key \<Rightarrow> unit rp_op" where
  "general_interrogation now key =
     bindS (of_rcb key rcb_trg_ops) (\<lambda>trg. whenS (to_general_interrogation trg)
       (thenS (flush now key) (report_all now key (no_reason\<lparr>rc_general_interrogation := True\<rparr>))))"

definition schedule_integrity :: "int \<Rightarrow> block_key \<Rightarrow> unit rp_op" where
  "schedule_integrity now key =
     bindS (of_rcb key (\<lambda>m b. rcb_uint m b ''IntgPd'')) (\<lambda>period.
     bindS (of_rcb key rcb_trg_ops) (\<lambda>trg.
       whenS (period \<noteq> 0 \<and> to_integrity trg)
         (thenS (put_rcb key (\<lambda>b. b\<lparr>rb_integrity_due := Some (now + period * 1000)\<rparr>))
           (at_time (now + period * 1000) (Integrity key (now + period * 1000))))))"

text \<open>\<^verbatim>\<open>_enabled\<close>: a buffered block sends what it kept after EntryID.\<close>

definition entries_after :: "iecdata option \<Rightarrow> rcb \<Rightarrow> entry list" where
  "entries_after v b =
     (let start = (case v of Some (OctetStringData i) \<Rightarrow> from_bytes i | _ \<Rightarrow> 0) in filter (\<lambda>e. be_id e > start) (rb_buffer b))"

definition on_enabled :: "int \<Rightarrow> block_key \<Rightarrow> unit rp_op" where
  "on_enabled now key =
     thenS (put_rcb key (\<lambda>b. b\<lparr>rb_ever_enabled := True\<rparr>))
     (bindS (of_rcb key (\<lambda>m b. Inr (rb_buffered b))) (\<lambda>buffered.
     thenS (whenS buffered
        (bindS (of_rcb key (\<lambda>m b. mapE (\<lambda>v. entries_after v b) (attr m b ''EntryID''))) (for_each (send_entry key))))
     (schedule_integrity now key)))"

section \<open>Writes\<close>

definition fixed_attribute :: "ustr \<Rightarrow> bool" where
  "fixed_attribute a \<longleftrightarrow> a \<in> set (map asc [''SqNum'', ''Owner'', ''TimeOfEntry'', ''TimeofEntry''])"

definition locked_attribute :: "ustr \<Rightarrow> bool" where
  "locked_attribute a \<longleftrightarrow> a \<in> set (CONFIG @ map asc [''PurgeBuf'', ''EntryID'', ''Resv'', ''ResvTms''])"

definition write_rpt_ena :: "int \<Rightarrow> nat \<Rightarrow> block_key \<Rightarrow> ustr \<Rightarrow> ustr list \<Rightarrow> iecdata \<Rightarrow> hook rp_op" where
  "write_rpt_ena now c key ld path d =
     bindS (of_rcb key rcb_enabled) (\<lambda>enabled. case d of
       BoolData v \<Rightarrow>
         if v \<and> \<not> enabled then
           thenS (take_rcb key c) (thenS (assign_attr ld path d) (thenS (on_enabled now key) (ret Handled)))
         else if \<not> v \<and> enabled then
           thenS (assign_attr ld path d) (thenS (flush now key)
             (thenS (put_rcb key (\<lambda>b. b\<lparr>rb_integrity_due := None\<rparr>)) (ret Handled)))
         else ret Handled
     | _ \<Rightarrow> raise AssertionError)"

definition write_rcb :: "int \<Rightarrow> nat \<Rightarrow> block_key \<Rightarrow> ustr \<Rightarrow> ustr list \<Rightarrow> ustr \<Rightarrow> iecdata \<Rightarrow> hook rp_op" where
  "write_rcb now c key ld path a d =
     (if a = asc ''Resv'' then
        (case d of
           BoolData v \<Rightarrow> thenS (if v then take_rcb key c else release_rcb now key 0) (ret Handled)
         | _ \<Rightarrow> raise AssertionError)
      else if a = asc ''ResvTms'' then
        thenS (assign_attr ld path d)
        (bindS (of_rcb key (\<lambda>m b. Inr (rb_owner b))) (\<lambda>owner.
         thenS (if (case d of IntData v \<Rightarrow> v \<noteq> 0 | _ \<Rightarrow> False) then take_rcb key c
                else whenS (owner = Some c) (release_rcb now key 0)) (ret Handled)))
      else if a = asc ''PurgeBuf'' then thenS (whenS (d = BoolData True) (put_rcb key purge)) (ret Handled)
      else if a = asc ''GI'' then
        bindS (of_rcb key rcb_enabled) (\<lambda>enabled.
          thenS (whenS (d = BoolData True \<and> enabled) (general_interrogation now key)) (ret Handled))
      else if a = asc ''RptEna'' then write_rpt_ena now c key ld path d
      else thenS (assign_attr ld path d)
        (thenS (whenS (a = asc ''DatSet'') (modify (\<lambda>s. s\<lparr>en_index := None\<rparr>))) (ret Handled)))"

definition rp_on_write :: "int \<Rightarrow> nat \<Rightarrow> object_name \<Rightarrow> iecdata \<Rightarrow> hook rp_op" where
  "rp_on_write now c obj d =
     (let parts = path_of obj in
      if length parts < 3 \<or> parts ! 1 \<notin> {asc ''BR'', asc ''RP''} then ret Not_theirs
      else let key = (domain_of obj, join 36 (take 3 parts)) in
      bindS (gets (\<lambda>s. map_of (en_blocks s) key)) (\<lambda>block. case block of
        None \<Rightarrow> ret (Refused ACCESS_OBJECT_NON_EXISTENT)
      | Some b \<Rightarrow>
          if length parts \<noteq> 4 then ret (Refused ACCESS_OBJECT_ACCESS_DENIED)
          else let a = parts ! 3; path = rb_path b @ [a] in
          bindS (gets (\<lambda>s. node_at (en_model s) (rb_domain b) path)) (\<lambda>node. case node of
            None \<Rightarrow> ret (Refused ACCESS_OBJECT_NON_EXISTENT)
          | Some n \<Rightarrow>
              if \<not> fits (n_type n) d then ret (Refused ACCESS_TYPE_INCONSISTENT)
              else bindS (gets (\<lambda>s. held_by_other (en_address s) now c b)) (\<lambda>held.
                if held then ret (Refused ACCESS_TEMPORARILY_UNAVAILABLE)
                else if fixed_attribute a then ret (Refused ACCESS_OBJECT_ACCESS_DENIED)
                else bindS (of_rcb key rcb_enabled) (\<lambda>enabled.
                  if enabled \<and> locked_attribute a then ret (Refused ACCESS_TEMPORARILY_UNAVAILABLE)
                  else write_rcb now c key (rb_domain b) path a d)))))"

section \<open>Clients that go, and timers\<close>

definition close_rcb :: "int \<Rightarrow> nat \<Rightarrow> block_key \<Rightarrow> unit rp_op" where
  "close_rcb now c key =
     bindS (of_rcb key (\<lambda>m b. Inr (rb_owner b))) (\<lambda>owner. whenS (owner = Some c)
       (thenS (set_rcb_attr key ''RptEna'' (BoolData False))
       (thenS (put_rcb key (\<lambda>b. b\<lparr>rb_integrity_due := None\<rparr>))
       (bindS (of_rcb key (\<lambda>m b. attr m b ''ResvTms'')) (\<lambda>resv_tms.
       bindS (of_rcb key (\<lambda>m b. Inr (rb_buffered b))) (\<lambda>buffered.
       thenS (release_rcb now key (case resv_tms of
           Some (IntData v) \<Rightarrow> if v > 0 \<and> buffered then v * 1000000 else 0 | _ \<Rightarrow> 0))
       (bindS (of_rcb key (\<lambda>m b. Inr (rb_reserved_until b))) (\<lambda>until. case until of
          None \<Rightarrow> ret ()
        | Some t \<Rightarrow> at_time t (Lapse key t)))))))))"

definition rp_on_close :: "int \<Rightarrow> nat \<Rightarrow> unit rp_op" where
  "rp_on_close now c = bindS (gets (\<lambda>s. map fst (en_blocks s))) (for_each (close_rcb now c))"

definition lapse :: "int \<Rightarrow> block_key \<Rightarrow> int \<Rightarrow> unit rp_op" where
  "lapse now key due =
     bindS (of_rcb key (\<lambda>m b. Inr (rb_owner b = None \<and> rb_reserved_until b = Some due))) (\<lambda>lapsed. whenS lapsed
       (thenS (release_rcb now key 0) (set_rcb_attr key ''ResvTms'' (IntData 0))))"

definition fire_integrity :: "int \<Rightarrow> block_key \<Rightarrow> int \<Rightarrow> unit rp_op" where
  "fire_integrity now key due =
     bindS (of_rcb key (\<lambda>m b. mapE (\<lambda>e. e \<and> rb_integrity_due b = Some due) (rcb_enabled m b))) (\<lambda>go. whenS go
       (thenS (flush now key) (thenS (report_all now key (no_reason\<lparr>rc_integrity := True\<rparr>)) (schedule_integrity now key))))"

definition do_action :: "int \<Rightarrow> nat \<Rightarrow> timer_action \<Rightarrow> unit rp_op" where
  "do_action now n action = (case action of
     Lapse key due \<Rightarrow> lapse now key due
   | Integrity key due \<Rightarrow> fire_integrity now key due
   | Flush_gathered key \<Rightarrow>
       bindS (of_rcb key (\<lambda>m b. Inr (case rb_pending b of Some g \<Rightarrow> ga_timer g = n | None \<Rightarrow> False))) (\<lambda>same.
         whenS same (flush now key)))"

text \<open>\<^verbatim>\<open>_run\<close>, one timer that is due: what its action raises is passed over.\<close>

definition run_timer :: "int \<Rightarrow> rp_engine \<Rightarrow> rp_engine" where
  "run_timer now s = (case en_timers s of
     [] \<Rightarrow> s
   | (due, n, action) # rest \<Rightarrow> if due \<le> now then snd (do_action now n action (s\<lparr>en_timers := rest\<rparr>)) else s)"

section \<open>Changes\<close>

definition rcb_index :: "ied_model \<Rightarrow> (block_key \<times> rcb) list \<Rightarrow> member_index result" where
  "rcb_index m blocks =
     mapE concat (traverse (\<lambda>(key, b). mapE (\<lambda>members. map (\<lambda>(i, n). ((domain_of n, on_item n), key, i)) (enumerate 0 members))
       (rcb_members m b)) blocks)"

definition get_index :: "member_index rp_op" where
  "get_index =
     bindS (gets en_index) (\<lambda>index. case index of
       Some ix \<Rightarrow> ret ix
     | None \<Rightarrow> bindS (try_get (\<lambda>s. rcb_index (en_model s) (en_blocks s))) (\<lambda>ix.
         thenS (modify (\<lambda>s. s\<lparr>en_index := Some ix\<rparr>)) (ret ix)))"

definition merge_reason :: "reason_code option \<Rightarrow> reason_code \<Rightarrow> reason_code" where
  "merge_reason a r = (case a of
     None \<Rightarrow> r
   | Some q \<Rightarrow> \<lparr>rc_data_change = rc_data_change q \<or> rc_data_change r, rc_quality_change = rc_quality_change q \<or> rc_quality_change r,
       rc_data_update = rc_data_update q \<or> rc_data_update r, rc_integrity = rc_integrity q \<or> rc_integrity r,
       rc_general_interrogation = rc_general_interrogation q \<or> rc_general_interrogation r,
       rc_application_trigger = rc_application_trigger q \<or> rc_application_trigger r\<rparr>)"

text \<open>What a block reports of a change: its TrgOps when it reports anything, then the reason for a leaf.\<close>

definition live_trg_ops :: "ied_model \<Rightarrow> rcb \<Rightarrow> trg_ops option result" where
  "live_trg_ops m b =
     bindE (rcb_enabled m b) (\<lambda>enabled.
       if enabled \<or> (rb_buffered b \<and> rb_ever_enabled b) then mapE Some (rcb_trg_ops m b) else Inr None)"

definition change_reason :: "trigger set \<Rightarrow> trg_ops \<Rightarrow> reason_code" where
  "change_reason triggers trg =
     no_reason\<lparr>rc_data_change := Dchg \<in> triggers \<and> to_data_change trg, rc_quality_change := Qchg \<in> triggers \<and> to_quality_change trg,
       rc_data_update := Dupd \<in> triggers \<and> to_data_update trg\<rparr>"

type_synonym found = "(block_key \<times> (nat \<times> reason_code) list) list"

definition add_reason :: "block_key \<Rightarrow> nat \<Rightarrow> reason_code \<Rightarrow> found \<Rightarrow> found" where
  "add_reason key place reason found =
     (let reasons = (case map_of found key of None \<Rightarrow> [] | Some rs \<Rightarrow> rs)
      in AList.update key (AList.update place (merge_reason (map_of reasons place) reason) reasons) found)"

definition reach :: "ied_model \<Rightarrow> (block_key \<times> rcb) list \<Rightarrow> trigger set \<Rightarrow> block_key \<times> nat \<Rightarrow> found \<Rightarrow> found result" where
  "reach m blocks triggers place found =
     (case map_of blocks (fst place) of
        None \<Rightarrow> Inl KeyError
      | Some b \<Rightarrow> mapE (\<lambda>trg. case trg of
            None \<Rightarrow> found
          | Some t \<Rightarrow> (let reason = change_reason triggers t in
              if reason = no_reason then found else add_reason (fst place) (snd place) reason found)) (live_trg_ops m b))"

fun fold_result :: "('a \<Rightarrow> 'b \<Rightarrow> 'b result) \<Rightarrow> 'a list \<Rightarrow> 'b \<Rightarrow> 'b result" where
  "fold_result f [] y = Inr y"
| "fold_result f (x # xs) y = bindE (f x y) (fold_result f xs)"

definition reach_leaf :: "ied_model \<Rightarrow> (block_key \<times> rcb) list \<Rightarrow> member_index \<Rightarrow> ustr \<times> change \<Rightarrow> found \<Rightarrow> found result" where
  "reach_leaf m blocks index leaf found =
     (case leaf of (ld, path, triggers) \<Rightarrow>
        if triggers = {} then Inr found
        else fold_result (reach m blocks triggers)
          (concat (map (\<lambda>n. map snd (filter (\<lambda>(k, _). k = (ld, join 36 (take n path))) index)) (rev [1..<length path + 1]))) found)"

text \<open>\<^verbatim>\<open>_add\<close>: it calls itself once more after a flush, when nothing is gathered any longer. \<open>fuel\<close> bounds that.\<close>

fun add_change :: "nat \<Rightarrow> int \<Rightarrow> block_key \<Rightarrow> (nat \<times> reason_code) list \<Rightarrow> unit rp_op" where
  "add_change 0 now key reasons = raise RuntimeError"
| "add_change (Suc fuel) now key reasons =
     bindS (of_rcb key (\<lambda>m b. bindE (rcb_members m b) (\<lambda>members. traverse (\<lambda>i. mapE (Pair i) (entry_value m members [] i)) (map fst reasons)))) (\<lambda>values.
     bindS (of_rcb key (\<lambda>m b. rcb_uint m b ''BufTm'')) (\<lambda>buf_tm.
     bindS (of_rcb key rcb_enabled) (\<lambda>enabled.
       if buf_tm \<noteq> 0 \<and> enabled then
         bindS (of_rcb key (\<lambda>m b. Inr (rb_pending b))) (\<lambda>pending.
         thenS (whenS (pending = None)
           (bindS (gets en_counter) (\<lambda>n.
             thenS (put_rcb key (\<lambda>b. b\<lparr>rb_pending := Some \<lparr>ga_timer = n, ga_reasons = [], ga_values = []\<rparr>\<rparr>))
               (at_time (now + buf_tm * 1000) (Flush_gathered key)))))
         (if (case pending of None \<Rightarrow> False | Some g \<Rightarrow> \<exists>i \<in> set (map fst reasons). i \<in> set (map fst (ga_reasons g))) then
            thenS (flush now key) (add_change fuel now key reasons)
          else put_rcb key (\<lambda>b. case rb_pending b of
              None \<Rightarrow> b
            | Some g \<Rightarrow> b\<lparr>rb_pending := Some (g\<lparr>ga_reasons := ga_reasons g @ reasons, ga_values := ga_values g @ values\<rparr>)\<rparr>)))
       else bindS (new_entry now key reasons values) (deliver key))))"

definition on_change :: "int \<Rightarrow> (ustr \<times> change) list \<Rightarrow> unit rp_op" where
  "on_change now changed =
     bindS get_index (\<lambda>index.
     bindS (try_get (\<lambda>s. fold_result (reach_leaf (en_model s) (en_blocks s) index) changed [])) (\<lambda>found.
     bindS (gets (\<lambda>s. map fst (en_blocks s))) (for_each (\<lambda>key. case map_of found key of
         None \<Rightarrow> ret ()
       | Some reasons \<Rightarrow> add_change 2 now key reasons))))"

section \<open>The engine of a model\<close>

definition fc_blocks :: "int \<Rightarrow> ustr \<Rightarrow> ustr \<Rightarrow> node \<Rightarrow> string \<Rightarrow> (block_key \<times> rcb) list" where
  "fc_blocks buffer_bytes ld ln x fc =
     (case child (asc fc) (n_children x) of
        None \<Rightarrow> []
      | Some fc_node \<Rightarrow> map (\<lambda>block. let path = [ln, asc fc, n_name block] in
          ((ld, join 36 path), new_rcb buffer_bytes ld path (n_fc block = Some (asc ''BR'')))) (n_children fc_node))"

definition ln_blocks :: "int \<Rightarrow> ustr \<Rightarrow> ustr \<times> node \<Rightarrow> (block_key \<times> rcb) list" where
  "ln_blocks buffer_bytes ld p = concat (map (fc_blocks buffer_bytes ld (fst p) (snd p)) [''BR'', ''RP''])"

definition model_blocks :: "int \<Rightarrow> ied_model \<Rightarrow> (block_key \<times> rcb) list" where
  "model_blocks buffer_bytes m = concat (map (\<lambda>(ld, lns). concat (map (ln_blocks buffer_bytes ld) lns)) (im_devices m))"

definition new_reporting :: "int \<Rightarrow> (nat \<Rightarrow> ustr) \<Rightarrow> (int \<Rightarrow> int) \<Rightarrow> ied_model \<Rightarrow> rp_engine" where
  "new_reporting buffer_bytes address utc m =
     \<lparr>en_model = m, en_blocks = model_blocks buffer_bytes m, en_index = None, en_timers = [], en_counter = 0, en_sent = [],
      en_address = address, en_utc = utc\<rparr>"

end
