(* ===== verification/ReportingInv.thy ===== *)
theory ReportingInv
  imports Reporting
begin

text \<open>
  What every operation of \<^verbatim>\<open>src/open61850/server/reporting.py\<close> keeps, whether it returns or raises: the model stays well
  typed, an enabled block has an owner, the buffer is bounded, in order and counted, the index of the members is never
  stale, and every gathering or reservation has the timer that ends it.
\<close>

section \<open>Assigning to an attribute\<close>

lemma attr_elsewhere:
  assumes "wt_model m" "node_at m ld (p @ [a]) = Some n" "fits (n_type n) d"
  shows "\<exists>n' ch. assign n d = Inr (n', ch) \<and> wt_model (put_node m ld (p @ [a]) n')
    \<and> model_skeleton (put_node m ld (p @ [a]) n') = model_skeleton m \<and> im_data_sets (put_node m ld (p @ [a]) n') = im_data_sets m
    \<and> node_at (put_node m ld (p @ [a]) n') ld (p @ [a]) = Some n' \<and> (\<exists>d'. node_data n' = Inr d' \<and> same_value d' d)
    \<and> (\<forall>ld' q x. (ld', q, x) \<noteq> (ld, p, a) \<longrightarrow> length q = length p \<longrightarrow> node_at (put_node m ld (p @ [a]) n') ld' (q @ [x]) = node_at m ld' (q @ [x]))"
proof -
  have wt: "wt n" using node_at_wt [OF assms(1,2)] by simp
  obtain n' ch d' where a: "assign n d = Inr (n', ch)" "same_shape n n'" "node_data n' = Inr d'" "same_value d' d"
    using assign_ok [OF wt assms(3)] by (auto simp: assigned_def)
  have "node_at (put_node m ld (p @ [a]) n') ld' (q @ [x]) = node_at m ld' (q @ [x])"
    if "(ld', q, x) \<noteq> (ld, p, a)" "length q = length p" for ld' q x
  proof (rule put_node_other [OF assms(2)])
    show "n_name n' = n_name n" using a(2) by simp
    show "ld' \<noteq> ld \<or> \<not> prefix (p @ [a]) (q @ [x]) \<and> \<not> prefix (q @ [x]) (p @ [a])"
      using that by (auto simp: prefix_def)
  qed
  then show ?thesis
    using a put_node_wt [OF assms(1,2)] put_node_skeleton [OF assms(1,2) assign_skeleton(1) [OF a(1)]] put_node_same [OF assms(2), of n']
    by (intro exI [of _ n'] exI [of _ ch] conjI) (auto simp: put_node_def)
qed

definition node_types :: "ied_model \<Rightarrow> ustr \<Rightarrow> ustr list \<Rightarrow> mms_type option" where
  "node_types m ld path = map_option n_type (node_at m ld path)"

lemma node_types_skeleton: "model_skeleton m' = model_skeleton m \<Longrightarrow> node_types m' = node_types m"
proof (intro ext)
  fix ld p
  assume "model_skeleton m' = model_skeleton m"
  then have "map_option skeleton (node_at m' ld p) = map_option skeleton (node_at m ld p)" by (rule same_skeleton_node)
  then have "map_option (n_type \<circ> skeleton) (node_at m' ld p) = map_option (n_type \<circ> skeleton) (node_at m ld p)"
    by (metis option.map_comp)
  then show "node_types m' ld p = node_types m ld p" by (simp add: node_types_def comp_def)
qed

section \<open>The invariant\<close>

text \<open>The attributes the engine itself writes have the types of \<^verbatim>\<open>_BRCB\<close> and \<^verbatim>\<open>_URCB\<close>.\<close>

definition layout_types :: "(string \<times> string \<times> int option) list" where
  "layout_types = [(''RptEna'', ''boolean'', None), (''Resv'', ''boolean'', None), (''EntryID'', ''octet-string'', Some 8),
     (''TimeOfEntry'', ''binary-time'', None), (''TimeofEntry'', ''binary-time'', None), (''ResvTms'', ''integer'', Some 16),
     (''Owner'', ''octet-string'', Some (-64))]"

definition rcb_layout :: "ied_model \<Rightarrow> rcb \<Rightarrow> bool" where
  "rcb_layout m b \<longleftrightarrow>
     (\<forall>(name, kind, n) \<in> set layout_types. node_types m (rb_domain b) (rb_path b @ [asc name]) \<in> {None, Some (PrimitiveType kind n)})
     \<and> node_types m (rb_domain b) (rb_path b @ [asc ''SqNum'']) \<in> {None, Some (PrimitiveType ''unsigned'' (Some 8)), Some (PrimitiveType ''unsigned'' (Some 16))}"

definition buffer_ok :: "rcb \<Rightarrow> bool" where
  "buffer_ok b \<longleftrightarrow>
     rb_bytes b = (\<Sum>e\<leftarrow>rb_buffer b. entry_size e) \<and> rb_max_entries b = BUFFER_ENTRIES \<and> int (length (rb_buffer b)) \<le> rb_max_entries b
     \<and> (rb_bytes b \<le> rb_max_bytes b \<or> length (rb_buffer b) \<le> 1)
     \<and> sorted_wrt (<) (map be_id (rb_buffer b)) \<and> (\<forall>e \<in> set (rb_buffer b). 1 \<le> be_id e \<and> be_id e < rb_next_entry b)
     \<and> 0 \<le> rb_sent b \<and> rb_sent b < rb_next_entry b"

definition owner_ok :: "rcb \<Rightarrow> bool" where
  "owner_ok b \<longleftrightarrow> (rb_owner b \<noteq> None \<longrightarrow> rb_reserved_until b = None \<and> rb_owner_address b \<noteq> None)
     \<and> (rb_reserved_until b \<noteq> None \<longrightarrow> rb_owner_address b \<noteq> None)"

definition timed :: "(int \<times> nat \<times> timer_action) set \<Rightarrow> block_key \<Rightarrow> rcb \<Rightarrow> bool" where
  "timed ts key b \<longleftrightarrow> (\<forall>g. rb_pending b = Some g \<longrightarrow> (\<exists>due. (due, ga_timer g, Flush_gathered key) \<in> ts))
     \<and> (\<forall>t. rb_reserved_until b = Some t \<longrightarrow> (\<exists>n. (t, n, Lapse key t) \<in> ts))"

text \<open>A block is under BR or RP of its logical node.\<close>

definition report_key :: "block_key \<Rightarrow> bool" where
  "report_key key \<longleftrightarrow> split_on 36 (snd key) ! 1 \<in> {asc ''BR'', asc ''RP''}"

definition rcb_ok :: "ied_model \<Rightarrow> (int \<times> nat \<times> timer_action) set \<Rightarrow> block_key \<Rightarrow> rcb \<Rightarrow> bool" where
  "rcb_ok m ts key b \<longleftrightarrow> rb_domain b = fst key \<and> rb_path b = split_on 36 (snd key) \<and> length (split_on 36 (snd key)) = 3 \<and> report_key key
     \<and> rcb_layout m b \<and> buffer_ok b \<and> owner_ok b \<and> timed ts key b \<and> (rcb_enabled m b = Inr True \<longrightarrow> rb_owner b \<noteq> None)"

definition index_ok :: "rp_engine \<Rightarrow> bool" where
  "index_ok s \<longleftrightarrow> (case en_index s of None \<Rightarrow> True | Some ix \<Rightarrow> rcb_index (en_model s) (en_blocks s) = Inr ix)"

text \<open>\<open>ts\<close> are timers that count besides those of the engine: those on their way in or out.\<close>

definition rp_inv :: "(int \<times> nat \<times> timer_action) set \<Rightarrow> rp_engine \<Rightarrow> bool" where
  "rp_inv ts s \<longleftrightarrow> wt_model (en_model s) \<and> distinct (map fst (en_blocks s)) \<and> index_ok s
     \<and> (\<forall>(key, b) \<in> set (en_blocks s). rcb_ok (en_model s) (ts \<union> set (en_timers s)) key b)"

abbreviation "rp_ok \<equiv> rp_inv {}"

lemma rp_inv_iff: "rp_inv ts s \<longleftrightarrow> wt_model (en_model s) \<and> distinct (map fst (en_blocks s)) \<and> index_ok s
    \<and> (\<forall>key b. (key, b) \<in> set (en_blocks s) \<longrightarrow> rcb_ok (en_model s) (ts \<union> set (en_timers s)) key b)"
  unfolding rp_inv_def by (simp only: split_paired_Ball_Sigma case_prod_unfold Ball_def split_paired_All fst_conv snd_conv)

lemma rp_inv_block:
  assumes "rp_inv ts s" "map_of (en_blocks s) key = Some b"
  shows "rcb_ok (en_model s) (ts \<union> set (en_timers s)) key b"
proof -
  have "(key, b) \<in> set (en_blocks s)" by (rule map_of_SomeD [OF assms(2)])
  then show ?thesis using assms(1) unfolding rp_inv_iff by blast
qed

lemma timed_mono: "timed ts key b \<Longrightarrow> ts \<subseteq> ts' \<Longrightarrow> timed ts' key b"
  unfolding timed_def by blast

lemma rcb_ok_mono: "rcb_ok m ts key b \<Longrightarrow> ts \<subseteq> ts' \<Longrightarrow> rcb_ok m ts' key b"
  unfolding rcb_ok_def using timed_mono by blast

lemma rp_inv_mono: "rp_inv ts s \<Longrightarrow> ts \<subseteq> ts' \<Longrightarrow> rp_inv ts' s"
  unfolding rp_inv_iff using rcb_ok_mono [of _ "ts \<union> set (en_timers s)" _ _ "ts' \<union> set (en_timers s)"] by blast

section \<open>Attributes and blocks\<close>

lemma attr_cong:
  assumes "\<And>x. node_at m' (rb_domain b) (rb_path b @ [x]) = node_at m (rb_domain b) (rb_path b @ [x])"
  shows "attr m' b name = attr m b name"
  by (simp add: attr_def attr_path_def assms split: option.split)

lemma attr_fields: "rb_domain b' = rb_domain b \<Longrightarrow> rb_path b' = rb_path b \<Longrightarrow> attr m b' = attr m b"
  by (intro ext) (simp add: attr_def attr_path_def)

lemma rcb_fields:
  assumes "rb_domain b' = rb_domain b" "rb_path b' = rb_path b"
  shows "rcb_enabled m b' = rcb_enabled m b" "rcb_members m b' = rcb_members m b" "rcb_layout m b' = rcb_layout m b"
  using attr_fields [OF assms] by (simp_all add: rcb_enabled_def rcb_members_def rcb_layout_def assms)

lemma map_of_put: "map_of (map (\<lambda>(k, b). (k, if k = key then f b else b)) bs) k
    = (if k = key then map_option f (map_of bs k) else map_of bs k)"
  by (induction bs) auto

lemma rcb_index_cong: "(\<And>k b. (k, b) \<in> set bs \<Longrightarrow> rcb_members m' b = rcb_members m b) \<Longrightarrow> rcb_index m' bs = rcb_index m bs"
  unfolding rcb_index_def by (intro arg_cong [where f = "mapE concat"] traverse_cong refl) auto

lemma rcb_index_put:
  assumes "\<And>b. rb_domain (f b) = rb_domain b \<and> rb_path (f b) = rb_path b"
  shows "rcb_index m (map (\<lambda>(k, b). (k, if k = key then f b else b)) bs) = rcb_index m bs"
proof -
  have "rcb_members m (f b) = rcb_members m b" for b using rcb_fields(2) [of "f b" b] assms by simp
  then show ?thesis
    unfolding rcb_index_def traverse_map by (intro arg_cong [where f = "mapE concat"] traverse_cong refl) auto
qed

text \<open>A block changed in place.\<close>

lemma put_rcb_ok:
  assumes inv: "rp_inv ts s" and key: "map_of (en_blocks s) key = Some b"
    and f: "\<And>b. rb_domain (f b) = rb_domain b \<and> rb_path (f b) = rb_path b"
    and ok: "rcb_ok (en_model s) (ts \<union> set (en_timers s)) key b \<Longrightarrow> buffer_ok (f b) \<and> owner_ok (f b) \<and> timed (ts' \<union> set (en_timers s)) key (f b)
      \<and> (rcb_enabled (en_model s) b = Inr True \<longrightarrow> rb_owner (f b) \<noteq> None)"
    and others: "\<And>k c. (k, c) \<in> set (en_blocks s) \<Longrightarrow> k \<noteq> key \<Longrightarrow> timed (ts \<union> set (en_timers s)) k c \<Longrightarrow> timed (ts' \<union> set (en_timers s)) k c"
  shows "rp_inv ts' (s\<lparr>en_blocks := map (\<lambda>(k, b). (k, if k = key then f b else b)) (en_blocks s)\<rparr>)"
proof -
  have d: "distinct (map fst (en_blocks s))" using inv by (simp add: rp_inv_def)
  have "rcb_ok (en_model s) (ts' \<union> set (en_timers s)) k (if k = key then f c else c)" if "(k, c) \<in> set (en_blocks s)" for k c
  proof (cases "k = key")
    case True
    then have "c = b" using map_of_is_SomeI [OF d that] key by simp
    moreover have "rcb_ok (en_model s) (ts \<union> set (en_timers s)) key b" by (rule rp_inv_block [OF inv key])
    ultimately show ?thesis using True ok rcb_fields [of "f b" b] f [of b] by (simp add: rcb_ok_def)
  next
    case False
    have "rcb_ok (en_model s) (ts \<union> set (en_timers s)) k c" using inv that by (auto simp: rp_inv_def)
    then show ?thesis using False others [OF that False] by (simp add: rcb_ok_def)
  qed
  moreover have "distinct (map fst (map (\<lambda>(k, b). (k, if k = key then f b else b)) (en_blocks s)))"
    using d by (simp add: case_prod_unfold comp_def)
  ultimately show ?thesis using inv rcb_index_put [of f, OF f] by (auto simp: rp_inv_def index_ok_def simp del: map_map split: option.splits)
qed

text \<open>An attribute assigned a value that fits: RptEna becomes TRUE for a block with an owner only, and DatSet with the
  index forgotten.\<close>

lemma same_bool: "same_value d' (BoolData v) \<longleftrightarrow> d' = BoolData v"
  by (cases d') auto

lemma attr_simple: "name \<noteq> ''TimeOfEntry'' \<Longrightarrow> attr m b name =
    (case node_at m (rb_domain b) (rb_path b @ [asc name]) of None \<Rightarrow> Inr None | Some n \<Rightarrow> mapE Some (node_data n))"
  by (cases "node_at m (rb_domain b) (rb_path b @ [asc name])") (simp_all add: attr_def attr_path_def)

lemma same_block:
  assumes "rcb_ok m ts k c" "rcb_ok m ts' k' b" "rb_domain c = rb_domain b" "rb_path c = rb_path b"
  shows "k = k'"
proof -
  have "fst k = fst k'" "split_on 36 (snd k) = split_on 36 (snd k')" using assms by (simp_all add: rcb_ok_def)
  then show ?thesis using join_split by (metis prod_eqI)
qed

lemma assign_attr_ok:
  assumes inv: "rp_inv ts s" and key: "map_of (en_blocks s) key = Some b"
    and d: "\<And>n. node_at (en_model s) (rb_domain b) (rb_path b @ [a]) = Some n \<Longrightarrow> fits (n_type n) d"
    and ena: "a = asc ''RptEna'' \<Longrightarrow> d = BoolData True \<Longrightarrow> rb_owner b \<noteq> None"
  shows "\<exists>m. assign_attr (rb_domain b) (rb_path b @ [a]) d s = (Inr (), s\<lparr>en_model := m\<rparr>) \<and> rp_inv ts (s\<lparr>en_model := m, en_index := None\<rparr>)
    \<and> (a \<noteq> asc ''DatSet'' \<longrightarrow> rp_inv ts (s\<lparr>en_model := m\<rparr>))
    \<and> (rcb_enabled m b = Inr True \<longrightarrow> (if a = asc ''RptEna'' then d = BoolData True else rcb_enabled (en_model s) b = Inr True))"
proof (cases "node_at (en_model s) (rb_domain b) (rb_path b @ [a])")
  case None
  moreover have "rp_inv ts (s\<lparr>en_model := en_model s, en_index := None\<rparr>)" using inv by (simp add: rp_inv_iff index_ok_def)
  moreover have "a = asc ''RptEna'' \<Longrightarrow> rcb_enabled (en_model s) b = Inr False" using None by (simp add: rcb_enabled_def attr_simple)
  ultimately show ?thesis using inv by (intro exI [of _ "en_model s"]) (auto simp: assign_attr_def)
next
  case (Some n)
  let ?m = "en_model s"
  have b: "rcb_ok ?m (ts \<union> set (en_timers s)) key b" by (rule rp_inv_block [OF inv key])
  obtain n' ch where a: "assign n d = Inr (n', ch)" "wt_model (put_node ?m (rb_domain b) (rb_path b @ [a]) n')"
    "model_skeleton (put_node ?m (rb_domain b) (rb_path b @ [a]) n') = model_skeleton ?m"
    "im_data_sets (put_node ?m (rb_domain b) (rb_path b @ [a]) n') = im_data_sets ?m"
    "node_at (put_node ?m (rb_domain b) (rb_path b @ [a]) n') (rb_domain b) (rb_path b @ [a]) = Some n'"
    "\<exists>d'. node_data n' = Inr d' \<and> same_value d' d"
    "\<And>ld q x. (ld, q, x) \<noteq> (rb_domain b, rb_path b, a) \<Longrightarrow> length q = length (rb_path b) \<Longrightarrow>
      node_at (put_node ?m (rb_domain b) (rb_path b @ [a]) n') ld (q @ [x]) = node_at ?m ld (q @ [x])"
    using attr_elsewhere [OF _ Some d [OF Some]] inv unfolding rp_inv_iff by blast
  define m where "m = put_node ?m (rb_domain b) (rb_path b @ [a]) n'"
  note a = a [folded m_def]
  have same: "attr m c name = attr ?m c name"
    if "rcb_ok ?m (ts \<union> set (en_timers s)) k c" "k \<noteq> key \<or> asc name \<noteq> a" "name \<noteq> ''TimeOfEntry''" for k c name
  proof -
    have "(rb_domain c, rb_path c, asc name) \<noteq> (rb_domain b, rb_path b, a)"
      using same_block [OF that(1) b] that(2) by blast
    moreover have "length (rb_path c) = length (rb_path b)" using that(1) b by (simp add: rcb_ok_def)
    ultimately show ?thesis using a(7) [of "rb_domain c" "rb_path c" "asc name"] by (simp add: attr_simple [OF that(3)])
  qed
  have enabled: "rcb_enabled m c = Inr True \<Longrightarrow> rb_owner c \<noteq> None" if c: "(k, c) \<in> set (en_blocks s)" "rcb_ok ?m (ts \<union> set (en_timers s)) k c" for k c
  proof (cases "k = key \<and> a = asc ''RptEna''")
    case True
    have "c = b" using map_of_is_SomeI [of "en_blocks s" k c] inv c(1) key True by (auto simp: rp_inv_iff)
    assume "rcb_enabled m c = Inr True"
    then have "node_data n' = Inr (BoolData True)"
      using a(5,6) True \<open>c = b\<close> by (auto simp: rcb_enabled_def attr_simple mapE_Inr_iff)
    then have "d = BoolData True" using a(6) by (cases d) auto
    then show ?thesis using ena True \<open>c = b\<close> by blast
  next
    case False
    then have "rcb_enabled m c = rcb_enabled ?m c" using same [OF c(2), of "''RptEna''"] by (auto simp: rcb_enabled_def)
    moreover assume "rcb_enabled m c = Inr True"
    ultimately show ?thesis using c(2) by (simp add: rcb_ok_def)
  qed
  have types: "node_types m = node_types ?m" by (rule node_types_skeleton [OF a(3)])
  have blocks: "rcb_ok m (ts \<union> set (en_timers s)) k c" if c: "(k, c) \<in> set (en_blocks s)" for k c
  proof -
    have ok: "rcb_ok ?m (ts \<union> set (en_timers s)) k c" using inv c unfolding rp_inv_iff by blast
    have "rcb_layout m c = rcb_layout ?m c" using types by (simp add: rcb_layout_def)
    then show ?thesis using ok enabled [OF c ok] unfolding rcb_ok_def by blast
  qed
  have "rcb_index m (en_blocks s) = rcb_index ?m (en_blocks s)" if "a \<noteq> asc ''DatSet''"
  proof (rule rcb_index_cong)
    fix k c assume c: "(k, c) \<in> set (en_blocks s)"
    have ok: "rcb_ok ?m (ts \<union> set (en_timers s)) k c" using inv c unfolding rp_inv_iff by blast
    have "attr m c ''DatSet'' = attr ?m c ''DatSet''" using same [OF ok, of "''DatSet''"] that by auto
    then show "rcb_members m c = rcb_members ?m c" unfolding rcb_members_def a(4) by (rule arg_cong)
  qed
  then have "a \<noteq> asc ''DatSet'' \<longrightarrow> rp_inv ts (s\<lparr>en_model := m\<rparr>)"
    using inv a(2) blocks by (auto simp: rp_inv_iff index_ok_def split: option.splits)
  moreover have "rp_inv ts (s\<lparr>en_model := m, en_index := None\<rparr>)"
    using inv a(2) blocks by (auto simp: rp_inv_iff index_ok_def)
  moreover have "rcb_enabled m b = Inr True \<longrightarrow> (if a = asc ''RptEna'' then d = BoolData True else rcb_enabled ?m b = Inr True)"
  proof (cases "a = asc ''RptEna''")
    case True
    have "node_data n' = Inr (BoolData True) \<Longrightarrow> d = BoolData True" using a(6) by (cases d) auto
    then show ?thesis using a(5) True by (auto simp: rcb_enabled_def attr_simple mapE_Inr_iff)
  next
    case False
    then have "attr m b ''RptEna'' = attr ?m b ''RptEna''" using same [OF b, of "''RptEna''"] by auto
    then show ?thesis using False by (simp add: rcb_enabled_def)
  qed
  ultimately show ?thesis using Some a(1) by (intro exI [of _ m]) (simp add: assign_attr_def m_def)
qed

section \<open>Steps\<close>

text \<open>Every operation on a block starts from the invariant and ends in it, with what its caller knows of the blocks.\<close>

definition block_of :: "block_key \<Rightarrow> bool \<Rightarrow> (rcb \<Rightarrow> bool) \<Rightarrow> rp_engine \<Rightarrow> bool" where
  "block_of key off R s \<longleftrightarrow> (\<exists>b. map_of (en_blocks s) key = Some b \<and> R b \<and> (off \<longrightarrow> rcb_enabled (en_model s) b \<noteq> Inr True))"

text \<open>\<open>off\<close>: the block is known not to be enabled.\<close>

definition step :: "(int \<times> nat \<times> timer_action) set \<Rightarrow> block_key \<Rightarrow> bool \<Rightarrow> (rcb \<Rightarrow> bool) \<Rightarrow> 'a rp_op \<Rightarrow> ('a \<Rightarrow> rcb \<Rightarrow> bool) \<Rightarrow> bool" where
  "step ts key off R m S \<longleftrightarrow> holds (\<lambda>s. rp_inv ts s \<and> block_of key off R s) m (\<lambda>x s. rp_inv ts s \<and> block_of key off (S x) s) (rp_inv ts)"

lemma step_weaken: "step ts key off R m S \<Longrightarrow> (\<And>b. R' b \<Longrightarrow> R b) \<Longrightarrow> (\<And>x b. S x b \<Longrightarrow> S' x b) \<Longrightarrow> step ts key off R' m S'"
  unfolding step_def by (erule holds_weaken) (auto simp: block_of_def)

lemma step_bind: "step ts key off R m S \<Longrightarrow> (\<And>x. step ts key off (S x) (f x) T) \<Longrightarrow> step ts key off R (bindS m f) T"
  unfolding step_def by (rule holds_bind)

lemma step_then: "step ts key off R m (\<lambda>_. S) \<Longrightarrow> step ts key off S n T \<Longrightarrow> step ts key off R (thenS m n) T"
  unfolding thenS_def by (rule step_bind)

lemma step_ret: "(\<And>b. R b \<Longrightarrow> S x b) \<Longrightarrow> step ts key off R (ret x) S"
  unfolding step_def by (rule holds_ret) (auto simp: block_of_def)

lemma step_raise: "step ts key off R (raise e) S"
  unfolding step_def by (rule holds_raise) simp

lemma step_when: "(c \<Longrightarrow> step ts key off R m (\<lambda>_. S)) \<Longrightarrow> (\<And>b. \<not> c \<Longrightarrow> R b \<Longrightarrow> S b) \<Longrightarrow> step ts key off R (whenS c m) (\<lambda>_. S)"
  unfolding whenS_def by (auto intro: step_ret)

lemma step_when_same: "(c \<Longrightarrow> step ts key off R m (\<lambda>_. R)) \<Longrightarrow> step ts key off R (whenS c m) (\<lambda>_. R)"
  by (rule step_when)

lemma step_if: "(c \<Longrightarrow> step ts key off R m S) \<Longrightarrow> (\<not> c \<Longrightarrow> step ts key off R n S) \<Longrightarrow> step ts key off R (if c then m else n) S"
  by simp

lemma step_gets: "(\<And>x. step ts key off R (f x) S) \<Longrightarrow> step ts key off R (bindS (gets g) f) S"
  by (auto simp: step_def holds_def)

lemma step_try: "(\<And>x. step ts key off R (f x) S) \<Longrightarrow> step ts key off R (bindS (try_get g) f) S"
  by (auto simp: step_def holds_def bindS_try_get split: sum.split)

lemma step_of_rcb: "(\<And>m b x. R b \<Longrightarrow> f m b = Inr x \<Longrightarrow> S x b) \<Longrightarrow> step ts key off R (of_rcb key f) S"
  unfolding step_def of_rcb_def by (rule holds_try_get) (auto simp: block_of_def split: option.splits)

lemma step_read: "(\<And>x. step ts key off R (f x) S) \<Longrightarrow> step ts key off R (bindS (of_rcb key g) f) S"
  by (rule step_bind [OF step_of_rcb [where S = "\<lambda>_. R"]])

lemma holds_read_bind: "(\<And>x. holds P (f x) Q E) \<Longrightarrow> (\<And>s. P s \<Longrightarrow> E s) \<Longrightarrow> holds P (bindS (of_rcb key g) f) Q E"
  by (auto simp: holds_def of_rcb_def bindS_try_get split: sum.split option.split)

text \<open>What is read of the block itself is known of it.\<close>

lemma step_field: "(\<And>x. step ts key off (\<lambda>b. R b \<and> h b = x) (f x) S) \<Longrightarrow> step ts key off R (bindS (of_rcb key (\<lambda>m b. Inr (h b))) f) S"
  by (rule step_bind [OF step_of_rcb [where S = "\<lambda>x b. R b \<and> h b = x"]]) auto

lemma step_for_each: "(\<And>x. x \<in> set xs \<Longrightarrow> step ts key off R (f x) (\<lambda>_. R)) \<Longrightarrow> step ts key off R (for_each f xs) (\<lambda>_. R)"
  by (induction xs) (auto intro!: step_ret step_then)

definition harmless :: "(rcb \<Rightarrow> rcb) \<Rightarrow> bool" where
  "harmless f \<longleftrightarrow> (\<forall>b. rb_domain (f b) = rb_domain b \<and> rb_path (f b) = rb_path b
     \<and> map_option ga_timer (rb_pending (f b)) \<in> {None, map_option ga_timer (rb_pending b)} \<and> rb_reserved_until (f b) \<in> {None, rb_reserved_until b})"

lemma timed_fewer: "timed ts key b \<Longrightarrow> map_option ga_timer (rb_pending b') \<in> {None, map_option ga_timer (rb_pending b)} \<Longrightarrow> rb_reserved_until b' \<in> {None, rb_reserved_until b} \<Longrightarrow> timed ts key b'"
  by (cases "rb_pending b") (auto simp: timed_def)

lemma step_put:
  assumes f: "harmless f" and b: "\<And>b. R b \<Longrightarrow> buffer_ok b \<Longrightarrow> owner_ok b \<Longrightarrow> buffer_ok (f b) \<and> owner_ok (f b) \<and> S (f b)"
    and owner: "off \<or> (\<forall>b. rb_owner b \<noteq> None \<longrightarrow> rb_owner (f b) \<noteq> None)"
  shows "step ts key off R (put_rcb key f) (\<lambda>_. S)"
  unfolding put_rcb_def step_def
proof (rule holds_modify, elim conjE)
  fix s assume inv: "rp_inv ts s" and "block_of key off R s"
  then obtain b where b': "map_of (en_blocks s) key = Some b" "R b" "off \<longrightarrow> rcb_enabled (en_model s) b \<noteq> Inr True"
    by (auto simp: block_of_def)
  let ?s = "s\<lparr>en_blocks := map (\<lambda>(k, b). (k, if k = key then f b else b)) (en_blocks s)\<rparr>"
  have ok: "rcb_ok (en_model s) (ts \<union> set (en_timers s)) key b" by (rule rp_inv_block [OF inv b'(1)])
  have "rp_inv ts ?s"
  proof (rule put_rcb_ok [OF inv b'(1)])
    show "rb_domain (f b) = rb_domain b \<and> rb_path (f b) = rb_path b" for b using f by (simp add: harmless_def)
    show "buffer_ok (f b) \<and> owner_ok (f b) \<and> timed (ts \<union> set (en_timers s)) key (f b) \<and> (rcb_enabled (en_model s) b = Inr True \<longrightarrow> rb_owner (f b) \<noteq> None)"
      using ok b b'(2,3) f owner timed_fewer [of "ts \<union> set (en_timers s)" key b "f b"] by (auto simp: rcb_ok_def harmless_def)
  qed
  moreover have "block_of key off S ?s"
    using b' b ok f rcb_fields(1) [of "f b" b] by (auto simp: block_of_def map_of_put rcb_ok_def harmless_def)
  ultimately show "rp_inv ts ?s \<and> block_of key off S ?s" ..
qed

lemma set_attr_run:
  assumes inv: "rp_inv ts s" and b: "map_of (en_blocks s) key = Some b"
    and fit: "\<And>m b a n. rcb_layout m b \<Longrightarrow> attr_path m b name = Some (rb_path b @ [a]) \<Longrightarrow>
      node_at m (rb_domain b) (rb_path b @ [a]) = Some n \<Longrightarrow> fits (n_type n) d"
    and name: "name \<noteq> ''DatSet''" and ena: "name = ''RptEna'' \<Longrightarrow> d \<noteq> BoolData True"
  shows "\<exists>m. set_rcb_attr key name d s = (Inr (), s\<lparr>en_model := m\<rparr>) \<and> rp_inv ts (s\<lparr>en_model := m\<rparr>)
    \<and> (rcb_enabled m b = Inr True \<longrightarrow> name \<noteq> ''RptEna'' \<and> rcb_enabled (en_model s) b = Inr True)"
proof (cases "attr_path (en_model s) b name")
  case None
  then have "set_rcb_attr key name d s = (Inr (), s\<lparr>en_model := en_model s\<rparr>)" using b by (simp add: set_rcb_attr_def bindS_def of_rcb_def)
  moreover have "rcb_enabled (en_model s) b = Inr False" if "name = ''RptEna''" using None that by (simp add: rcb_enabled_def attr_def)
  ultimately show ?thesis using inv by (intro exI [of _ "en_model s"]) auto
next
  case (Some p)
  then have "p = rb_path b @ [asc name] \<or> name = ''TimeOfEntry'' \<and> p = rb_path b @ [asc ''TimeofEntry'']"
    by (auto simp: attr_path_def split: if_splits)
  then obtain x where p: "p = rb_path b @ [asc x]" "x = name \<or> name = ''TimeOfEntry'' \<and> x = ''TimeofEntry''" by blast
  have ok: "rcb_ok (en_model s) (ts \<union> set (en_timers s)) key b" by (rule rp_inv_block [OF inv b])
  have "\<exists>m. assign_attr (rb_domain b) (rb_path b @ [asc x]) d s = (Inr (), s\<lparr>en_model := m\<rparr>) \<and> rp_inv ts (s\<lparr>en_model := m, en_index := None\<rparr>)
    \<and> (asc x \<noteq> asc ''DatSet'' \<longrightarrow> rp_inv ts (s\<lparr>en_model := m\<rparr>))
    \<and> (rcb_enabled m b = Inr True \<longrightarrow> (if asc x = asc ''RptEna'' then d = BoolData True else rcb_enabled (en_model s) b = Inr True))"
  proof (rule assign_attr_ok [OF inv b])
    show "fits (n_type n) d" if "node_at (en_model s) (rb_domain b) (rb_path b @ [asc x]) = Some n" for n
      using fit [OF _ _ that] ok Some p(1) by (simp add: rcb_ok_def)
    show "rb_owner b \<noteq> None" if "asc x = asc ''RptEna''" "d = BoolData True" using that(2) asc_inj [OF that(1)] p(2) ena by auto
  qed
  then obtain m where m: "assign_attr (rb_domain b) p d s = (Inr (), s\<lparr>en_model := m\<rparr>)" "asc x \<noteq> asc ''DatSet'' \<longrightarrow> rp_inv ts (s\<lparr>en_model := m\<rparr>)"
    "rcb_enabled m b = Inr True \<longrightarrow> (if asc x = asc ''RptEna'' then d = BoolData True else rcb_enabled (en_model s) b = Inr True)"
    using p(1) by blast
  have "asc x \<noteq> asc ''DatSet''" using asc_inj [of x "''DatSet''"] p(2) name by auto
  moreover have "rcb_enabled m b = Inr True \<longrightarrow> name \<noteq> ''RptEna'' \<and> rcb_enabled (en_model s) b = Inr True"
    using m(3) ena p(2) by (auto simp: asc_inj split: if_splits)
  moreover have "set_rcb_attr key name d s = (Inr (), s\<lparr>en_model := m\<rparr>)"
    using b Some m(1) name by (simp add: set_rcb_attr_def bindS_def thenS_def of_rcb_def whenS_def)
  ultimately show ?thesis using m(2) by blast
qed

lemma step_set_attr:
  assumes "\<And>m b a n. rcb_layout m b \<Longrightarrow> attr_path m b name = Some (rb_path b @ [a]) \<Longrightarrow>
      node_at m (rb_domain b) (rb_path b @ [a]) = Some n \<Longrightarrow> fits (n_type n) d" "name \<noteq> ''DatSet''" "name = ''RptEna'' \<Longrightarrow> d \<noteq> BoolData True"
  shows "step ts key off R (set_rcb_attr key name d) (\<lambda>_. R)"
  unfolding step_def
proof (rule holdsI, elim conjE)
  fix s assume inv: "rp_inv ts s" and R: "block_of key off R s"
  then obtain b where b: "map_of (en_blocks s) key = Some b" "R b" "off \<longrightarrow> rcb_enabled (en_model s) b \<noteq> Inr True"
    by (auto simp: block_of_def)
  obtain m where "set_rcb_attr key name d s = (Inr (), s\<lparr>en_model := m\<rparr>)" "rp_inv ts (s\<lparr>en_model := m\<rparr>)"
    "rcb_enabled m b = Inr True \<longrightarrow> name \<noteq> ''RptEna'' \<and> rcb_enabled (en_model s) b = Inr True"
    using set_attr_run [OF inv b(1), of name d] assms by blast
  then show "case set_rcb_attr key name d s of (Inl e, s') \<Rightarrow> rp_inv ts s' | (Inr x, s') \<Rightarrow> rp_inv ts s' \<and> block_of key off R s'"
    using b by (auto simp: block_of_def)
qed

section \<open>Reservation\<close>

lemma layout_fits:
  assumes "rcb_layout m b" "(name, kind, k) \<in> set layout_types" "node_at m (rb_domain b) (rb_path b @ [asc name]) = Some n" "primitive_fits kind k d"
  shows "fits (n_type n) d"
  using assms by (fastforce simp: rcb_layout_def node_types_def)

lemma attr_path_name: "attr_path m b name = Some (rb_path b @ [a]) \<Longrightarrow> a = asc name \<or> name = ''TimeOfEntry'' \<and> a = asc ''TimeofEntry''"
  by (auto simp: attr_path_def split: if_splits)

text \<open>The attributes the engine writes.\<close>

lemma step_set_layout:
  assumes "(name, kind, k) \<in> set layout_types" "primitive_fits kind k d" "name = ''RptEna'' \<Longrightarrow> d \<noteq> BoolData True"
  shows "step ts key off R (set_rcb_attr key name d) (\<lambda>_. R)"
proof (rule step_set_attr)
  fix m b a n
  assume l: "rcb_layout m b" and p: "attr_path m b name = Some (rb_path b @ [a])" and n: "node_at m (rb_domain b) (rb_path b @ [a]) = Some n"
  show "fits (n_type n) d"
  proof (cases "a = asc name")
    case True
    then show ?thesis using layout_fits [OF l assms(1) _ assms(2)] n by simp
  next
    case False
    then have t: "name = ''TimeOfEntry''" "a = asc ''TimeofEntry''" using attr_path_name [OF p] by auto
    then have "kind = ''binary-time''" "k = None" using assms(1) by (auto simp: layout_types_def)
    moreover have "(''TimeofEntry'', ''binary-time'', None) \<in> set layout_types" by (simp add: layout_types_def)
    ultimately show ?thesis using layout_fits [OF l _ n [unfolded t(2)], of "''binary-time''" None d] assms(2) by simp
  qed
qed (use assms in \<open>auto simp: layout_types_def\<close>)

lemma address_fits [simp]: "size_fits (int (length (address_bytes a))) (Some (- 64))"
  using length_ip_packed [of "case a of None \<Rightarrow> [] | Some x \<Rightarrow> x"] by (auto simp: size_fits_def address_bytes_def split: sum.split)

lemma empty_fits [simp]: "size_fits 0 (Some (- 64))"
  by (simp add: size_fits_def)

lemma step_owner: "step ts key off R (set_rcb_attr key ''Owner'' (OctetStringData (address_bytes a))) (\<lambda>_. R)"
  "step ts key off R (set_rcb_attr key ''Owner'' (OctetStringData [])) (\<lambda>_. R)"
  by (rule step_set_layout [where kind = "''octet-string''" and k = "Some (-64)"], simp_all add: layout_types_def)+

lemma step_resv: "step ts key off R (set_rcb_attr key ''Resv'' (BoolData v)) (\<lambda>_. R)"
  by (rule step_set_layout [where kind = "''boolean''" and k = None]) (simp_all add: layout_types_def)

lemma step_take: "step ts key off R (take_rcb key c) (\<lambda>_ b. rb_owner b = Some c)"
  unfolding take_rcb_def has_child_def
proof (rule step_gets, rule step_then)
  show "step ts key off R (put_rcb key (\<lambda>b. b\<lparr>rb_owner := Some c, rb_reserved_until := None, rb_owner_address := Some x\<rparr>))
     (\<lambda>_ b. rb_owner b = Some c)" for x
    by (rule step_put) (auto simp: harmless_def owner_ok_def buffer_ok_def)
qed (rule step_read step_then step_when_same step_owner step_resv)+

lemma step_release: "step ts key True R (release_rcb now key 0) (\<lambda>_ b. True)"
  unfolding release_rcb_def has_child_def
proof (rule step_then)
  show "step ts key True R (put_rcb key (\<lambda>b. b\<lparr>rb_owner := None\<rparr>)) (\<lambda>_ b. rb_owner b = None)"
    by (rule step_put) (auto simp: harmless_def owner_ok_def buffer_ok_def)
  have "step ts key True (\<lambda>b. rb_owner b = None) (put_rcb key (\<lambda>b. b\<lparr>rb_reserved_until := None, rb_owner_address := None\<rparr>)) (\<lambda>_ b. True)"
    by (rule step_put) (auto simp: harmless_def owner_ok_def buffer_ok_def)
  then show "step ts key True (\<lambda>b. rb_owner b = None) (if 0 < (0::int) then put_rcb key (\<lambda>b. b\<lparr>rb_reserved_until := Some (now + 0)\<rparr>)
      else thenS (put_rcb key (\<lambda>b. b\<lparr>rb_reserved_until := None, rb_owner_address := None\<rparr>))
     (bindS (of_rcb key (\<lambda>m b. Inr (node_at m (rb_domain b) (rb_path b @ [asc ''Owner'']) \<noteq> None))) (\<lambda>owner.
     thenS (whenS owner (set_rcb_attr key ''Owner'' (OctetStringData [])))
     (bindS (of_rcb key (\<lambda>m b. Inr (rb_buffered b))) (\<lambda>buffered.
       whenS (\<not> buffered) (set_rcb_attr key ''Resv'' (BoolData False))))))) (\<lambda>_ b. True)"
    by (simp only: less_irrefl if_False) (rule step_then step_read step_when_same step_owner step_resv | assumption)+
qed

section \<open>Entries and reports\<close>

lemma step_try_const: "(\<And>x. c = Inr x \<Longrightarrow> step ts key off R (f x) S) \<Longrightarrow> step ts key off R (bindS (try_get (\<lambda>_. c)) f) S"
  by (cases c) (auto simp: step_def holds_def bindS_try_get)

definition fresh :: "entry \<Rightarrow> rcb \<Rightarrow> bool" where
  "fresh e b \<longleftrightarrow> rb_next_entry b = be_id e + 1 \<and> 1 \<le> be_id e \<and> (\<forall>x \<in> set (rb_buffer b). be_id x < be_id e) \<and> rb_sent b < be_id e"

lemma step_new_entry: "step ts key off R (new_entry now key reasons values) fresh"
  unfolding new_entry_def
proof (rule step_gets, rule step_bind, rule step_of_rcb)
  show "be_id e = rb_next_entry b" if "make_new_entry utc m reasons values b = Inr e" for m b e utc
    using that by (auto simp: make_new_entry_def bindE_Inr_iff Let_def)
  show "step ts key off (\<lambda>b. be_id e = rb_next_entry b) (thenS (put_rcb key (\<lambda>b. b\<lparr>rb_next_entry := rb_next_entry b + 1\<rparr>)) (ret e)) fresh" for e
    by (rule step_then, rule step_put [where S = "fresh e"]) (auto simp: harmless_def owner_ok_def buffer_ok_def fresh_def intro: step_ret)
qed

lemma drop_oldest_spec:
  assumes "drop_oldest max_entries max_bytes sent es octets overflowed = (es', octets', overflowed')"
  shows "\<exists>k. es' = drop k es \<and> octets' = octets - (\<Sum>e\<leftarrow>take k es. entry_size e)
    \<and> overflowed' = (overflowed \<or> (\<exists>e \<in> set (take k es). be_id e > sent))
    \<and> (length es' \<le> 1 \<or> int (length es') \<le> max_entries \<and> octets' \<le> max_bytes) \<and> (es \<noteq> [] \<longrightarrow> es' \<noteq> [] \<and> last es' = last es)"
  using assms
proof (induction max_entries max_bytes sent es octets overflowed rule: drop_oldest.induct)
  case (1 max_entries max_bytes sent e f es octets overflowed)
  show ?case
  proof (cases "int (length (e # f # es)) > max_entries \<or> octets > max_bytes")
    case True
    then obtain k where "es' = drop k (f # es) \<and> octets' = octets - entry_size e - (\<Sum>e\<leftarrow>take k (f # es). entry_size e)
      \<and> overflowed' = ((overflowed \<or> be_id e > sent) \<or> (\<exists>e \<in> set (take k (f # es)). be_id e > sent))
      \<and> (length es' \<le> 1 \<or> int (length es') \<le> max_entries \<and> octets' \<le> max_bytes) \<and> (f # es \<noteq> [] \<longrightarrow> es' \<noteq> [] \<and> last es' = last (f # es))"
      using 1 by auto
    then show ?thesis by (intro exI [of _ "Suc k"]) auto
  next
    case False
    then show ?thesis using 1(2) by (intro exI [of _ 0]) auto
  qed
qed (auto intro!: exI [of _ 0])

lemma keep_entry_spec:
  "\<exists>k. rb_buffer (keep_entry e b) = drop k (rb_buffer b @ [e]) \<and> k \<le> length (rb_buffer b)
    \<and> rb_overflowed (keep_entry e b) = (rb_overflowed b \<or> (\<exists>x \<in> set (take k (rb_buffer b)). be_id x > rb_sent b))
    \<and> rb_bytes (keep_entry e b) = rb_bytes b + entry_size e - (\<Sum>x\<leftarrow>take k (rb_buffer b). entry_size x)
    \<and> (length (rb_buffer (keep_entry e b)) \<le> 1
       \<or> int (length (rb_buffer (keep_entry e b))) \<le> rb_max_entries b \<and> rb_bytes (keep_entry e b) \<le> rb_max_bytes b)"
proof -
  obtain es n o' where d: "drop_oldest (rb_max_entries b) (rb_max_bytes b) (rb_sent b) (rb_buffer b @ [e]) (rb_bytes b + entry_size e)
      (rb_overflowed b) = (es, n, o')" by (metis prod.exhaust)
  then obtain k where k: "es = drop k (rb_buffer b @ [e])" "n = rb_bytes b + entry_size e - (\<Sum>e\<leftarrow>take k (rb_buffer b @ [e]). entry_size e)"
    "o' = (rb_overflowed b \<or> (\<exists>x \<in> set (take k (rb_buffer b @ [e])). be_id x > rb_sent b))"
    "length es \<le> 1 \<or> int (length es) \<le> rb_max_entries b \<and> n \<le> rb_max_bytes b" "es \<noteq> []"
    using drop_oldest_spec [OF d] by blast
  have "k \<le> length (rb_buffer b)" using k(1,5) by (cases "k \<le> length (rb_buffer b)") auto
  then show ?thesis using d k by (intro exI [of _ k]) (simp add: keep_entry_def)
qed

lemma keep_entry_fields [simp]:
  "rb_domain (keep_entry e b) = rb_domain b" "rb_path (keep_entry e b) = rb_path b" "rb_owner (keep_entry e b) = rb_owner b"
  "rb_owner_address (keep_entry e b) = rb_owner_address b" "rb_pending (keep_entry e b) = rb_pending b" "rb_max_entries (keep_entry e b) = rb_max_entries b"
  "rb_reserved_until (keep_entry e b) = rb_reserved_until b" "rb_next_entry (keep_entry e b) = rb_next_entry b"
  "rb_sent (keep_entry e b) = rb_sent b" "rb_max_bytes (keep_entry e b) = rb_max_bytes b"
  by (simp_all add: keep_entry_def split: prod.split)

lemma keep_entry_ok:
  assumes "buffer_ok b" "fresh e b"
  shows "buffer_ok (keep_entry e b)"
proof -
  obtain k where k: "rb_buffer (keep_entry e b) = drop k (rb_buffer b @ [e])" "k \<le> length (rb_buffer b)"
    "rb_bytes (keep_entry e b) = rb_bytes b + entry_size e - (\<Sum>x\<leftarrow>take k (rb_buffer b). entry_size x)"
    "length (rb_buffer (keep_entry e b)) \<le> 1
       \<or> int (length (rb_buffer (keep_entry e b))) \<le> rb_max_entries b \<and> rb_bytes (keep_entry e b) \<le> rb_max_bytes b"
    using keep_entry_spec by blast
  have "(\<Sum>x\<leftarrow>rb_buffer b. entry_size x) = (\<Sum>x\<leftarrow>take k (rb_buffer b). entry_size x) + (\<Sum>x\<leftarrow>drop k (rb_buffer b). entry_size x)"
    by (metis append_take_drop_id map_append sum_list_append)
  then have bytes: "rb_bytes (keep_entry e b) = (\<Sum>x\<leftarrow>rb_buffer (keep_entry e b). entry_size x)"
    using k(1-3) assms(1) by (simp add: buffer_ok_def)
  have "sorted_wrt (<) (map be_id (rb_buffer b @ [e]))" using assms by (auto simp: buffer_ok_def fresh_def sorted_wrt_append)
  then have "sorted_wrt (<) (map be_id (rb_buffer (keep_entry e b)))" unfolding k(1) drop_map [symmetric] by (rule sorted_wrt_drop)
  moreover have "\<forall>x \<in> set (rb_buffer (keep_entry e b)). 1 \<le> be_id x \<and> be_id x < rb_next_entry b"
    using assms set_drop_subset [of k "rb_buffer b @ [e]"] unfolding k(1) by (auto simp: buffer_ok_def fresh_def)
  ultimately show ?thesis using assms bytes k(4) by (auto simp: buffer_ok_def BUFFER_ENTRIES_def)
qed

lemma rp_inv_frame:
  assumes "rp_inv ts s" "en_model s' = en_model s" "en_blocks s' = en_blocks s" "en_index s' = en_index s"
    "ts \<union> set (en_timers s) \<subseteq> ts' \<union> set (en_timers s')"
  shows "rp_inv ts' s'"
proof -
  have "rcb_ok (en_model s) (ts' \<union> set (en_timers s')) key b" if "(key, b) \<in> set (en_blocks s)" for key b
    by (rule rcb_ok_mono [OF _ assms(5)]) (use assms(1) that in \<open>simp only: rp_inv_iff\<close>)
  moreover have "index_ok s'" using assms(1-4) unfolding rp_inv_iff index_ok_def by (simp only:)
  ultimately show ?thesis using assms(1) unfolding rp_inv_iff assms(2,3) by blast
qed

lemma step_modify:
  assumes "\<And>s. en_model (f s) = en_model s" "\<And>s. en_blocks (f s) = en_blocks s" "\<And>s. en_index (f s) = en_index s"
    "\<And>s. set (en_timers s) \<subseteq> set (en_timers (f s))"
  shows "step ts key off R (modify f) (\<lambda>_. R)"
  unfolding step_def
proof (rule holds_modify, elim conjE)
  fix s assume inv: "rp_inv ts s" and R: "block_of key off R s"
  have "rp_inv ts (f s)" by (rule rp_inv_frame [OF inv]) (use assms(1-3) assms(4) [of s] in auto)
  then show "rp_inv ts (f s) \<and> block_of key off R (f s)" using R by (simp add: block_of_def assms)
qed

lemma step_sq_num: "step ts key off R (set_rcb_attr key ''SqNum'' (UIntData n)) (\<lambda>_. R)"
proof (rule step_set_attr)
  show "fits (n_type x) (UIntData n)"
    if "rcb_layout m b" "attr_path m b ''SqNum'' = Some (rb_path b @ [a])" "node_at m (rb_domain b) (rb_path b @ [a]) = Some x" for m b a x
  proof -
    have "a = asc ''SqNum''" using attr_path_name [OF that(2)] by simp
    then show ?thesis using that(1,3) by (auto simp: rcb_layout_def node_types_def)
  qed
qed simp_all

lemma step_send:
  assumes "\<And>b. R b \<Longrightarrow> 0 \<le> be_id e \<and> be_id e < rb_next_entry b"
    and "\<And>b b'. R b \<Longrightarrow> rb_next_entry b' = rb_next_entry b \<Longrightarrow> R b'"
  shows "step ts key off R (send_entry key e) (\<lambda>_. R)"
  unfolding send_entry_def
proof (rule step_read, rule step_read, rule step_bind [OF step_of_rcb [where S = "\<lambda>d b. R b \<and> (\<exists>n. d = UIntData n)"]])
  show "R b \<and> (\<exists>n. d = UIntData n)"
    if "R b" "mapE (\<lambda>sq. UIntData ((sq + 1) mod sq_modulo m b)) (rcb_uint m b ''SqNum'') = Inr d" for m b d
    using that by (auto simp: mapE_Inr_iff)
  have put: "step ts key off R (put_rcb key (\<lambda>b. b\<lparr>rb_overflowed := False, rb_sent := max (rb_sent b) (be_id e)\<rparr>)) (\<lambda>_. R)"
  proof (rule step_put)
    show "buffer_ok (b\<lparr>rb_overflowed := False, rb_sent := max (rb_sent b) (be_id e)\<rparr>)
        \<and> owner_ok (b\<lparr>rb_overflowed := False, rb_sent := max (rb_sent b) (be_id e)\<rparr>) \<and> R (b\<lparr>rb_overflowed := False, rb_sent := max (rb_sent b) (be_id e)\<rparr>)"
      if "R b" "buffer_ok b" "owner_ok b" for b
      using assms(1) [OF that(1)] assms(2) [OF that(1)] that(2,3) by (auto simp: buffer_ok_def owner_ok_def)
  qed (auto simp: harmless_def)
  show "step ts key off (\<lambda>b. R b \<and> (\<exists>n. d = UIntData n)) (thenS (set_rcb_attr key ''SqNum'' d)
     (thenS (put_rcb key (\<lambda>b. b\<lparr>rb_overflowed := False, rb_sent := max (rb_sent b) (be_id e)\<rparr>))
     (bindS (of_rcb key (\<lambda>m b. Inr (rb_owner b))) (\<lambda>owner. case owner of
        None \<Rightarrow> ret ()
      | Some c \<Rightarrow> bindS (try_get (\<lambda>_. information_report vs (Some (asc ''RPT'')) [] encoded)) (\<lambda>p.
            modify (\<lambda>s. s\<lparr>en_sent := en_sent s @ [(c, p)]\<rparr>)))))) (\<lambda>_. R)" for vs encoded d
  proof (cases "\<exists>n. d = UIntData n")
    case True
    have send: "step ts key off R (case owner of None \<Rightarrow> ret ()
        | Some c \<Rightarrow> bindS (try_get (\<lambda>_. information_report vs (Some (asc ''RPT'')) [] encoded)) (\<lambda>p.
            modify (\<lambda>s. s\<lparr>en_sent := en_sent s @ [(c, p)]\<rparr>))) (\<lambda>_. R)" for owner
      by (cases owner) (simp_all add: step_ret step_try step_modify del: asc_simps ret_apply)
    have "step ts key off R (set_rcb_attr key ''SqNum'' d) (\<lambda>_. R)" using True step_sq_num by blast
    then show ?thesis by (rule step_weaken [OF step_then [OF _ step_then [OF put step_read [OF send]]]]) auto
  qed (auto simp: step_def holds_def block_of_def)
qed

lemma step_deliver: "step ts key off (fresh e) (deliver key e) (\<lambda>_ b. True)"
  unfolding deliver_def
proof (rule step_read, rule step_then, rule step_when)
  let ?R = "\<lambda>b. 0 \<le> be_id e \<and> be_id e < rb_next_entry b"
  show "step ts key off (fresh e) (thenS (put_rcb key (keep_entry e))
      (thenS (bindS (try_get (\<lambda>_. to_bytes 8 (be_id e))) (\<lambda>i. set_rcb_attr key ''EntryID'' (OctetStringData i)))
        (bindS (try_get (\<lambda>_. encode_binary_time (be_time e))) (\<lambda>t. set_rcb_attr key ''TimeOfEntry'' (RawData 0x8C t))))) (\<lambda>_. ?R)"
  proof (rule step_then)
    show "step ts key off (fresh e) (put_rcb key (keep_entry e)) (\<lambda>_. ?R)"
      by (rule step_put) (auto simp: harmless_def owner_ok_def keep_entry_ok fresh_def)
    have "step ts key off ?R (set_rcb_attr key ''EntryID'' (OctetStringData i)) (\<lambda>_. ?R)" if "to_bytes 8 (be_id e) = Inr i" for i
      by (rule step_set_layout [where kind = "''octet-string''" and k = "Some 8"])
         (use from_bytes_to_bytes [OF that] in \<open>simp_all add: layout_types_def size_fits_def\<close>)
    moreover have "step ts key off ?R (set_rcb_attr key ''TimeOfEntry'' (RawData 0x8C t)) (\<lambda>_. ?R)" for t
      by (rule step_set_layout [where kind = "''binary-time''" and k = None]) (simp_all add: layout_types_def)
    ultimately show "step ts key off ?R (thenS (bindS (try_get (\<lambda>_. to_bytes 8 (be_id e))) (\<lambda>i. set_rcb_attr key ''EntryID'' (OctetStringData i)))
        (bindS (try_get (\<lambda>_. encode_binary_time (be_time e))) (\<lambda>t. set_rcb_attr key ''TimeOfEntry'' (RawData 0x8C t)))) (\<lambda>_. ?R)"
      by (intro step_then step_try_const)
  qed
  show "?R b" if "fresh e b" for b using that by (simp add: fresh_def)
  have "step ts key off ?R (send_entry key e) (\<lambda>_. ?R)" by (rule step_send) auto
  then show "step ts key off ?R (bindS (of_rcb key rcb_enabled) (\<lambda>enabled. whenS enabled (send_entry key e))) (\<lambda>_ b. True)"
    by (intro step_read step_when) (auto intro: step_weaken)
qed

lemma step_any: "step ts key off (\<lambda>b. True) m S \<Longrightarrow> step ts key off R m S"
  by (rule step_weaken) auto

lemma step_flush: "step ts key off R (flush now key) (\<lambda>_ b. True)"
  unfolding flush_def
proof (rule step_read, rule step_then)
  show "step ts key off R (put_rcb key (\<lambda>b. b\<lparr>rb_pending := None\<rparr>)) (\<lambda>_ b. True)"
    by (rule step_put) (auto simp: harmless_def owner_ok_def buffer_ok_def)
  show "step ts key off (\<lambda>b. True) (case pending of None \<Rightarrow> ret ()
      | Some g \<Rightarrow> whenS (ga_reasons g \<noteq> []) (bindS (new_entry now key (ga_reasons g) (ga_values g)) (deliver key))) (\<lambda>_ b. True)" for pending
    by (cases pending) (auto intro!: step_ret step_when step_bind [OF step_new_entry] step_deliver)
qed

lemma step_report_all: "step ts key off R (report_all now key reason) (\<lambda>_ b. True)"
  unfolding report_all_def by (rule step_read, rule step_bind [OF step_new_entry], rule step_deliver)

lemma step_general_interrogation: "step ts key off (\<lambda>b. True) (general_interrogation now key) (\<lambda>_ b. True)"
  unfolding general_interrogation_def by (rule step_read) (intro step_when step_then [OF step_flush] step_report_all, simp)

lemma set_push_timer [simp]: "set (push_timer t us) = insert t (set us)"
  by (induction us) auto

lemma step_at: "step ts key off R (at_time due a) (\<lambda>_. R)"
  unfolding at_time_def by (rule step_modify) auto

lemma step_schedule: "step ts key off R (schedule_integrity now key) (\<lambda>_ b. True)"
  unfolding schedule_integrity_def
proof (rule step_read, rule step_read, rule step_when)
  have "step ts key off R (put_rcb key (\<lambda>b. b\<lparr>rb_integrity_due := Some t\<rparr>)) (\<lambda>_ b. True)" for t
    by (rule step_put) (auto simp: harmless_def owner_ok_def buffer_ok_def)
  then show "step ts key off R (thenS (put_rcb key (\<lambda>b. b\<lparr>rb_integrity_due := Some (now + period * 1000)\<rparr>))
      (at_time (now + period * 1000) (Integrity key (now + period * 1000)))) (\<lambda>_ b. True)" for period
    by (rule step_then) (rule step_at)
qed simp

lemma step_on_enabled: "step ts key off R (on_enabled now key) (\<lambda>_ b. True)"
  unfolding on_enabled_def
proof (rule step_then)
  show "step ts key off R (put_rcb key (\<lambda>b. b\<lparr>rb_ever_enabled := True\<rparr>)) (\<lambda>_ b. True)"
    by (rule step_put) (auto simp: harmless_def owner_ok_def buffer_ok_def)
  have sends: "step ts key off (\<lambda>b. \<forall>e \<in> set es. 0 \<le> be_id e \<and> be_id e < rb_next_entry b) (for_each (send_entry key) es)
      (\<lambda>_ b. \<forall>e \<in> set es. 0 \<le> be_id e \<and> be_id e < rb_next_entry b)" for es
    by (rule step_for_each, rule step_send) auto
  have buffered: "step ts key off (\<lambda>b. True) (bindS (of_rcb key (\<lambda>m b. mapE (\<lambda>v. entries_after v b) (attr m b ''EntryID''))) (for_each (send_entry key))) (\<lambda>_ b. True)"
    unfolding step_def
  proof (rule holds_bind)
    show "holds (\<lambda>s. rp_inv ts s \<and> block_of key off (\<lambda>b. True) s)
      (of_rcb key (\<lambda>m b. mapE (\<lambda>v. entries_after v b) (attr m b ''EntryID'')))
      (\<lambda>es s. rp_inv ts s \<and> block_of key off (\<lambda>b. \<forall>e \<in> set es. 0 \<le> be_id e \<and> be_id e < rb_next_entry b) s) (rp_inv ts)"
      unfolding of_rcb_def
    proof (rule holds_try_get)
      fix s es
      assume a: "rp_inv ts s \<and> block_of key off (\<lambda>b. True) s" "(case map_of (en_blocks s) key of None \<Rightarrow> Inl KeyError
        | Some b \<Rightarrow> mapE (\<lambda>v. entries_after v b) (attr (en_model s) b ''EntryID'')) = Inr es"
      then obtain b where b: "map_of (en_blocks s) key = Some b" "off \<longrightarrow> rcb_enabled (en_model s) b \<noteq> Inr True" by (auto simp: block_of_def)
      have "buffer_ok b" using rp_inv_block [OF conjunct1 [OF a(1)] b(1)] by (simp add: rcb_ok_def)
      moreover have "set es \<subseteq> set (rb_buffer b)" using a(2) b(1) by (auto simp: mapE_Inr_iff entries_after_def Let_def)
      ultimately have "\<forall>e \<in> set es. 0 \<le> be_id e \<and> be_id e < rb_next_entry b" by (force simp: buffer_ok_def)
      then show "rp_inv ts s \<and> block_of key off (\<lambda>b. \<forall>e \<in> set es. 0 \<le> be_id e \<and> be_id e < rb_next_entry b) s"
        using a(1) b by (auto simp: block_of_def)
    qed simp
    show "holds (\<lambda>s. rp_inv ts s \<and> block_of key off (\<lambda>b. \<forall>e \<in> set es. 0 \<le> be_id e \<and> be_id e < rb_next_entry b) s) (for_each (send_entry key) es)
      (\<lambda>x s. rp_inv ts s \<and> block_of key off (\<lambda>b. True) s) (rp_inv ts)" for es
      using step_weaken [OF sends [of es], where S' = "\<lambda>_ b. True"] by (simp add: step_def)
  qed
  show "step ts key off (\<lambda>b. True) (bindS (of_rcb key (\<lambda>m b. Inr (rb_buffered b))) (\<lambda>buffered.
     thenS (whenS buffered
        (bindS (of_rcb key (\<lambda>m b. mapE (\<lambda>v. entries_after v b) (attr m b ''EntryID''))) (for_each (send_entry key))))
     (schedule_integrity now key))) (\<lambda>_ b. True)"
    by (rule step_read, rule step_then, rule step_when_same, rule buffered, rule step_schedule)
qed

section \<open>Writes\<close>

lemma holds_step: "step ts key off R m S \<Longrightarrow> (\<And>s. P s \<Longrightarrow> rp_inv ts s \<and> block_of key off R s) \<Longrightarrow> holds P m (\<lambda>_. rp_inv ts) (rp_inv ts)"
  unfolding step_def by (erule holds_weaken) auto

text \<open>A client's value for the attribute of a name, as \<^verbatim>\<open>_on_write\<close> has checked it.\<close>

definition writing :: "ustr \<Rightarrow> iecdata \<Rightarrow> ustr \<Rightarrow> ustr list \<Rightarrow> block_key \<Rightarrow> rp_engine \<Rightarrow> bool" where
  "writing a d ld path key s \<longleftrightarrow> (\<exists>b n. map_of (en_blocks s) key = Some b \<and> ld = rb_domain b \<and> path = rb_path b @ [a]
     \<and> node_at (en_model s) ld path = Some n \<and> fits (n_type n) d)"

lemma writing_put:
  assumes "writing a d ld path key s" "\<And>b. rb_domain (f b) = rb_domain b \<and> rb_path (f b) = rb_path b"
  shows "writing a d ld path key (s\<lparr>en_blocks := map (\<lambda>(k, b). (k, if k = key' then f b else b)) (en_blocks s)\<rparr>)"
  using assms by (auto simp: writing_def map_of_put)

lemma assign_written:
  assumes inv: "rp_inv ts s" and w: "writing a d ld path key s" and own: "a = asc ''RptEna'' \<Longrightarrow> d = BoolData True \<Longrightarrow> block_of key False (\<lambda>b. rb_owner b \<noteq> None) s"
  shows "\<exists>m. assign_attr ld path d s = (Inr (), s\<lparr>en_model := m\<rparr>) \<and> rp_inv ts (s\<lparr>en_model := m, en_index := None\<rparr>)
    \<and> (a \<noteq> asc ''DatSet'' \<longrightarrow> rp_inv ts (s\<lparr>en_model := m\<rparr>))
    \<and> (\<forall>off R. block_of key off R s \<longrightarrow> block_of key (off \<and> a \<noteq> asc ''RptEna'') R (s\<lparr>en_model := m\<rparr>))"
proof -
  obtain b n where b: "map_of (en_blocks s) key = Some b" "ld = rb_domain b" "path = rb_path b @ [a]"
    "node_at (en_model s) ld path = Some n" "fits (n_type n) d" using w by (auto simp: writing_def)
  have "\<exists>m. assign_attr (rb_domain b) (rb_path b @ [a]) d s = (Inr (), s\<lparr>en_model := m\<rparr>) \<and> rp_inv ts (s\<lparr>en_model := m, en_index := None\<rparr>)
    \<and> (a \<noteq> asc ''DatSet'' \<longrightarrow> rp_inv ts (s\<lparr>en_model := m\<rparr>))
    \<and> (rcb_enabled m b = Inr True \<longrightarrow> (if a = asc ''RptEna'' then d = BoolData True else rcb_enabled (en_model s) b = Inr True))"
    by (rule assign_attr_ok [OF inv b(1)]) (use b own in \<open>auto simp: block_of_def\<close>)
  then obtain m where m: "assign_attr ld path d s = (Inr (), s\<lparr>en_model := m\<rparr>)" "rp_inv ts (s\<lparr>en_model := m, en_index := None\<rparr>)"
    "a \<noteq> asc ''DatSet'' \<longrightarrow> rp_inv ts (s\<lparr>en_model := m\<rparr>)"
    "rcb_enabled m b = Inr True \<longrightarrow> (if a = asc ''RptEna'' then d = BoolData True else rcb_enabled (en_model s) b = Inr True)"
    using b(2,3) by blast
  have "block_of key (off \<and> a \<noteq> asc ''RptEna'') R (s\<lparr>en_model := m\<rparr>)" if "block_of key off R s" for off R
    using that b(1) m(4) by (auto simp: block_of_def)
  then show ?thesis using m(1-3) by blast
qed

lemma holds_assign:
  assumes "\<And>s. P s \<Longrightarrow> rp_inv ts s \<and> writing a d ld path key s \<and> block_of key off R s"
    and "\<And>s. P s \<Longrightarrow> a = asc ''RptEna'' \<Longrightarrow> d = BoolData True \<Longrightarrow> block_of key False (\<lambda>b. rb_owner b \<noteq> None) s" and "a \<noteq> asc ''DatSet''"
  shows "holds P (assign_attr ld path d) (\<lambda>_ s. rp_inv ts s \<and> block_of key (off \<and> a \<noteq> asc ''RptEna'') R s) E"
proof (rule holdsI)
  fix s assume P: "P s"
  obtain m where "assign_attr ld path d s = (Inr (), s\<lparr>en_model := m\<rparr>)" "rp_inv ts (s\<lparr>en_model := m\<rparr>)"
    "block_of key (off \<and> a \<noteq> asc ''RptEna'') R (s\<lparr>en_model := m\<rparr>)"
    using assign_written [OF _ _ assms(2) [OF P]] assms(1) [OF P] assms(3) by blast
  then show "case assign_attr ld path d s of (Inl e, s') \<Rightarrow> E s' | (Inr x, s') \<Rightarrow> rp_inv ts s' \<and> block_of key (off \<and> a \<noteq> asc ''RptEna'') R s'"
    by simp
qed

lemma step_assign:
  assumes "(name, kind, k) \<in> set layout_types" "primitive_fits kind k d"
    and "off \<Longrightarrow> name \<noteq> ''RptEna'' \<or> d \<noteq> BoolData True" "\<And>b. R b \<Longrightarrow> name = ''RptEna'' \<Longrightarrow> d = BoolData True \<Longrightarrow> rb_owner b \<noteq> None"
  shows "step ts key off R (assign_attr (fst key) (split_on 36 (snd key) @ [asc name]) d) (\<lambda>_. R)"
  unfolding step_def
proof (rule holdsI, elim conjE)
  fix s assume inv: "rp_inv ts s" and R: "block_of key off R s"
  then obtain b where b: "map_of (en_blocks s) key = Some b" "R b" "off \<longrightarrow> rcb_enabled (en_model s) b \<noteq> Inr True"
    by (auto simp: block_of_def)
  have ok: "rcb_ok (en_model s) (ts \<union> set (en_timers s)) key b" by (rule rp_inv_block [OF inv b(1)])
  then have path: "fst key = rb_domain b" "split_on 36 (snd key) = rb_path b" "rcb_layout (en_model s) b" by (simp_all add: rcb_ok_def)
  have name: "asc name \<noteq> asc ''DatSet''" "asc name = asc ''RptEna'' \<Longrightarrow> name = ''RptEna''"
    using assms(1) asc_inj [of name "''DatSet''"] asc_inj [of name "''RptEna''"] by (auto simp: layout_types_def)
  have "\<exists>m. assign_attr (rb_domain b) (rb_path b @ [asc name]) d s = (Inr (), s\<lparr>en_model := m\<rparr>) \<and> rp_inv ts (s\<lparr>en_model := m, en_index := None\<rparr>)
    \<and> (asc name \<noteq> asc ''DatSet'' \<longrightarrow> rp_inv ts (s\<lparr>en_model := m\<rparr>))
    \<and> (rcb_enabled m b = Inr True \<longrightarrow> (if asc name = asc ''RptEna'' then d = BoolData True else rcb_enabled (en_model s) b = Inr True))"
    by (rule assign_attr_ok [OF inv b(1)]) (use layout_fits [OF path(3) assms(1) _ assms(2)] name(2) assms(4) [OF b(2)] in auto)
  then obtain m where "assign_attr (fst key) (split_on 36 (snd key) @ [asc name]) d s = (Inr (), s\<lparr>en_model := m\<rparr>)" "rp_inv ts (s\<lparr>en_model := m\<rparr>)"
    "rcb_enabled m b = Inr True \<longrightarrow> (if asc name = asc ''RptEna'' then d = BoolData True else rcb_enabled (en_model s) b = Inr True)"
    using name(1) unfolding path(1,2) by blast
  then show "case assign_attr (fst key) (split_on 36 (snd key) @ [asc name]) d s of (Inl e, s') \<Rightarrow> rp_inv ts s'
      | (Inr x, s') \<Rightarrow> rp_inv ts s' \<and> block_of key off R s'"
    using b assms(3) name(2) by (auto simp: block_of_def split: if_splits)
qed

lemma step_rpt_ena: "step ts key False R (write_rpt_ena now c key (fst key) (split_on 36 (snd key) @ [asc ''RptEna'']) d) (\<lambda>_ b. True)"
proof (cases "\<exists>v. d = BoolData v")
  case True
  then obtain v where d: "d = BoolData v" by blast
  have "step ts key False (\<lambda>b. rb_owner b = Some c) (assign_attr (fst key) (split_on 36 (snd key) @ [asc ''RptEna'']) (BoolData True)) (\<lambda>_ b. rb_owner b = Some c)"
    by (rule step_assign [where kind = "''boolean''" and k = None]) (simp_all add: layout_types_def)
  moreover have "step ts key False R (assign_attr (fst key) (split_on 36 (snd key) @ [asc ''RptEna'']) (BoolData False)) (\<lambda>_. R)"
    by (rule step_assign [where kind = "''boolean''" and k = None]) (simp_all add: layout_types_def)
  moreover have "step ts key False (\<lambda>b. True) (put_rcb key (\<lambda>b. b\<lparr>rb_integrity_due := None\<rparr>)) (\<lambda>_ b. True)"
    by (rule step_put) (auto simp: harmless_def owner_ok_def buffer_ok_def)
  ultimately show ?thesis
    unfolding write_rpt_ena_def d iecdata.case
    by (cases v) (auto simp del: asc_simps ret_apply intro!: step_read step_if step_then [OF step_take] step_then [OF _ step_then [OF step_flush]]
        step_then [OF step_on_enabled] step_ret intro: step_then)
next
  case False
  then show ?thesis unfolding write_rpt_ena_def by (cases d) (auto simp del: asc_simps intro!: step_read step_raise)
qed

lemma purge_ok: "buffer_ok b \<Longrightarrow> buffer_ok (purge b)"
  by (auto simp: buffer_ok_def purge_def)

lemma step_purge: "step ts key off R (put_rcb key purge) (\<lambda>_ b. True)"
  by (rule step_put) (auto simp: harmless_def purge_ok, auto simp: owner_ok_def purge_def)

lemma step_done: "step ts key off R m (\<lambda>_ b. True) \<Longrightarrow> step ts key off R (thenS m (ret x)) (\<lambda>_ b. True)"
  by (rule step_then) (auto intro: step_ret)

lemma block_of_weaken: "block_of key off R s \<Longrightarrow> (\<And>b. R b \<Longrightarrow> R' b) \<Longrightarrow> block_of key False R' s"
  by (auto simp: block_of_def)

lemma step_reserve: "step ts key True R (thenS (if v then take_rcb key c else release_rcb now key 0) (ret x)) (\<lambda>_ b. True)"
  by (rule step_done, rule step_if, rule step_weaken [OF step_take], auto, rule step_release)

lemma holds_write_rcb:
  "holds (\<lambda>s. rp_inv ts s \<and> writing a d (fst key) (split_on 36 (snd key) @ [a]) key s \<and> block_of key (locked_attribute a) (\<lambda>b. True) s)
     (write_rcb now c key (fst key) (split_on 36 (snd key) @ [a]) a d) (\<lambda>_. rp_inv ts) (rp_inv ts)" (is "holds ?P _ _ _")
proof -
  let ?ld = "fst key" and ?path = "split_on 36 (snd key) @ [a]"
  have off: "locked_attribute (asc ''Resv'')" "locked_attribute (asc ''ResvTms'')" by (simp_all add: locked_attribute_def)
  consider "a = asc ''Resv''" | "a = asc ''ResvTms''" | "a = asc ''PurgeBuf''" | "a = asc ''GI''" | "a = asc ''RptEna''"
    | "a \<notin> asc ` {''Resv'', ''ResvTms'', ''PurgeBuf'', ''GI'', ''RptEna''}" by blast
  then show ?thesis
  proof cases
    case 1
    have "step ts key True (\<lambda>b. True) (case d of BoolData v \<Rightarrow> thenS (if v then take_rcb key c else release_rcb now key 0) (ret Handled)
         | _ \<Rightarrow> raise AssertionError) (\<lambda>_ b. True)"
      by (cases d) (simp_all add: step_raise step_reserve del: ret_apply)
    then show ?thesis using off(1) 1 unfolding write_rcb_def by (simp del: asc_simps) (erule holds_step, simp)
  next
    case 2
    have "step ts key True (\<lambda>b. True) (bindS (of_rcb key (\<lambda>m b. Inr (rb_owner b))) (\<lambda>owner.
         thenS (if case d of IntData v \<Rightarrow> v \<noteq> 0 | _ \<Rightarrow> False then take_rcb key c
                else whenS (owner = Some c) (release_rcb now key 0)) (ret Handled))) (\<lambda>_ b. True)"
      by (rule step_read, rule step_done, rule step_if, rule step_weaken [OF step_take], auto intro!: step_when step_release)
    moreover have "holds ?P (assign_attr ?ld ?path d) (\<lambda>_ s. rp_inv ts s \<and> block_of key True (\<lambda>b. True) s) (rp_inv ts)"
      using holds_assign [of ?P ts a d ?ld ?path key True "\<lambda>b. True" "rp_inv ts"] 2 off(2) by auto
    ultimately show ?thesis unfolding write_rcb_def using 2
      by (simp del: asc_simps add: asc_eq) (rule holds_then, assumption, erule holds_step, assumption)
  next
    case 3
    have "step ts key False (\<lambda>b. True) (thenS (whenS (d = BoolData True) (put_rcb key purge)) (ret Handled)) (\<lambda>_ b. True)"
      by (intro step_done step_when step_purge) auto
    then show ?thesis unfolding write_rcb_def using 3
      by (simp del: asc_simps add: asc_eq) (erule holds_step, auto intro: block_of_weaken)
  next
    case 4
    have "step ts key False (\<lambda>b. True) (bindS (of_rcb key rcb_enabled) (\<lambda>enabled.
          thenS (whenS (d = BoolData True \<and> enabled) (general_interrogation now key)) (ret Handled))) (\<lambda>_ b. True)"
      by (intro step_read step_done step_when step_general_interrogation) auto
    then show ?thesis unfolding write_rcb_def using 4
      by (simp del: asc_simps add: asc_eq) (erule holds_step, auto intro: block_of_weaken)
  next
    case 5
    show ?thesis unfolding write_rcb_def using 5
      by (simp del: asc_simps add: asc_eq) (rule holds_step [OF step_rpt_ena], auto intro: block_of_weaken)
  next
    case 6
    then have ne: "a \<noteq> asc ''RptEna''" by blast
    have "holds ?P (thenS (assign_attr ?ld ?path d) (thenS (whenS (a = asc ''DatSet'') (modify (\<lambda>s. s\<lparr>en_index := None\<rparr>))) (ret Handled)))
      (\<lambda>_. rp_inv ts) (rp_inv ts)"
    proof (rule holdsI, elim conjE)
      fix s assume "rp_inv ts s" "writing a d ?ld ?path key s"
      then obtain m where m: "assign_attr ?ld ?path d s = (Inr (), s\<lparr>en_model := m\<rparr>)" "rp_inv ts (s\<lparr>en_model := m, en_index := None\<rparr>)"
        "a \<noteq> asc ''DatSet'' \<longrightarrow> rp_inv ts (s\<lparr>en_model := m\<rparr>)"
        using assign_written [of ts s a d ?ld ?path key] ne by blast
      then show "case thenS (assign_attr ?ld ?path d) (thenS (whenS (a = asc ''DatSet'') (modify (\<lambda>s. s\<lparr>en_index := None\<rparr>))) (ret Handled)) s of
          (Inl e, s') \<Rightarrow> rp_inv ts s' | (Inr x, s') \<Rightarrow> rp_inv ts s'"
        by (auto simp: thenS_def bindS_def whenS_def simp del: asc_simps)
    qed
    then show ?thesis using 6 unfolding write_rcb_def by (simp del: asc_simps)
  qed
qed

text \<open>A write the engine takes, or refuses with everything as it was.\<close>

lemma on_write_cases:
  assumes "rp_inv ts s"
  shows "(\<exists>r. rp_on_write now c obj d s = (r, s) \<and> r \<noteq> Inr Handled)
    \<or> (\<exists>key a b n. map_of (en_blocks s) key = Some b \<and> key = (domain_of obj, join 36 (take 3 (path_of obj))) \<and> path_of obj = take 3 (path_of obj) @ [a]
      \<and> node_at (en_model s) (rb_domain b) (rb_path b @ [a]) = Some n \<and> fits (n_type n) d \<and> \<not> held_by_other (en_address s) now c b
      \<and> \<not> fixed_attribute a \<and> (locked_attribute a \<longrightarrow> rcb_enabled (en_model s) b = Inr False)
      \<and> rp_on_write now c obj d s = write_rcb now c key (rb_domain b) (rb_path b @ [a]) a d s)"
proof (cases "length (path_of obj) < 3 \<or> path_of obj ! 1 \<notin> {asc ''BR'', asc ''RP''}")
  case True
  then show ?thesis by (simp add: rp_on_write_def del: asc_simps)
next
  case parts: False
  let ?key = "(domain_of obj, join 36 (take 3 (path_of obj)))"
  let ?a = "path_of obj ! 3"
  show ?thesis
  proof (cases "map_of (en_blocks s) ?key")
    case None
    then show ?thesis using parts by (simp add: rp_on_write_def Let_def del: asc_simps)
  next
    case b: (Some b)
    show ?thesis
    proof (cases "length (path_of obj) = 4")
      case False
      then show ?thesis using parts b by (simp add: rp_on_write_def Let_def del: asc_simps)
    next
      case len: True
      then have path: "path_of obj = take 3 (path_of obj) @ [?a]" using take_Suc_conv_app_nth [of 3 "path_of obj"] by simp
      let ?n = "node_at (en_model s) (rb_domain b) (rb_path b @ [?a])"
      show ?thesis
      proof (cases "\<exists>n. ?n = Some n \<and> fits (n_type n) d \<and> \<not> held_by_other (en_address s) now c b \<and> \<not> fixed_attribute ?a")
        case False
        then have "\<exists>code. rp_on_write now c obj d s = (Inr (Refused code), s)"
          using parts b len by (cases ?n) (auto simp add: rp_on_write_def Let_def simp del: asc_simps)
        then show ?thesis by auto
      next
        case True
        then obtain n where n: "?n = Some n" "fits (n_type n) d" "\<not> held_by_other (en_address s) now c b" "\<not> fixed_attribute ?a" by blast
        show ?thesis
        proof (cases "rcb_enabled (en_model s) b")
          case (Inl e)
          then show ?thesis using parts b len n by (auto simp: rp_on_write_def Let_def of_rcb_def bindS_try_get simp del: asc_simps)
        next
          case (Inr enabled)
          show ?thesis
          proof (cases "enabled \<and> locked_attribute ?a")
            case True
            then show ?thesis using parts b len n Inr by (auto simp: rp_on_write_def Let_def of_rcb_def bindS_try_get simp del: asc_simps)
          next
            case False
            then have "rp_on_write now c obj d s = write_rcb now c ?key (rb_domain b) (rb_path b @ [?a]) ?a d s"
              using parts b len n Inr by (auto simp: rp_on_write_def Let_def of_rcb_def bindS_try_get simp del: asc_simps)
            moreover have "locked_attribute ?a \<longrightarrow> rcb_enabled (en_model s) b = Inr False" using Inr False by auto
            ultimately show ?thesis using b path n
              by (intro disjI2 exI [of _ ?key] exI [of _ ?a] exI [of _ b] exI [of _ n] conjI) auto
          qed
        qed
      qed
    qed
  qed
qed

lemma holds_on_write: "holds (rp_inv ts) (rp_on_write now c obj d) (\<lambda>_. rp_inv ts) (rp_inv ts)"
proof (rule holdsI)
  fix s assume inv: "rp_inv ts s"
  from on_write_cases [OF inv, of now c obj d]
  show "case rp_on_write now c obj d s of (Inl e, s') \<Rightarrow> rp_inv ts s' | (Inr x, s') \<Rightarrow> rp_inv ts s'"
  proof (elim disjE exE conjE)
    fix r assume "rp_on_write now c obj d s = (r, s)"
    then show ?thesis using inv by (cases r) auto
  next
    fix key a b n
    assume w: "map_of (en_blocks s) key = Some b" "node_at (en_model s) (rb_domain b) (rb_path b @ [a]) = Some n" "fits (n_type n) d"
      "locked_attribute a \<longrightarrow> rcb_enabled (en_model s) b = Inr False"
      "rp_on_write now c obj d s = write_rcb now c key (rb_domain b) (rb_path b @ [a]) a d s"
    have b: "rb_domain b = fst key" "rb_path b = split_on 36 (snd key)" using rp_inv_block [OF inv w(1)] by (simp_all add: rcb_ok_def)
    have "writing a d (fst key) (split_on 36 (snd key) @ [a]) key s" using w(1-3) b by (auto simp: writing_def)
    moreover have "block_of key (locked_attribute a) (\<lambda>b. True) s" using w(1,4) by (auto simp: block_of_def)
    ultimately show ?thesis using holdsD [OF holds_write_rcb [of ts a d key now c], of s] inv w(5) unfolding b by auto
  qed
qed

section \<open>Clients that go, and timers\<close>

text \<open>An operation that starts by looking up its block keeps the invariant when there is none.\<close>

lemma holds_lookup:
  assumes "step ts key False (\<lambda>b. True) (bindS (of_rcb key f) g) S"
  shows "holds (rp_inv ts) (bindS (of_rcb key f) g) (\<lambda>_. rp_inv ts) (rp_inv ts)"
proof (rule holdsI)
  fix s assume inv: "rp_inv ts s"
  show "case bindS (of_rcb key f) g s of (Inl e, s') \<Rightarrow> rp_inv ts s' | (Inr x, s') \<Rightarrow> rp_inv ts s'"
  proof (cases "map_of (en_blocks s) key")
    case None
    then show ?thesis using inv by (simp add: of_rcb_def bindS_try_get)
  next
    case (Some b)
    then have "block_of key False (\<lambda>b. True) s" by (simp add: block_of_def)
    then show ?thesis using holdsD [OF assms [unfolded step_def], of s] inv by auto
  qed
qed

lemma set_ena_false:
  "holds (\<lambda>s. rp_inv ts s \<and> block_of key off R s) (set_rcb_attr key ''RptEna'' (BoolData False)) (\<lambda>_ s. rp_inv ts s \<and> block_of key True R s) E"
proof (rule holdsI, elim conjE)
  fix s assume inv: "rp_inv ts s" and "block_of key off R s"
  then obtain b where b: "map_of (en_blocks s) key = Some b" "R b" by (auto simp: block_of_def)
  obtain m where "set_rcb_attr key ''RptEna'' (BoolData False) s = (Inr (), s\<lparr>en_model := m\<rparr>)" "rp_inv ts (s\<lparr>en_model := m\<rparr>)"
    "rcb_enabled m b = Inr True \<longrightarrow> ''RptEna'' \<noteq> ''RptEna'' \<and> rcb_enabled (en_model s) b = Inr True"
  proof -
    have "\<exists>m. set_rcb_attr key ''RptEna'' (BoolData False) s = (Inr (), s\<lparr>en_model := m\<rparr>) \<and> rp_inv ts (s\<lparr>en_model := m\<rparr>)
      \<and> (rcb_enabled m b = Inr True \<longrightarrow> ''RptEna'' \<noteq> ''RptEna'' \<and> rcb_enabled (en_model s) b = Inr True)"
    proof (rule set_attr_run [OF inv b(1)])
      show "fits (n_type n) (BoolData False)"
        if "rcb_layout m b" "attr_path m b ''RptEna'' = Some (rb_path b @ [a])" "node_at m (rb_domain b) (rb_path b @ [a]) = Some n" for m b a n
        using layout_fits [OF that(1), of "''RptEna''" "''boolean''" None n] attr_path_name [OF that(2)] that(3) by (simp add: layout_types_def del: asc_simps)
    qed simp_all
    then show thesis using that by blast
  qed
  then show "case set_rcb_attr key ''RptEna'' (BoolData False) s of (Inl e, s') \<Rightarrow> E s' | (Inr x, s') \<Rightarrow> rp_inv ts s' \<and> block_of key True R s'"
    using b by (auto simp: block_of_def)
qed

text \<open>A reservation kept: the timer that ends it is on its way until \<^verbatim>\<open>_at\<close> takes it.\<close>

definition lapses :: "block_key \<Rightarrow> int \<Rightarrow> (int \<times> nat \<times> timer_action) set" where
  "lapses key t = {(t, n, Lapse key t) | n. True}"

lemma holds_release_kept:
  assumes "keep > 0"
  shows "holds (\<lambda>s. rp_inv ts s \<and> block_of key True (\<lambda>b. rb_owner b \<noteq> None) s) (release_rcb now key keep)
    (\<lambda>_ s. rp_inv (ts \<union> lapses key (now + keep)) s \<and> block_of key True (\<lambda>b. rb_reserved_until b = Some (now + keep)) s) (rp_inv ts)"
proof -
  have owner: "step ts key True (\<lambda>b. rb_owner b \<noteq> None) (put_rcb key (\<lambda>b. b\<lparr>rb_owner := None\<rparr>)) (\<lambda>_ b. rb_owner b = None \<and> rb_owner_address b \<noteq> None)"
    by (rule step_put) (auto simp: harmless_def owner_ok_def buffer_ok_def)
  have "holds (\<lambda>s. rp_inv ts s \<and> block_of key True (\<lambda>b. rb_owner b = None \<and> rb_owner_address b \<noteq> None) s)
    (put_rcb key (\<lambda>b. b\<lparr>rb_reserved_until := Some (now + keep)\<rparr>))
    (\<lambda>_ s. rp_inv (ts \<union> lapses key (now + keep)) s \<and> block_of key True (\<lambda>b. rb_reserved_until b = Some (now + keep)) s) (rp_inv ts)"
    unfolding put_rcb_def
  proof (rule holds_modify, elim conjE)
    fix s assume inv: "rp_inv ts s" and "block_of key True (\<lambda>b. rb_owner b = None \<and> rb_owner_address b \<noteq> None) s"
    then obtain b where b: "map_of (en_blocks s) key = Some b" "rb_owner b = None" "rb_owner_address b \<noteq> None"
      "rcb_enabled (en_model s) b \<noteq> Inr True" by (auto simp: block_of_def)
    let ?f = "\<lambda>b. b\<lparr>rb_reserved_until := Some (now + keep)\<rparr>"
    let ?s = "s\<lparr>en_blocks := map (\<lambda>(k, b). (k, if k = key then ?f b else b)) (en_blocks s)\<rparr>"
    have "rp_inv (ts \<union> lapses key (now + keep)) ?s"
    proof (rule put_rcb_ok [OF inv b(1)])
      show "rb_domain (?f b) = rb_domain b \<and> rb_path (?f b) = rb_path b" for b by simp
      show "buffer_ok (?f b) \<and> owner_ok (?f b) \<and> timed (ts \<union> lapses key (now + keep) \<union> set (en_timers s)) key (?f b)
          \<and> (rcb_enabled (en_model s) b = Inr True \<longrightarrow> rb_owner (?f b) \<noteq> None)"
        if "rcb_ok (en_model s) (ts \<union> set (en_timers s)) key b"
        using that b by (auto simp: rcb_ok_def buffer_ok_def owner_ok_def timed_def lapses_def)
      show "timed (ts \<union> lapses key (now + keep) \<union> set (en_timers s)) k c" if "timed (ts \<union> set (en_timers s)) k c" for k c
        by (rule timed_mono [OF that]) blast
    qed
    moreover have "block_of key True (\<lambda>b. rb_reserved_until b = Some (now + keep)) ?s"
      using b rcb_fields(1) [of "?f b" b] by (auto simp: block_of_def map_of_put)
    ultimately show "rp_inv (ts \<union> lapses key (now + keep)) ?s \<and> block_of key True (\<lambda>b. rb_reserved_until b = Some (now + keep)) ?s" ..
  qed
  then show ?thesis unfolding release_rcb_def using assms owner by (simp add: step_def holds_then)
qed

lemma holds_at_lapse: "holds (rp_inv (ts \<union> lapses key t)) (at_time t (Lapse key t)) (\<lambda>_. rp_inv ts) E"
  unfolding at_time_def
proof (rule holds_modify)
  fix s assume inv: "rp_inv (ts \<union> lapses key t) s"
  let ?s = "s\<lparr>en_timers := push_timer (t, en_counter s, Lapse key t) (en_timers s), en_counter := en_counter s + 1\<rparr>"
  have "rcb_ok (en_model s) (ts \<union> set (en_timers ?s)) k c" if "(k, c) \<in> set (en_blocks s)" for k c
  proof -
    have "rcb_ok (en_model s) (ts \<union> lapses key t \<union> set (en_timers s)) k c" using inv that unfolding rp_inv_iff by blast
    moreover have "timed (ts \<union> set (en_timers ?s)) k c" if "timed (ts \<union> lapses key t \<union> set (en_timers s)) k c"
      using that unfolding timed_def lapses_def by simp blast
    ultimately show ?thesis unfolding rcb_ok_def by blast
  qed
  moreover have "index_ok ?s" using inv unfolding rp_inv_iff index_ok_def by (auto split: option.splits)
  ultimately show "rp_inv ts ?s" using inv unfolding rp_inv_iff by simp
qed

lemma holds_close_rcb: "holds (rp_inv ts) (close_rcb now c key) (\<lambda>_. rp_inv ts) (rp_inv ts)"
  unfolding close_rcb_def
proof (rule holds_lookup [where S = "\<lambda>_ b. True"], rule step_field, rule step_when)
  fix owner
  assume "owner = Some c"
  let ?reserve = "\<lambda>resv_tms buffered. case resv_tms of Some (IntData v) \<Rightarrow> if v > 0 \<and> buffered then v * 1000000 else 0 | _ \<Rightarrow> 0"
  let ?rest = "\<lambda>resv_tms buffered. thenS (release_rcb now key (?reserve resv_tms buffered))
       (bindS (of_rcb key (\<lambda>m b. Inr (rb_reserved_until b))) (\<lambda>until. case until of
          None \<Rightarrow> ret () | Some t \<Rightarrow> at_time t (Lapse key t)))"
  have rest: "holds (\<lambda>s. rp_inv ts s \<and> block_of key True (\<lambda>b. rb_owner b \<noteq> None) s) (?rest r buffered)
      (\<lambda>_ s. rp_inv ts s \<and> block_of key False (\<lambda>b. True) s) (rp_inv ts)" for r buffered
  proof (cases "?reserve r buffered > 0")
    case True
    let ?t = "now + ?reserve r buffered"
    show ?thesis
    proof (rule holds_then [OF holds_release_kept [OF True]], rule holdsI, elim conjE)
      fix s assume inv: "rp_inv (ts \<union> lapses key ?t) s" and "block_of key True (\<lambda>b. rb_reserved_until b = Some ?t) s"
      then obtain b where b: "map_of (en_blocks s) key = Some b" "rb_reserved_until b = Some ?t" by (auto simp: block_of_def)
      have "bindS (of_rcb key (\<lambda>m b. Inr (rb_reserved_until b))) (\<lambda>until. case until of None \<Rightarrow> ret () | Some t \<Rightarrow> at_time t (Lapse key t)) s
          = at_time ?t (Lapse key ?t) s" using b by (simp add: of_rcb_def bindS_try_get)
      moreover have "rp_inv ts (snd (at_time ?t (Lapse key ?t) s))" "fst (at_time ?t (Lapse key ?t) s) = Inr ()"
        using holdsD [OF holds_at_lapse inv] by (auto simp: at_time_def)
      moreover have "block_of key False (\<lambda>b. True) (snd (at_time ?t (Lapse key ?t) s))" using b(1) by (simp add: block_of_def at_time_def)
      ultimately show "case bindS (of_rcb key (\<lambda>m b. Inr (rb_reserved_until b))) (\<lambda>until. case until of None \<Rightarrow> ret () | Some t \<Rightarrow> at_time t (Lapse key t)) s of
          (Inl e, s') \<Rightarrow> rp_inv ts s' | (Inr x, s') \<Rightarrow> rp_inv ts s' \<and> block_of key False (\<lambda>b. True) s'"
        by (simp add: at_time_def)
    qed
  next
    case False
    have "release_rcb now key (?reserve r buffered) = release_rcb now key 0" using False by (simp add: release_rcb_def)
    moreover have "step ts key True (\<lambda>b. True) (bindS (of_rcb key (\<lambda>m b. Inr (rb_reserved_until b))) (\<lambda>until. case until of
          None \<Rightarrow> ret () | Some t \<Rightarrow> at_time t (Lapse key t))) (\<lambda>_ b. True)"
      by (rule step_read) (auto split: option.split intro: step_ret step_at)
    then have "step ts key True (\<lambda>b. rb_owner b \<noteq> None) (thenS (release_rcb now key 0) (bindS (of_rcb key (\<lambda>m b. Inr (rb_reserved_until b))) (\<lambda>until. case until of
          None \<Rightarrow> ret () | Some t \<Rightarrow> at_time t (Lapse key t)))) (\<lambda>_ b. True)" by (rule step_then [OF step_release])
    ultimately show ?thesis unfolding step_def by (auto elim!: holds_weaken intro: block_of_weaken)
  qed
  show "step ts key False (\<lambda>b. True \<and> rb_owner b = owner) (thenS (set_rcb_attr key ''RptEna'' (BoolData False))
       (thenS (put_rcb key (\<lambda>b. b\<lparr>rb_integrity_due := None\<rparr>))
       (bindS (of_rcb key (\<lambda>m b. attr m b ''ResvTms'')) (\<lambda>resv_tms.
       bindS (of_rcb key (\<lambda>m b. Inr (rb_buffered b))) (\<lambda>buffered. ?rest resv_tms buffered))))) (\<lambda>_ b. True)"
    unfolding step_def
  proof (rule holds_then [OF set_ena_false])
    have "step ts key True (\<lambda>b. True \<and> rb_owner b = owner) (put_rcb key (\<lambda>b. b\<lparr>rb_integrity_due := None\<rparr>)) (\<lambda>_ b. rb_owner b \<noteq> None)"
      by (rule step_put) (use \<open>owner = Some c\<close> in \<open>auto simp: harmless_def owner_ok_def buffer_ok_def\<close>)
    then show "holds (\<lambda>s. rp_inv ts s \<and> block_of key True (\<lambda>b. True \<and> rb_owner b = owner) s)
       (thenS (put_rcb key (\<lambda>b. b\<lparr>rb_integrity_due := None\<rparr>)) (bindS (of_rcb key (\<lambda>m b. attr m b ''ResvTms'')) (\<lambda>resv_tms.
       bindS (of_rcb key (\<lambda>m b. Inr (rb_buffered b))) (\<lambda>buffered. ?rest resv_tms buffered))))
       (\<lambda>x s. rp_inv ts s \<and> block_of key False (\<lambda>b. True) s) (rp_inv ts)"
      unfolding step_def by (rule holds_then) (intro holds_read_bind rest; blast)
  qed
qed simp

lemma holds_on_close: "holds (rp_inv ts) (rp_on_close now c) (\<lambda>_. rp_inv ts) (rp_inv ts)"
  unfolding rp_on_close_def by (rule holds_bind [OF holds_gets [where Q = "\<lambda>_. rp_inv ts"]]) (auto intro: holds_for_each holds_close_rcb)

text \<open>A timer taken out of the list counts until its action has done what it is for.\<close>

definition timer_key :: "timer_action \<Rightarrow> block_key" where
  "timer_key a = (case a of Lapse k t \<Rightarrow> k | Integrity k t \<Rightarrow> k | Flush_gathered k \<Rightarrow> k)"

lemma timed_other: "timed (insert (t, n, a) ts) k c \<Longrightarrow> k \<noteq> timer_key a \<Longrightarrow> timed ts k c"
  by (auto simp: timed_def timer_key_def)

lemma rp_inv_drop:
  assumes inv: "rp_inv {(t, n, a)} s"
    and b: "\<And>b. map_of (en_blocks s) (timer_key a) = Some b \<Longrightarrow> owner_ok b \<Longrightarrow> timed (insert (t, n, a) (set (en_timers s))) (timer_key a) b \<Longrightarrow>
      timed (set (en_timers s)) (timer_key a) b"
  shows "rp_ok s"
proof -
  have "rcb_ok (en_model s) (set (en_timers s)) k c" if c: "(k, c) \<in> set (en_blocks s)" for k c
  proof -
    have "rcb_ok (en_model s) ({(t, n, a)} \<union> set (en_timers s)) k c" using inv c unfolding rp_inv_iff by blast
    then have ok: "rcb_ok (en_model s) (insert (t, n, a) (set (en_timers s))) k c" by simp
    have "timed (set (en_timers s)) k c"
    proof (cases "k = timer_key a")
      case True
      have "map_of (en_blocks s) k = Some c" using inv c unfolding rp_inv_iff by simp
      moreover have "owner_ok c" "timed (insert (t, n, a) (set (en_timers s))) k c" using ok unfolding rcb_ok_def by blast+
      ultimately show ?thesis using b True by blast
    next
      case False
      have "timed (insert (t, n, a) (set (en_timers s))) k c" using ok unfolding rcb_ok_def by blast
      then show ?thesis using False by (rule timed_other)
    qed
    then show ?thesis using ok unfolding rcb_ok_def by blast
  qed
  then show ?thesis using inv unfolding rp_inv_iff by simp
qed

lemma holds_put_done:
  assumes f: "harmless f" and b: "\<And>b. R b \<Longrightarrow> buffer_ok b \<Longrightarrow> owner_ok b \<Longrightarrow> buffer_ok (f b) \<and> owner_ok (f b) \<and> S (f b)"
    and off: "off \<or> (\<forall>b. rb_owner b \<noteq> None \<longrightarrow> rb_owner (f b) \<noteq> None)"
    and fin: "\<And>b ts. R b \<Longrightarrow> timed (insert (t, n, a) ts) (timer_key a) b \<Longrightarrow> timed ts (timer_key a) (f b)"
  shows "holds (\<lambda>s. rp_inv {(t, n, a)} s \<and> block_of (timer_key a) off R s) (put_rcb (timer_key a) f) (\<lambda>_ s. rp_ok s \<and> block_of (timer_key a) off S s) E"
  unfolding put_rcb_def
proof (rule holds_modify, elim conjE)
  let ?key = "timer_key a"
  fix s assume inv: "rp_inv {(t, n, a)} s" and "block_of ?key off R s"
  then obtain b where b': "map_of (en_blocks s) ?key = Some b" "R b" "off \<longrightarrow> rcb_enabled (en_model s) b \<noteq> Inr True"
    by (auto simp: block_of_def)
  let ?s = "s\<lparr>en_blocks := map (\<lambda>(k, b). (k, if k = ?key then f b else b)) (en_blocks s)\<rparr>"
  have ok: "rcb_ok (en_model s) ({(t, n, a)} \<union> set (en_timers s)) ?key b" by (rule rp_inv_block [OF inv b'(1)])
  have "rp_ok ?s"
  proof (rule put_rcb_ok [OF inv b'(1)])
    show "rb_domain (f b) = rb_domain b \<and> rb_path (f b) = rb_path b" for b using f by (simp add: harmless_def)
    show "buffer_ok (f b) \<and> owner_ok (f b) \<and> timed ({} \<union> set (en_timers s)) ?key (f b) \<and> (rcb_enabled (en_model s) b = Inr True \<longrightarrow> rb_owner (f b) \<noteq> None)"
      using ok b b'(2,3) off fin [OF b'(2), of "set (en_timers s)"] by (auto simp: rcb_ok_def)
    show "timed ({} \<union> set (en_timers s)) k c" if "k \<noteq> ?key" "timed ({(t, n, a)} \<union> set (en_timers s)) k c" for k c
      using timed_other [OF _ that(1)] that(2) by simp
  qed
  moreover have "block_of ?key off S ?s"
    using b' b ok f rcb_fields(1) [of "f b" b] by (auto simp: block_of_def map_of_put rcb_ok_def harmless_def)
  ultimately show "rp_ok ?s \<and> block_of ?key off S ?s" ..
qed

lemma holds_field:
  assumes "\<And>x. holds (\<lambda>s. P s \<and> (\<exists>b. map_of (en_blocks s) key = Some b \<and> h b = x)) (g x) Q E" "\<And>s. P s \<Longrightarrow> \<exists>b. map_of (en_blocks s) key = Some b"
  shows "holds P (bindS (of_rcb key (\<lambda>m b. Inr (h b))) g) Q E"
proof (rule holdsI)
  fix s assume P: "P s"
  then obtain b where b: "map_of (en_blocks s) key = Some b" using assms(2) by blast
  then have "bindS (of_rcb key (\<lambda>m b. Inr (h b))) g s = g (h b) s" by (simp add: of_rcb_def bindS_try_get)
  then show "case bindS (of_rcb key (\<lambda>m b. Inr (h b))) g s of (Inl e, s') \<Rightarrow> E s' | (Inr x, s') \<Rightarrow> Q x s'"
    using assms(1) [of "h b"] P b unfolding holds_def by auto
qed

lemma holds_flush_timer:
  "holds (\<lambda>s. rp_inv {(t, n, Flush_gathered key)} s \<and> block_of key False (\<lambda>b. True) s) (flush now key) (\<lambda>_. rp_ok) rp_ok"
  unfolding flush_def
proof (rule holds_field, rule holds_then)
  fix pending
  have "holds (\<lambda>s. rp_inv {(t, n, Flush_gathered key)} s \<and> block_of (timer_key (Flush_gathered key)) False (\<lambda>b. True) s)
    (put_rcb (timer_key (Flush_gathered key)) (\<lambda>b. b\<lparr>rb_pending := None\<rparr>)) (\<lambda>_ s. rp_ok s \<and> block_of (timer_key (Flush_gathered key)) False (\<lambda>b. True) s) rp_ok"
    by (rule holds_put_done) (auto simp: harmless_def owner_ok_def buffer_ok_def timed_def)
  then show "holds (\<lambda>s. (rp_inv {(t, n, Flush_gathered key)} s \<and> block_of key False (\<lambda>b. True) s) \<and> (\<exists>b. map_of (en_blocks s) key = Some b \<and> rb_pending b = pending))
    (put_rcb key (\<lambda>b. b\<lparr>rb_pending := None\<rparr>)) (\<lambda>_ s. rp_ok s \<and> block_of key False (\<lambda>b. True) s) rp_ok"
    by (simp add: timer_key_def) (erule holds_weaken, auto)
  have "step {} key False (\<lambda>b. True) (case pending of None \<Rightarrow> ret ()
      | Some g \<Rightarrow> whenS (ga_reasons g \<noteq> []) (bindS (new_entry now key (ga_reasons g) (ga_values g)) (deliver key))) (\<lambda>_ b. True)"
    by (cases pending) (auto intro!: step_ret step_when step_bind [OF step_new_entry] step_deliver)
  then show "holds (\<lambda>s. rp_ok s \<and> block_of key False (\<lambda>b. True) s) (case pending of None \<Rightarrow> ret ()
      | Some g \<Rightarrow> whenS (ga_reasons g \<noteq> []) (bindS (new_entry now key (ga_reasons g) (ga_values g)) (deliver key))) (\<lambda>_. rp_ok) rp_ok"
    by (rule holds_step)
qed (auto simp: block_of_def)

lemma block_off:
  assumes "rp_inv ts s" "block_of key off R s" "\<And>b. R b \<Longrightarrow> rb_owner b = None"
  shows "block_of key True R s"
proof -
  obtain b where b: "map_of (en_blocks s) key = Some b" "R b" using assms(2) by (auto simp: block_of_def)
  then show ?thesis using rp_inv_block [OF assms(1) b(1)] assms(3) [OF b(2)] by (auto simp: block_of_def rcb_ok_def)
qed

lemma holds_lapse_timer:
  "holds (\<lambda>s. rp_inv {(t, n, Lapse key t)} s \<and> block_of key False (\<lambda>b. rb_owner b = None) s)
    (thenS (release_rcb now key 0) (set_rcb_attr key ''ResvTms'' (IntData 0))) (\<lambda>_. rp_ok) rp_ok"
proof -
  have own: "step {(t, n, Lapse key t)} key True (\<lambda>b. rb_owner b = None) (put_rcb key (\<lambda>b. b\<lparr>rb_owner := None\<rparr>)) (\<lambda>_ b. rb_owner b = None)"
    by (rule step_put) (auto simp: harmless_def owner_ok_def buffer_ok_def)
  have "holds (\<lambda>s. rp_inv {(t, n, Lapse key t)} s \<and> block_of (timer_key (Lapse key t)) True (\<lambda>b. rb_owner b = None) s)
    (put_rcb (timer_key (Lapse key t)) (\<lambda>b. b\<lparr>rb_reserved_until := None, rb_owner_address := None\<rparr>))
    (\<lambda>_ s. rp_ok s \<and> block_of (timer_key (Lapse key t)) True (\<lambda>b. True) s) rp_ok"
    by (rule holds_put_done) (auto simp: harmless_def owner_ok_def buffer_ok_def timed_def)
  then have put: "holds (\<lambda>s. rp_inv {(t, n, Lapse key t)} s \<and> block_of key True (\<lambda>b. rb_owner b = None) s)
    (put_rcb key (\<lambda>b. b\<lparr>rb_reserved_until := None, rb_owner_address := None\<rparr>)) (\<lambda>_ s. rp_ok s \<and> block_of key True (\<lambda>b. True) s) rp_ok"
    by (simp add: timer_key_def)
  have "step {} key True (\<lambda>b. True) (bindS (of_rcb key (\<lambda>m b. Inr (node_at m (rb_domain b) (rb_path b @ [asc ''Owner'']) \<noteq> None))) (\<lambda>owner.
     thenS (whenS owner (set_rcb_attr key ''Owner'' (OctetStringData [])))
     (bindS (of_rcb key (\<lambda>m b. Inr (rb_buffered b))) (\<lambda>buffered.
       whenS (\<not> buffered) (set_rcb_attr key ''Resv'' (BoolData False)))))) (\<lambda>_ b. True)"
    by (rule step_then step_read step_when_same step_owner step_resv)+
  moreover have "step {} key True (\<lambda>b. True) (set_rcb_attr key ''ResvTms'' (IntData 0)) (\<lambda>_ b. True)"
    by (rule step_set_layout [where kind = "''integer''" and k = "Some 16"]) (simp_all add: layout_types_def)
  ultimately have rest: "step {} key True (\<lambda>b. True) (thenS (bindS (of_rcb key (\<lambda>m b. Inr (node_at m (rb_domain b) (rb_path b @ [asc ''Owner'']) \<noteq> None))) (\<lambda>owner.
     thenS (whenS owner (set_rcb_attr key ''Owner'' (OctetStringData [])))
     (bindS (of_rcb key (\<lambda>m b. Inr (rb_buffered b))) (\<lambda>buffered.
       whenS (\<not> buffered) (set_rcb_attr key ''Resv'' (BoolData False)))))) (set_rcb_attr key ''ResvTms'' (IntData 0))) (\<lambda>_ b. True)"
    by (rule step_then)
  have "holds (\<lambda>s. rp_inv {(t, n, Lapse key t)} s \<and> block_of key True (\<lambda>b. rb_owner b = None) s)
    (thenS (put_rcb key (\<lambda>b. b\<lparr>rb_owner := None\<rparr>)) (thenS (put_rcb key (\<lambda>b. b\<lparr>rb_reserved_until := None, rb_owner_address := None\<rparr>))
      (thenS (bindS (of_rcb key (\<lambda>m b. Inr (node_at m (rb_domain b) (rb_path b @ [asc ''Owner'']) \<noteq> None))) (\<lambda>owner.
     thenS (whenS owner (set_rcb_attr key ''Owner'' (OctetStringData [])))
     (bindS (of_rcb key (\<lambda>m b. Inr (rb_buffered b))) (\<lambda>buffered.
       whenS (\<not> buffered) (set_rcb_attr key ''Resv'' (BoolData False)))))) (set_rcb_attr key ''ResvTms'' (IntData 0))))) (\<lambda>_. rp_ok) rp_ok"
  proof (rule holds_then)
    show "holds (\<lambda>s. rp_inv {(t, n, Lapse key t)} s \<and> block_of key True (\<lambda>b. rb_owner b = None) s) (put_rcb key (\<lambda>b. b\<lparr>rb_owner := None\<rparr>))
      (\<lambda>_ s. rp_inv {(t, n, Lapse key t)} s \<and> block_of key True (\<lambda>b. rb_owner b = None) s) rp_ok"
      using own unfolding step_def put_rcb_def holds_def by simp
  qed (rule holds_then [OF put], rule holds_step [OF rest])
  then show ?thesis
    unfolding release_rcb_def has_child_def thenS_def bindS_assoc
    by (simp only: less_irrefl if_False bindS_assoc) (erule holds_weaken, auto intro: block_off)
qed

lemma holds_do_action:
  "holds (rp_inv {(t, n, action)}) (do_action now n action) (\<lambda>_. rp_ok) rp_ok"
proof (cases action)
  case (Lapse key due)
  have absent: "rp_ok s" if "rp_inv {(t, n, action)} s" "\<And>b. map_of (en_blocks s) key = Some b \<Longrightarrow> \<not> (rb_owner b = None \<and> rb_reserved_until b = Some due) \<or> t \<noteq> due" for s
  proof (rule rp_inv_drop [OF that(1)])
    show "timed (set (en_timers s)) (timer_key action) b"
      if "map_of (en_blocks s) (timer_key action) = Some b" "owner_ok b" "timed (insert (t, n, action) (set (en_timers s))) (timer_key action) b" for b
      using that \<open>\<And>b. map_of (en_blocks s) key = Some b \<Longrightarrow> \<not> (rb_owner b = None \<and> rb_reserved_until b = Some due) \<or> t \<noteq> due\<close>
      unfolding Lapse by (fastforce simp: timer_key_def timed_def owner_ok_def)
  qed
  show ?thesis
  proof (rule holdsI)
    fix s assume inv: "rp_inv {(t, n, action)} s"
    show "case do_action now n action s of (Inl e, s') \<Rightarrow> rp_ok s' | (Inr x, s') \<Rightarrow> rp_ok s'"
    proof (cases "\<exists>b. map_of (en_blocks s) key = Some b \<and> rb_owner b = None \<and> rb_reserved_until b = Some due")
      case False
      then have "do_action now n action s = (if map_of (en_blocks s) key = None then Inl KeyError else Inr (), s)"
        by (auto simp: do_action_def Lapse lapse_def of_rcb_def bindS_try_get whenS_def)
      then show ?thesis using absent [OF inv] False by auto
    next
      case True
      then obtain b where b: "map_of (en_blocks s) key = Some b" "rb_owner b = None" "rb_reserved_until b = Some due" by blast
      have run: "do_action now n action s = thenS (release_rcb now key 0) (set_rcb_attr key ''ResvTms'' (IntData 0)) s"
        using b by (simp add: do_action_def Lapse lapse_def of_rcb_def bindS_try_get whenS_def)
      show ?thesis
      proof (cases "t = due")
        case True
        have "block_of key False (\<lambda>b. rb_owner b = None) s" using b by (simp add: block_of_def)
        then show ?thesis unfolding run using holdsD [OF holds_lapse_timer [of due n key now], of s] inv [unfolded Lapse True] by auto
      next
        case False
        have ok: "rp_ok s" by (rule absent [OF inv]) (use False in blast)
        moreover have "block_of key True (\<lambda>b. True) s" using block_off [OF ok, of key False "\<lambda>b. rb_owner b = None"] b by (auto simp: block_of_def)
        moreover have "step {} key True (\<lambda>b. True) (thenS (release_rcb now key 0) (set_rcb_attr key ''ResvTms'' (IntData 0))) (\<lambda>_ b. True)"
          by (rule step_then [OF step_release], rule step_set_layout [where kind = "''integer''" and k = "Some 16"]) (simp_all add: layout_types_def)
        ultimately show ?thesis unfolding run step_def by (fastforce dest: holdsD)
      qed
    qed
  qed
next
  case (Integrity key due)
  have "rp_ok s" if "rp_inv {(t, n, action)} s" for s
    by (rule rp_inv_drop [OF that]) (simp add: Integrity timed_def)
  moreover have "holds rp_ok (do_action now n action) (\<lambda>_. rp_ok) rp_ok"
    unfolding do_action_def Integrity timer_action.case fire_integrity_def
    by (rule holds_lookup [where S = "\<lambda>_ b. True"], rule step_read, rule step_when, rule step_then [OF step_flush], rule step_then [OF step_report_all], rule step_schedule) simp
  ultimately show ?thesis by (auto elim: holds_weaken)
next
  case (Flush_gathered key)
  show ?thesis
  proof (rule holdsI)
    fix s assume inv: "rp_inv {(t, n, action)} s"
    show "case do_action now n action s of (Inl e, s') \<Rightarrow> rp_ok s' | (Inr x, s') \<Rightarrow> rp_ok s'"
    proof (cases "\<exists>b g. map_of (en_blocks s) key = Some b \<and> rb_pending b = Some g \<and> ga_timer g = n")
      case False
      then have "do_action now n action s = (if map_of (en_blocks s) key = None then Inl KeyError else Inr (), s)"
        by (auto simp: do_action_def Flush_gathered of_rcb_def bindS_try_get whenS_def split: option.splits)
      moreover have "rp_ok s"
      proof (rule rp_inv_drop [OF inv])
        show "timed (set (en_timers s)) (timer_key action) b"
          if "map_of (en_blocks s) (timer_key action) = Some b" "timed (insert (t, n, action) (set (en_timers s))) (timer_key action) b" for b
          using that False unfolding Flush_gathered by (fastforce simp: timer_key_def timed_def)
      qed
      ultimately show ?thesis by simp
    next
      case True
      then have "do_action now n action s = flush now key s" "block_of key False (\<lambda>b. True) s"
        by (auto simp: do_action_def Flush_gathered of_rcb_def bindS_try_get whenS_def block_of_def)
      then show ?thesis using holdsD [OF holds_flush_timer [of t n key now], of s] inv unfolding Flush_gathered by auto
    qed
  qed
qed

lemma run_timer_ok: "rp_ok s \<Longrightarrow> rp_ok (run_timer now s)"
proof -
  assume inv: "rp_ok s"
  show ?thesis
  proof (cases "en_timers s")
    case Nil
    then show ?thesis using inv by (simp add: run_timer_def)
  next
    case (Cons x rest)
    obtain due n action where x: "x = (due, n, action)" by (cases x)
    have "rp_inv {(due, n, action)} (s\<lparr>en_timers := rest\<rparr>)" by (rule rp_inv_frame [OF inv]) (use Cons x in auto)
    then have "rp_ok (snd (do_action now n action (s\<lparr>en_timers := rest\<rparr>)))"
      using holdsD [OF holds_do_action [of due n action now], of "s\<lparr>en_timers := rest\<rparr>"] by auto
    then show ?thesis using inv Cons x by (simp add: run_timer_def)
  qed
qed

section \<open>Changes\<close>

lemma step_pend:
  "step ts key off R (bindS (gets en_counter) (\<lambda>n. thenS (put_rcb key (\<lambda>b. b\<lparr>rb_pending := Some \<lparr>ga_timer = n, ga_reasons = [], ga_values = []\<rparr>\<rparr>))
     (at_time due (Flush_gathered key)))) (\<lambda>_ b. True)"
  unfolding step_def
proof (rule holdsI, elim conjE)
  fix s assume inv: "rp_inv ts s" and "block_of key off R s"
  then obtain b where b: "map_of (en_blocks s) key = Some b" "off \<longrightarrow> rcb_enabled (en_model s) b \<noteq> Inr True" by (auto simp: block_of_def)
  let ?n = "en_counter s"
  let ?f = "\<lambda>b. b\<lparr>rb_pending := Some \<lparr>ga_timer = ?n, ga_reasons = [], ga_values = []\<rparr>\<rparr>"
  let ?x = "(due, ?n, Flush_gathered key)"
  let ?s = "s\<lparr>en_blocks := map (\<lambda>(k, b). (k, if k = key then ?f b else b)) (en_blocks s)\<rparr>"
  let ?s' = "?s\<lparr>en_timers := push_timer ?x (en_timers s), en_counter := ?n + 1\<rparr>"
  have "rp_inv (insert ?x ts) ?s"
  proof (rule put_rcb_ok [OF inv b(1)])
    show "buffer_ok (?f b) \<and> owner_ok (?f b) \<and> timed (insert ?x ts \<union> set (en_timers s)) key (?f b)
        \<and> (rcb_enabled (en_model s) b = Inr True \<longrightarrow> rb_owner (?f b) \<noteq> None)"
      if "rcb_ok (en_model s) (ts \<union> set (en_timers s)) key b"
      using that by (auto simp: rcb_ok_def buffer_ok_def owner_ok_def timed_def)
    show "timed (insert ?x ts \<union> set (en_timers s)) k c" if "timed (ts \<union> set (en_timers s)) k c" for k c
      by (rule timed_mono [OF that]) blast
  qed simp
  then have "rp_inv ts ?s'" by (rule rp_inv_frame) auto
  moreover have "block_of key off (\<lambda>b. True) ?s'" using b rcb_fields(1) [of "?f b" b] by (auto simp: block_of_def map_of_put)
  moreover have "bindS (gets en_counter) (\<lambda>n. thenS (put_rcb key (\<lambda>b. b\<lparr>rb_pending := Some \<lparr>ga_timer = n, ga_reasons = [], ga_values = []\<rparr>\<rparr>))
     (at_time due (Flush_gathered key))) s = (Inr (), ?s')"
    by (simp add: put_rcb_def at_time_def)
  ultimately show "case bindS (gets en_counter) (\<lambda>n. thenS (put_rcb key (\<lambda>b. b\<lparr>rb_pending := Some \<lparr>ga_timer = n, ga_reasons = [], ga_values = []\<rparr>\<rparr>))
     (at_time due (Flush_gathered key))) s of (Inl e, s') \<Rightarrow> rp_inv ts s' | (Inr x, s') \<Rightarrow> rp_inv ts s' \<and> block_of key off (\<lambda>b. True) s'"
    by simp
qed

lemma step_add_change: "step ts key False R (add_change fuel now key reasons) (\<lambda>_ b. True)"
proof (induction fuel arbitrary: R)
  case 0
  show ?case unfolding add_change.simps by (rule step_raise)
next
  case (Suc fuel)
  have gather: "step ts key False (\<lambda>b. True) (put_rcb key (\<lambda>b. case rb_pending b of
              None \<Rightarrow> b
            | Some g \<Rightarrow> b\<lparr>rb_pending := Some (g\<lparr>ga_reasons := ga_reasons g @ reasons, ga_values := ga_values g @ vs\<rparr>)\<rparr>)) (\<lambda>_ b. True)" for vs
    by (rule step_put) (auto simp: harmless_def owner_ok_def buffer_ok_def split: option.split)
  show ?case
    unfolding add_change.simps
    by (intro step_read step_if step_then [OF step_when [OF step_pend]] step_then [OF step_flush Suc.IH] gather
        step_bind [OF step_new_entry] step_deliver) simp
qed

lemma holds_add_change: "holds (rp_inv ts) (add_change (Suc fuel) now key reasons) (\<lambda>_. rp_inv ts) (rp_inv ts)"
  unfolding add_change.simps
  by (rule holds_lookup, rule step_add_change [of _ _ _ "Suc fuel", unfolded add_change.simps])

lemma holds_on_change: "holds (rp_inv ts) (on_change now changed) (\<lambda>_. rp_inv ts) (rp_inv ts)"
proof -
  have index: "holds (rp_inv ts) get_index (\<lambda>_. rp_inv ts) (rp_inv ts)"
  proof (rule holdsI)
    fix s assume inv: "rp_inv ts s"
    show "case get_index s of (Inl e, s') \<Rightarrow> rp_inv ts s' | (Inr x, s') \<Rightarrow> rp_inv ts s'"
      using inv by (cases "en_index s") (auto simp: get_index_def bindS_try_get rp_inv_iff index_ok_def split: sum.split)
  qed
  show ?thesis
    unfolding on_change_def
  proof (rule holds_bind [OF index], rule holds_bind)
    fix found :: found
    show "holds (rp_inv ts) (bindS (gets (\<lambda>s. map fst (en_blocks s))) (for_each (\<lambda>key. case map_of found key of
         None \<Rightarrow> ret () | Some reasons \<Rightarrow> add_change 2 now key reasons))) (\<lambda>_. rp_inv ts) (rp_inv ts)"
      by (rule holds_bind [OF holds_gets [where Q = "\<lambda>_. rp_inv ts"]], assumption, rule holds_for_each)
        (auto split: option.split intro: holds_ret holds_add_change simp: numeral_2_eq_2 simp del: add_change.simps ret_apply)
  qed (rule holds_try_get, auto)
qed

end
