(* ===== verification/ReportEngine.thy ===== *)
theory ReportEngine
  imports ReportingInv
begin

text \<open>
  What the report engine promises: the invariant in every execution, blocks that belong to one client at a time, a buffer
  that is the longest suffix of what was kept that its bounds allow, and reports that the client decodes.
\<close>

section \<open>The first state\<close>

lemma fc_blocks_member:
  "(key, b) \<in> set (fc_blocks n ld ln x fc) \<longleftrightarrow> (\<exists>fcn block. child (asc fc) (n_children x) = Some fcn \<and> block \<in> set (n_children fcn)
    \<and> key = (ld, join 36 [ln, asc fc, n_name block]) \<and> b = new_rcb n ld [ln, asc fc, n_name block] (n_fc block = Some (asc ''BR'')))"
proof (cases "child (asc fc) (n_children x)")
  case (Some fcn)
  then show ?thesis unfolding fc_blocks_def Let_def by (simp only: option.case set_map image_iff option.inject) auto
qed (simp add: fc_blocks_def)

lemma ln_blocks_member: "(key, b) \<in> set (ln_blocks n ld p) \<longleftrightarrow> (\<exists>fc \<in> {''BR'', ''RP''}. (key, b) \<in> set (fc_blocks n ld (fst p) (snd p) fc))"
  by (auto simp: ln_blocks_def)

lemma model_blocks_member:
  assumes "(key, b) \<in> set (model_blocks n m)"
  shows "\<exists>ld lns ln x fc fcn block. (ld, lns) \<in> set (im_devices m) \<and> (ln, x) \<in> set lns \<and> fc \<in> {''BR'', ''RP''}
    \<and> child (asc fc) (n_children x) = Some fcn \<and> block \<in> set (n_children fcn)
    \<and> key = (ld, join 36 [ln, asc fc, n_name block]) \<and> b = new_rcb n ld [ln, asc fc, n_name block] (n_fc block = Some (asc ''BR''))"
proof -
  obtain ld lns p where p: "(ld, lns) \<in> set (im_devices m)" "p \<in> set lns" "(key, b) \<in> set (ln_blocks n ld p)"
    using assms by (auto simp: model_blocks_def)
  obtain ln x where x: "p = (ln, x)" by (cases p)
  obtain fc where "fc \<in> {''BR'', ''RP''}" "(key, b) \<in> set (fc_blocks n ld ln x fc)" using p(3) x unfolding ln_blocks_member by auto
  then show ?thesis using p(1,2) x unfolding fc_blocks_member by blast
qed

lemma distinct_concat_map:
  assumes "distinct (map h xs)" "\<And>x. x \<in> set xs \<Longrightarrow> distinct (map g (f x))"
    and "\<And>x y u v. x \<in> set xs \<Longrightarrow> y \<in> set xs \<Longrightarrow> u \<in> set (f x) \<Longrightarrow> v \<in> set (f y) \<Longrightarrow> g u = g v \<Longrightarrow> h x = h y"
  shows "distinct (map g (concat (map f xs)))"
  using assms
proof (induction xs)
  case (Cons x xs)
  have "g u \<noteq> g v" if "u \<in> set (f x)" "y \<in> set xs" "v \<in> set (f y)" for u y v
  proof
    assume "g u = g v"
    then have "h x = h y" using Cons.prems(3) [of x y u v] that by simp
    then show False using Cons.prems(1) that(2) by force
  qed
  then have "g ` set (f x) \<inter> g ` set (concat (map f xs)) = {}" by auto
  moreover have "distinct (map g (concat (map f xs)))"
    using Cons.prems by (intro Cons.IH) (simp, simp, meson list.set_intros(2))
  ultimately show ?case using Cons.prems(2) [of x] by simp
qed simp

lemma plain_below:
  assumes "plain_model m" "(ld, lns) \<in> set (im_devices m)" "(ln, x) \<in> set lns" "child (asc fc) (n_children x) = Some fcn"
    "block \<in> set (n_children fcn)"
  shows "36 \<notin> set ln" "36 \<notin> set (asc fc)" "36 \<notin> set (n_name block)" "distinct (map n_name (n_children fcn))"
proof -
  have x: "n_name x = ln" "plain x" using assms(1-3) by (auto simp: plain_model_def)
  have fcn: "fcn \<in> set (n_children x)" "n_name fcn = asc fc" using child_Some [OF assms(4)] by auto
  have "plain fcn" using x(2) fcn(1) by (cases x) (auto simp: list_all_iff)
  moreover from this have "plain block" using assms(5) by (cases fcn) (auto simp: list_all_iff)
  ultimately show "36 \<notin> set ln" "36 \<notin> set (asc fc)" "36 \<notin> set (n_name block)" "distinct (map n_name (n_children fcn))"
    using x fcn(2) by (cases x; cases fcn; cases block; simp)+
qed

lemma block_split:
  assumes "plain_model m" "(key, b) \<in> set (model_blocks n m)"
  shows "split_on 36 (snd key) = rb_path b \<and> rb_domain b = fst key \<and> length (rb_path b) = 3 \<and> rb_path b ! 1 \<in> {asc ''BR'', asc ''RP''}"
proof -
  obtain ld lns ln x fc fcn block where b: "(ld, lns) \<in> set (im_devices m)" "(ln, x) \<in> set lns" "fc \<in> {''BR'', ''RP''}"
    "child (asc fc) (n_children x) = Some fcn" "block \<in> set (n_children fcn)" "key = (ld, join 36 [ln, asc fc, n_name block])"
    "b = new_rcb n ld [ln, asc fc, n_name block] (n_fc block = Some (asc ''BR''))" using model_blocks_member [OF assms(2)] by blast
  have "split_on 36 (join 36 [ln, asc fc, n_name block]) = [ln, asc fc, n_name block]"
    using plain_below [OF assms(1) b(1,2,4,5)] by (intro split_join) auto
  then show ?thesis using b(3) by (auto simp: b(6,7) new_rcb_def simp del: asc_simps)
qed

lemma split_join_eq:
  assumes "\<forall>p \<in> set (q # ps). 36 \<notin> set p" "\<forall>p \<in> set (r # rs). 36 \<notin> set p" "join 36 (q # ps) = join 36 (r # rs)"
  shows "q = r \<and> ps = rs"
  using split_join [OF assms(1)] split_join [OF assms(2)] unfolding assms(3) by simp

lemma distinct_blocks:
  assumes "wt_model m" "plain_model m"
  shows "distinct (map fst (model_blocks n m))"
proof -
  have plain: "\<forall>q \<in> set [ln, asc fc, n_name block]. 36 \<notin> set q"
    if "(ld, lns) \<in> set (im_devices m)" "(ln, x) \<in> set lns" "child (asc fc) (n_children x) = Some fcn" "block \<in> set (n_children fcn)"
    for ld lns ln x fc fcn block using plain_below [OF assms(2) that] by simp
  have same: "ln = ln' \<and> fc = fc'"
    if h: "(ld, lns) \<in> set (im_devices m)" "(ln, x) \<in> set lns" "(ld, lns') \<in> set (im_devices m)" "(ln', x') \<in> set lns'"
      "u \<in> set (fc_blocks n ld ln x fc)" "v \<in> set (fc_blocks n ld ln' x' fc')" "fst u = fst v" for ld lns lns' ln x ln' x' fc fc' u v
  proof -
    obtain f b where u: "child (asc fc) (n_children x) = Some f" "b \<in> set (n_children f)" "fst u = (ld, join 36 [ln, asc fc, n_name b])"
      using h(5) fc_blocks_member [of "fst u" "snd u"] by (auto simp del: join.simps)
    obtain f' b' where v: "child (asc fc') (n_children x') = Some f'" "b' \<in> set (n_children f')" "fst v = (ld, join 36 [ln', asc fc', n_name b'])"
      using h(6) fc_blocks_member [of "fst v" "snd v"] by (auto simp del: join.simps)
    have "ln = ln' \<and> [asc fc, n_name b] = [asc fc', n_name b']"
      using h(7) u(3) v(3) by (intro split_join_eq plain [OF h(1,2) u(1,2)] plain [OF h(3,4) v(1,2)]) simp
    then show ?thesis using asc_inj by auto
  qed
  have fcs: "distinct (map fst (fc_blocks n ld ln x fc))" if l: "(ld, lns) \<in> set (im_devices m)" "(ln, x) \<in> set lns" for ld lns ln x fc
  proof (cases "child (asc fc) (n_children x)")
    case (Some f)
    have d: "distinct (map n_name (n_children f))"
      using plain_below(4) [OF assms(2) l Some] by (cases "n_children f") fastforce+
    have "inj_on (\<lambda>block. (ld, join 36 [ln, asc fc, n_name block])) (set (n_children f))"
      using split_join_eq plain [OF l Some] d by (intro inj_onI) (fastforce simp: distinct_map dest: inj_onD)
    then show ?thesis using d Some by (simp add: fc_blocks_def Let_def comp_def distinct_map)
  qed (simp add: fc_blocks_def)
  have lns: "distinct (map fst (ln_blocks n ld (ln, x)))" if l: "(ld, lns) \<in> set (im_devices m)" "(ln, x) \<in> set lns" for ld lns ln x
    unfolding ln_blocks_def fst_conv snd_conv
    by (rule distinct_concat_map [where h = "\<lambda>x. x"]) (use fcs [OF l] same [OF l l] in auto)
  have "distinct (map fst (concat (map (ln_blocks n ld) lns)))" if l: "(ld, lns) \<in> set (im_devices m)" for ld lns
  proof (rule distinct_concat_map [where h = fst])
    show "distinct (map fst lns)" using assms(2) l by (auto simp: plain_model_def)
    show "distinct (map fst (ln_blocks n ld p))" if "p \<in> set lns" for p using lns [OF l, of "fst p" "snd p"] that by simp
    show "fst p = fst q" if pq: "p \<in> set lns" "q \<in> set lns" "u \<in> set (ln_blocks n ld p)" "v \<in> set (ln_blocks n ld q)" "fst u = fst v" for p q u v
    proof -
      obtain fc where "u \<in> set (fc_blocks n ld (fst p) (snd p) fc)" using pq(3) ln_blocks_member [of "fst u" "snd u"] by auto
      moreover obtain fc' where "v \<in> set (fc_blocks n ld (fst q) (snd q) fc')" using pq(4) ln_blocks_member [of "fst v" "snd v"] by auto
      ultimately show ?thesis using same [OF l _ l, of "fst p" "snd p" "fst q" "snd q" u fc v fc'] pq by simp
    qed
  qed
  then have inner: "distinct (map fst (case e of (ld, lns) \<Rightarrow> concat (map (ln_blocks n ld) lns)))" if "e \<in> set (im_devices m)" for e
    using that by (cases e) simp
  have key: "fst (fst u) = fst e" if h: "u \<in> set (case e of (ld, lns) \<Rightarrow> concat (map (ln_blocks n ld) lns))" for e u
  proof -
    obtain p where "u \<in> set (ln_blocks n (fst e) p)" using h by (cases e) auto
    then show ?thesis using ln_blocks_member [of "fst u" "snd u"] fc_blocks_member [of "fst u" "snd u"] by auto
  qed
  show ?thesis
    unfolding model_blocks_def
  proof (rule distinct_concat_map [where h = fst])
    show "distinct (map fst (im_devices m))" using assms(1) by (simp add: wt_model_def)
  qed (use inner key in metis)+
qed

text \<open>A model whose report blocks have their standard attributes, none enabled yet.\<close>

definition report_model :: "ied_model \<Rightarrow> bool" where
  "report_model m \<longleftrightarrow> wt_model m \<and> plain_model m
     \<and> (\<forall>(key, b) \<in> set (model_blocks 0 m). rcb_layout m b \<and> rcb_enabled m b \<noteq> Inr True)"

lemma new_rcb_same: "rb_domain (new_rcb n ld p f) = ld" "rb_path (new_rcb n ld p f) = p" "rcb_layout m (new_rcb n ld p f) = rcb_layout m (new_rcb k ld p f)"
  "rcb_enabled m (new_rcb n ld p f) = rcb_enabled m (new_rcb k ld p f)"
  by (simp_all add: new_rcb_def rcb_layout_def rcb_enabled_def attr_def attr_path_def)

lemma new_reporting_ok:
  assumes "report_model m"
  shows "rp_ok (new_reporting n address utc m)"
proof -
  have wf: "wt_model m" "plain_model m" using assms by (simp_all add: report_model_def)
  have "rcb_ok m {} key b" if kb: "(key, b) \<in> set (model_blocks n m)" for key b
  proof -
    obtain ld lns ln x fc fcn block where b: "(ld, lns) \<in> set (im_devices m)" "(ln, x) \<in> set lns" "fc \<in> {''BR'', ''RP''}"
      "child (asc fc) (n_children x) = Some fcn" "block \<in> set (n_children fcn)" "key = (ld, join 36 [ln, asc fc, n_name block])"
      "b = new_rcb n ld [ln, asc fc, n_name block] (n_fc block = Some (asc ''BR''))" using model_blocks_member [OF kb] by blast
    let ?b = "new_rcb 0 ld [ln, asc fc, n_name block] (n_fc block = Some (asc ''BR''))"
    have "(key, ?b) \<in> set (model_blocks 0 m)"
    proof -
      have "(key, ?b) \<in> set (fc_blocks 0 ld ln x fc)" using b(4-6) unfolding fc_blocks_member by blast
      then have "(key, ?b) \<in> set (ln_blocks 0 ld (ln, x))" using b(3) unfolding ln_blocks_member by auto
      then show ?thesis using b(1,2) by (force simp: model_blocks_def)
    qed
    then have "rcb_layout m ?b" "rcb_enabled m ?b \<noteq> Inr True" using assms by (auto simp: report_model_def)
    then have "rcb_layout m b" "rcb_enabled m b \<noteq> Inr True" using new_rcb_same unfolding b(7) by metis+
    moreover have "report_key key" "split_on 36 (snd key) = rb_path b" "rb_domain b = fst key" "length (rb_path b) = 3"
      using block_split [OF wf(2) kb] by (simp_all add: report_key_def)
    moreover have "buffer_ok b" "owner_ok b" "timed {} key b"
      unfolding b(7) by (simp_all add: new_rcb_def buffer_ok_def owner_ok_def timed_def BUFFER_ENTRIES_def)
    ultimately show ?thesis by (simp add: rcb_ok_def)
  qed
  then show ?thesis using wf(1) distinct_blocks [OF wf] by (simp add: rp_inv_iff new_reporting_def index_ok_def)
qed

section \<open>Values the application sets\<close>

text \<open>An object that holds no report control block.\<close>

definition outside :: "object_name \<Rightarrow> bool" where
  "outside obj \<longleftrightarrow> 2 \<le> length (path_of obj) \<and> path_of obj ! 1 \<notin> {asc ''BR'', asc ''RP''}"

lemma outside_path:
  assumes "outside obj" "length q = 3" "q ! 1 \<in> {asc ''BR'', asc ''RP''}"
  shows "\<not> prefix (path_of obj) (q @ [x]) \<and> \<not> prefix (q @ [x]) (path_of obj)"
proof -
  have len: "1 < length (path_of obj)" "1 < length (q @ [x])" using assms by (simp_all add: outside_def)
  have ne: "path_of obj ! 1 \<noteq> (q @ [x]) ! 1" using assms by (auto simp: outside_def nth_append simp del: asc_simps)
  have "us ! 1 = vs ! 1" if "prefix us vs" "1 < length us" for us vs :: "ustr list"
    using that by (auto simp: prefix_def nth_append)
  from this [of "path_of obj" "q @ [x]"] this [of "q @ [x]" "path_of obj"] show ?thesis using len ne by metis
qed

lemma set_node_elsewhere:
  assumes "wt_model m" "set_node m obj d = Inr (m', ch)" "outside obj" "length q = 3" "q ! 1 \<in> {asc ''BR'', asc ''RP''}"
  shows "node_at m' ld (q @ [x]) = node_at m ld (q @ [x]) \<and> im_data_sets m' = im_data_sets m"
proof -
  obtain n where n: "node_at m (domain_of obj) (path_of obj) = Some n" "fits (n_type n) d" "assign_at m obj n d = Inr (m', ch)"
    using assms(2) by (auto simp: set_node_def find_node_def split: option.splits if_splits)
  obtain n' c where a: "assign n d = Inr (n', c)" "n_name n' = n_name n" "m' = put_node m (domain_of obj) (path_of obj) n'"
    using assign_ok [OF conjunct1 [OF node_at_wt [OF assms(1) n(1)]] n(2)] n(3) by (auto simp: assigned_def assign_at_def)
  show ?thesis
    using put_node_other [OF n(1) a(2), of ld "q @ [x]"] outside_path [OF assms(3-5)] unfolding a(3) by (simp add: put_node_def)
qed

lemma set_outside_ok:
  assumes inv: "rp_inv ts s" and set: "set_node (en_model s) obj d = Inr (m', ch)" and out: "outside obj"
  shows "rp_inv ts (s\<lparr>en_model := m'\<rparr>)"
proof -
  have wt: "wt_model (en_model s)" using inv by (simp add: rp_inv_iff)
  have same: "rcb_enabled m' b = rcb_enabled (en_model s) b \<and> rcb_members m' b = rcb_members (en_model s) b \<and> rcb_layout m' b = rcb_layout (en_model s) b"
    if kb: "(key, b) \<in> set (en_blocks s)" for key b
  proof -
    have "rcb_ok (en_model s) (ts \<union> set (en_timers s)) key b" using inv kb unfolding rp_inv_iff by blast
    then have path: "length (rb_path b) = 3" "rb_path b ! 1 \<in> {asc ''BR'', asc ''RP''}" unfolding rcb_ok_def report_key_def by metis+
    have at: "node_at m' (rb_domain b) (rb_path b @ [x]) = node_at (en_model s) (rb_domain b) (rb_path b @ [x])" for x
      using set_node_elsewhere [OF wt set out path] by blast
    have sets: "im_data_sets m' = im_data_sets (en_model s)" using set_node_elsewhere [OF wt set out path] by blast
    have "rcb_members m' b = rcb_members (en_model s) b" unfolding rcb_members_def sets attr_cong [OF at] ..
    then show ?thesis using attr_cong [OF at] by (simp add: rcb_enabled_def rcb_layout_def node_types_def at)
  qed
  have "rcb_index m' (en_blocks s) = rcb_index (en_model s) (en_blocks s)" using same by (intro rcb_index_cong) blast
  then show ?thesis
    using inv same set_node_sound(1) [OF wt set] unfolding rp_inv_iff index_ok_def rcb_ok_def by (simp split: option.splits)
qed

section \<open>Executions\<close>

datatype rp_event =
    Rp_write int nat object_name iecdata
  | Rp_close int nat
  | Rp_timer int
  | Rp_set int object_name iecdata

fun rp_step :: "rp_event \<Rightarrow> rp_engine \<Rightarrow> rp_engine" where
  "rp_step (Rp_write now c obj d) s = snd (rp_on_write now c obj d s)"
| "rp_step (Rp_close now c) s = snd (rp_on_close now c s)"
| "rp_step (Rp_timer now) s = run_timer now s"
| "rp_step (Rp_set now obj d) s =
     (case set_node (en_model s) obj d of
        Inl _ \<Rightarrow> s
      | Inr (m, changed) \<Rightarrow> snd (on_change now changed (s\<lparr>en_model := m\<rparr>)))"

fun allowed :: "rp_event \<Rightarrow> bool" where
  "allowed (Rp_set now obj d) \<longleftrightarrow> outside obj"
| "allowed _ \<longleftrightarrow> True"

lemma rp_step_ok: "rp_ok s \<Longrightarrow> allowed e \<Longrightarrow> rp_ok (rp_step e s)"
proof (induction e s rule: rp_step.induct)
  case (4 now obj d s)
  then show ?case
    using set_outside_ok [OF 4(1)] holds_state [OF holds_on_change] by (fastforce split: sum.split prod.split)
qed (simp_all add: holds_state [OF holds_on_write] holds_state [OF holds_on_close] run_timer_ok)

lemma rp_run_ok: "rp_ok s \<Longrightarrow> list_all allowed es \<Longrightarrow> rp_ok (fold rp_step es s)"
  by (induction es arbitrary: s) (simp_all add: rp_step_ok)

text \<open>The engine is one of those that plug into the server: at whatever time a connection closes.\<close>

interpretation rp: engine_calls rp_ok rp_on_write "\<lambda>_ _ _. ret ()" "rp_on_close now" "\<lambda>_. True" for now
  by unfold_locales (simp_all add: holds_on_write holds_on_close holds_ret del: ret_apply)

section \<open>The owner of a block\<close>

text \<open>What an operation leaves of a block: its owner, or what it has gathered.\<close>

definition field_at :: "(rcb \<Rightarrow> 'f) \<Rightarrow> block_key \<Rightarrow> rp_engine \<Rightarrow> 'f option" where
  "field_at h key s = map_option h (map_of (en_blocks s) key)"

definition same_field :: "(rcb \<Rightarrow> 'f) \<Rightarrow> block_key \<Rightarrow> 'a rp_op \<Rightarrow> bool" where
  "same_field h key m \<longleftrightarrow> (\<forall>x. holds (\<lambda>s. field_at h key s = x) m (\<lambda>_ s. field_at h key s = x) (\<lambda>s. field_at h key s = x))"

text \<open>A field that sending and buffering leave.\<close>

definition apart :: "(rcb \<Rightarrow> 'f) \<Rightarrow> bool" where
  "apart h \<longleftrightarrow> (\<forall>b n e v. h (b\<lparr>rb_next_entry := n\<rparr>) = h b \<and> h (keep_entry e b) = h b \<and> h (b\<lparr>rb_overflowed := v, rb_sent := n\<rparr>) = h b)"

lemma apart_fields [simp]: "apart rb_owner" "apart rb_pending"
  by (simp_all add: apart_def)

abbreviation "owner_at \<equiv> field_at rb_owner"
abbreviation "same_owner \<equiv> same_field rb_owner"

named_theorems owner \<open>operations that leave a field of a block\<close>

lemma owner_bind [owner]: "same_field h key m \<Longrightarrow> (\<And>x. same_field h key (f x)) \<Longrightarrow> same_field h key (bindS m f)"
  unfolding same_field_def by (blast intro: holds_bind)

lemma owner_then [owner]: "same_field h key m \<Longrightarrow> same_field h key n \<Longrightarrow> same_field h key (thenS m n)"
  unfolding same_field_def by (blast intro: holds_then)

lemma owner_if [owner]: "(c \<Longrightarrow> same_field h key m) \<Longrightarrow> (\<not> c \<Longrightarrow> same_field h key n) \<Longrightarrow> same_field h key (if c then m else n)"
  by simp

lemma owner_simple [owner]:
  "same_field h key (ret x)" "same_field h key (raise e)" "same_field h key (gets f)" "same_field h key (try_get g)" "same_field h key (of_rcb k r)"
  unfolding same_field_def of_rcb_def by (auto intro!: holds simp del: ret_apply)

lemma owner_when [owner]: "(c \<Longrightarrow> same_field h key m) \<Longrightarrow> same_field h key (whenS c m)"
  unfolding whenS_def by (auto intro: owner simp del: ret_apply)

lemma owner_for_each [owner]: "(\<And>x. x \<in> set xs \<Longrightarrow> same_field h key (f x)) \<Longrightarrow> same_field h key (for_each f xs)"
  unfolding same_field_def by (blast intro: holds_for_each)

lemma owner_option [owner]: "same_field h key m \<Longrightarrow> (\<And>x. same_field h key (f x)) \<Longrightarrow> same_field h key (case y of None \<Rightarrow> m | Some x \<Rightarrow> f x)"
  by (cases y) simp_all

lemma owner_prod [owner]: "(\<And>x y. same_field h key (f x y)) \<Longrightarrow> same_field h key (case p of (x, y) \<Rightarrow> f x y)"
  by (cases p) simp

lemma owner_modify [owner]: "(\<And>s. en_blocks (f s) = en_blocks s) \<Longrightarrow> same_field h key (modify f)"
  unfolding same_field_def by (auto intro!: holds_modify simp: field_at_def)

lemma owner_put: "k \<noteq> key \<or> (\<forall>b. h (f b) = h b) \<Longrightarrow> same_field h key (put_rcb k f)"
  unfolding same_field_def put_rcb_def
  by (auto intro!: holds_modify simp: field_at_def map_of_put option.map_comp comp_def cong: map_option_cong)

lemma owner_purge [owner]: "same_owner key (put_rcb k purge)"
  by (rule owner_put) (simp add: purge_def)

lemma owner_assign [owner]: "same_field h key (assign_attr ld p d)"
  unfolding same_field_def assign_attr_def by (auto intro!: holdsI simp: field_at_def split: option.splits sum.splits prod.splits)

lemma owner_set [owner]: "same_field h key (set_rcb_attr k name d)"
  unfolding set_rcb_attr_def by (intro owner) simp

lemma owner_has_child [owner]: "same_field h key (has_child k name)"
  unfolding has_child_def by (intro owner)

lemma owner_at_time [owner]: "same_field h key (at_time due a)"
  unfolding at_time_def by (intro owner) simp

lemma owner_new_entry [owner]: "apart h \<Longrightarrow> same_field h key (new_entry now k reasons values)"
  unfolding new_entry_def by (intro owner owner_put) (simp add: apart_def)

lemma owner_send [owner]: "apart h \<Longrightarrow> same_field h key (send_entry k e)"
  unfolding send_entry_def by (intro owner owner_put) (simp_all add: apart_def)

lemma owner_deliver [owner]: "apart h \<Longrightarrow> same_field h key (deliver k e)"
  unfolding deliver_def by (intro owner owner_put) (simp_all add: apart_def)

lemma owner_flush [owner]: "same_owner key (flush now k)"
  unfolding flush_def by (intro owner owner_put) simp_all

lemma owner_report_all [owner]: "same_owner key (report_all now k r)"
  unfolding report_all_def by (intro owner) simp_all

lemma owner_interrogation [owner]: "same_owner key (general_interrogation now k)"
  unfolding general_interrogation_def by (intro owner)

lemma owner_schedule [owner]: "same_owner key (schedule_integrity now k)"
  unfolding schedule_integrity_def by (intro owner owner_put) simp

lemma owner_fire [owner]: "same_owner key (fire_integrity now k due)"
  unfolding fire_integrity_def by (intro owner)

lemma owner_enabled [owner]: "same_owner key (on_enabled now k)"
  unfolding on_enabled_def by (intro owner owner_put) simp_all

lemma owner_add [owner]: "same_owner key (add_change fuel now k reasons)"
proof (induction fuel)
  case (Suc fuel)
  then show ?case unfolding add_change.simps by (intro owner owner_put) (simp_all split: option.split)
qed (simp only: add_change.simps owner_simple)

lemma owner_index [owner]: "same_owner key get_index"
  unfolding get_index_def by (intro owner) simp

lemma owner_change [owner]: "same_owner key (on_change now changed)"
  unfolding on_change_def by (intro owner)

lemma owner_take: "k \<noteq> key \<Longrightarrow> same_owner key (take_rcb k c)"
  unfolding take_rcb_def by (intro owner owner_put) simp

lemma owner_release: "k \<noteq> key \<Longrightarrow> same_owner key (release_rcb now k keep_for)"
  unfolding release_rcb_def by (intro owner owner_put) simp_all

text \<open>A block is its own in a write to it; and no client but the owner may write to it.\<close>

lemma owner_write_other:
  assumes "key \<noteq> k"
  shows "same_owner key (write_rcb now c k ld path a d)"
proof -
  note release = owner_release [OF assms [symmetric]] and take = owner_take [OF assms [symmetric]]
  have "same_owner key (write_rpt_ena now c k ld path d)"
    unfolding write_rpt_ena_def by (cases d) (auto intro!: owner take owner_put simp del: ret_apply)
  moreover have "same_owner key (case d of BoolData v \<Rightarrow> thenS (if v then take_rcb k c else release_rcb now k 0) (ret Handled) | _ \<Rightarrow> raise AssertionError)"
    by (cases d) (auto intro!: owner take release simp del: ret_apply raise_apply)
  ultimately show ?thesis
    unfolding write_rcb_def by (intro owner release take) simp_all
qed

lemma owner_on_write:
  assumes "key \<noteq> (domain_of obj, join 36 (take 3 (path_of obj)))"
  shows "same_owner key (rp_on_write now c obj d)"
  unfolding rp_on_write_def Let_def using assms by (auto intro!: owner owner_write_other simp del: ret_apply asc_simps)

lemma owner_lapse: "holds (\<lambda>s. owner_at key s = Some (Some o')) (lapse now k due) (\<lambda>_ s. owner_at key s = Some (Some o')) (\<lambda>s. owner_at key s = Some (Some o'))"
proof (cases "k = key")
  case False
  then have "same_owner key (lapse now k due)" unfolding lapse_def by (intro owner owner_release)
  then show ?thesis by (simp add: same_field_def)
next
  case True
  show ?thesis
    by (rule holdsI) (auto simp: True field_at_def lapse_def of_rcb_def bindS_try_get whenS_def)
qed

lemma owner_timer: "owner_at key s = Some (Some o') \<Longrightarrow> owner_at key (run_timer now s) = Some (Some o')"
proof -
  assume o: "owner_at key s = Some (Some o')"
  show ?thesis
  proof (cases "en_timers s")
    case (Cons x rest)
    obtain due n action where x: "x = (due, n, action)" by (cases x)
    let ?s = "s\<lparr>en_timers := rest\<rparr>"
    have o': "owner_at key ?s = Some (Some o')" using o by (simp add: field_at_def)
    have "owner_at key (snd (do_action now n action ?s)) = Some (Some o')"
    proof (cases action)
      case (Lapse k t)
      then show ?thesis using holds_state [where I = "\<lambda>s. owner_at key s = Some (Some o')", OF owner_lapse o'] by (simp add: do_action_def)
    next
      case (Integrity k t)
      then show ?thesis using holds_state [where I = "\<lambda>s. owner_at key s = Some (Some o')", OF owner_fire [unfolded same_field_def, rule_format] o'] by (simp add: do_action_def)
    next
      case (Flush_gathered k)
      have "same_owner key (do_action now n action)" unfolding do_action_def Flush_gathered by (simp, intro owner)
      then show ?thesis using holds_state [where I = "\<lambda>s. owner_at key s = Some (Some o')", OF _ o'] unfolding same_field_def by blast
    qed
    then show ?thesis using o x Cons by (simp add: run_timer_def)
  qed (simp add: o run_timer_def)
qed

lemma owner_close: "c \<noteq> o' \<Longrightarrow> owner_at key s = Some (Some o') \<Longrightarrow> owner_at key (snd (rp_on_close now c s)) = Some (Some o')"
proof (rule holds_state [where I = "\<lambda>s. owner_at key s = Some (Some o')"])
  assume c: "c \<noteq> o'"
  have "holds (\<lambda>s. owner_at key s = Some (Some o')) (close_rcb now c k) (\<lambda>_ s. owner_at key s = Some (Some o')) (\<lambda>s. owner_at key s = Some (Some o'))" for k
  proof (cases "k = key")
    case False
    then have "same_owner key (close_rcb now c k)" unfolding close_rcb_def by (intro owner owner_release owner_put) simp_all
    then show ?thesis by (simp add: same_field_def)
  next
    case True
    show ?thesis using c by (intro holdsI) (auto simp: True field_at_def close_rcb_def of_rcb_def bindS_try_get whenS_def)
  qed
  then show "holds (\<lambda>s. owner_at key s = Some (Some o')) (rp_on_close now c) (\<lambda>_ s. owner_at key s = Some (Some o')) (\<lambda>s. owner_at key s = Some (Some o'))"
    unfolding rp_on_close_def
    by (intro holds_bind [OF holds_gets [where Q = "\<lambda>_ s. owner_at key s = Some (Some o')"]] holds_for_each)
qed

lemma held_write:
  assumes "map_of (en_blocks s) key = Some b" "domain_of obj = fst key" "3 \<le> length (path_of obj)" "take 3 (path_of obj) = split_on 36 (snd key)"
    "report_key key" "held_by_other (en_address s) now c b"
  shows "\<exists>code. rp_on_write now c obj d s = (Inr (Refused code), s)"
proof -
  have "path_of obj ! 1 = split_on 36 (snd key) ! 1" using assms(3) unfolding assms(4) [symmetric] by simp
  then have "\<not> (length (path_of obj) < 3 \<or> path_of obj ! 1 \<notin> {asc ''BR'', asc ''RP''})" using assms(3,5) unfolding report_key_def by simp
  moreover have "(domain_of obj, join 36 (take 3 (path_of obj))) = key" unfolding assms(2,4) by (simp add: join_split)
  ultimately show ?thesis
    using assms(1,6) by (auto simp: rp_on_write_def Let_def simp del: asc_simps split: option.split)
qed

lemma locked_write:
  assumes "map_of (en_blocks s) key = Some b" "domain_of obj = fst key" "3 \<le> length (path_of obj)" "take 3 (path_of obj) = split_on 36 (snd key)"
    "report_key key" "rcb_enabled (en_model s) b = Inr True" "length (path_of obj) = 4" "locked_attribute (path_of obj ! 3)"
  shows "\<exists>code. rp_on_write now c obj d s = (Inr (Refused code), s)"
proof -
  have "path_of obj ! 1 = split_on 36 (snd key) ! 1" using assms(3) unfolding assms(4) [symmetric] by simp
  then have "\<not> (length (path_of obj) < 3 \<or> path_of obj ! 1 \<notin> {asc ''BR'', asc ''RP''})" using assms(3,5) unfolding report_key_def by simp
  moreover have "(domain_of obj, join 36 (take 3 (path_of obj))) = key" unfolding assms(2,4) by (simp add: join_split)
  ultimately show ?thesis
    using assms(1,6-8) by (auto simp: rp_on_write_def Let_def of_rcb_def bindS_try_get simp del: asc_simps split: option.split)
qed

lemma owner_step:
  assumes "rp_ok s" "map_of (en_blocks s) key = Some b" "rb_owner b = Some o'"
    "case e of Rp_write _ k _ _ \<Rightarrow> k \<noteq> o' | Rp_close _ k \<Rightarrow> k \<noteq> o' | _ \<Rightarrow> True"
  shows "owner_at key (rp_step e s) = Some (Some o')"
proof (cases e)
  case (Rp_write now c obj d)
  have at: "owner_at key s = Some (Some o')" using assms(2,3) by (simp add: field_at_def)
  show ?thesis
  proof (cases "key = (domain_of obj, join 36 (take 3 (path_of obj)))")
    case False
    show ?thesis
      using holds_state [where I = "\<lambda>s. owner_at key s = Some (Some o')", OF owner_on_write [OF False, unfolded same_field_def, rule_format] at]
      by (simp add: Rp_write)
  next
    case True
    have "held_by_other (en_address s) now c b" using assms(3,4) Rp_write by (simp add: held_by_other_def)
    moreover have "report_key key" "length (split_on 36 (snd key)) = 3" using rp_inv_block [OF assms(1,2)] by (simp_all add: rcb_ok_def)
    ultimately have "\<exists>r. rp_on_write now c obj d s = (r, s)"
      using on_write_cases [OF assms(1), of now c obj d] True assms(2) by auto
    then show ?thesis using at by (auto simp: Rp_write)
  qed
next
  case (Rp_close now c)
  then show ?thesis using owner_close [of c o' key s now] assms by (simp add: field_at_def)
next
  case (Rp_timer now)
  then show ?thesis using owner_timer [of key s o' now] assms(2,3) by (simp add: field_at_def)
next
  case (Rp_set now obj d)
  have at: "owner_at key (s\<lparr>en_model := m\<rparr>) = Some (Some o')" for m using assms(2,3) by (simp add: field_at_def)
  have "owner_at key (snd (on_change now ch (s\<lparr>en_model := m\<rparr>))) = Some (Some o')" for ch m
    using holds_state [where I = "\<lambda>s. owner_at key s = Some (Some o')", OF owner_change [unfolded same_field_def, rule_format] at] .
  then show ?thesis using assms(2,3) by (simp add: Rp_set field_at_def split: sum.split prod.split)
qed

section \<open>The buffer\<close>

text \<open>The newest entries within the bounds, one at least.\<close>

definition within :: "int \<Rightarrow> int \<Rightarrow> entry list \<Rightarrow> bool" where
  "within entries octets es \<longleftrightarrow> int (length es) \<le> entries \<and> (\<Sum>e\<leftarrow>es. entry_size e) \<le> octets"

fun newest :: "int \<Rightarrow> int \<Rightarrow> entry list \<Rightarrow> entry list" where
  "newest entries octets (e # f # es) = (if within entries octets (e # f # es) then e # f # es else newest entries octets (f # es))"
| "newest entries octets es = es"

definition older :: "int \<Rightarrow> int \<Rightarrow> entry list \<Rightarrow> entry list" where
  "older entries octets es = take (length es - length (newest entries octets es)) es"

lemma newest_drop: "length (newest n k es) \<le> length es \<and> newest n k es = drop (length es - length (newest n k es)) es"
  by (induction n k es rule: newest.induct) (auto simp: Suc_diff_le)

lemma older_newest: "older n k es @ newest n k es = es"
  using newest_drop [of n k es] unfolding older_def by (metis append_take_drop_id)

lemma older_Cons: "\<not> within n k (e # f # es) \<Longrightarrow> older n k (e # f # es) = e # older n k (f # es)"
  using newest_drop [of n k "f # es"] by (simp add: older_def Suc_diff_le)

lemma drop_oldest_newest:
  "octets = (\<Sum>e\<leftarrow>es. entry_size e) \<Longrightarrow> drop_oldest n k sent es octets overflowed
    = (newest n k es, \<Sum>e\<leftarrow>newest n k es. entry_size e, overflowed \<or> (\<exists>x \<in> set (older n k es). be_id x > sent))"
proof (induction n k sent es octets overflowed rule: drop_oldest.induct)
  case (1 n k sent e f es octets overflowed)
  show ?case
  proof (cases "within n k (e # f # es)")
    case True
    then show ?thesis using 1(2) by (auto simp: within_def older_def)
  next
    case False
    then have "int (length (e # f # es)) > n \<or> octets > k" using 1(2) by (auto simp: within_def)
    then show ?thesis using 1 False older_Cons [OF False] by simp
  qed
qed (simp_all add: older_def)

lemma entry_size_nonneg: "0 \<le> entry_size e"
  by (simp add: entry_size_def)

lemma within_append: "within n k (es @ fs) \<Longrightarrow> within n k es"
proof -
  have "0 \<le> (\<Sum>e\<leftarrow>fs. entry_size e)" by (rule sum_list_nonneg) (auto simp: entry_size_nonneg)
  then show "within n k (es @ fs) \<Longrightarrow> within n k es" by (simp add: within_def)
qed

lemma newest_append: "newest n k (newest n k es @ [e]) = newest n k (es @ [e])"
proof (induction n k es rule: newest.induct)
  case (1 n k x y es)
  show ?case
  proof (cases "within n k (x # y # es)")
    case False
    then have "\<not> within n k (x # y # es @ [e])" using within_append [of n k "x # y # es" "[e]"] by auto
    then show ?thesis using False 1 by simp
  qed simp
qed simp_all

lemma older_append: "set (older n k (es @ [e])) = set (older n k es) \<union> set (older n k (newest n k es @ [e]))"
proof -
  have "older n k (es @ [e]) @ newest n k (es @ [e]) = older n k es @ older n k (newest n k es @ [e]) @ newest n k (es @ [e])"
    using older_newest [of n k "es @ [e]"] older_newest [of n k "newest n k es @ [e]"] older_newest [of n k es] unfolding newest_append
    by (metis append.assoc)
  then have "older n k (es @ [e]) = older n k es @ older n k (newest n k es @ [e])" by simp
  then show ?thesis by simp
qed

text \<open>What a block keeps of the entries it is given, in a buffer that is empty at first.\<close>

lemma keep_entries:
  assumes "rb_buffer b = []" "rb_bytes b = 0"
  shows "fold keep_entry es b = b\<lparr>rb_buffer := newest (rb_max_entries b) (rb_max_bytes b) es,
      rb_bytes := (\<Sum>e\<leftarrow>newest (rb_max_entries b) (rb_max_bytes b) es. entry_size e),
      rb_overflowed := rb_overflowed b \<or> (\<exists>x \<in> set (older (rb_max_entries b) (rb_max_bytes b) es). be_id x > rb_sent b)\<rparr>"
proof (induction es rule: rev_induct)
  case Nil
  then show ?case using assms by (simp add: older_def)
next
  case (snoc e es)
  let ?n = "rb_max_entries b" and ?k = "rb_max_bytes b"
  have k1: "drop_oldest ?n ?k (rb_sent b) (newest ?n ?k es @ [e]) ((\<Sum>e\<leftarrow>newest ?n ?k es. entry_size e) + entry_size e) f
    = (newest ?n ?k (es @ [e]), \<Sum>e\<leftarrow>newest ?n ?k (es @ [e]). entry_size e, f \<or> (\<exists>x \<in> set (older ?n ?k (newest ?n ?k es @ [e])). be_id x > rb_sent b))" for f
    by (subst drop_oldest_newest) (simp_all add: newest_append)
  have k2: "keep_entry e (b\<lparr>rb_buffer := es', rb_bytes := octets, rb_overflowed := f\<rparr>)
    = (case drop_oldest ?n ?k (rb_sent b) (es' @ [e]) (octets + entry_size e) f of
        (es'', octets', f') \<Rightarrow> b\<lparr>rb_buffer := es'', rb_bytes := octets', rb_overflowed := f'\<rparr>)" for es' octets f
    by (simp add: keep_entry_def split: prod.split)
  have "fold keep_entry (es @ [e]) b = b\<lparr>rb_buffer := newest ?n ?k (es @ [e]), rb_bytes := (\<Sum>e\<leftarrow>newest ?n ?k (es @ [e]). entry_size e),
      rb_overflowed := (rb_overflowed b \<or> (\<exists>x \<in> set (older ?n ?k es). be_id x > rb_sent b))
        \<or> (\<exists>x \<in> set (older ?n ?k (newest ?n ?k es @ [e])). be_id x > rb_sent b)\<rparr>"
    (is "_ = ?b")
  proof -
    have "fold keep_entry (es @ [e]) b = keep_entry e (fold keep_entry es b)" by (simp only: fold_append comp_apply fold_simps)
    also have "\<dots> = ?b" by (subst snoc, subst k2, subst k1, simp only: prod.case)
    finally show ?thesis .
  qed
  then show ?case by (subst older_append) (simp only: bex_Un disj_assoc)
qed

section \<open>Gathering\<close>

lemma flush_pending: "flush now key s = (Inr x, s') \<Longrightarrow> field_at rb_pending key s' = Some None"
proof -
  assume f: "flush now key s = (Inr x, s')"
  let ?s = "s\<lparr>en_blocks := map (\<lambda>(k, b). (k, if k = key then b\<lparr>rb_pending := None\<rparr> else b)) (en_blocks s)\<rparr>"
  obtain b where b: "map_of (en_blocks s) key = Some b" using f by (auto simp: flush_def bindS_def of_rcb_def split: option.splits)
  let ?m = "case rb_pending b of None \<Rightarrow> ret () | Some g \<Rightarrow> whenS (ga_reasons g \<noteq> []) (bindS (new_entry now key (ga_reasons g) (ga_values g)) (deliver key))"
  have m: "?m ?s = (Inr x, s')" using f b by (simp add: flush_def bindS_def thenS_def of_rcb_def put_rcb_def)
  have "same_field rb_pending key ?m" by (intro owner) simp_all
  moreover have "field_at rb_pending key ?s = Some None" using b by (simp add: field_at_def map_of_put)
  ultimately show ?thesis
    using holdsD [where m = ?m and P = "\<lambda>s. field_at rb_pending key s = Some None"] m unfolding same_field_def by fastforce
qed

lemma add_change_fuel: "add_change (Suc (Suc n)) now key reasons s = add_change (Suc (Suc k)) now key reasons s"
proof -
  have again: "add_change (Suc n) now key reasons s' = add_change (Suc k) now key reasons s'"
    if none: "field_at rb_pending key s' = Some None" for s'
  proof -
    obtain b where "map_of (en_blocks s') key = Some b" "rb_pending b = None" using none by (auto simp: field_at_def)
    then show ?thesis by (simp add: bindS_def thenS_def whenS_def of_rcb_def split: sum.split)
  qed
  have "thenS (flush now key) (add_change (Suc n) now key reasons) s' = thenS (flush now key) (add_change (Suc k) now key reasons) s'" for s'
  proof (cases "fst (flush now key s')")
    case (Inl e)
    then show ?thesis by (metis (no_types) bindS_Inl prod.collapse thenS_def)
  next
    case (Inr x)
    then have f: "flush now key s' = (Inr x, snd (flush now key s'))" by (metis prod.collapse)
    show ?thesis unfolding thenS_Inr [where m = "flush now key", OF f] by (rule again [OF flush_pending [OF f]])
  qed
  then have "thenS (flush now key) (add_change (Suc n) now key reasons) = thenS (flush now key) (add_change (Suc k) now key reasons)" by blast
  then show ?thesis unfolding add_change.simps(2) [of "Suc n"] add_change.simps(2) [of "Suc k"] by (simp only:)
qed

section \<open>An example\<close>

definition prim :: "string \<Rightarrow> int option \<Rightarrow> mms_type" where "prim kind n = PrimitiveType kind n"

definition BRCB :: "(string \<times> mms_type) list" where
  "BRCB = [(''RptID'', prim ''visible-string'' (Some (- 129))), (''RptEna'', prim ''boolean'' None), (''DatSet'', prim ''visible-string'' (Some (- 129))),
     (''ConfRev'', prim ''unsigned'' (Some 32)), (''OptFlds'', prim ''bit-string'' (Some (- 10))), (''BufTm'', prim ''unsigned'' (Some 32)),
     (''SqNum'', prim ''unsigned'' (Some 16)), (''TrgOps'', prim ''bit-string'' (Some (- 6))), (''IntgPd'', prim ''unsigned'' (Some 32)),
     (''GI'', prim ''boolean'' None), (''PurgeBuf'', prim ''boolean'' None), (''EntryID'', prim ''octet-string'' (Some 8)),
     (''TimeOfEntry'', prim ''binary-time'' None), (''ResvTms'', prim ''integer'' (Some 16)), (''Owner'', prim ''octet-string'' (Some (- 64)))]"

definition URCB :: "(string \<times> mms_type) list" where
  "URCB = [(''RptID'', prim ''visible-string'' (Some (- 129))), (''RptEna'', prim ''boolean'' None), (''Resv'', prim ''boolean'' None),
     (''DatSet'', prim ''visible-string'' (Some (- 129))), (''ConfRev'', prim ''unsigned'' (Some 32)), (''OptFlds'', prim ''bit-string'' (Some (- 10))),
     (''BufTm'', prim ''unsigned'' (Some 32)), (''SqNum'', prim ''unsigned'' (Some 8)), (''TrgOps'', prim ''bit-string'' (Some (- 6))),
     (''IntgPd'', prim ''unsigned'' (Some 32)), (''GI'', prim ''boolean'' None), (''Owner'', prim ''octet-string'' (Some (- 64)))]"

definition block_node :: "string \<Rightarrow> string \<Rightarrow> (string \<times> mms_type) list \<Rightarrow> (string \<times> iecdata) list \<Rightarrow> node" where
  "block_node fc name layout vs =
     Node (asc name) (Some (asc fc)) (StructureType (map (\<lambda>(n, t). (asc n, t)) layout)) {}
       (map (\<lambda>(n, t). Node (asc n) (Some (asc fc)) t {} [] (Some (case map_of vs n of None \<Rightarrow> default_value t | Some v \<Rightarrow> v))) layout) None"

definition example_block :: "(string \<times> iecdata) list \<Rightarrow> node" where
  "example_block vs = block_node ''BR'' ''b'' BRCB (vs @ [(''RptID'', VisibleStringData (asc ''id'')), (''DatSet'', VisibleStringData (asc ''LD/L$d'')),
     (''ConfRev'', UIntData 1), (''OptFlds'', BitStringData [0x7F, 0] 6), (''TrgOps'', BitStringData [0x7C] 2)])"

definition reports_model :: "(string \<times> iecdata) list \<Rightarrow> ied_model" where
  "reports_model vs =
     \<lparr>im_devices = [(asc ''LD'', [(asc ''L'', Node (asc ''L'') None
         (StructureType [(asc ''ST'', StructureType [(asc ''x'', prim ''boolean'' None)]), (asc ''BR'', StructureType [(asc ''b'', n_type (example_block vs))])]) {}
         [Node (asc ''ST'') (Some (asc ''ST'')) (StructureType [(asc ''x'', prim ''boolean'' None)]) {}
            [Node (asc ''x'') (Some (asc ''ST'')) (prim ''boolean'' None) {Dchg} [] (Some (BoolData False))] None,
          Node (asc ''BR'') (Some (asc ''BR'')) (StructureType [(asc ''b'', n_type (example_block vs))]) {} [example_block vs] None] None)])],
      im_data_sets = [(\<lparr>on_item = asc ''L$d'', on_domain = Some (asc ''LD'')\<rparr>, [\<lparr>on_item = asc ''L$ST$x'', on_domain = Some (asc ''LD'')\<rparr>])],
      im_groups = []\<rparr>"

definition example_reports :: ied_model where "example_reports = reports_model []"

definition object_of :: "string \<Rightarrow> object_name" where
  "object_of item = \<lparr>on_item = asc item, on_domain = Some (asc ''LD'')\<rparr>"

definition example_reporting :: rp_engine where
  "example_reporting = new_reporting BUFFER_BYTES (\<lambda>c. asc ''10.0.0.1'') (\<lambda>t. t + 1700000000000000) example_reports"

definition example_enabled :: rp_engine where
  "example_enabled = snd (rp_on_write 0 1 (object_of ''L$BR$b$RptEna'') (BoolData True) example_reporting)"

lemma example_model_ok: "report_model example_reports"
proof -
  have "wt (example_block [])"
    by (simp add: example_block_def block_node_def BRCB_def prim_def size_fits_def opt_flds_bitstring_def flags_bitstring_def zero_bits_def)
  moreover have "n_name (example_block []) = asc ''b''" by (simp add: example_block_def block_node_def)
  ultimately have "wt_model example_reports"
    by (simp add: wt_model_def wt_lns_def example_reports_def reports_model_def prim_def)
  moreover have "plain_model example_reports" by code_simp
  moreover have "\<forall>(key, b) \<in> set (model_blocks 0 example_reports). rcb_layout example_reports b \<and> rcb_enabled example_reports b \<noteq> Inr True"
    by code_simp
  ultimately show ?thesis by (simp add: report_model_def)
qed

lemma example_engine_ok: "rp_ok example_reporting" "rp_ok example_enabled"
proof -
  show ok: "rp_ok example_reporting" unfolding example_reporting_def by (rule new_reporting_ok [OF example_model_ok])
  show "rp_ok example_enabled" unfolding example_enabled_def by (rule holds_state [OF holds_on_write ok])
qed

lemma example_enabled_block:
  "(case map_of (en_blocks example_enabled) (asc ''LD'', asc ''L$BR$b'') of None \<Rightarrow> False
    | Some b \<Rightarrow> rb_owner b = Some 1 \<and> rcb_enabled (en_model example_enabled) b = Inr True \<and> rb_domain b = asc ''LD'')"
  by code_simp

section \<open>Properties\<close>

text \<open>C15: in every execution of the report engine (writes and departures of clients, timers, values the application sets
  outside the blocks), whatever is raised on the way: the model stays well typed, an enabled block has an owner, a block kept
  for a client that left has the timer that frees it, a gathering has the timer that sends it, and the buffer is in the order
  of its entries, counted, and within its bounds but for the newest entry.\<close>
theorem reporting_invariant:
  assumes "report_model m" "list_all allowed es" "(key, b) \<in> set (en_blocks (fold rp_step es (new_reporting n address utc m)))"
  shows "wt_model (en_model (fold rp_step es (new_reporting n address utc m)))
    \<and> (rcb_enabled (en_model (fold rp_step es (new_reporting n address utc m))) b = Inr True \<longrightarrow> rb_owner b \<noteq> None)
    \<and> (\<forall>t. rb_reserved_until b = Some t \<longrightarrow> rb_owner b = None
         \<and> (\<exists>k. (t, k, Lapse key t) \<in> set (en_timers (fold rp_step es (new_reporting n address utc m)))))
    \<and> (\<forall>g. rb_pending b = Some g \<longrightarrow> (\<exists>due. (due, ga_timer g, Flush_gathered key) \<in> set (en_timers (fold rp_step es (new_reporting n address utc m)))))
    \<and> sorted_wrt (<) (map be_id (rb_buffer b)) \<and> (\<forall>e \<in> set (rb_buffer b). be_id e < rb_next_entry b)
    \<and> rb_bytes b = (\<Sum>e\<leftarrow>rb_buffer b. entry_size e) \<and> int (length (rb_buffer b)) \<le> BUFFER_ENTRIES
    \<and> (rb_bytes b \<le> rb_max_bytes b \<or> length (rb_buffer b) \<le> 1)"
proof -
  have ok: "rp_ok (fold rp_step es (new_reporting n address utc m))" by (rule rp_run_ok [OF new_reporting_ok [OF assms(1)] assms(2)])
  then have b: "rcb_ok (en_model (fold rp_step es (new_reporting n address utc m))) (set (en_timers (fold rp_step es (new_reporting n address utc m)))) key b"
    using assms(3) unfolding rp_inv_iff Un_empty_left by blast
  show ?thesis
    using ok b unfolding rp_inv_iff rcb_ok_def timed_def owner_ok_def buffer_ok_def by auto
qed

theorem reporting_invariant_witness:
  "list_all (\<lambda>(key, b). int (length (rb_buffer b)) \<le> BUFFER_ENTRIES) (en_blocks (fold rp_step [Rp_write 0 1 (object_of ''L$BR$b$RptEna'') (BoolData True), Rp_set 5 (object_of ''L$ST$x'') (BoolData True),
        Rp_close 9 1] example_reporting))"
proof -
  have "outside (object_of ''L$ST$x'')" by (simp add: outside_def object_of_def path_of_def)
  then show ?thesis
    using reporting_invariant [OF example_model_ok, of "[Rp_write 0 1 (object_of ''L$BR$b$RptEna'') (BoolData True),
        Rp_set 5 (object_of ''L$ST$x'') (BoolData True), Rp_close 9 1]"] unfolding example_reporting_def list_all_iff by auto
qed

text \<open>C16: a block belongs to one client at a time. While it is another's, or kept for one that left, every write to it or
  inside it is refused and changes nothing, and nothing but a write or the departure of the owner takes it from it; while it
  is enabled, its configuration is refused to its owner too.\<close>
theorem block_exclusive:
  assumes "rp_ok s" "map_of (en_blocks s) key = Some b" "domain_of obj = fst key" "3 \<le> length (path_of obj)"
    "take 3 (path_of obj) = split_on 36 (snd key)"
  shows "(held_by_other (en_address s) now c b \<longrightarrow> (\<exists>code. rp_on_write now c obj d s = (Inr (Refused code), s)))
    \<and> (\<forall>o'. rb_owner b = Some o' \<longrightarrow>
         (\<forall>e. (case e of Rp_write _ k _ _ \<Rightarrow> k \<noteq> o' | Rp_close _ k \<Rightarrow> k \<noteq> o' | _ \<Rightarrow> True) \<longrightarrow> owner_at key (rp_step e s) = Some (Some o')))
    \<and> (rcb_enabled (en_model s) b = Inr True \<and> length (path_of obj) = 4 \<and> locked_attribute (path_of obj ! 3)
         \<longrightarrow> (\<exists>code. rp_on_write now c obj d s = (Inr (Refused code), s)))"
proof -
  have rk: "report_key key" using rp_inv_block [OF assms(1,2)] by (simp add: rcb_ok_def)
  note held = held_write [OF assms(2-5) rk]
  have own: "owner_at key (rp_step e s) = Some (Some o')"
    if o': "rb_owner b = Some o'" and e: "case e of Rp_write _ k _ _ \<Rightarrow> k \<noteq> o' | Rp_close _ k \<Rightarrow> k \<noteq> o' | _ \<Rightarrow> True" for o' e
    using owner_step [OF assms(1,2) o'] e by blast
  have locked: "\<exists>code. rp_on_write now c obj d s = (Inr (Refused code), s)"
    if l: "rcb_enabled (en_model s) b = Inr True" "length (path_of obj) = 4" "locked_attribute (path_of obj ! 3)"
    using locked_write [OF assms(2-5) rk l] by blast
  show ?thesis using held own locked by blast
qed

theorem block_exclusive_witness:
  "\<exists>code. rp_on_write 5 2 (object_of ''L$BR$b$RptEna'') (BoolData False) example_enabled = (Inr (Refused code), example_enabled)"
proof -
  obtain b where b: "map_of (en_blocks example_enabled) (asc ''LD'', asc ''L$BR$b'') = Some b" "rb_owner b = Some 1"
    using example_enabled_block by (auto split: option.splits)
  have "held_by_other (en_address example_enabled) 5 2 b" using b(2) by (simp add: held_by_other_def)
  moreover have "domain_of (object_of ''L$BR$b$RptEna'') = fst (asc ''LD'', asc ''L$BR$b'')" "3 \<le> length (path_of (object_of ''L$BR$b$RptEna''))"
    "take 3 (path_of (object_of ''L$BR$b$RptEna'')) = split_on 36 (snd (asc ''LD'', asc ''L$BR$b''))"
    by code_simp+
  ultimately show ?thesis using block_exclusive [OF example_engine_ok(2) b(1)] by blast
qed

text \<open>C17: what a buffer keeps of the entries it is given is the longest run of the newest ones within its bounds, the
  newest always kept; BufOvfl is set exactly when an entry that was never sent is lost.\<close>
theorem buffer_keeps_newest:
  assumes "rb_buffer b = []" "rb_bytes b = 0"
  shows "rb_buffer (fold keep_entry es b) = newest (rb_max_entries b) (rb_max_bytes b) es
    \<and> es = older (rb_max_entries b) (rb_max_bytes b) es @ rb_buffer (fold keep_entry es b)
    \<and> (rb_overflowed (fold keep_entry es b) \<longleftrightarrow>
        rb_overflowed b \<or> (\<exists>x \<in> set (older (rb_max_entries b) (rb_max_bytes b) es). be_id x > rb_sent b))"
  using older_newest unfolding keep_entries [OF assms] by simp

theorem buffer_keeps_newest_witness:
  "map be_id (rb_buffer (fold keep_entry (map (\<lambda>i. \<lparr>be_id = i, be_time = 0, be_indexes = [0], be_values = [1, 2], be_reasons = []\<rparr>) [1, 2, 3])
      ((new_rcb 5 [] [] True)\<lparr>rb_sent := 1\<rparr>))) = [2, 3]
   \<and> \<not> rb_overflowed (fold keep_entry (map (\<lambda>i. \<lparr>be_id = i, be_time = 0, be_indexes = [0], be_values = [1, 2], be_reasons = []\<rparr>) [1, 2, 3])
      ((new_rcb 5 [] [] True)\<lparr>rb_sent := 1\<rparr>))"
proof -
  let ?b = "(new_rcb 5 [] [] True)\<lparr>rb_sent := 1\<rparr>"
  let ?es = "map (\<lambda>i. \<lparr>be_id = i, be_time = 0, be_indexes = [0], be_values = [1, 2], be_reasons = []\<rparr>) [1, 2, 3]"
  have b: "rb_buffer ?b = []" "rb_bytes ?b = 0" "rb_max_entries ?b = 1000" "rb_max_bytes ?b = 5" "rb_overflowed ?b = False" "rb_sent ?b = 1"
    by (simp_all add: new_rcb_def BUFFER_ENTRIES_def)
  have "newest 1000 5 ?es = tl ?es" by (simp add: within_def entry_size_def)
  moreover from this have "older 1000 5 ?es = [hd ?es]" unfolding older_def by simp
  ultimately have "rb_buffer (fold keep_entry ?es ?b) = tl ?es" "rb_overflowed (fold keep_entry ?es ?b) \<longleftrightarrow> (\<exists>x \<in> set [hd ?es]. be_id x > 1)"
    using buffer_keeps_newest [OF b(1,2), of ?es] unfolding b(3-6) by (simp_all only: simp_thms)
  moreover have "map be_id (tl ?es) = [2, 3]" "\<not> (\<exists>x \<in> set [hd ?es]. be_id x > 1)" by simp_all
  ultimately show ?thesis by (simp only: simp_thms)
qed

end
