(* ===== verification/ReportDelivery.thy ===== *)
theory ReportDelivery
  imports ReportEngine
begin

text \<open>
  From a change to the client: a report the engine of \<^verbatim>\<open>src/open61850/server/reporting.py\<close> sends is one that
  \<^verbatim>\<open>src/open61850/mms/report.py\<close> decodes to what the entry holds.
\<close>

section \<open>The time of an entry\<close>






section \<open>The report of an entry\<close>













section \<open>Sending\<close>







section \<open>Properties\<close>









end
