(* ===== verification/Reference.thy ===== *)
theory Reference
  imports ServerModel
begin

text \<open>
  \<^verbatim>\<open>src/open61850/mms/reference.py\<close>: IEC 61850 references (\<open>LD/LN.DO.DA [FC]\<close>) and the MMS names they stand for. A text is
  its list of code points; an FC given besides the text is ASCII.
\<close>

section \<open>Text\<close>

text \<open>The characters \<^verbatim>\<open>str.strip\<close> removes and \<^verbatim>\<open>\s\<close> matches.\<close>

definition blank :: "nat \<Rightarrow> bool" where
  "blank c \<longleftrightarrow> 9 \<le> c \<and> c \<le> 13 \<or> 28 \<le> c \<and> c \<le> 32 \<or> c \<in> {0x85, 0xA0, 0x1680, 0x2028, 0x2029, 0x202F, 0x205F, 0x3000}
     \<or> 0x2000 \<le> c \<and> c \<le> 0x200A"

definition rstrip :: "ustr \<Rightarrow> ustr" where "rstrip s = rev (dropWhile blank (rev s))"

definition strip_text :: "ustr \<Rightarrow> ustr" where "strip_text s = rstrip (dropWhile blank s)"

definition partition_at :: "nat \<Rightarrow> ustr \<Rightarrow> ustr \<times> bool \<times> ustr" where
  "partition_at sep s = (takeWhile (\<lambda>c. c \<noteq> sep) s, sep \<in> set s, tl (dropWhile (\<lambda>c. c \<noteq> sep) s))"

definition is_upper :: "nat \<Rightarrow> bool" where "is_upper c \<longleftrightarrow> 65 \<le> c \<and> c \<le> 90"

definition is_lower :: "nat \<Rightarrow> bool" where "is_lower c \<longleftrightarrow> 97 \<le> c \<and> c \<le> 122"

definition upper :: "ustr \<Rightarrow> ustr" where "upper s = map (\<lambda>c. if is_lower c then c - 32 else c) s"

definition is_word :: "nat \<Rightarrow> bool" where "is_word c \<longleftrightarrow> is_upper c \<or> is_lower c \<or> 48 \<le> c \<and> c \<le> 57 \<or> c = 95"

text \<open>\<open>$\<close> of a regular expression matches before a line feed at the end too.\<close>

definition before_end :: "ustr \<Rightarrow> ustr" where "before_end s = (if s \<noteq> [] \<and> last s = 10 then butlast s else s)"

definition IDENTIFIER :: "ustr \<Rightarrow> bool" where "IDENTIFIER s \<longleftrightarrow> before_end s \<noteq> [] \<and> list_all is_word (before_end s)"

definition FC :: "ustr \<Rightarrow> bool" where "FC s \<longleftrightarrow> length (before_end s) = 2 \<and> list_all is_upper (before_end s)"

text \<open>\<^verbatim>\<open>_WITH_FC\<close> on a text stripped: the reference, its trailing spaces left out, and the letters in brackets.\<close>

definition WITH_FC :: "ustr \<Rightarrow> (ustr \<times> ustr) option" where
  "WITH_FC text =
     (let n = length text; ref = rstrip (take (n - 4) text) in
      if 4 \<le> n \<and> text ! (n - 4) = 91 \<and> text ! (n - 1) = 93 \<and> (\<forall>i \<in> {n - 3, n - 2}. is_upper (text ! i) \<or> is_lower (text ! i)) \<and> 10 \<notin> set ref
      then Some (ref, [text ! (n - 3), text ! (n - 2)]) else None)"

section \<open>References\<close>

record reference =
  rf_ld :: ustr
  rf_ln :: ustr
  rf_path :: "ustr list"
  rf_fc :: "ustr option"

definition make_reference :: "ustr \<Rightarrow> ustr \<Rightarrow> ustr list \<Rightarrow> ustr option \<Rightarrow> reference result" where
  "make_reference ld ln path fc =
     (if \<not> list_all IDENTIFIER (ld # ln # path) then Inl ValueError
      else if (case fc of None \<Rightarrow> False | Some f \<Rightarrow> \<not> FC f) then Inl ValueError
      else Inr \<lparr>rf_ld = ld, rf_ln = ln, rf_path = path, rf_fc = fc\<rparr>)"

definition reference_name :: "reference \<Rightarrow> ustr" where
  "reference_name r = rf_ld r @ 47 # join 46 (rf_ln r # rf_path r)"

definition reference_string :: "reference \<Rightarrow> ustr" where
  "reference_string r = (case rf_fc r of
       Some (c # cs) \<Rightarrow> reference_name r @ asc '' ['' @ (c # cs) @ asc '']''
     | _ \<Rightarrow> reference_name r)"

definition child_reference :: "reference \<Rightarrow> ustr \<Rightarrow> reference result" where
  "child_reference r name = make_reference (rf_ld r) (rf_ln r) (rf_path r @ [name]) (rf_fc r)"

definition with_fc :: "reference \<Rightarrow> ustr option \<Rightarrow> reference result" where
  "with_fc r fc = make_reference (rf_ld r) (rf_ln r) (rf_path r) fc"

definition reference_object_name :: "reference \<Rightarrow> object_name result" where
  "reference_object_name r =
     (if rf_path r \<noteq> [] \<and> rf_fc r = None then Inl ValueError
      else Inr \<lparr>on_item = join 36 (rf_ln r # (case rf_fc r of Some (c # cs) \<Rightarrow> [c # cs] | _ \<Rightarrow> []) @ rf_path r), on_domain = Some (rf_ld r)\<rparr>)"

definition from_object_name :: "object_name \<Rightarrow> reference result" where
  "from_object_name n =
     (case on_domain n of
        Some (c # cs) \<Rightarrow> (case split_on 36 (on_item n) of
            ln # fc # path \<Rightarrow> make_reference (c # cs) ln path (Some fc)
          | ps \<Rightarrow> make_reference (c # cs) (hd ps) [] None)
      | _ \<Rightarrow> Inl ValueError)"

definition parse_name :: "ustr \<Rightarrow> ustr option \<Rightarrow> reference result" where
  "parse_name text fc =
     (case partition_at 47 text of (ld, slash, rest) \<Rightarrow>
        if \<not> slash then Inl ValueError
        else if 36 \<in> set rest then
          bindE (from_object_name \<lparr>on_item = rest, on_domain = Some ld\<rparr>) (\<lambda>r.
            if fc \<noteq> None \<and> rf_fc r \<noteq> map_option upper fc then Inl ValueError else Inr r)
        else (case split_on 46 rest of
            ln # path \<Rightarrow> make_reference ld ln path (case fc of Some (c # cs) \<Rightarrow> Some (upper (c # cs)) | _ \<Rightarrow> None)
          | [] \<Rightarrow> Inl ValueError))"

definition parse_reference :: "ustr \<Rightarrow> ustr option \<Rightarrow> reference result" where
  "parse_reference text fc =
     (case WITH_FC (strip_text text) of
        Some (ref, f) \<Rightarrow>
          if fc \<noteq> None \<and> map_option upper fc \<noteq> Some (upper f) then Inl ValueError else parse_name ref (Some f)
      | None \<Rightarrow> parse_name (strip_text text) fc)"

section \<open>Names of either kind\<close>

datatype any_name = Name_object object_name | Name_reference reference | Name_text ustr

definition to_object_name :: "any_name \<Rightarrow> object_name result" where
  "to_object_name name = (case name of
     Name_object n \<Rightarrow> Inr n
   | Name_reference r \<Rightarrow> reference_object_name r
   | Name_text s \<Rightarrow> (case partition_at 47 (strip_text s) of (domain, slash, item) \<Rightarrow>
       if slash \<and> 36 \<in> set item \<and> 91 \<notin> set item then Inr \<lparr>on_item = item, on_domain = Some domain\<rparr>
       else bindE (parse_reference s None) reference_object_name))"

definition data_set_object_name :: "any_name \<Rightarrow> object_name result" where
  "data_set_object_name name =
     (let of_reference = (\<lambda>r. if rf_fc r \<noteq> None then Inl ValueError
          else (case rf_path r of
              [p] \<Rightarrow> Inr \<lparr>on_item = rf_ln r @ 36 # p, on_domain = Some (rf_ld r)\<rparr>
            | _ \<Rightarrow> Inl ValueError)) in
      case name of
        Name_object n \<Rightarrow> Inr n
      | Name_reference r \<Rightarrow> of_reference r
      | Name_text s \<Rightarrow> (case partition_at 47 (strip_text s) of (domain, slash, item) \<Rightarrow>
          if slash \<and> 36 \<in> set item then Inr \<lparr>on_item = item, on_domain = Some domain\<rparr>
          else bindE (parse_reference s None) of_reference))"

section \<open>Read back\<close>

text \<open>A reference as the standard writes them: identifiers of letters, digits and underscores, an FC of two capitals.\<close>

definition word_name :: "ustr \<Rightarrow> bool" where "word_name s \<longleftrightarrow> s \<noteq> [] \<and> list_all is_word s"

definition plain_fc :: "ustr \<Rightarrow> bool" where "plain_fc f \<longleftrightarrow> length f = 2 \<and> list_all is_upper f"

definition plain_reference :: "reference \<Rightarrow> bool" where
  "plain_reference r \<longleftrightarrow> list_all word_name (rf_ld r # rf_ln r # rf_path r) \<and> (case rf_fc r of None \<Rightarrow> True | Some f \<Rightarrow> plain_fc f)"

definition mms_string :: "object_name \<Rightarrow> ustr" where
  "mms_string n = (case on_domain n of Some d \<Rightarrow> d @ 47 # on_item n | None \<Rightarrow> on_item n)"

lemma word_chars: "is_word c \<Longrightarrow> c \<notin> {36, 46, 47, 91, 93, 10} \<and> \<not> blank c"
  by (auto simp: is_word_def is_upper_def is_lower_def blank_def)

lemma identifier_chars:
  assumes "word_name s"
  shows "36 \<notin> set s" "46 \<notin> set s" "47 \<notin> set s" "91 \<notin> set s" "93 \<notin> set s" "10 \<notin> set s" "s \<noteq> []" "\<forall>c \<in> set s. \<not> blank c"
  using assms word_chars by (auto simp: word_name_def list_all_iff)

lemma before_end_word: "word_name s \<Longrightarrow> before_end s = s"
  using identifier_chars(6,7) [of s] last_in_set [of s] by (metis before_end_def)

lemma identifier_matches: "word_name s \<Longrightarrow> IDENTIFIER s"
  using before_end_word [of s] by (simp add: IDENTIFIER_def word_name_def)

lemma fc_matches: "plain_fc f \<Longrightarrow> FC f \<and> upper f = f \<and> word_name f"
proof -
  assume f: "plain_fc f"
  then have "word_name f" by (auto simp: plain_fc_def word_name_def list_all_iff is_word_def)
  moreover from this have "before_end f = f" by (rule before_end_word)
  moreover have "upper f = f" using f by (auto simp: plain_fc_def upper_def list_all_iff is_upper_def is_lower_def intro!: map_idI)
  ultimately show ?thesis using f by (simp add: FC_def plain_fc_def)
qed

lemma make_plain: "plain_reference r \<Longrightarrow> make_reference (rf_ld r) (rf_ln r) (rf_path r) (rf_fc r) = Inr r"
  using identifier_matches fc_matches by (auto simp: make_reference_def plain_reference_def list_all_iff split: option.splits)

lemma partition_first: "sep \<notin> set a \<Longrightarrow> partition_at sep (a @ sep # b) = (a, True, b)"
  by (induction a) (auto simp: partition_at_def)

lemma set_join: "set (join sep ps) \<subseteq> insert sep (\<Union> (set ` set ps))"
  by (induction sep ps rule: join.induct) auto

lemma last_join:
  assumes "\<forall>p \<in> set (q # ps). word_name p" "\<not> blank sep"
  shows "join sep (q # ps) \<noteq> []" "\<not> blank (last (join sep (q # ps)))"
proof -
  show ne: "join sep (q # ps) \<noteq> []" using assms(1) identifier_chars(7) [of q] by (cases ps) simp_all
  have "last (join sep (q # ps)) = sep \<or> last (join sep (q # ps)) \<in> \<Union> (set ` set (q # ps))"
    using last_in_set [OF ne] set_join [of sep "q # ps"] by blast
  then show "\<not> blank (last (join sep (q # ps)))"
  proof (elim disjE UN_E)
    assume "last (join sep (q # ps)) = sep"
    then show ?thesis using assms(2) by (simp only:) simp
  next
    fix p assume "p \<in> set (q # ps)" "last (join sep (q # ps)) \<in> set p"
    then show ?thesis using assms(1) identifier_chars(8) by blast
  qed
qed

lemma strip_plain: "s = c # m @ [d] \<Longrightarrow> \<not> blank c \<Longrightarrow> \<not> blank d \<Longrightarrow> strip_text s = s"
  by (simp add: strip_text_def rstrip_def)

lemma reference_name_chars:
  assumes "plain_reference r"
  shows "91 \<notin> set (reference_name r)" "36 \<notin> set (reference_name r)" "10 \<notin> set (reference_name r)"
    "\<exists>c m d. reference_name r = c # m @ [d] \<and> \<not> blank c \<and> \<not> blank d"
    "partition_at 47 (reference_name r) = (rf_ld r, True, join 46 (rf_ln r # rf_path r))"
    "split_on 46 (join 46 (rf_ln r # rf_path r)) = rf_ln r # rf_path r" "36 \<notin> set (join 46 (rf_ln r # rf_path r))"
proof -
  have w: "\<forall>s \<in> set (rf_ld r # rf_ln r # rf_path r). word_name s" using assms by (simp add: plain_reference_def list_all_iff)
  then have n: "\<forall>s \<in> set (rf_ld r # rf_ln r # rf_path r). 36 \<notin> set s \<and> 46 \<notin> set s \<and> 47 \<notin> set s \<and> 91 \<notin> set s \<and> 10 \<notin> set s \<and> s \<noteq> [] \<and> (\<forall>c \<in> set s. \<not> blank c)"
    using identifier_chars by blast
  have j: "set (join 46 (rf_ln r # rf_path r)) \<subseteq> insert 46 (\<Union> (set ` set (rf_ln r # rf_path r)))" by (rule set_join)
  show "91 \<notin> set (reference_name r)" "36 \<notin> set (reference_name r)" "10 \<notin> set (reference_name r)" "36 \<notin> set (join 46 (rf_ln r # rf_path r))"
    using n j by (auto simp: reference_name_def)
  show "split_on 46 (join 46 (rf_ln r # rf_path r)) = rf_ln r # rf_path r" using n by (intro split_join) auto
  show "partition_at 47 (reference_name r) = (rf_ld r, True, join 46 (rf_ln r # rf_path r))"
    unfolding reference_name_def using n by (intro partition_first) auto
  have sp: "\<not> blank 46" by (simp add: blank_def)
  have ne: "join 46 (rf_ln r # rf_path r) \<noteq> []" and l: "\<not> blank (last (join 46 (rf_ln r # rf_path r)))"
    by (rule last_join [OF _ sp], use w in simp)+
  obtain c cs where c: "rf_ld r = c # cs" "\<not> blank c" using n by (cases "rf_ld r") auto
  show "\<exists>c m d. reference_name r = c # m @ [d] \<and> \<not> blank c \<and> \<not> blank d"
  proof (intro exI conjI)
    have "reference_name r = c # cs @ 47 # join 46 (rf_ln r # rf_path r)" unfolding reference_name_def c(1) by simp
    also have "\<dots> = c # (cs @ 47 # butlast (join 46 (rf_ln r # rf_path r))) @ [last (join 46 (rf_ln r # rf_path r))]"
      using append_butlast_last_id [OF ne] by (simp only: append.simps append_assoc)
    finally show "reference_name r = c # (cs @ 47 # butlast (join 46 (rf_ln r # rf_path r))) @ [last (join 46 (rf_ln r # rf_path r))]" .
  qed (use c l in simp_all)
qed

lemma rstrip_space: "\<not> blank d \<Longrightarrow> rstrip ((m @ [d]) @ [32]) = m @ [d]"
proof -
  have "blank 32" by (simp add: blank_def)
  then show "\<not> blank d \<Longrightarrow> rstrip ((m @ [d]) @ [32]) = m @ [d]" by (simp add: rstrip_def)
qed

lemma parse_back:
  assumes "plain_reference r"
  shows "parse_reference (reference_string r) None = Inr r"
proof -
  note chars = reference_name_chars [OF assms]
  obtain c m d where n: "reference_name r = c # m @ [d]" "\<not> blank c" "\<not> blank d" using chars(4) by blast
  have name: "parse_name (reference_name r) (rf_fc r) = Inr r"
    using make_plain [OF assms] chars(5-7) fc_matches assms
    by (auto simp: parse_name_def plain_reference_def plain_fc_def split: option.splits list.splits)
  show ?thesis
  proof (cases "rf_fc r")
    case None
    then have "reference_string r = reference_name r" by (simp add: reference_string_def)
    moreover have "WITH_FC (strip_text (reference_name r)) = None"
    proof -
      have "reference_name r ! i \<noteq> 91" if "i < length (reference_name r)" for i using chars(1) nth_mem [OF that] by metis
      from this [of "length (reference_name r) - 4"] show ?thesis
        unfolding strip_plain [OF n] by (cases "4 \<le> length (reference_name r)") (simp_all add: WITH_FC_def Let_def)
    qed
    ultimately show ?thesis using name None strip_plain [OF n] by (simp add: parse_reference_def)
  next
    case (Some f)
    then have "plain_fc f" using assms by (simp add: plain_reference_def)
    then obtain x y where f: "f = [x, y]" "is_upper x" "is_upper y" by (auto simp: plain_fc_def length_Suc_conv numeral_2_eq_2)
    have s: "reference_string r = reference_name r @ [32, 91, x, y, 93]" using Some f by (simp add: reference_string_def)
    have st: "strip_text (reference_string r) = reference_string r"
      using strip_plain [of "reference_string r" c "m @ [d] @ [32, 91, x, y]" 93] n(1,2) s by (simp add: blank_def)
    have "WITH_FC (reference_string r) = Some (reference_name r, f)"
      using f chars(3) rstrip_space [OF n(3), of "c # m"] unfolding s n(1) by (auto simp: WITH_FC_def Let_def nth_append)
    then show ?thesis using name st Some by (simp add: parse_reference_def)
  qed
qed

lemma object_name_back:
  assumes "plain_reference r" "rf_path r = [] \<or> rf_fc r \<noteq> None"
  shows "\<exists>n. reference_object_name r = Inr n \<and> from_object_name n = Inr r
    \<and> (rf_fc r \<noteq> None \<longrightarrow> to_object_name (Name_text (mms_string n)) = Inr n)"
proof -
  have w: "\<forall>s \<in> set (rf_ld r # rf_ln r # rf_path r). word_name s" using assms(1) by (simp add: plain_reference_def list_all_iff)
  have ld: "rf_ld r \<noteq> []" using w identifier_chars(7) by simp
  show ?thesis
  proof (cases "rf_fc r")
    case None
    then have "split_on 36 (rf_ln r) = [rf_ln r]" using w identifier_chars(1) by (intro split_on_last) simp
    then show ?thesis using None assms(2) make_plain [OF assms(1)] ld
      by (auto simp: reference_object_name_def from_object_name_def neq_Nil_conv)
  next
    case (Some f)
    then have f: "word_name f" "f \<noteq> []" using assms(1) fc_matches identifier_chars(7) by (auto simp: plain_reference_def)
    let ?item = "join 36 (rf_ln r # f # rf_path r)"
    have sp: "split_on 36 ?item = rf_ln r # f # rf_path r" using w f(1) identifier_chars(1) by (intro split_join) auto
    have on: "reference_object_name r = Inr \<lparr>on_item = ?item, on_domain = Some (rf_ld r)\<rparr>"
      using Some f(2) by (cases f) (simp_all add: reference_object_name_def)
    have set: "set ?item \<subseteq> insert 36 (\<Union> (set ` set (rf_ln r # f # rf_path r)))" by (rule set_join)
    have all: "\<forall>s \<in> set (rf_ld r # rf_ln r # f # rf_path r). word_name s" using w f(1) by auto
    have sp36: "\<not> blank 36" by (simp add: blank_def)
    have ne: "?item \<noteq> []" and nsp: "\<not> blank (last ?item)" by (rule last_join [OF _ sp36], use all in simp)+
    let ?d = "last ?item"
    have d: "butlast ?item @ [?d] = ?item" by (rule append_butlast_last_id [OF ne])
    obtain c cs where c: "rf_ld r = c # cs" "\<not> blank c" using ld all identifier_chars(8) [of "rf_ld r"] by (cases "rf_ld r") auto
    have st: "strip_text (rf_ld r @ 47 # ?item) = rf_ld r @ 47 # ?item"
    proof (rule strip_plain)
      show "rf_ld r @ 47 # ?item = c # (cs @ 47 # butlast ?item) @ [?d]" unfolding c(1) append.simps append_assoc d ..
      show "\<not> blank c" "\<not> blank ?d" by (rule c(2), rule nsp)
    qed
    have part: "partition_at 47 (rf_ld r @ 47 # ?item) = (rf_ld r, True, ?item)"
      using all identifier_chars(3) by (intro partition_first) simp
    have "36 \<in> set ?item" by (cases "rf_path r") simp_all
    moreover have "91 \<notin> set ?item" using set all identifier_chars(4) by auto
    ultimately have "to_object_name (Name_text (mms_string \<lparr>on_item = ?item, on_domain = Some (rf_ld r)\<rparr>)) = Inr \<lparr>on_item = ?item, on_domain = Some (rf_ld r)\<rparr>"
      using st part by (simp add: to_object_name_def mms_string_def del: join.simps)
    moreover have "from_object_name \<lparr>on_item = ?item, on_domain = Some (rf_ld r)\<rparr> = Inr r"
      using sp make_plain [OF assms(1)] Some c(1) by (simp add: from_object_name_def del: join.simps)
    ultimately show ?thesis using on by blast
  qed
qed

section \<open>Properties\<close>

text \<open>C18: the text of a reference is read back as that reference, FC or none; and the MMS name of a reference gives the
  reference back, its text in the MMS notation that name.\<close>
theorem reference_round_trip:
  assumes "plain_reference r"
  shows "parse_reference (reference_string r) None = Inr r
    \<and> (rf_path r = [] \<or> rf_fc r \<noteq> None \<longrightarrow> (\<exists>n. reference_object_name r = Inr n \<and> from_object_name n = Inr r
         \<and> (rf_fc r \<noteq> None \<longrightarrow> to_object_name (Name_text (mms_string n)) = Inr n)))"
  using parse_back [OF assms] object_name_back [OF assms] by blast

theorem reference_round_trip_witness:
  "parse_reference (asc ''LD0/LLN0.Mod.stVal [ST]'') None
     = Inr \<lparr>rf_ld = asc ''LD0'', rf_ln = asc ''LLN0'', rf_path = [asc ''Mod'', asc ''stVal''], rf_fc = Some (asc ''ST'')\<rparr>"
proof -
  let ?r = "\<lparr>rf_ld = asc ''LD0'', rf_ln = asc ''LLN0'', rf_path = [asc ''Mod'', asc ''stVal''], rf_fc = Some (asc ''ST'')\<rparr>"
  have "plain_reference ?r" by (simp add: plain_reference_def word_name_def plain_fc_def is_word_def is_upper_def is_lower_def)
  moreover have "reference_string ?r = asc ''LD0/LLN0.Mod.stVal [ST]''" by (simp add: reference_string_def reference_name_def)
  ultimately show ?thesis using reference_round_trip [of ?r] by metis
qed

end
