(* ===== verification/Control.thy ===== *)
theory Control
  imports Server Report Reference "HOL-Library.AList"
begin

unbundle bit_operations_syntax

text \<open>
  \<^verbatim>\<open>src/open61850/server/control.py\<close>: the commands of a server. A connection is a number, a time a number of microseconds
  on the monotonic clock; \<open>ct_utc\<close> is the wall clock at such a time. The checks and handlers of the application are
  functions it gives; a handler changes values of the model only. \<open>current.command is command\<close> compares the numbers that
  \<open>ct_serial\<close> gives to commands. Locks are left out: each write, read, close, timer or call runs alone.
\<close>

section \<open>Python values as Data\<close>

text \<open>
  The values \<^verbatim>\<open>to_data\<close> is given here: Data, a bool or an int. An int becomes the nearest double, ties to even; a float of
  single precision is kept, as everywhere here, as the one it is sent as, so that an int too big for it raises at once and
  not when it is encoded.
\<close>

datatype py_value = Py_data iecdata | Py_bool bool | Py_int int

definition half_even :: "nat \<Rightarrow> nat \<Rightarrow> nat" where
  "half_even k n = (let q = n div 2 ^ k; r = n mod 2 ^ k in if 2 * r > 2 ^ k \<or> (2 * r = 2 ^ k \<and> odd q) then q + 1 else q)"

definition float_fields :: "nat \<Rightarrow> nat \<Rightarrow> int \<Rightarrow> nat result" where
  "float_fields p bias n =
     (if n = 0 then Inr 0
      else let a = nat \<bar>n\<bar>; b = bit_length_nat a; m = (if b \<le> p then a * 2 ^ (p - b) else half_even (b - p) a);
               fields = (b - 1 + bias) * 2 ^ (p - 1) + (m - 2 ^ (p - 1)) in
        if fields \<ge> (2 * bias + 1) * 2 ^ (p - 1) then Inl OverflowError
        else Inr (fields + (if n < 0 then (2 * bias + 2) * 2 ^ (p - 1) else 0)))"

definition round_to :: "nat \<Rightarrow> int \<Rightarrow> int" where
  "round_to p n = (let a = nat \<bar>n\<bar>; k = bit_length_nat a - p in sgn n * int (half_even k a * 2 ^ k))"

definition int_to_float :: "bool \<Rightarrow> int \<Rightarrow> pyfloat result" where
  "int_to_float double n =
     bindE (float_fields 53 1023 n) (\<lambda>w. if double then Inr (F64 (of_nat w))
       else mapE (\<lambda>v. F32 (of_nat v)) (float_fields 24 127 (round_to 53 n)))"

fun py_int :: "py_value \<Rightarrow> int" where
  "py_int (Py_bool b) = (if b then 1 else 0)"
| "py_int (Py_int n) = n"
| "py_int (Py_data d) = 0"

fun py_str :: "py_value \<Rightarrow> ustr" where
  "py_str (Py_bool b) = asc (if b then ''True'' else ''False'')"
| "py_str v = dec_int (py_int v)"

fun to_data :: "mms_type \<Rightarrow> py_value \<Rightarrow> iecdata result" where
  "to_data ty (Py_data d) = Inr d"
| "to_data (PrimitiveType kind n) v =
     (if kind = ''boolean'' then Inr (BoolData (py_int v \<noteq> 0))
      else if kind = ''integer'' then Inr (IntData (py_int v))
      else if kind = ''unsigned'' then Inr (UIntData (py_int v))
      else if kind = ''float'' then mapE FloatData (int_to_float (n = Some 64) (py_int v))
      else if kind = ''octet-string'' then
        (if py_int v < 0 then Inl ValueError else Inr (OctetStringData (replicate (nat (py_int v)) 0)))
      else if kind = ''mms-string'' then Inr (MmsStringData (py_str v))
      else if kind = ''visible-string'' then Inr (VisibleStringData (py_str v))
      else if kind = ''bit-string'' then
        let bits = nat \<bar>case n of None \<Rightarrow> 0 | Some k \<Rightarrow> k\<bar>; len = (bits + 7) div 8; unused = len * 8 - bits in
        mapE (\<lambda>bs. BitStringData bs (int unused)) (to_bytes len (py_int v * 2 ^ unused))
      else Inl TypeError)"
| "to_data ty v = Inl TypeError"

section \<open>Assigning a value that may not fit\<close>

text \<open>\<^verbatim>\<open>assign\<close> on a value of any shape: what it has assigned when it raises stays.\<close>

fun assign_part :: "node \<Rightarrow> iecdata \<Rightarrow> node \<times> exn option"
  and assign_parts :: "node list \<Rightarrow> iecdata list \<Rightarrow> node list \<times> exn option"
where
  "assign_part (Node name fc ty tr cs v) d =
     (if cs \<noteq> [] then
        (case d of
           ArrayData ms \<Rightarrow> (case assign_parts cs ms of (cs', e) \<Rightarrow> (Node name fc ty tr cs' v, e))
         | StructureData ms \<Rightarrow> (case assign_parts cs ms of (cs', e) \<Rightarrow> (Node name fc ty tr cs' v, e))
         | _ \<Rightarrow> (Node name fc ty tr cs v, Some AttributeError))
      else if (case v of None \<Rightarrow> False | Some w \<Rightarrow> data_eq w d) then (Node name fc ty tr cs v, None)
      else (Node name fc ty tr cs (Some d), None))"
| "assign_parts [] ms = ([], None)"
| "assign_parts (c # cs) ms =
     (case ms of
        [] \<Rightarrow> (c # cs, None)
      | m # rest \<Rightarrow> (case assign_part c m of
            (c', Some e) \<Rightarrow> (c' # cs, Some e)
          | (c', None) \<Rightarrow> (case assign_parts cs rest of (cs', e) \<Rightarrow> (c' # cs', e))))"

section \<open>State\<close>

definition ADD_CAUSE_UNKNOWN :: int where "ADD_CAUSE_UNKNOWN = 0"
definition ADD_CAUSE_NOT_SUPPORTED :: int where "ADD_CAUSE_NOT_SUPPORTED = 1"
definition ADD_CAUSE_COMMAND_IN_EXECUTION :: int where "ADD_CAUSE_COMMAND_IN_EXECUTION = 12"
definition ADD_CAUSE_OBJECT_NOT_SELECTED :: int where "ADD_CAUSE_OBJECT_NOT_SELECTED = 18"
definition ADD_CAUSE_OBJECT_ALREADY_SELECTED :: int where "ADD_CAUSE_OBJECT_ALREADY_SELECTED = 19"
definition ADD_CAUSE_INCONSISTENT_PARAMETERS :: int where "ADD_CAUSE_INCONSISTENT_PARAMETERS = 26"
definition IN_EXECUTION :: int where "IN_EXECUTION = - 1"
definition ERROR_UNKNOWN :: int where "ERROR_UNKNOWN = 1"

definition STATUS_ONLY :: int where "STATUS_ONLY = 0"
definition DIRECT_NORMAL :: int where "DIRECT_NORMAL = 1"
definition SBO_NORMAL :: int where "SBO_NORMAL = 2"
definition DIRECT_ENHANCED :: int where "DIRECT_ENHANCED = 3"
definition SBO_ENHANCED :: int where "SBO_ENHANCED = 4"
definition DEFAULT_SBO_TIMEOUT_MS :: int where "DEFAULT_SBO_TIMEOUT_MS = 30000"
definition DBPOS_OFF :: int where "DBPOS_OFF = 1"
definition DBPOS_ON :: int where "DBPOS_ON = 2"

lemmas control_codes = ADD_CAUSE_UNKNOWN_def ADD_CAUSE_NOT_SUPPORTED_def ADD_CAUSE_COMMAND_IN_EXECUTION_def
  ADD_CAUSE_OBJECT_NOT_SELECTED_def ADD_CAUSE_OBJECT_ALREADY_SELECTED_def ADD_CAUSE_INCONSISTENT_PARAMETERS_def IN_EXECUTION_def

lemmas control_models = STATUS_ONLY_def DIRECT_NORMAL_def SBO_NORMAL_def DIRECT_ENHANCED_def SBO_ENHANCED_def

record ctl_command =
  cm_serial :: nat
  cm_domain :: ustr
  cm_item :: ustr
  cm_ctl_val :: iecdata
  cm_origin :: "iecdata option"
  cm_ctl_num :: int
  cm_test :: bool
  cm_interlock_check :: bool
  cm_synchro_check :: bool
  cm_client :: nat

type_synonym control_key = "ustr \<times> ustr"

record selection =
  sl_client :: nat
  sl_until :: int

record execution =
  ex_client :: "nat option"
  ex_name :: object_name
  ex_command :: ctl_command
  ex_oper :: iecdata
  ex_enhanced :: bool

text \<open>What is run after the response, or by a timer.\<close>

datatype ctl_action =
    Run_command nat object_name ctl_command iecdata
  | Terminate_command nat object_name ctl_command iecdata
  | Start_timer int ctl_action

type_synonym ctl_check = "ctl_command \<Rightarrow> ied_model \<Rightarrow> int option result"
type_synonym ctl_handler = "ctl_command \<Rightarrow> ied_model \<Rightarrow> int option result \<times> ied_model"

record ctl_engine =
  ct_model :: ied_model
  ct_handlers :: "(control_key \<times> ctl_handler) list"
  ct_checks :: "(control_key \<times> ctl_check) list"
  ct_selections :: "(control_key \<times> selection) list"
  ct_executions :: "(control_key \<times> execution) list"
  ct_sent :: "(nat \<times> bytes) list"
  ct_after :: "(nat \<times> ctl_action) list"
  ct_timers :: "(int \<times> ctl_action) list"
  ct_changes :: "(ustr \<times> change) list list"
  ct_serial :: nat
  ct_utc :: "int \<Rightarrow> int"

definition new_control :: "(int \<Rightarrow> int) \<Rightarrow> ied_model \<Rightarrow> ctl_engine" where
  "new_control utc m = \<lparr>ct_model = m, ct_handlers = [], ct_checks = [], ct_selections = [], ct_executions = [], ct_sent = [],
     ct_after = [], ct_timers = [], ct_changes = [], ct_serial = 0, ct_utc = utc\<rparr>"

section \<open>Helpers\<close>

type_synonym 'a ctl_op = "(ctl_engine, 'a) op"

text \<open>\<^verbatim>\<open>model.node\<close> and \<^verbatim>\<open>model.set\<close> of a name in text, \<^verbatim>\<open>LD/LN$FC$...\<close>.\<close>

definition text_node :: "ied_model \<Rightarrow> ustr \<Rightarrow> node option result" where
  "text_node m name = mapE (find_node m) (to_object_name (Name_text name))"

definition set_text :: "ustr \<Rightarrow> py_value \<Rightarrow> bool \<Rightarrow> unit ctl_op" where
  "set_text name v notify =
     bindS (try_get (\<lambda>s. bindE (to_object_name (Name_text name)) (\<lambda>obj.
        case find_node (ct_model s) obj of
          None \<Rightarrow> Inl KeyError
        | Some n \<Rightarrow> bindE (to_data (n_type n) v) (\<lambda>d. if \<not> fits (n_type n) d then Inl TypeError else assign_at (ct_model s) obj n d))))
       (\<lambda>(m, changed). modify (\<lambda>s. s\<lparr>ct_model := m,
          ct_changes := ct_changes s @ (if notify \<and> changed \<noteq> [] then [changed] else [])\<rparr>))"

definition ctl_int :: "iecdata option \<Rightarrow> int" where
  "ctl_int v = (case v of Some (IntData n) \<Rightarrow> n | Some (UIntData n) \<Rightarrow> n | _ \<Rightarrow> 0)"

definition ctl_bool :: "iecdata option \<Rightarrow> bool" where
  "ctl_bool v = (v = Some (BoolData True))"

definition check_bit :: "iecdata option \<Rightarrow> nat \<Rightarrow> bool" where
  "check_bit v i = (case v of Some (BitStringData (b # bs) _) \<Rightarrow> b AND drop_bit i 0x80 \<noteq> 0 | _ \<Rightarrow> False)"

definition cf_item :: "ustr \<Rightarrow> ustr \<Rightarrow> string \<Rightarrow> ustr" where
  "cf_item ln do' name = join 36 [ln, asc ''CF'', do', asc name]"

definition ctl_model :: "ied_model \<Rightarrow> ustr \<Rightarrow> ustr \<Rightarrow> ustr \<Rightarrow> int result" where
  "ctl_model m domain ln do' =
     (case find_node m \<lparr>on_item = cf_item ln do' ''ctlModel'', on_domain = Some domain\<rparr> of
        None \<Rightarrow> Inr STATUS_ONLY
      | Some n \<Rightarrow> mapE (\<lambda>d. case d of IntData v \<Rightarrow> v | _ \<Rightarrow> STATUS_ONLY) (node_data n))"

definition sbo_timeout :: "ied_model \<Rightarrow> ustr \<Rightarrow> ustr \<Rightarrow> ustr \<Rightarrow> int result" where
  "sbo_timeout m domain ln do' =
     mapE (\<lambda>ms. ms * 1000) (case find_node m \<lparr>on_item = cf_item ln do' ''sboTimeout'', on_domain = Some domain\<rparr> of
        None \<Rightarrow> Inr DEFAULT_SBO_TIMEOUT_MS
      | Some n \<Rightarrow> mapE (\<lambda>d. case d of
            UIntData v \<Rightarrow> if v > 0 then v else DEFAULT_SBO_TIMEOUT_MS
          | IntData v \<Rightarrow> if v > 0 then v else DEFAULT_SBO_TIMEOUT_MS
          | _ \<Rightarrow> DEFAULT_SBO_TIMEOUT_MS) (node_data n))"

definition selected_by :: "int \<Rightarrow> control_key \<Rightarrow> nat option ctl_op" where
  "selected_by now key =
     bindS (gets (\<lambda>s. map_of (ct_selections s) key)) (\<lambda>selection.
       if (case selection of None \<Rightarrow> True | Some x \<Rightarrow> now > sl_until x) then
         thenS (modify (\<lambda>s. s\<lparr>ct_selections := AList.delete key (ct_selections s)\<rparr>)) (ret None)
       else ret (map_option sl_client selection))"

definition select_object :: "control_key \<Rightarrow> nat \<Rightarrow> int \<Rightarrow> unit ctl_op" where
  "select_object key c until =
     modify (\<lambda>s. s\<lparr>ct_selections := AList.update key \<lparr>sl_client = c, sl_until = until\<rparr> (ct_selections s)\<rparr>)"

definition send_to :: "nat \<Rightarrow> bytes \<Rightarrow> unit ctl_op" where
  "send_to c p = modify (\<lambda>s. s\<lparr>ct_sent := ct_sent s @ [(c, p)]\<rparr>)"

definition LAST_APPL_ERROR :: object_name where
  "LAST_APPL_ERROR = \<lparr>on_item = asc ''LastApplError'', on_domain = None\<rparr>"

definition last_appl_error :: "object_name \<Rightarrow> ctl_command \<Rightarrow> int \<Rightarrow> iecdata" where
  "last_appl_error name command cause = StructureData
     [VisibleStringData ((case on_domain name of None \<Rightarrow> asc ''None'' | Some d \<Rightarrow> d) @ 47 # on_item name), IntData ERROR_UNKNOWN,
      (case cm_origin command of Some d \<Rightarrow> d | None \<Rightarrow> StructureData [IntData 0, OctetStringData []]),
      UIntData (cm_ctl_num command), IntData cause]"

definition refuse :: "nat \<Rightarrow> object_name \<Rightarrow> ctl_command \<Rightarrow> int \<Rightarrow> hook ctl_op" where
  "refuse c name command cause =
     bindS (try_get (\<lambda>_. information_report [Access_value (last_appl_error name command cause)] None [LAST_APPL_ERROR] [])) (\<lambda>p.
       thenS (send_to c p) (ret (Refused ACCESS_OBJECT_ACCESS_DENIED)))"

definition send_termination :: "nat \<Rightarrow> object_name \<Rightarrow> ctl_command \<Rightarrow> iecdata \<Rightarrow> int option \<Rightarrow> unit ctl_op" where
  "send_termination c name command oper cause =
     bindS (try_get (\<lambda>_. case cause of
         None \<Rightarrow> information_report [Access_value oper] None [name] []
       | Some x \<Rightarrow> information_report [Access_value (last_appl_error name command x), Access_value oper] None [LAST_APPL_ERROR, name] []))
       (send_to c)"

section \<open>Execution\<close>

definition parts_of_item :: "ustr \<Rightarrow> (ustr \<times> ustr) result" where
  "parts_of_item item = (case split_on 36 item of [ln, fc, do'] \<Rightarrow> Inr (ln, do') | _ \<Rightarrow> Inl ValueError)"

definition object_base :: "ctl_command \<Rightarrow> string \<Rightarrow> ustr result" where
  "object_base command fc =
     mapE (\<lambda>(ln, do'). cm_domain command @ 47 # join 36 [ln, asc fc, do']) (parts_of_item (cm_item command))"

definition flag :: "int \<Rightarrow> ctl_command \<Rightarrow> string \<Rightarrow> bool \<Rightarrow> bool \<Rightarrow> unit ctl_op" where
  "flag now command attribute value stamp =
     bindS (try_get (\<lambda>_. object_base command ''OR'')) (\<lambda>base.
     thenS (whenS stamp
        (bindS (try_get (\<lambda>s. text_node (ct_model s) (base @ asc ''$tOpOk''))) (\<lambda>n. whenS (n \<noteq> None)
          (bindS (gets (\<lambda>s. ct_utc s now)) (\<lambda>utc. set_text (base @ asc ''$tOpOk'') (Py_data (TimestampData utc 0)) False)))))
     (bindS (try_get (\<lambda>s. text_node (ct_model s) (base @ 36 # asc attribute))) (\<lambda>n. whenS (n \<noteq> None)
        (set_text (base @ 36 # asc attribute) (Py_bool value) True))))"

definition ended :: "int \<Rightarrow> ctl_command \<Rightarrow> unit ctl_op" where
  "ended now command = thenS (flag now command ''opOk'' False False) (flag now command ''opRcvd'' False False)"

text \<open>The handler of an object nobody gave one: stVal takes ctlVal, t the time, and origin and ctlNum those of the command.\<close>

definition status_value :: "mms_type \<Rightarrow> iecdata \<Rightarrow> py_value" where
  "status_value ty v = (case v of
     BoolData b \<Rightarrow> (case ty of
         PrimitiveType kind n \<Rightarrow> if kind = ''bit-string'' then Py_int (if b then DBPOS_ON else DBPOS_OFF) else Py_bool b
       | _ \<Rightarrow> Py_bool b)
   | IntData n \<Rightarrow> Py_int n
   | UIntData n \<Rightarrow> Py_int n
   | _ \<Rightarrow> Py_data v)"

definition default_handler :: "int \<Rightarrow> ctl_command \<Rightarrow> int option ctl_op" where
  "default_handler now command =
     bindS (try_get (\<lambda>_. object_base command ''ST'')) (\<lambda>base.
     bindS (try_get (\<lambda>s. text_node (ct_model s) (base @ asc ''$stVal''))) (\<lambda>st_val. case st_val of
       None \<Rightarrow> ret (Some ADD_CAUSE_NOT_SUPPORTED)
     | Some n \<Rightarrow>
         bindS (gets (\<lambda>s. ct_utc s now)) (\<lambda>utc.
         bindS (try_get (\<lambda>s. text_node (ct_model s) (base @ asc ''$t''))) (\<lambda>t.
         bindS (if cm_origin command = None then ret None else try_get (\<lambda>s. text_node (ct_model s) (base @ asc ''$origin''))) (\<lambda>origin.
         bindS (try_get (\<lambda>s. text_node (ct_model s) (base @ asc ''$ctlNum''))) (\<lambda>ctl_num.
           let changes = [(''$stVal'', status_value (n_type n) (cm_ctl_val command))]
             @ (if t \<noteq> None then [(''$t'', Py_data (TimestampData utc 0))] else [])
             @ (case (cm_origin command, origin) of (Some d, Some _) \<Rightarrow> [(''$origin'', Py_data d)] | _ \<Rightarrow> [])
             @ (if ctl_num \<noteq> None then [(''$ctlNum'', Py_data (UIntData (cm_ctl_num command)))] else [])
           in thenS (for_each (\<lambda>(name, v). set_text (base @ asc name) v True) changes) (ret None)))))))"

text \<open>\<^verbatim>\<open>try ... except Exception\<close>: another answer when it raises.\<close>

definition orelse :: "'a ctl_op \<Rightarrow> 'a \<Rightarrow> 'a ctl_op" where
  "orelse m x = (\<lambda>s. case m s of (Inl _, s') \<Rightarrow> (Inr x, s') | (Inr y, s') \<Rightarrow> (Inr y, s'))"

definition call_handler :: "ctl_handler \<Rightarrow> ctl_command \<Rightarrow> int option ctl_op" where
  "call_handler h command = (\<lambda>s. case h command (ct_model s) of (r, m) \<Rightarrow> (r, s\<lparr>ct_model := m\<rparr>))"

definition key_of :: "ctl_command \<Rightarrow> control_key" where
  "key_of command = (cm_domain command, cm_item command)"

definition execute :: "int \<Rightarrow> ctl_command \<Rightarrow> int option ctl_op" where
  "execute now command =
     (if cm_test command then ret None
      else orelse (bindS (gets (\<lambda>s. map_of (ct_handlers s) (key_of command))) (\<lambda>h. case h of
          None \<Rightarrow> default_handler now command
        | Some f \<Rightarrow> call_handler f command)) (Some ADD_CAUSE_UNKNOWN))"

definition run_command :: "int \<Rightarrow> nat \<Rightarrow> object_name \<Rightarrow> ctl_command \<Rightarrow> iecdata \<Rightarrow> bool \<Rightarrow> int option ctl_op" where
  "run_command now c name command oper enhanced =
     bindS (gets (\<lambda>s. map_of (ct_executions s) (key_of command))) (\<lambda>current.
       if (case current of None \<Rightarrow> False | Some x \<Rightarrow> cm_serial (ex_command x) \<noteq> cm_serial command) then ret (Some ADD_CAUSE_COMMAND_IN_EXECUTION)
       else bindS (execute now command) (\<lambda>cause.
         thenS (whenS ((cause = None \<or> cause = Some IN_EXECUTION) \<and> \<not> cm_test command) (flag now command ''opOk'' True True))
         (if cause = Some IN_EXECUTION then
            thenS (modify (\<lambda>s. s\<lparr>ct_executions := AList.update (key_of command)
               \<lparr>ex_client = (case current of Some x \<Rightarrow> ex_client x | None \<Rightarrow> Some c), ex_name = name, ex_command = command, ex_oper = oper,
                 ex_enhanced = enhanced\<rparr> (ct_executions s)\<rparr>)) (ret cause)
          else thenS (modify (\<lambda>s. s\<lparr>ct_executions := AList.delete (key_of command) (ct_executions s)\<rparr>))
            (thenS (ended now command) (ret cause)))))"

definition terminate_command :: "int \<Rightarrow> nat \<Rightarrow> object_name \<Rightarrow> ctl_command \<Rightarrow> iecdata \<Rightarrow> unit ctl_op" where
  "terminate_command now c name command oper =
     bindS (run_command now c name command oper True) (\<lambda>cause.
       whenS (cause \<noteq> Some IN_EXECUTION) (send_termination c name command oper cause))"

section \<open>Calls of the application\<close>

definition control_key_of :: "ustr \<Rightarrow> control_key" where
  "control_key_of text =
     (case partition_at 47 text of (domain, _, item) \<Rightarrow>
        (domain, if 36 \<in> set item then item
           else case partition_at 46 item of (ln, _, do') \<Rightarrow> join 36 [ln, asc ''CO'', do']))"

definition set_handler :: "ustr \<Rightarrow> ctl_handler \<Rightarrow> unit ctl_op" where
  "set_handler text h = modify (\<lambda>s. s\<lparr>ct_handlers := AList.update (control_key_of text) h (ct_handlers s)\<rparr>)"

definition set_check :: "ustr \<Rightarrow> ctl_check \<Rightarrow> unit ctl_op" where
  "set_check text f = modify (\<lambda>s. s\<lparr>ct_checks := AList.update (control_key_of text) f (ct_checks s)\<rparr>)"

definition executing :: "ustr \<Rightarrow> bool ctl_op" where
  "executing text = gets (\<lambda>s. control_key_of text \<in> fst ` set (ct_executions s))"

definition finish :: "int \<Rightarrow> ustr \<Rightarrow> int option \<Rightarrow> bool ctl_op" where
  "finish now text cause =
     bindS (gets (\<lambda>s. map_of (ct_executions s) (control_key_of text))) (\<lambda>execution. case execution of
         None \<Rightarrow> ret False
       | Some x \<Rightarrow>
           thenS (modify (\<lambda>s. s\<lparr>ct_executions := AList.delete (control_key_of text) (ct_executions s)\<rparr>))
          (thenS (ended now (ex_command x))
          (thenS (case ex_client x of
                Some c \<Rightarrow> whenS (ex_enhanced x) (send_termination c (ex_name x) (ex_command x) (ex_oper x) cause)
              | None \<Rightarrow> ret ())
             (ret True))))"

section \<open>Reads, writes, clients going\<close>

datatype read_hook = Not_answered | Answered access_result

definition on_read_sbo :: "int \<Rightarrow> nat \<Rightarrow> object_name \<Rightarrow> read_hook ctl_op" where
  "on_read_sbo now c name =
     (case path_of name of
        [ln, fc, do', service] \<Rightarrow>
          if fc \<noteq> asc ''CO'' \<or> service \<noteq> asc ''SBO'' then ret Not_answered
          else
            let domain = domain_of name; item = join 36 [ln, fc, do']; key = (domain, item);
                empty = ret (Answered (Access_value (VisibleStringData []))) in
            bindS (gets (\<lambda>s. find_node (ct_model s) name)) (\<lambda>n.
              if n = None then ret (Answered (Access_error ACCESS_OBJECT_NON_EXISTENT))
              else bindS (try_get (\<lambda>s. ctl_model (ct_model s) domain ln do')) (\<lambda>model.
                if model \<noteq> SBO_NORMAL then empty
                else bindS (selected_by now key) (\<lambda>holder.
                  if holder \<noteq> None \<and> holder \<noteq> Some c then empty
                  else bindS (try_get (\<lambda>s. sbo_timeout (ct_model s) domain ln do')) (\<lambda>timeout.
                    thenS (select_object key c (now + timeout))
                      (ret (Answered (Access_value (VisibleStringData (domain @ 47 # item)))))))))
      | _ \<Rightarrow> ret Not_answered)"

fun same_class :: "iecdata \<Rightarrow> iecdata \<Rightarrow> bool" where
  "same_class (BoolData _) d = (case d of BoolData _ \<Rightarrow> True | _ \<Rightarrow> False)"
| "same_class (IntData _) d = (case d of IntData _ \<Rightarrow> True | _ \<Rightarrow> False)"
| "same_class (UIntData _) d = (case d of UIntData _ \<Rightarrow> True | _ \<Rightarrow> False)"
| "same_class (FloatData _) d = (case d of FloatData _ \<Rightarrow> True | _ \<Rightarrow> False)"
| "same_class (BitStringData _ _) d = (case d of BitStringData _ _ \<Rightarrow> True | _ \<Rightarrow> False)"
| "same_class (OctetStringData _) d = (case d of OctetStringData _ \<Rightarrow> True | _ \<Rightarrow> False)"
| "same_class (VisibleStringData _) d = (case d of VisibleStringData _ \<Rightarrow> True | _ \<Rightarrow> False)"
| "same_class (MmsStringData _) d = (case d of MmsStringData _ \<Rightarrow> True | _ \<Rightarrow> False)"
| "same_class (TimestampData _ _) d = (case d of TimestampData _ _ \<Rightarrow> True | _ \<Rightarrow> False)"
| "same_class (StructureData _) d = (case d of StructureData _ \<Rightarrow> True | _ \<Rightarrow> False)"
| "same_class (ArrayData _) d = (case d of ArrayData _ \<Rightarrow> True | _ \<Rightarrow> False)"
| "same_class (RawData _ _) d = (case d of RawData _ _ \<Rightarrow> True | _ \<Rightarrow> False)"

text \<open>\<^verbatim>\<open>_fits_value\<close>: \<^verbatim>\<open>to_data\<close> gives Data back, so only the class of the value is looked at.\<close>

definition fits_value :: "ied_model \<Rightarrow> ustr \<Rightarrow> ustr \<Rightarrow> iecdata \<Rightarrow> bool result" where
  "fits_value m domain item v =
     (case find_node m \<lparr>on_item = item @ asc ''$Oper$ctlVal'', on_domain = Some domain\<rparr> of
        None \<Rightarrow> Inr True
      | Some n \<Rightarrow> (case n_type n of
            PrimitiveType kind k \<Rightarrow> mapE (same_class v) (node_data n)
          | _ \<Rightarrow> Inr True))"

definition check_command :: "control_key \<Rightarrow> ctl_command \<Rightarrow> int option ctl_op" where
  "check_command key command = gets (\<lambda>s.
     if key \<in> fst ` set (ct_executions s) then Some ADD_CAUSE_COMMAND_IN_EXECUTION
     else case map_of (ct_checks s) key of
         None \<Rightarrow> None
       | Some f \<Rightarrow> (case f command (ct_model s) of Inl _ \<Rightarrow> Some ADD_CAUSE_UNKNOWN | Inr cause \<Rightarrow> cause))"

definition delay_of :: "int \<Rightarrow> iecdata option \<Rightarrow> int" where
  "delay_of utc v = (case v of Some (TimestampData t q) \<Rightarrow> max 0 (t - utc) | _ \<Rightarrow> 0)"

definition start_timer :: "int \<Rightarrow> ctl_action \<Rightarrow> unit ctl_op" where
  "start_timer t action = modify (\<lambda>s. s\<lparr>ct_timers := ct_timers s @ [(t, action)]\<rparr>)"

definition after_response :: "nat \<Rightarrow> ctl_action \<Rightarrow> unit ctl_op" where
  "after_response c action = modify (\<lambda>s. s\<lparr>ct_after := ct_after s @ [(c, action)]\<rparr>)"

definition assign_control :: "object_name \<Rightarrow> node \<Rightarrow> iecdata \<Rightarrow> unit ctl_op" where
  "assign_control name n v =
     (case assign_part n v of (n', e) \<Rightarrow>
        thenS (modify (\<lambda>s. s\<lparr>ct_model := put_node (ct_model s) (domain_of name) (path_of name) n'\<rparr>))
          (case e of None \<Rightarrow> ret () | Some x \<Rightarrow> raise x))"

definition drop_selection :: "control_key \<Rightarrow> unit ctl_op" where
  "drop_selection key = modify (\<lambda>s. s\<lparr>ct_selections := AList.delete key (ct_selections s)\<rparr>)"

definition cancel :: "int \<Rightarrow> nat \<Rightarrow> control_key \<Rightarrow> hook ctl_op" where
  "cancel now c key =
     bindS (selected_by now key) (\<lambda>holder. thenS (whenS (holder = Some c) (drop_selection key)) (ret Handled))"

definition select_with_value :: "int \<Rightarrow> nat \<Rightarrow> object_name \<Rightarrow> node \<Rightarrow> iecdata \<Rightarrow> int \<Rightarrow> int result \<Rightarrow> ctl_command \<Rightarrow> hook ctl_op" where
  "select_with_value now c name n v model timeout command =
     (if model \<noteq> SBO_ENHANCED then refuse c name command ADD_CAUSE_NOT_SUPPORTED
      else bindS (selected_by now (key_of command)) (\<lambda>holder.
        if holder \<noteq> None \<and> holder \<noteq> Some c then refuse c name command ADD_CAUSE_OBJECT_ALREADY_SELECTED
        else bindS (check_command (key_of command) command) (\<lambda>cause. case cause of
            Some x \<Rightarrow> refuse c name command x
          | None \<Rightarrow> bindS (try_get (\<lambda>_. timeout)) (\<lambda>ms.
              thenS (select_object (key_of command) c (now + ms)) (thenS (assign_control name n v) (ret Handled))))))"

text \<open>An operate that was accepted: \<open>delay\<close> is the time until its operTm.\<close>

definition start_command :: "int \<Rightarrow> nat \<Rightarrow> object_name \<Rightarrow> iecdata \<Rightarrow> int \<Rightarrow> int \<Rightarrow> ctl_command \<Rightarrow> hook ctl_op" where
  "start_command now c name v model delay command =
     (let normal = (model = DIRECT_NORMAL \<or> model = SBO_NORMAL); enhanced = (model = DIRECT_ENHANCED \<or> model = SBO_ENHANCED) in
      thenS (whenS (delay > 0 \<or> enhanced) (modify (\<lambda>s. s\<lparr>ct_executions := AList.update (key_of command)
          \<lparr>ex_client = Some c, ex_name = name, ex_command = command, ex_oper = v, ex_enhanced = enhanced\<rparr> (ct_executions s)\<rparr>)))
        (if delay > 0 then
           thenS (if normal then start_timer (now + delay) (Run_command c name command v)
             else after_response c (Start_timer delay (Terminate_command c name command v))) (ret Handled)
         else if normal then
           bindS (run_command now c name command v False) (\<lambda>cause. case cause of
               None \<Rightarrow> ret Handled
             | Some x \<Rightarrow> if x = IN_EXECUTION then ret Handled else refuse c name command x)
         else thenS (after_response c (Terminate_command c name command v)) (ret Handled)))"

definition operate :: "int \<Rightarrow> nat \<Rightarrow> object_name \<Rightarrow> node \<Rightarrow> iecdata \<Rightarrow> int \<Rightarrow> iecdata option \<Rightarrow> ctl_command \<Rightarrow> hook ctl_op" where
  "operate now c name n v model oper_tm command =
     bindS (if model = SBO_NORMAL \<or> model = SBO_ENHANCED
            then bindS (selected_by now (key_of command)) (\<lambda>holder. ret (holder = Some c)) else ret True) (\<lambda>allowed.
       if \<not> allowed then refuse c name command ADD_CAUSE_OBJECT_NOT_SELECTED
       else bindS (try_get (\<lambda>s. fits_value (ct_model s) (cm_domain command) (cm_item command) (cm_ctl_val command))) (\<lambda>fit.
         if \<not> fit then refuse c name command ADD_CAUSE_INCONSISTENT_PARAMETERS
         else bindS (check_command (key_of command) command) (\<lambda>cause. case cause of
             Some x \<Rightarrow> refuse c name command x
           | None \<Rightarrow>
               thenS (assign_control name n v)
              (thenS (drop_selection (key_of command))
              (thenS (flag now command ''opRcvd'' True False)
              (bindS (gets (\<lambda>s. delay_of (ct_utc s now) oper_tm)) (\<lambda>delay.
                 start_command now c name v model delay command)))))))"

definition command_of :: "nat \<Rightarrow> nat \<Rightarrow> ustr \<Rightarrow> ustr \<Rightarrow> (ustr \<Rightarrow> iecdata option) \<Rightarrow> ctl_command" where
  "command_of serial c domain item f =
     \<lparr>cm_serial = serial, cm_domain = domain, cm_item = item,
      cm_ctl_val = (case f (asc ''ctlVal'') of None \<Rightarrow> BoolData False | Some d \<Rightarrow> d), cm_origin = f (asc ''origin''),
      cm_ctl_num = ctl_int (f (asc ''ctlNum'')), cm_test = ctl_bool (f (asc ''Test'')),
      cm_interlock_check = check_bit (f (asc ''Check'')) 1, cm_synchro_check = check_bit (f (asc ''Check'')) 0,
      cm_client = c\<rparr>"

definition new_serial :: "nat ctl_op" where
  "new_serial = bindS (gets ct_serial) (\<lambda>i. thenS (modify (\<lambda>s. s\<lparr>ct_serial := ct_serial s + 1\<rparr>)) (ret i))"

definition CONTROL_SERVICES :: "ustr list" where "CONTROL_SERVICES = [asc ''Oper'', asc ''SBOw'', asc ''Cancel'']"

text \<open>The write of an existing Oper, SBOw or Cancel, its members as many as the node's.\<close>

definition control_service :: "int \<Rightarrow> nat \<Rightarrow> object_name \<Rightarrow> node \<Rightarrow> iecdata list \<Rightarrow> ustr \<Rightarrow> ustr \<Rightarrow> ustr \<Rightarrow> ustr \<Rightarrow> hook ctl_op" where
  "control_service now c name n ms ln fc do' service =
     bindS (try_get (\<lambda>s. ctl_model (ct_model s) (domain_of name) ln do')) (\<lambda>model.
     bindS new_serial (\<lambda>serial.
       let field = map_of (zip (map n_name (n_children n)) ms); v = StructureData ms;
           command = command_of serial c (domain_of name) (join 36 [ln, fc, do']) field in
       if model = STATUS_ONLY then refuse c name command ADD_CAUSE_NOT_SUPPORTED
       else if service = asc ''Cancel'' then cancel now c (key_of command)
       else if service = asc ''SBOw'' then
         bindS (gets ct_model) (\<lambda>m.
           select_with_value now c name n v model (sbo_timeout m (domain_of name) ln do') command)
       else operate now c name n v model (field (asc ''operTm'')) command))"

definition on_write_control :: "int \<Rightarrow> nat \<Rightarrow> object_name \<Rightarrow> iecdata \<Rightarrow> hook ctl_op" where
  "on_write_control now c name v =
     (case path_of name of
        ln # fc # do' # rest \<Rightarrow>
          if fc \<noteq> asc ''CO'' then ret Not_theirs
          else (case rest of
              [service] \<Rightarrow>
                if service \<notin> set CONTROL_SERVICES then ret (Refused ACCESS_OBJECT_ACCESS_DENIED)
                else bindS (gets (\<lambda>s. find_node (ct_model s) name)) (\<lambda>node. case node of
                    None \<Rightarrow> ret (Refused ACCESS_OBJECT_NON_EXISTENT)
                  | Some n \<Rightarrow> (case v of
                        StructureData ms \<Rightarrow>
                          if length ms \<noteq> length (n_children n) then ret (Refused ACCESS_TYPE_INCONSISTENT)
                          else control_service now c name n ms ln fc do' service
                      | _ \<Rightarrow> ret (Refused ACCESS_TYPE_INCONSISTENT)))
            | _ \<Rightarrow> ret (Refused ACCESS_OBJECT_ACCESS_DENIED))
      | _ \<Rightarrow> ret Not_theirs)"

definition on_close_control :: "nat \<Rightarrow> unit ctl_op" where
  "on_close_control c = modify (\<lambda>s. s\<lparr>ct_selections := filter (\<lambda>(k, x). sl_client x \<noteq> c) (ct_selections s),
     ct_executions := map (\<lambda>(k, x). (k, if ex_client x = Some c then x\<lparr>ex_client := None\<rparr> else x)) (ct_executions s)\<rparr>)"

section \<open>After the response, and later\<close>

text \<open>What the connection runs once its response has gone, or drops when the response became a Reject. A timer due runs
  in a thread of its own; it is the one of number \<open>i\<close>.\<close>

fun run_action :: "int \<Rightarrow> ctl_action \<Rightarrow> unit ctl_op" where
  "run_action now (Run_command c name command v) = bindS (run_command now c name command v False) (\<lambda>_. ret ())"
| "run_action now (Terminate_command c name command v) = terminate_command now c name command v"
| "run_action now (Start_timer delay action) = start_timer (now + delay) action"

definition clear_after :: "nat \<Rightarrow> unit ctl_op" where
  "clear_after c = modify (\<lambda>s. s\<lparr>ct_after := filter (\<lambda>(d, _). d \<noteq> c) (ct_after s)\<rparr>)"

definition run_after :: "int \<Rightarrow> nat \<Rightarrow> unit ctl_op" where
  "run_after now c =
     bindS (gets (\<lambda>s. filter (\<lambda>(d, _). d = c) (ct_after s))) (\<lambda>actions.
       thenS (clear_after c) (for_each (\<lambda>(_, action). run_action now action) actions))"

definition fire_timer :: "int \<Rightarrow> nat \<Rightarrow> unit ctl_op" where
  "fire_timer now i =
     bindS (gets ct_timers) (\<lambda>ts. whenS (i < length ts \<and> fst (ts ! i) \<le> now)
       (thenS (modify (\<lambda>s. s\<lparr>ct_timers := take i ts @ drop (Suc i) ts\<rparr>)) (run_action now (snd (ts ! i)))))"

section \<open>What a command leaves alone\<close>

text \<open>A property of the engine that does not look at the values of the model survives all that a command does to them.\<close>

definition unmodel :: "(ctl_engine \<Rightarrow> bool) \<Rightarrow> bool" where
  "unmodel K \<longleftrightarrow> (\<forall>s m ch. K (s\<lparr>ct_model := m, ct_changes := ch\<rparr>) = K s)"

abbreviation kept :: "(ctl_engine \<Rightarrow> bool) \<Rightarrow> 'a ctl_op \<Rightarrow> bool" where
  "kept K m \<equiv> holds K m (\<lambda>_. K) K"

lemma unmodelD: "unmodel K \<Longrightarrow> K s \<Longrightarrow> K (s\<lparr>ct_model := m, ct_changes := ch\<rparr>)"
  by (simp add: unmodel_def)

lemma unmodel_only: "unmodel K \<Longrightarrow> K s \<Longrightarrow> K (s\<lparr>ct_model := m\<rparr>)"
  using unmodelD [where K = K and s = s and m = m and ch = "ct_changes s"] by (cases s) simp

lemma kept_ret: "kept K (ret x)" by (rule holds_ret)

lemma kept_gets: "kept K (gets f)" by (rule holds_gets)

lemma kept_try_get: "kept K (try_get f)" by (rule holds_try_get)

lemma kept_bind: "kept K m \<Longrightarrow> (\<And>x. kept K (f x)) \<Longrightarrow> kept K (bindS m f)" by (rule holds_bind)

lemma kept_then: "kept K m \<Longrightarrow> kept K n \<Longrightarrow> kept K (thenS m n)" by (rule holds_then)

lemma kept_when: "kept K m \<Longrightarrow> kept K (whenS b m)" by (rule holds_when)

lemma kept_modify: "(\<And>s. K s \<Longrightarrow> K (f s)) \<Longrightarrow> kept K (modify f)" by (rule holds_modify)

lemma kept_if: "kept K m \<Longrightarrow> kept K n \<Longrightarrow> kept K (if b then m else n)" by simp

lemma kept_raise: "kept K (raise e)" by (rule holds_raise)

lemma kept_option: "kept K m \<Longrightarrow> (\<And>x. kept K (f x)) \<Longrightarrow> kept K (case v of None \<Rightarrow> m | Some x \<Rightarrow> f x)"
  by (cases v) simp_all

lemma kept_orelse: "kept K m \<Longrightarrow> kept K (orelse m x)"
  by (rule holdsI) (auto simp: orelse_def dest: holdsD split: prod.split sum.split)

lemmas kept_rules = kept_ret kept_gets kept_try_get kept_bind kept_then kept_when kept_if kept_raise kept_option kept_orelse

lemma kept_set_text: "unmodel K \<Longrightarrow> kept K (set_text name v notify)"
  unfolding set_text_def by (intro kept_bind kept_try_get) (auto intro!: kept_modify unmodelD [of K])

lemma kept_flag: "unmodel K \<Longrightarrow> kept K (flag now command attribute value stamp)"
  unfolding flag_def by (intro kept_rules kept_set_text; assumption)

lemma kept_ended: "unmodel K \<Longrightarrow> kept K (ended now command)"
  unfolding ended_def by (intro kept_then kept_flag; assumption)

lemma kept_default_handler: "unmodel K \<Longrightarrow> kept K (default_handler now command)"
  unfolding default_handler_def Let_def
  by (intro kept_rules holds_for_each; simp split: prod.split; intro allI impI kept_set_text; assumption)

lemma kept_call_handler: "unmodel K \<Longrightarrow> kept K (call_handler h command)"
  by (rule holdsI) (auto simp: call_handler_def unmodel_only [of K] split: prod.split sum.split)

lemma kept_execute: "unmodel K \<Longrightarrow> kept K (execute now command)"
  unfolding execute_def by (intro kept_rules kept_default_handler kept_call_handler; assumption)

lemma kept_assign: "unmodel K \<Longrightarrow> kept K (assign_control name n v)"
  unfolding assign_control_def by (cases "assign_part n v") (auto intro!: kept_rules kept_modify unmodel_only [of K])

section \<open>The engine at work\<close>

text \<open>Everything that happens to the engine: what clients do, the end of a response or its Reject, a timer, the application.\<close>

datatype ctl_event =
    Ctl_write nat object_name iecdata
  | Ctl_read nat object_name
  | Ctl_close nat
  | Ctl_after nat
  | Ctl_reject nat
  | Ctl_timer nat
  | Ctl_finish ustr "int option"

fun ctl_step :: "int \<Rightarrow> ctl_event \<Rightarrow> unit ctl_op" where
  "ctl_step now (Ctl_write c name v) = bindS (on_write_control now c name v) (\<lambda>_. ret ())"
| "ctl_step now (Ctl_read c name) = bindS (on_read_sbo now c name) (\<lambda>_. ret ())"
| "ctl_step now (Ctl_close c) = on_close_control c"
| "ctl_step now (Ctl_after c) = run_after now c"
| "ctl_step now (Ctl_reject c) = clear_after c"
| "ctl_step now (Ctl_timer i) = fire_timer now i"
| "ctl_step now (Ctl_finish text cause) = bindS (finish now text cause) (\<lambda>_. ret ())"

section \<open>One command at a time\<close>

text \<open>\<open>holding key x\<close>: the object is in the execution of \<open>x\<close>'s command, whose client may have gone.\<close>

definition holding :: "control_key \<Rightarrow> execution \<Rightarrow> ctl_engine \<Rightarrow> bool" where
  "holding key x s \<longleftrightarrow> (\<exists>y. map_of (ct_executions s) key = Some y \<and> ex_command y = ex_command x
     \<and> (ex_client y = ex_client x \<or> ex_client y = None))"

lemma unmodel_holding: "unmodel (holding key x)"
  by (simp add: unmodel_def holding_def)

lemma holding_frame: "ct_executions s' = ct_executions s \<Longrightarrow> holding key x s' = holding key x s"
  by (simp add: holding_def)

lemma holding_update: "k \<noteq> key \<Longrightarrow> holding key x (s\<lparr>ct_executions := AList.update k y (ct_executions s)\<rparr>) = holding key x s"
  by (simp add: holding_def update_conv')

lemma holding_delete: "k \<noteq> key \<Longrightarrow> holding key x (s\<lparr>ct_executions := AList.delete k (ct_executions s)\<rparr>) = holding key x s"
  by (simp add: holding_def delete_conv')

lemma kept_frame: "(\<And>s. ct_executions (f s) = ct_executions s) \<Longrightarrow> kept (holding key x) (modify f)"
  by (rule kept_modify) (simp only: holding_def)

lemma kept_send: "kept (holding key x) (send_to c p)"
  unfolding send_to_def by (rule kept_frame) simp

lemma kept_refuse: "kept (holding key x) (refuse c name command cause)"
  unfolding refuse_def by (intro kept_rules kept_send)

lemma kept_termination: "kept (holding key x) (send_termination c name command oper cause)"
  unfolding send_termination_def by (intro kept_rules kept_send)

lemma kept_selected: "kept (holding key x) (selected_by now k)"
  unfolding selected_by_def by (intro kept_rules kept_frame) simp

lemma kept_select: "kept (holding key x) (select_object k c t)"
  unfolding select_object_def by (rule kept_frame) simp

lemma kept_drop: "kept (holding key x) (drop_selection k)"
  unfolding drop_selection_def by (rule kept_frame) simp

lemma kept_timer: "kept (holding key x) (start_timer t a)"
  unfolding start_timer_def by (rule kept_frame) simp

lemma kept_after: "kept (holding key x) (after_response c a)"
  unfolding after_response_def by (rule kept_frame) simp

lemma kept_clear: "kept (holding key x) (clear_after c)"
  unfolding clear_after_def by (rule kept_frame) simp

lemma kept_serial: "kept (holding key x) new_serial"
  unfolding new_serial_def by (intro kept_rules kept_frame) simp

lemma kept_check: "kept (holding key x) (check_command k command)"
  unfolding check_command_def by (rule kept_gets)

lemmas kept_holding = kept_rules kept_refuse kept_termination kept_selected kept_select kept_drop kept_timer kept_after kept_clear
  kept_serial kept_check kept_flag [OF unmodel_holding] kept_ended [OF unmodel_holding] kept_execute [OF unmodel_holding]
  kept_assign [OF unmodel_holding]

text \<open>Another command does nothing to it: not of another object, and of the same one it finds the object taken.\<close>

lemma kept_run:
  assumes "key_of command \<noteq> key \<or> cm_serial command \<noteq> cm_serial (ex_command x)"
  shows "kept (holding key x) (run_command now c name command oper enhanced)"
proof (cases "key_of command = key")
  case False
  then show ?thesis unfolding run_command_def
    by (intro kept_holding kept_modify) (simp_all add: holding_update holding_delete)
next
  case True
  then have "cm_serial (ex_command x) \<noteq> cm_serial command" using assms by simp
  with True show ?thesis by (intro holdsI) (auto simp: run_command_def holding_def)
qed

text \<open>A check that lets a command through finds no execution on its object.\<close>

lemma holds_check:
  "holds (holding key x) (check_command k command) (\<lambda>cause s. holding key x s \<and> (cause = None \<longrightarrow> k \<noteq> key)) (holding key x)"
  unfolding check_command_def 
proof (rule holds_gets)
  fix s assume h: "holding key x s"
  then have "key \<in> fst ` set (ct_executions s)" unfolding holding_def by (force dest: map_of_SomeD)
  then show "holding key x s \<and> ((if k \<in> fst ` set (ct_executions s) then Some ADD_CAUSE_COMMAND_IN_EXECUTION
     else case map_of (ct_checks s) k of None \<Rightarrow> None
       | Some f \<Rightarrow> (case f command (ct_model s) of Inl _ \<Rightarrow> Some ADD_CAUSE_UNKNOWN | Inr cause \<Rightarrow> cause)) = None \<longrightarrow> k \<noteq> key)"
    using h by auto
qed

lemma kept_start:
  assumes "key_of command \<noteq> key"
  shows "kept (holding key x) (start_command now c name v model delay command)"
  unfolding start_command_def Let_def
  using assms by (intro kept_holding kept_modify kept_run) (simp_all add: holding_update)

lemma kept_checked:
  assumes "\<And>y. kept (holding key x) (f y)" "key_of command \<noteq> key \<Longrightarrow> kept (holding key x) g"
  shows "kept (holding key x) (bindS (check_command (key_of command) command) (\<lambda>cause. case cause of None \<Rightarrow> g | Some y \<Rightarrow> f y))"
proof (rule holds_bind [OF holds_check])
  show "holds (\<lambda>s. holding key x s \<and> (cause = None \<longrightarrow> key_of command \<noteq> key)) (case cause of None \<Rightarrow> g | Some y \<Rightarrow> f y)
      (\<lambda>_. holding key x) (holding key x)" for cause
    using assms by (cases cause) (auto simp: holds_def)
qed

lemma kept_select_value: "kept (holding key x) (select_with_value now c name n v model timeout command)"
  unfolding select_with_value_def by (intro kept_holding kept_checked)

lemma kept_operate: "kept (holding key x) (operate now c name n v model tm command)"
  unfolding operate_def by (intro kept_holding kept_checked kept_start) assumption

lemma kept_cancel: "kept (holding key x) (cancel now c k)"
  unfolding cancel_def by (intro kept_holding)

lemma kept_write_control: "kept (holding key x) (on_write_control now c name v)"
proof -
  have "kept (holding key x) (control_service now c name n ms ln fc do' service)" for n ms ln fc do' service
    unfolding control_service_def Let_def by (intro kept_holding kept_cancel kept_select_value kept_operate)
  then show ?thesis unfolding on_write_control_def
    by (auto intro!: kept_holding split: list.split iecdata.split)
qed

lemma kept_read: "kept (holding key x) (on_read_sbo now c name)"
  unfolding on_read_sbo_def Let_def by (auto intro!: kept_holding split: list.split)

lemma map_of_values: "map_of (map (\<lambda>(k, x). (k, f x)) xs) key = map_option f (map_of xs key)"
  by (simp add: map_of_map)

lemma kept_close: "kept (holding key x) (on_close_control c)"
proof -
  define f :: "execution \<Rightarrow> execution" where "f x = (if ex_client x = Some c then x\<lparr>ex_client := None\<rparr> else x)" for x
  have f: "ex_command (f y) = ex_command y" "ex_client (f y) = ex_client y \<or> ex_client (f y) = None" for y by (simp_all add: f_def)
  show ?thesis
    unfolding on_close_control_def f_def [symmetric]
  proof (rule kept_modify)
    fix s assume "holding key x s"
    then obtain y where y: "map_of (ct_executions s) key = Some y" "ex_command y = ex_command x"
        "ex_client y = ex_client x \<or> ex_client y = None" unfolding holding_def by blast
    have "map_of (map (\<lambda>(k, x). (k, f x)) (ct_executions s)) key = Some (f y)" using y(1) by (simp add: map_of_values)
    moreover have "ex_client (f y) = ex_client x \<or> ex_client (f y) = None" using f(2) [of y] y(3) by metis
    ultimately show "holding key x (s\<lparr>ct_selections := filter (\<lambda>(k, x). sl_client x \<noteq> c) (ct_selections s),
        ct_executions := map (\<lambda>(k, x). (k, f x)) (ct_executions s)\<rparr>)"
      using y(2) by (simp add: holding_def f(1))
  qed
qed

text \<open>Only the application's \<^verbatim>\<open>finish\<close> and the command itself end an execution.\<close>

fun action_command :: "ctl_action \<Rightarrow> ctl_command" where
  "action_command (Run_command c name command v) = command"
| "action_command (Terminate_command c name command v) = command"
| "action_command (Start_timer delay action) = action_command action"

fun starts_of :: "ctl_engine \<Rightarrow> ctl_event \<Rightarrow> ctl_action list" where
  "starts_of s (Ctl_after c) = map snd (filter (\<lambda>(d, _). d = c) (ct_after s))"
| "starts_of s (Ctl_timer i) = (if i < length (ct_timers s) then [snd (ct_timers s ! i)] else [])"
| "starts_of s e = []"

definition ends :: "control_key \<Rightarrow> execution \<Rightarrow> ctl_engine \<Rightarrow> ctl_event \<Rightarrow> bool" where
  "ends key x s e \<longleftrightarrow> (case e of Ctl_finish text cause \<Rightarrow> control_key_of text = key | _ \<Rightarrow> False)
     \<or> (\<exists>a \<in> set (starts_of s e). key_of (action_command a) = key \<and> cm_serial (action_command a) = cm_serial (ex_command x))"

lemma kept_action:
  assumes "key_of (action_command a) \<noteq> key \<or> cm_serial (action_command a) \<noteq> cm_serial (ex_command x)"
  shows "kept (holding key x) (run_action now a)"
  using assms by (cases a) (auto simp: terminate_command_def intro!: kept_holding kept_run)

lemma kept_finish: "control_key_of text \<noteq> key \<Longrightarrow> kept (holding key x) (finish now text cause)"
  unfolding finish_def by (intro kept_holding kept_modify) (simp_all add: holding_delete)

lemma holding_step:
  assumes "holding key x s" "\<not> ends key x s e"
  shows "holding key x (snd (ctl_step now e s))"
proof -
  have act: "kept (holding key x) (run_action now a)" if "a \<in> set (starts_of s e)" for a
    using that assms(2) by (intro kept_action) (auto simp: ends_def)
  consider (after) c where "e = Ctl_after c" | (timer) i where "e = Ctl_timer i" | (other) "kept (holding key x) (ctl_step now e)"
    using assms(2)
    by (cases e) (auto simp: ends_def intro!: kept_bind kept_ret kept_write_control kept_read kept_close kept_clear kept_finish)
  then show ?thesis
  proof cases
    case after
    let ?as = "filter (\<lambda>(d, _). d = c) (ct_after s)"
    have loop: "kept (holding key x) (for_each (\<lambda>(_, a). run_action now a) ?as)"
      by (rule holds_for_each) (use act after in force)
    have "holding key x (snd (clear_after c s))"
      using kept_clear assms(1) by (rule holds_state)
    with loop have "holding key x (snd (for_each (\<lambda>(_, a). run_action now a) ?as (snd (clear_after c s))))"
      by (rule holds_state)
    moreover have "ctl_step now e s = for_each (\<lambda>(_, a). run_action now a) ?as (snd (clear_after c s))"
      unfolding after by (simp add: run_after_def clear_after_def)
    ultimately show ?thesis by simp
  next
    case timer
    let ?t = "s\<lparr>ct_timers := take i (ct_timers s) @ drop (Suc i) (ct_timers s)\<rparr>"
    have "holding key x ?t" using assms(1) by (simp add: holding_def)
    then have "holding key x (snd (run_action now (snd (ct_timers s ! i)) ?t))" if "i < length (ct_timers s)"
      using holds_state [OF act] that timer by simp
    then show ?thesis using assms(1) unfolding timer by (simp add: fire_timer_def whenS_def)
  next
    case other
    then show ?thesis using assms(1) by (rule holds_state)
  qed
qed

section \<open>Refusals\<close>

text \<open>What a refused command leaves as it was: all but the selections, whose expiry is noticed, and what was sent.\<close>

definition untouched :: "ctl_engine \<Rightarrow> ctl_engine \<Rightarrow> bool" where
  "untouched s t \<longleftrightarrow> ct_model t = ct_model s \<and> ct_executions t = ct_executions s \<and> ct_after t = ct_after s
     \<and> ct_timers t = ct_timers s \<and> ct_changes t = ct_changes s \<and> ct_handlers t = ct_handlers s \<and> ct_checks t = ct_checks s"

definition selected :: "int \<Rightarrow> control_key \<Rightarrow> ctl_engine \<Rightarrow> nat option" where
  "selected now key s = (case map_of (ct_selections s) key of
     Some x \<Rightarrow> if now > sl_until x then None else Some (sl_client x) | None \<Rightarrow> None)"

lemma selected_by_run:
  "selected_by now key s = (Inr (selected now key s),
     if selected now key s = None then s\<lparr>ct_selections := AList.delete key (ct_selections s)\<rparr> else s)"
  by (cases "map_of (ct_selections s) key") (auto simp: selected_by_def selected_def thenS_def bindS_def)

text \<open>\<open>refusing s m\<close>: whatever happens, the command does not go through.\<close>

definition refusing :: "ctl_engine \<Rightarrow> hook ctl_op \<Rightarrow> bool" where
  "refusing s m \<longleftrightarrow> holds (untouched s) m (\<lambda>h t. h = Refused ACCESS_OBJECT_ACCESS_DENIED \<and> untouched s t) (untouched s)"

lemma refusing_refuse: "refusing s (refuse c name command cause)"
proof (cases "information_report [Access_value (last_appl_error name command cause)] None [LAST_APPL_ERROR] []")
  case (Inl e)
  then show ?thesis by (simp add: refusing_def holds_def refuse_def bindS_try_get)
next
  case (Inr p)
  then show ?thesis by (simp add: refusing_def holds_def refuse_def bindS_try_get send_to_def untouched_def)
qed

lemma refusing_if: "refusing s m \<Longrightarrow> (\<not> b \<Longrightarrow> refusing s n) \<Longrightarrow> refusing s (if b then m else n)"
  by simp

lemma refusing_bind:
  assumes "holds (untouched s) m (\<lambda>x t. untouched s t \<and> R x) (untouched s)" "\<And>x. R x \<Longrightarrow> refusing s (f x)"
  shows "refusing s (bindS m f)"
  unfolding refusing_def
proof (rule holds_bind [OF assms(1)])
  fix x
  show "holds (\<lambda>t. untouched s t \<and> R x) (f x) (\<lambda>h t. h = Refused ACCESS_OBJECT_ACCESS_DENIED \<and> untouched s t) (untouched s)"
  proof (cases "R x")
    case True
    then show ?thesis using assms(2) [OF True] by (simp add: refusing_def)
  qed (simp add: holds_def)
qed

lemma untouched_try: "holds (untouched s) (try_get f) (\<lambda>x t. untouched s t \<and> True) (untouched s)"
  by (rule holds_try_get) simp_all

lemma untouched_selected: "holds (untouched s) (selected_by now key) (\<lambda>x t. untouched s t \<and> True) (untouched s)"
  by (rule holdsI) (simp add: selected_by_run untouched_def)

lemma untouched_serial: "holds (untouched s) new_serial (\<lambda>x t. untouched s t \<and> True) (untouched s)"
  by (rule holdsI) (simp add: new_serial_def thenS_def untouched_def)

lemma untouched_check:
  assumes "map_of (ct_executions s) key = Some x"
  shows "holds (untouched s) (check_command key command) (\<lambda>y t. untouched s t \<and> y = Some ADD_CAUSE_COMMAND_IN_EXECUTION) (untouched s)"
proof -
  have "key \<in> fst ` set (ct_executions s)" using map_of_SomeD [OF assms] by force
  then show ?thesis by (simp add: holds_def check_command_def untouched_def)
qed

lemmas refusing_steps = refusing_refuse refusing_if refusing_bind [OF untouched_try] refusing_bind [OF untouched_selected]
  refusing_bind [OF untouched_serial]

text \<open>The object is taken: its Oper and SBOw are refused.\<close>

lemma untouched_allowed:
  "holds (untouched s) (if b then bindS (selected_by now key) (\<lambda>holder. ret (f holder)) else ret True)
     (\<lambda>x t. untouched s t \<and> True) (untouched s)"
  by (auto simp: holds_def bindS_def selected_by_run untouched_def)

lemma refusing_check:
  assumes "map_of (ct_executions s) key = Some x" "\<And>y. refusing s (f y)"
  shows "refusing s (bindS (check_command key command) (\<lambda>cause. case cause of None \<Rightarrow> g | Some y \<Rightarrow> f y))"
  by (rule refusing_bind [OF untouched_check [OF assms(1)]]) (simp add: assms(2))

lemma operate_taken:
  assumes "map_of (ct_executions s) (key_of command) = Some x"
  shows "refusing s (operate now c name n v model tm command)"
  unfolding operate_def
  by (intro refusing_bind [OF untouched_allowed] refusing_steps refusing_check [OF assms])

lemma select_taken:
  assumes "map_of (ct_executions s) (key_of command) = Some x"
  shows "refusing s (select_with_value now c name n v model timeout command)"
  unfolding select_with_value_def by (intro refusing_steps refusing_check [OF assms])

text \<open>A command needs its selection, when the object's ctlModel says so.\<close>

lemma operate_unselected:
  assumes "model = SBO_NORMAL \<or> model = SBO_ENHANCED" "selected now (key_of command) s \<noteq> Some c"
  shows "operate now c name n v model tm command s = refuse c name command ADD_CAUSE_OBJECT_NOT_SELECTED (snd (selected_by now (key_of command) s))"
  using assms by (auto simp: operate_def bindS_def selected_by_run)

lemma refusing_untouched:
  assumes "refusing s m" "m s = (r, t)"
  shows "untouched s t \<and> (\<forall>h. r = Inr h \<longrightarrow> h = Refused ACCESS_OBJECT_ACCESS_DENIED)"
  using assms by (cases r) (auto simp: refusing_def holds_def untouched_def dest: spec [where x = s])

text \<open>The write of a control service: its name, and the object it belongs to.\<close>

definition service_of :: "object_name \<Rightarrow> control_key \<Rightarrow> string \<Rightarrow> bool" where
  "service_of name key service \<longleftrightarrow>
     (\<exists>ln do'. path_of name = [ln, asc ''CO'', do', asc service] \<and> key = (domain_of name, join 36 [ln, asc ''CO'', do']))"

lemma untouched_refl: "untouched s s" by (simp add: untouched_def)

definition not_accepted :: "ctl_engine \<Rightarrow> hook result \<Rightarrow> ctl_engine \<Rightarrow> bool" where
  "not_accepted s r t \<longleftrightarrow> untouched s t \<and> (\<forall>h. r = Inr h \<longrightarrow> (\<exists>code. h = Refused code))"

lemma refusing_not_accepted: "refusing s m \<Longrightarrow> m s = (r, t) \<Longrightarrow> not_accepted s r t"
  using refusing_untouched unfolding not_accepted_def by blast

lemma on_write_service:
  assumes "path_of name = [ln, asc ''CO'', do', service]" "service \<in> set CONTROL_SERVICES"
  shows "on_write_control now c name v s = (case find_node (ct_model s) name of
       None \<Rightarrow> (Inr (Refused ACCESS_OBJECT_NON_EXISTENT), s)
     | Some n \<Rightarrow> (case v of
          StructureData ms \<Rightarrow>
            if length ms \<noteq> length (n_children n) then (Inr (Refused ACCESS_TYPE_INCONSISTENT), s)
            else control_service now c name n ms ln (asc ''CO'') do' service s
        | _ \<Rightarrow> (Inr (Refused ACCESS_TYPE_INCONSISTENT), s)))"
  using assms by (simp add: on_write_control_def del: asc_simps split: option.split iecdata.split)

lemma write_taken:
  assumes "map_of (ct_executions s) key = Some x" "service_of name key ''Oper'' \<or> service_of name key ''SBOw''"
    and "on_write_control now c name v s = (r, t)"
  shows "not_accepted s r t"
proof -
  obtain ln do' service where n: "path_of name = [ln, asc ''CO'', do', asc service]" "key = (domain_of name, join 36 [ln, asc ''CO'', do'])"
      "service = ''Oper'' \<or> service = ''SBOw''"
    using assms(2) unfolding service_of_def by metis
  have k: "key_of (command_of i c (domain_of name) (join 36 [ln, asc ''CO'', do']) f) = key" for i f
    by (simp only: key_of_def command_of_def n(2) ctl_command.select_convs)
  have services: "(asc service = asc ''Cancel'') = False" "(asc service = asc ''SBOw'') = (service = ''SBOw'')"
    using n(3) by (auto simp only: asc_eq)
  have r: "refusing s (control_service now c name node ms ln (asc ''CO'') do' (asc service))" for node ms
  proof (cases "service = ''SBOw''")
    case True
    have g: "refusing s (bindS (gets f) g)" if "\<And>x. refusing s (g x)" for f :: "ctl_engine \<Rightarrow> ied_model" and g
      using that by (intro refusing_bind [where R = "\<lambda>_. True", OF holds_gets]) simp_all
    show ?thesis unfolding control_service_def Let_def services if_False
      by (simp only: True if_True) (intro refusing_steps g select_taken; simp only: k; rule assms(1))
  next
    case False
    show ?thesis unfolding control_service_def Let_def services if_False
      by (simp only: False if_False) (intro refusing_steps operate_taken; simp only: k; rule assms(1))
  qed
  have "not_accepted s r t" if "control_service now c name node ms ln (asc ''CO'') do' (asc service) s = (r, t)" for node ms
    using refusing_not_accepted [OF r that] .
  moreover have "asc service \<in> set CONTROL_SERVICES" using n(3) by (auto simp: CONTROL_SERVICES_def)
  ultimately show ?thesis
    using assms(3) untouched_refl unfolding on_write_service [OF n(1) \<open>asc service \<in> set CONTROL_SERVICES\<close>]
    by (auto simp: not_accepted_def split: option.splits iecdata.splits if_splits)
qed

text \<open>A refusal reaches the client as a LastApplError.\<close>

abbreviation refusal :: "object_name \<Rightarrow> ctl_command \<Rightarrow> int \<Rightarrow> bytes result" where
  "refusal name command cause \<equiv> information_report [Access_value (last_appl_error name command cause)] None [LAST_APPL_ERROR] []"

lemma refuse_run:
  "refusal name command cause = Inr p \<Longrightarrow>
   refuse c name command cause s = (Inr (Refused ACCESS_OBJECT_ACCESS_DENIED), s\<lparr>ct_sent := ct_sent s @ [(c, p)]\<rparr>)"
  by (simp add: refuse_def bindS_try_get send_to_def)

lemma refusal_read:
  assumes "refusal name command cause = Inr p" "ok_data (last_appl_error name command cause)"
  shows "decode_pdu p = Inr (InformationReport None [LAST_APPL_ERROR] [Access_value (last_appl_error name command cause)])"
  using information_report_back [OF assms(1), where qs = "[]"] assms(2) by (simp add: encode_access_results_def)

section \<open>Selections\<close>

definition ctl_model_of :: "ctl_engine \<Rightarrow> control_key \<Rightarrow> int result" where
  "ctl_model_of s key =
     (case split_on 36 (snd key) of [ln, fc, do'] \<Rightarrow> ctl_model (ct_model s) (fst key) ln do' | _ \<Rightarrow> Inl ValueError)"

definition select_before :: "ctl_engine \<Rightarrow> control_key \<Rightarrow> bool" where
  "select_before s key \<longleftrightarrow> ctl_model_of s key = Inr SBO_NORMAL \<or> ctl_model_of s key = Inr SBO_ENHANCED"

lemma split_on_parts: "q \<in> set (split_on sep s) \<Longrightarrow> sep \<notin> set q"
  by (induction s arbitrary: q) (auto split: if_splits list.splits)

lemma key_model:
  assumes "path_of name = [ln, fc, do', service]"
  shows "ctl_model_of s (domain_of name, join 36 [ln, fc, do']) = ctl_model (ct_model s) (domain_of name) ln do'"
proof -
  have "\<forall>p \<in> set [ln, fc, do']. 36 \<notin> set p" using split_on_parts [of _ 36 "on_item name"] assms unfolding path_of_def by auto
  then have "split_on 36 (join 36 [ln, fc, do']) = [ln, fc, do']" by (rule split_join)
  then show ?thesis by (simp add: ctl_model_of_def del: join.simps)
qed

text \<open>\<open>reserved key x\<close>: the selection \<open>x\<close> of the object stands. What happens to other objects leaves it.\<close>

definition reserved :: "control_key \<Rightarrow> selection \<Rightarrow> ctl_engine \<Rightarrow> bool" where
  "reserved key x s \<longleftrightarrow> map_of (ct_selections s) key = Some x"

lemma unmodel_reserved: "unmodel (reserved key x)"
  by (simp add: unmodel_def reserved_def)

lemma reserved_frame: "(\<And>s. ct_selections (f s) = ct_selections s) \<Longrightarrow> kept (reserved key x) (modify f)"
  by (rule kept_modify) (simp only: reserved_def)

lemma reserved_refuse: "kept (reserved key x) (refuse c name command cause)"
  unfolding refuse_def send_to_def by (intro kept_rules reserved_frame) simp

lemma reserved_selected: "k \<noteq> key \<Longrightarrow> kept (reserved key x) (selected_by now k)"
  unfolding selected_by_def by (intro kept_rules kept_modify) (simp add: reserved_def delete_conv')

lemma reserved_select: "k \<noteq> key \<Longrightarrow> kept (reserved key x) (select_object k c t)"
  unfolding select_object_def by (intro kept_modify) (simp add: reserved_def update_conv')

lemma reserved_drop: "k \<noteq> key \<Longrightarrow> kept (reserved key x) (drop_selection k)"
  unfolding drop_selection_def by (intro kept_modify) (simp add: reserved_def delete_conv')

lemma reserved_check: "kept (reserved key x) (check_command k command)"
  unfolding check_command_def by (rule kept_gets)

lemma reserved_serial: "kept (reserved key x) new_serial"
  unfolding new_serial_def by (intro kept_rules reserved_frame) simp

lemmas kept_reserved = kept_rules reserved_refuse reserved_selected reserved_select reserved_drop reserved_check reserved_serial
  kept_flag [OF unmodel_reserved] kept_ended [OF unmodel_reserved] kept_execute [OF unmodel_reserved] kept_assign [OF unmodel_reserved]

lemma reserved_run: "kept (reserved key x) (run_command now c name command oper enhanced)"
  unfolding run_command_def by (intro kept_reserved reserved_frame) simp_all

lemma reserved_start: "kept (reserved key x) (start_command now c name v model delay command)"
  unfolding start_command_def Let_def start_timer_def after_response_def
  by (intro kept_reserved reserved_run reserved_frame) simp_all

lemma reserved_service:
  assumes "key \<noteq> (domain_of name, join 36 [ln, fc, do'])"
  shows "kept (reserved key x) (control_service now c name n ms ln fc do' service)"
proof -
  have k: "key_of (command_of i c (domain_of name) (join 36 [ln, fc, do']) f) \<noteq> key" for i f
    using assms by (simp only: key_of_def command_of_def ctl_command.select_convs) simp
  show ?thesis
    unfolding control_service_def Let_def cancel_def select_with_value_def operate_def
    by (intro kept_reserved reserved_start k)
qed

lemma new_serial_bind [simp]: "bindS new_serial f s = f (ct_serial s) (s\<lparr>ct_serial := ct_serial s + 1\<rparr>)"
  by (simp add: new_serial_def bindS_assoc thenS_def)

text \<open>Nor does what another client does to the object itself, as long as it must be selected before it is operated.\<close>

lemma refuse_selections: "ct_selections (snd (refuse c name command cause s)) = ct_selections s"
  by (cases "refusal name command cause") (simp_all add: refuse_def bindS_try_get send_to_def)

lemma reserved_other:
  assumes "selected now key s = Some d" "d \<noteq> c" "ctl_model (ct_model s) (domain_of name) ln do' = Inr model"
    and "model = SBO_NORMAL \<or> model = SBO_ENHANCED" "key = (domain_of name, join 36 [ln, fc, do'])"
    and "service = asc ''Oper'' \<or> service = asc ''SBOw'' \<or> service = asc ''Cancel''"
  shows "ct_selections (snd (control_service now c name n ms ln fc do' service s)) = ct_selections s"
proof -
  have k: "key_of (command_of i c (domain_of name) (join 36 [ln, fc, do']) f) = key" for i f
    by (simp only: key_of_def command_of_def ctl_command.select_convs assms(5))
  have sel: "selected now key (s\<lparr>ct_serial := i\<rparr>) = Some d" for i using assms(1) by (simp add: selected_def)
  have ns: "model \<noteq> STATUS_ONLY" using assms(4) by (auto simp: control_models)
  have run: "control_service now c name n ms ln fc do' service s =
      (let f = map_of (zip (map n_name (n_children n)) ms); v = StructureData ms; s' = s\<lparr>ct_serial := ct_serial s + 1\<rparr>;
           command = command_of (ct_serial s) c (domain_of name) (join 36 [ln, fc, do']) f in
       if service = asc ''Cancel'' then cancel now c key s'
       else if service = asc ''SBOw'' then select_with_value now c name n v model (sbo_timeout (ct_model s) (domain_of name) ln do') command s'
       else operate now c name n v model (f (asc ''operTm'')) command s')"
    using ns by (simp add: control_service_def bindS_try_get assms(3) Let_def k del: join.simps asc_simps)
  have "ct_selections (snd (cancel now c key (s\<lparr>ct_serial := i\<rparr>))) = ct_selections s" for i
    using assms(2) by (simp add: cancel_def bindS_def selected_by_run sel whenS_def thenS_def)
  moreover have "ct_selections (snd (operate now c name n v model tm command (s\<lparr>ct_serial := i\<rparr>))) = ct_selections s"
    if "key_of command = key" for v tm command i
    using assms(2) operate_unselected [OF assms(4)] that by (simp add: sel refuse_selections selected_by_run)
  moreover have "ct_selections (snd (select_with_value now c name n v model tm command (s\<lparr>ct_serial := i\<rparr>))) = ct_selections s"
    if "key_of command = key" for v tm command i
    using assms(2) that by (auto simp: select_with_value_def bindS_def selected_by_run sel refuse_selections split: prod.split sum.split)
  ultimately show ?thesis unfolding run by (simp add: Let_def k del: join.simps asc_simps)
qed

lemma reserved_write:
  assumes "reserved key x s" "select_before s key" "now \<le> sl_until x" "sl_client x \<noteq> c"
  shows "reserved key x (snd (on_write_control now c name v s))"
proof -
  have sel: "selected now key s = Some (sl_client x)" using assms by (simp add: reserved_def selected_def)
  show ?thesis
  proof (cases "\<exists>ln do' service. path_of name = [ln, asc ''CO'', do', service] \<and> service \<in> set CONTROL_SERVICES")
    case True
    then obtain ln do' service where n: "path_of name = [ln, asc ''CO'', do', service]" "service \<in> set CONTROL_SERVICES" by blast
    have "reserved key x (snd (control_service now c name node ms ln (asc ''CO'') do' service s))" for node ms
    proof (cases "key = (domain_of name, join 36 [ln, asc ''CO'', do'])")
      case True
      then obtain model where "ctl_model (ct_model s) (domain_of name) ln do' = Inr model" "model = SBO_NORMAL \<or> model = SBO_ENHANCED"
        using assms(2) key_model [OF n(1), of s] unfolding select_before_def by auto
      moreover have "service = asc ''Oper'' \<or> service = asc ''SBOw'' \<or> service = asc ''Cancel''"
        using n(2) by (auto simp: CONTROL_SERVICES_def)
      ultimately have "ct_selections (snd (control_service now c name node ms ln (asc ''CO'') do' service s)) = ct_selections s"
        using reserved_other [OF sel assms(4)] True by blast
      then show ?thesis using assms(1) by (simp only: reserved_def)
    next
      case False
      show ?thesis using reserved_service [OF False] assms(1) by (rule holds_state)
    qed
    then show ?thesis unfolding on_write_service [OF n] using assms(1) by (auto split: option.split iecdata.split)
  next
    case False
    then have "snd (on_write_control now c name v s) = s"
      unfolding on_write_control_def by (auto simp del: asc_simps split: list.split)
    then show ?thesis using assms(1) by simp
  qed
qed

lemma reserved_read:
  assumes "reserved key x s" "select_before s key" "now \<le> sl_until x" "sl_client x \<noteq> c"
  shows "reserved key x (snd (on_read_sbo now c name s))"
proof (cases "\<exists>ln fc do' service. path_of name = [ln, fc, do', service]")
  case True
  then obtain ln fc do' service where n: "path_of name = [ln, fc, do', service]" by blast
  show ?thesis
  proof (cases "key = (domain_of name, join 36 [ln, fc, do'])")
    case True
    then obtain model where "ctl_model (ct_model s) (domain_of name) ln do' = Inr model"
      using assms(2) key_model [OF n, of s] unfolding select_before_def by auto
    moreover have "selected now key s = Some (sl_client x)" using assms by (simp add: reserved_def selected_def)
    ultimately show ?thesis using assms(1,4) unfolding True
      by (cases "fc = asc ''CO''")
         (simp_all add: on_read_sbo_def n Let_def bindS_try_get bindS_def selected_by_run del: join.simps asc_simps)
  next
    case False
    have "kept (reserved key x) (on_read_sbo now c name)"
      unfolding on_read_sbo_def Let_def n using False by (auto intro!: kept_reserved simp del: join.simps)
    then show ?thesis using assms(1) by (rule holds_state)
  qed
next
  case False
  then have "snd (on_read_sbo now c name s) = s" by (auto simp: on_read_sbo_def split: list.split)
  then show ?thesis using assms(1) by simp
qed

lemma reserved_action: "kept (reserved key x) (run_action now a)"
proof (cases a)
  case (Terminate_command c name command v)
  show ?thesis unfolding Terminate_command run_action.simps terminate_command_def send_termination_def send_to_def
    by (intro kept_reserved reserved_run reserved_frame) simp
qed (auto simp: start_timer_def intro!: kept_reserved reserved_run reserved_frame)

definition by_client :: "nat \<Rightarrow> ctl_event \<Rightarrow> bool" where
  "by_client c e \<longleftrightarrow> (case e of Ctl_write d name v \<Rightarrow> d = c | Ctl_read d name \<Rightarrow> d = c | Ctl_close d \<Rightarrow> d = c | _ \<Rightarrow> False)"

lemma reserved_step:
  assumes "reserved key x s" "select_before s key" "now \<le> sl_until x" "\<not> by_client (sl_client x) e"
  shows "reserved key x (snd (ctl_step now e s))"
proof (cases e)
  case (Ctl_write c name v)
  then show ?thesis using reserved_write [OF assms(1-3), of c name v] assms(4)
    by (auto simp: by_client_def bindS_def split: prod.splits sum.splits)
next
  case (Ctl_read c name)
  then show ?thesis using reserved_read [OF assms(1-3), of c name] assms(4)
    by (auto simp: by_client_def bindS_def split: prod.splits sum.splits)
next
  case (Ctl_close c)
  then show ?thesis using assms(1,4) unfolding reserved_def
    by (auto simp: by_client_def on_close_control_def intro!: map_of_filter_in)
next
  case (Ctl_after c)
  have "kept (reserved key x) (run_after now c)"
    unfolding run_after_def clear_after_def
    by (intro kept_reserved holds_for_each reserved_frame) (auto intro: reserved_action)
  then show ?thesis using assms(1) unfolding Ctl_after ctl_step.simps by (rule holds_state)
next
  case (Ctl_reject c)
  then show ?thesis using assms(1) by (simp add: clear_after_def reserved_def)
next
  case (Ctl_timer i)
  have "kept (reserved key x) (fire_timer now i)"
    unfolding fire_timer_def by (intro kept_reserved reserved_action reserved_frame) simp
  then show ?thesis using assms(1) unfolding Ctl_timer ctl_step.simps by (rule holds_state)
next
  case (Ctl_finish obj cause)
  have "kept (reserved key x) (finish now obj cause)"
    unfolding finish_def send_termination_def send_to_def by (intro kept_reserved reserved_frame) simp_all
  then have "kept (reserved key x) (ctl_step now e)" unfolding Ctl_finish ctl_step.simps by (intro kept_bind kept_ret)
  then show ?thesis using assms(1) by (rule holds_state)
qed

text \<open>The engine is one of those that plug into the server: its calls keep an execution, also when they raise.\<close>

interpretation ct: engine_calls "holding key x" on_write_control on_read_sbo on_close_control "\<lambda>_. True" for key x
  by unfold_locales (simp_all add: kept_write_control kept_read kept_close)

section \<open>An example\<close>

text \<open>A control whose command of client 1 goes on, and the names of its Oper.\<close>

definition oper_type :: mms_type where
  "oper_type = StructureType [(asc ''ctlVal'', PrimitiveType ''boolean'' None), (asc ''ctlNum'', PrimitiveType ''unsigned'' (Some 8))]"

definition control_model :: ied_model where
  "control_model =
     \<lparr>im_devices = [(asc ''LD'', [(asc ''L'', Node (asc ''L'') None
        (StructureType [(asc ''CO'', StructureType [(asc ''d'', StructureType [(asc ''Oper'', oper_type)])]),
           (asc ''CF'', StructureType [(asc ''d'', StructureType [(asc ''ctlModel'', PrimitiveType ''integer'' (Some 8))])])]) {}
        [build (Some (asc ''CO'')) (asc ''CO'') (StructureType [(asc ''d'', StructureType [(asc ''Oper'', oper_type)])]),
         Node (asc ''CF'') (Some (asc ''CF'')) (StructureType [(asc ''d'', StructureType [(asc ''ctlModel'', PrimitiveType ''integer'' (Some 8))])]) {}
           [Node (asc ''d'') (Some (asc ''CF'')) (StructureType [(asc ''ctlModel'', PrimitiveType ''integer'' (Some 8))]) {}
             [Node (asc ''ctlModel'') (Some (asc ''CF'')) (PrimitiveType ''integer'' (Some 8)) {} [] (Some (IntData 1))] None] None] None)])],
      im_data_sets = [], im_groups = []\<rparr>"

definition oper_name :: object_name where "oper_name = \<lparr>on_item = asc ''L$CO$d$Oper'', on_domain = Some (asc ''LD'')\<rparr>"

definition oper_key :: control_key where "oper_key = (asc ''LD'', asc ''L$CO$d'')"

definition going_on :: execution where
  "going_on =
     \<lparr>ex_client = Some 1, ex_name = oper_name,
      ex_command = \<lparr>cm_serial = 0, cm_domain = asc ''LD'', cm_item = asc ''L$CO$d'', cm_ctl_val = BoolData True, cm_origin = None, cm_ctl_num = 3,
        cm_test = False, cm_interlock_check = False, cm_synchro_check = False, cm_client = 1\<rparr>,
      ex_oper = StructureData [BoolData True, UIntData 3], ex_enhanced = False\<rparr>"

definition control_started :: ctl_engine where
  "control_started = (new_control id control_model)\<lparr>ct_executions := [(oper_key, going_on)], ct_serial := 1\<rparr>"

lemma control_started_execution: "map_of (ct_executions control_started) oper_key = Some going_on"
  by (simp add: control_started_def)

section \<open>Properties\<close>

text \<open>\<open>uninterrupted key x es s\<close>: among the events \<open>es\<close>, each at its time, none ends the execution \<open>x\<close>: neither the application
  by \<^verbatim>\<open>finish\<close> of this object, nor the command itself, when its own action after the response or its own timer is run.\<close>

fun uninterrupted :: "control_key \<Rightarrow> execution \<Rightarrow> (int \<times> ctl_event) list \<Rightarrow> ctl_engine \<Rightarrow> bool" where
  "uninterrupted key x [] s \<longleftrightarrow> True"
| "uninterrupted key x ((now, e) # es) s \<longleftrightarrow> \<not> ends key x s e \<and> uninterrupted key x es (snd (ctl_step now e s))"

definition ctl_run :: "(int \<times> ctl_event) list \<Rightarrow> ctl_engine \<Rightarrow> ctl_engine" where
  "ctl_run es s = fold (\<lambda>(now, e) s. snd (ctl_step now e s)) es s"

lemma holding_run: "holding key x s \<Longrightarrow> uninterrupted key x es s \<Longrightarrow> holding key x (ctl_run es s)"
  unfolding ctl_run_def
proof (induction es arbitrary: s)
  case (Cons p es)
  obtain now e where p: "p = (now, e)" by (cases p)
  then have "holding key x (snd (ctl_step now e s))" "uninterrupted key x es (snd (ctl_step now e s))"
    using Cons.prems holding_step by simp_all
  then show ?case using Cons.IH by (simp add: p)
qed simp

text \<open>C40: one command at a time. Once a command of an object is in execution, whatever clients write and read, whoever goes,
  whatever responses, Rejects, timers and calls of \<^verbatim>\<open>finish\<close> follow in whatever order, the object stays in the
  execution of that command until the application finishes it or the command's own action is run. Meanwhile every other
  Oper or SBOw written to the object, by any client and with any value, is not accepted: the client gets a refusal (or a
  Reject when an exception was raised), and model, executions, timers, handlers and what waits for the response are
  left alone.\<close>
theorem command_excludes_others:
  assumes "map_of (ct_executions s) key = Some x" "uninterrupted key x es s"
    and "service_of name key ''Oper'' \<or> service_of name key ''SBOw''"
    and "on_write_control now c name v (ctl_run es s) = (r, t)"
  shows "(\<exists>y. map_of (ct_executions (ctl_run es s)) key = Some y \<and> ex_command y = ex_command x
        \<and> (ex_client y = ex_client x \<or> ex_client y = None))
    \<and> untouched (ctl_run es s) t \<and> (\<forall>h. r = Inr h \<longrightarrow> (\<exists>code. h = Refused code))"
proof -
  have "holding key x s" using assms(1) by (simp add: holding_def)
  then have hold: "holding key x (ctl_run es s)" using assms(2) by (rule holding_run)
  then obtain y where y: "map_of (ct_executions (ctl_run es s)) key = Some y" unfolding holding_def by blast
  show ?thesis using write_taken [OF y assms(3,4)] hold unfolding holding_def not_accepted_def by blast
qed

theorem command_excludes_others_witness:
  "\<exists>r t. on_write_control 9 2 oper_name (StructureData [BoolData False, UIntData 0])
       (ctl_run [(6, Ctl_after 1), (7, Ctl_read 2 oper_name), (8, Ctl_close 1)] control_started) = (r, t)
     \<and> oper_key \<in> fst ` set (ct_executions t) \<and> (\<forall>h. r = Inr h \<longrightarrow> (\<exists>code. h = Refused code))"
proof -
  let ?es = "[(6, Ctl_after 1), (7, Ctl_read 2 oper_name), (8, Ctl_close 1)]"
  let ?s = "ctl_run ?es control_started"
  obtain r t where rt: "on_write_control 9 2 oper_name (StructureData [BoolData False, UIntData 0]) ?s = (r, t)"
    by (cases "on_write_control 9 2 oper_name (StructureData [BoolData False, UIntData 0]) ?s")
  have after: "ct_after control_started = []" by (simp add: control_started_def new_control_def)
  have quiet: "uninterrupted oper_key x ?es control_started" for x by (simp add: ends_def after)
  have "path_of oper_name = [asc ''L'', asc ''CO'', asc ''d'', asc ''Oper'']"
    "oper_key = (domain_of oper_name, join 36 [asc ''L'', asc ''CO'', asc ''d''])"
    by (simp_all add: path_of_def domain_of_def oper_name_def oper_key_def)
  then have service: "service_of oper_name oper_key ''Oper''" unfolding service_of_def by blast
  have "map_of (ct_executions t) oper_key \<noteq> None"
    using command_excludes_others [OF control_started_execution quiet disjI1 [OF service] rt] by (auto simp: untouched_def)
  moreover have "\<forall>h. r = Inr h \<longrightarrow> (\<exists>code. h = Refused code)"
    using command_excludes_others [OF control_started_execution quiet disjI1 [OF service] rt] by blast
  ultimately show ?thesis using rt by (metis map_of_eq_None_iff)
qed

text \<open>A selection is respected: until it lapses, what other clients do, responses, timers and the application leave it, and
  an Oper of another client is answered with the LastApplError object-not-selected.\<close>

lemma selection_respected:
  assumes "map_of (ct_selections s) key = Some x" "select_before s key" "now \<le> sl_until x" "\<not> by_client (sl_client x) e"
  shows "map_of (ct_selections (snd (ctl_step now e s))) key = Some x"
    and "model = SBO_NORMAL \<or> model = SBO_ENHANCED \<Longrightarrow> key_of command = key \<Longrightarrow> c \<noteq> sl_client x \<Longrightarrow>
      operate now c name n v model tm command s = refuse c name command ADD_CAUSE_OBJECT_NOT_SELECTED s"
proof -
  show "map_of (ct_selections (snd (ctl_step now e s))) key = Some x"
    using reserved_step [of key x s now e] assms unfolding reserved_def by blast
next
  assume "model = SBO_NORMAL \<or> model = SBO_ENHANCED" "key_of command = key" "c \<noteq> sl_client x"
  moreover have "selected now key s = Some (sl_client x)" using assms(1,3) by (simp add: selected_def)
  ultimately show "operate now c name n v model tm command s = refuse c name command ADD_CAUSE_OBJECT_NOT_SELECTED s"
    using operate_unselected [of model now command s c name n v tm] by (simp add: selected_by_run)
qed

end
