(* ===== verification/Spec2Isabelle.thy ===== *)
theory Spec2Isabelle
  imports Quality Supervision GoosePublisher Report Settings Client ReportDelivery Reference Control
begin

text \<open>
  A verification library for \<^verbatim>\<open>open61850\<close>, an IEC 61850 stack in Python (\<^verbatim>\<open>src/src/open61850\<close>). The program has two
  halves. On the process bus, GOOSE and Sampled Values frames are built and parsed, published and supervised. On the
  station bus, an MMS server (an IED model with its reports, controls and setting groups) and a client talk over
  TPKT, COTP, the session, presentation and association layers of MMS. What each theory models:

  \<^item> \<open>Prelude\<close>: exceptions (\<open>exn\<close>), results (\<open>exn + 'a\<close>, with \<open>bindE\<close>, \<open>traverse\<close>, \<open>foldE\<close>), what a computation may raise
    (\<open>raises_only\<close>, collection \<open>raises\<close>), text as code points (\<open>ustr\<close>, \<open>asc\<close>), octets, and the locale of a codec.
  \<^item> \<open>Ber\<close> (\<^verbatim>\<open>ber.py\<close>), \<open>MmsData\<close> (\<^verbatim>\<open>data.py\<close>), \<open>TlvSeq\<close> (sequences of TLVs): the encodings everything else is made of.
  \<^item> \<open>Ethernet\<close>, \<open>Goose\<close>, \<open>Sv\<close>, \<open>Quality\<close> (the files of these names): frames and PDUs of the process bus.
  \<^item> \<open>GoosePublisher\<close> (\<^verbatim>\<open>goose_publisher.py\<close>): calls and the sending thread as steps; \<open>Supervision\<close> (\<^verbatim>\<open>supervision.py\<close>): the
    GOOSE, Sampled Values and bus supervisors.
  \<^item> \<open>Transport\<close> (\<^verbatim>\<open>mms/transport.py\<close>), \<open>Association\<close> (\<^verbatim>\<open>mms/association.py\<close>), \<open>MmsTypes\<close> (\<^verbatim>\<open>mms/types.py\<close>), \<open>MmsPdu\<close>
    (\<^verbatim>\<open>mms/pdu.py\<close>), \<open>Report\<close> (\<^verbatim>\<open>mms/report.py\<close>), \<open>Reference\<close> (\<^verbatim>\<open>mms/reference.py\<close>): what client and server share;
    \<open>Client\<close> (\<^verbatim>\<open>mms/client.py\<close>) and \<open>ServerProtocol\<close> (\<^verbatim>\<open>server/protocol.py\<close>): each end's own side.
  \<^item> \<open>ServerModel\<close> (\<^verbatim>\<open>server/model.py\<close>): nodes and values; \<open>Server\<close> (\<^verbatim>\<open>server/server.py\<close>): services, the hooks, the queue of a
    connection; \<open>StateError\<close>: operations with a state that may raise, for the engines.
  \<^item> \<open>Reporting\<close>, \<open>ReportingInv\<close>, \<open>ReportEngine\<close>, \<open>ReportDelivery\<close> (\<^verbatim>\<open>server/reporting.py\<close>, with the addresses in
    \<open>IpAddress\<close>), \<open>Settings\<close> (\<^verbatim>\<open>server/settings.py\<close>), \<open>Control\<close> (\<^verbatim>\<open>server/control.py\<close>): the engines that plug into the server.
  \<^item> this theory: the publisher and the supervisor together.

  How the state corresponds. A class with state is a record with a field for each attribute, its methods functions from
  the record to the record (\<open>Supervision\<close>, \<open>Client\<close>, the connection of \<open>Server\<close>) or operations of \<open>StateError\<close>, whose exceptions
  keep the state they were raised in (the engines). Dictionaries are association lists in insertion order. An object
  reference into the tree of nodes is the path of its names. Time, a monotonic clock or UTC, is an argument, in whole
  microseconds; the frames or PDUs a component sends are collected in a list. Machine widths are kept where the code
  has them: octets are \<open>8 word\<close>, counters wrap as \<open>GoosePublisher.next_st\<close> and \<open>Sv\<close> say, the rest are Python's integers.

  How the parts interact. The engines are called by the server through hooks: the locale \<open>engine_calls\<close> of \<open>StateError\<close> states
  what it relies on, that reads, writes and clients going keep an engine's invariant whether they raise or not;
  \<open>server_engine\<close> adds that they raise nothing. \<open>ReportEngine\<close> and \<open>Control\<close> interpret the first, \<open>Settings\<close> the second, for the
  engine with the model behind it. The other interfaces are those of a codec (\<open>content_codec\<close> and \<open>prefix_codec\<close> of \<open>Prelude\<close>,
  interpreted for each codec of \<open>Ber\<close>, \<open>MmsData\<close> and \<open>Sv\<close>), of a channel of messages (\<open>message_channel\<close> of \<open>Transport\<close>: TPKT,
  then COTP) and of a stream watched for silence (\<open>silence_check\<close> of \<open>Supervision\<close>: GOOSE and Sampled Values). The encoders of one end are composed with the decoders of the other:
  \<open>requests_read_by_server\<close>, \<open>responses_read_by_client\<close>, \<open>association_handshake\<close>, \<open>cotp_handshake\<close>, \<open>tsdus_delivered\<close>,
  \<open>names_listed_completely\<close> and \<open>report_reaches_client\<close> are about both.

  What the lemmas show. Of codecs: round trips wherever the TLV lies in the buffer, from one lemma per layer up to the
  frame, and which exceptions decoding raises. Of the streams: the messages of a publisher form a chain (\<open>chained_by\<close>), a
  supervisor follows such a chain without a fault, and its counts are exact. Of client and connection: every request
  gets its response or the end of the connection, and what is sent keeps its order. Of the engines: an invariant over
  every execution, the exclusion of other clients, and what ends it. Of the model: values keep their types.

  Bounds. Recursion over octets is on the octets that are left, so that nothing runs out. \<open>add_change\<close> of \<open>Reporting\<close> has a
  fuel for the flush that a change of the same member forces: one flush empties what is gathered, and the second round finds no
  change to force another (\<open>ReportingInv\<close>). \<^verbatim>\<open>decode_data\<close> nests as deep as the Data do: \<open>decode_data_within n\<close> is the code
  with room for \<open>n\<close> levels on the stack, and \<open>decode_data\<close> the code on a stack deep enough, for which half as many levels as
  octets suffice. C4 and C29 say what a shallower stack does; everywhere else the stack is deep enough.

  What is not modelled. Threads, locks and sockets: each operation runs alone, in any order, and arriving octets come in
  any pieces. The time of a timer that fires late is any later time. Command lines, texts for display, capture, pcap and
  COMTRADE files, the SCL builder and its XML, the Sampled Values publisher (floating point waveforms) and the client's
  helpers for discovery, control and setting groups. Of floats, their bits: \<^verbatim>\<open>_shortest_float32\<close> picks the text only, and a
  signalling NaN, which C converts to a quiet one on the way, is kept. MAC addresses have ASCII digits. \<^verbatim>\<open>set\<close> of the
  application is given Data. Handlers and checks of the application are arguments.
\<close>

section \<open>Publisher and supervisor\<close>

text \<open>The chain of a publisher is what a supervisor calls regular.\<close>

lemma follows_regular:
  assumes "follows a b" "encodable a" "encodable b"
  shows "regular_next a b"
  using assms by (auto simp: follows_def same_source_def repeats_def next_st_def regular_next_def consistent_def sq_next_def st_ahead_def UINT32_MAX_def
      split: if_splits)

lemma encode_goose_encodable: "encode_goose_pdu p = Inr bs \<Longrightarrow> encodable p"
proof -
  assume "encode_goose_pdu p = Inr bs"
  then obtain bss where "traverse encode_data (all_data p) = Inr bss"
    by (auto simp: encode_goose_pdu_def bindE_Inr_iff mapE_Inr_iff)
  then show "encodable p"
    unfolding traverse_Inr_list_all2 encodable_def by (auto simp: list_all2_conv_all_nth in_set_conv_nth)
qed

lemma regular_snoc: "regular (ps @ [a]) \<Longrightarrow> regular_next a b \<Longrightarrow> regular (ps @ [a, b])"
  by (induction ps rule: regular.induct) auto

lemma chained_regular:
  "chained as \<Longrightarrow> \<forall>a \<in> set as. encodable a \<Longrightarrow> regular (rev as)"
proof (induction follows as rule: chained_by.induct)
  case (1 b a ps)
  then have "regular (rev ps @ [a])" "regular_next a b" by (auto intro: follows_regular)
  then show ?case by (simp add: regular_snoc)
qed simp_all

lemma chained_consistent:
  "chained (a # as) \<Longrightarrow> consistent a \<Longrightarrow> gocb_ref a = k \<Longrightarrow> \<forall>x \<in> set (a # as). consistent x \<and> gocb_ref x = k"
proof (induction as arbitrary: a)
  case (Cons b as)
  then have "follows b a" "chained (b # as)" by simp_all
  then have "consistent b" "gocb_ref b = k" using Cons.prems(3) by (simp_all add: follows_def same_source_def consistent_def)
  then show ?case using Cons.IH [OF \<open>chained (b # as)\<close>] Cons.prems by simp
qed simp

text \<open>C5: a supervisor that receives the messages of a publisher in order, from the first one, reports no fault and no
  message missed, however the publisher was driven, as long as each message could be built (a value that does not encode
  makes \<^verbatim>\<open>publish\<close> or the sending thread raise after the state number was taken: publisher_chain tells what is sent then).\<close>
theorem published_stream_no_fault:
  assumes "pub_step\<^sup>*\<^sup>* (new_publisher c vs hs wall now0) p" "p_raised p = 0" "p_trace p \<noteq> []" "length ts = length (p_trace p)"
  shows "\<exists>st evs s. goose_receive [] (zip (rev (p_trace p)) ts) = (st, Inr evs) \<and> \<not> (\<exists>e \<in> set evs. fault e)
    \<and> map_of st (c_gocb_ref c) = Some s \<and> gs_missed s = 0 \<and> gs_last s = hd (p_trace p)"
proof -
  have inv: "pub_inv c (length vs) p" using pub_steps_inv [OF assms(1) new_publisher_inv] .
  let ?ps = "zip (rev (p_trace p)) ts"
  have ps: "map fst ?ps = rev (p_trace p)" using assms(4) by simp
  have enc: "\<forall>a \<in> set (p_trace p). encodable a" using inv encode_goose_encodable by (auto simp: pub_inv_def)
  have "chained_by (follows_upto 0) (p_trace p)" using inv assms(2) by (simp add: pub_inv_def)
  then have ch: "chained (p_trace p)" by (rule chained_by_mono) (simp add: follows_upto_0)
  obtain a as where tr: "p_trace p = a # as" using assms(3) by (cases "p_trace p") auto
  have "consistent a" "gocb_ref a = c_gocb_ref c" using inv tr by (auto simp: pub_inv_def last_sent_def consistent_def)
  then have all: "\<forall>a \<in> set (p_trace p). consistent a \<and> gocb_ref a = c_gocb_ref c"
    using chained_consistent [of a as] ch unfolding tr by blast
  have "regular (map fst ?ps)" unfolding ps using ch enc by (rule chained_regular)
  moreover have "\<forall>q \<in> set ?ps. gocb_ref (fst q) = c_gocb_ref c \<and> consistent (fst q)"
    using all by (auto dest!: set_zip_leftD)
  moreover have "?ps \<noteq> []" using assms(3,4) ps by (metis map_is_Nil_conv rev_is_Nil_conv)
  ultimately obtain st s evs where "goose_receive [] ?ps = (st, Inr evs)" "\<not> (\<exists>e \<in> set evs. fault e)"
      "map_of st (c_gocb_ref c) = Some s" "gs_missed s = 0" "gs_last s = last (map fst ?ps)"
    using goose_receive_regular [of "[]" "c_gocb_ref c" ?ps] by fastforce
  moreover have "last (map fst ?ps) = hd (p_trace p)" unfolding ps by (simp add: last_rev assms(3))
  ultimately show ?thesis by (intro exI conjI) simp_all
qed

theorem published_stream_no_fault_witness:
  "\<exists>st evs s. goose_receive [] (zip (rev (p_trace example_published)) [5, 6, 7]) = (st, Inr evs) \<and> \<not> (\<exists>e \<in> set evs. fault e)
    \<and> map_of st [71] = Some s \<and> gs_missed s = 0 \<and> length (p_trace example_published) = 3"
proof -
  have l: "length (p_trace example_published) = 3"
    using arg_cong [OF example_traces(1), of length] by simp
  then have "p_trace example_published \<noteq> []" by auto
  moreover have "c_gocb_ref example_control = [71]" by (simp add: example_control_def)
  ultimately show ?thesis
    using published_stream_no_fault [OF example_more_steps(1) example_traces(2), of "[5, 6, 7]"] l by auto
qed

end
